(* ===== verification/Prelude.thy ===== *)
theory Prelude
  imports Main
begin

text \<open>
  Shared vocabulary of the development.

  \<^item> How a run of the program can stop before it returns (\<open>stop\<close>): a call of \<open>exit\<close> with its
    code and message, a failed \<open>assert\<close>, a call of \<open>abort\<close>, undefined behaviour of C (a null pointer or an index past
    the end of a block handed to code that dereferences it), or the fuel of a modelled loop.
  \<^item> Computations over the manager of the decision-diagram package (\<open>cm\<close>): explicit state passing
    with those stops, sequenced by \<open>cbind\<close>, and the total-correctness judgement \<open>runs\<close>.
  \<^item> C strings: a \<open>char list\<close> without the terminating NUL; \<open>strcmp\<close>, \<open>strncmp\<close> and bounded
    copies as the program uses them.
  \<^item> The lemma collections the component theories extend.
\<close>

named_theorems run_intros \<open>introduction rules for runs\<close>
named_theorems cm_simps \<open>evaluation of computations over the manager\<close>
named_theorems cstr_simps \<open>comparison and copying of C strings\<close>

section \<open>Stops\<close>

datatype stop =
    Exit nat string      \<comment> \<open>\<open>exit (code)\<close> after printing the message\<close>
  | Assert_Failed        \<comment> \<open>a failed \<open>assert\<close>\<close>
  | Abort string         \<comment> \<open>\<open>abort ()\<close> after printing the message\<close>
  | Undefined string     \<comment> \<open>undefined behaviour, with what caused it\<close>
  | No_Fuel              \<comment> \<open>the modelled loop needs more iterations\<close>

section \<open>Computations over the manager\<close>

type_synonym ('m, 'a) cm = "'m \<Rightarrow> stop + 'a \<times> 'm"

definition creturn :: "'a \<Rightarrow> ('m, 'a) cm" where
  "creturn x = (\<lambda>m. Inr (x, m))"

definition cstop :: "stop \<Rightarrow> ('m, 'a) cm" where
  "cstop e = (\<lambda>m. Inl e)"

definition cbind :: "('m, 'a) cm \<Rightarrow> ('a \<Rightarrow> ('m, 'b) cm) \<Rightarrow> ('m, 'b) cm" where
  "cbind c f = (\<lambda>m. case c m of Inl e \<Rightarrow> Inl e | Inr (x, m') \<Rightarrow> f x m')"

text \<open>A pure step that may stop, run inside a computation.\<close>

definition clift :: "stop + 'a \<Rightarrow> ('m, 'a) cm" where
  "clift r = (\<lambda>m. case r of Inl e \<Rightarrow> Inl e | Inr x \<Rightarrow> Inr (x, m))"

lemma creturn_apply [simp, cm_simps]: "creturn x m = Inr (x, m)"
  by (simp add: creturn_def)

lemma cstop_apply [simp, cm_simps]: "cstop e m = Inl e"
  by (simp add: cstop_def)

lemma clift_Inr [simp, cm_simps]: "clift (Inr x) = creturn x"
  by (simp add: clift_def creturn_def)

lemma clift_Inl [simp, cm_simps]: "clift (Inl e) = cstop e"
  by (simp add: clift_def cstop_def)

lemma cbind_Inl [simp, cm_simps]: "c m = Inl e \<Longrightarrow> cbind c f m = Inl e"
  by (simp add: cbind_def)

lemma cbind_Inr [simp, cm_simps]: "c m = Inr (x, m') \<Longrightarrow> cbind c f m = f x m'"
  by (simp add: cbind_def)

lemma cbind_return [simp, cm_simps]: "cbind (creturn x) f = f x"
  by (simp add: cbind_def creturn_def)

lemma cbind_stop [simp, cm_simps]: "cbind (cstop e) f = cstop e"
  by (simp add: cbind_def cstop_def)

lemma cbind_cbind: "cbind (cbind c f) g = cbind c (\<lambda>x. cbind (f x) g)"
  by (auto simp: cbind_def split: sum.splits)

text \<open>
  \<open>runs c m Q\<close>: from manager \<open>m\<close> the computation returns (it neither stops nor runs out of fuel)
  and its result and final manager satisfy \<open>Q\<close>.
\<close>

definition runs :: "('m, 'a) cm \<Rightarrow> 'm \<Rightarrow> ('a \<Rightarrow> 'm \<Rightarrow> bool) \<Rightarrow> bool" where
  "runs c m Q \<longleftrightarrow> (\<exists>x m'. c m = Inr (x, m') \<and> Q x m')"

lemma runs_return [run_intros]: "Q x m \<Longrightarrow> runs (creturn x) m Q"
  by (simp add: runs_def)

lemma runs_return_iff [simp]: "runs (creturn x) m Q \<longleftrightarrow> Q x m"
  by (simp add: runs_def)

lemma runs_Inr_iff [simp]: "runs (\<lambda>m. Inr (x, m)) m Q \<longleftrightarrow> Q x m"
  by (simp add: runs_def)

lemma runs_stop_iff [simp]: "\<not> runs (cstop e) m Q"
  by (simp add: runs_def)

lemma runs_bind [run_intros]: "runs c m (\<lambda>x m'. runs (f x) m' Q) \<Longrightarrow> runs (cbind c f) m Q"
  by (auto simp: runs_def)

lemma runs_mono: "runs c m P \<Longrightarrow> (\<And>x m'. P x m' \<Longrightarrow> Q x m') \<Longrightarrow> runs c m Q"
  by (auto simp: runs_def)

lemma runs_bind_mono:
  "runs c m P \<Longrightarrow> (\<And>x m'. P x m' \<Longrightarrow> runs (f x) m' Q) \<Longrightarrow> runs (cbind c f) m Q"
  by (rule runs_bind) (rule runs_mono)

lemma runsE: "runs c m Q \<Longrightarrow> (\<And>x m'. c m = Inr (x, m') \<Longrightarrow> Q x m' \<Longrightarrow> P) \<Longrightarrow> P"
  by (auto simp: runs_def)

lemma runsI: "c m = Inr (x, m') \<Longrightarrow> Q x m' \<Longrightarrow> runs c m Q"
  by (auto simp: runs_def)

section \<open>Fallible results\<close>

text \<open>Sequencing of steps that carry no manager.\<close>

definition sbind :: "stop + 'a \<Rightarrow> ('a \<Rightarrow> stop + 'b) \<Rightarrow> stop + 'b" where
  "sbind r f = (case r of Inl e \<Rightarrow> Inl e | Inr x \<Rightarrow> f x)"

lemma sbind_Inr [simp]: "sbind (Inr x) f = f x"
  by (simp add: sbind_def)

lemma sbind_Inl [simp]: "sbind (Inl e) f = Inl e"
  by (simp add: sbind_def)

lemma sbind_cong [fundef_cong]:
  "r = r' \<Longrightarrow> (\<And>x. r' = Inr x \<Longrightarrow> f x = f' x) \<Longrightarrow> sbind r f = sbind r' f'"
  by (cases r') simp_all

lemma sbind_eq_Inr: "sbind r f = Inr y \<longleftrightarrow> (\<exists>x. r = Inr x \<and> f x = Inr y)"
  by (cases r) auto

lemma sbind_assoc: "sbind (sbind r f) g = sbind r (\<lambda>x. sbind (f x) g)"
  by (cases r) simp_all

section \<open>C strings\<close>

text \<open>
  A C string is the list of its characters before the terminating NUL. \<open>strncmp_eq n s t\<close> is
  \<open>strncmp (s, t, n) == 0\<close>: at most \<open>n\<close> characters are compared and the comparison ends where
  both strings end.
\<close>

fun strncmp_eq :: "nat \<Rightarrow> string \<Rightarrow> string \<Rightarrow> bool" where
  "strncmp_eq 0 s t = True"
| "strncmp_eq (Suc n) [] [] = True"
| "strncmp_eq (Suc n) (a # s) (b # t) = (a = b \<and> strncmp_eq n s t)"
| "strncmp_eq (Suc n) _ _ = False"

lemma strncmp_eq_take [cstr_simps]: "strncmp_eq n s t \<longleftrightarrow> take n s = take n t"
  by (induction n s t rule: strncmp_eq.induct) auto

lemma strncmp_eq_short:
  "length t < n \<Longrightarrow> strncmp_eq n s t \<longleftrightarrow> s = t"
proof (induction n s t rule: strncmp_eq.induct)
  case (3 n a s b t)
  then show ?case by auto
qed auto

definition strcmp_eq :: "string \<Rightarrow> string \<Rightarrow> bool" where
  "strcmp_eq s t \<longleftrightarrow> s = t"

text \<open>
  \<open>strcpy\<close> into a block of \<open>n\<close> bytes: the string and its NUL have to fit. \<open>strncpy (d, s, n)\<close>
  into a block of \<open>n\<close> bytes never writes past the block, but leaves no NUL in it when \<open>s\<close> has
  \<open>n\<close> characters or more; the program reads such a block as a string later, which is then
  undefined.
\<close>

definition strcpy_into :: "nat \<Rightarrow> string \<Rightarrow> stop + string" where
  "strcpy_into n s = (if length s < n then Inr s else Inl (Undefined ''strcpy past the block''))"

definition strncpy_into :: "nat \<Rightarrow> string \<Rightarrow> stop + string" where
  "strncpy_into n s = (if length s < n then Inr s else Inl (Undefined ''string without NUL''))"

lemma strcpy_into_fits [simp, cstr_simps]: "length s < n \<Longrightarrow> strcpy_into n s = Inr s"
  by (simp add: strcpy_into_def)

lemma strncpy_into_fits [simp, cstr_simps]: "length s < n \<Longrightarrow> strncpy_into n s = Inr s"
  by (simp add: strncpy_into_def)

section \<open>Lists\<close>

lemma length_takeWhile_neq: "length (takeWhile (\<lambda>a. a \<noteq> c) xs) < length xs \<longleftrightarrow> c \<in> set xs"
  by (induction xs) auto

lemma takeWhile_neq_all: "c \<notin> set xs \<Longrightarrow> takeWhile (\<lambda>a. a \<noteq> c) xs = xs"
  by (induction xs) auto

lemma takeWhile_neq_take: "c \<notin> set (take (length (takeWhile (\<lambda>a. a \<noteq> c) xs)) xs)"
  by (simp only: takeWhile_eq_take [symmetric]) (auto dest: set_takeWhileD)

lemma takeWhile_neq_append:
  "takeWhile (\<lambda>a. a \<noteq> c) (xs @ ys) =
    (if c \<in> set xs then takeWhile (\<lambda>a. a \<noteq> c) xs else xs @ takeWhile (\<lambda>a. a \<noteq> c) ys)"
  by (induction xs) auto

text \<open>The list of first occurrences, in order.\<close>

definition nub :: "'a list \<Rightarrow> 'a list" where
  "nub xs = rev (remdups (rev xs))"

lemma nub_Nil [simp]: "nub [] = []"
  by (simp add: nub_def)

lemma set_nub [simp]: "set (nub xs) = set xs"
  by (simp add: nub_def)

lemma distinct_nub [simp]: "distinct (nub xs)"
  by (simp add: nub_def)

lemma nub_snoc [simp]: "nub (xs @ [x]) = (if x \<in> set xs then nub xs else nub xs @ [x])"
  by (simp add: nub_def)

lemma nub_distinct: "distinct xs \<Longrightarrow> nub xs = xs"
  by (simp add: nub_def distinct_remdups_id)

lemma length_nub_le: "length (nub xs) \<le> length xs"
  by (simp add: nub_def length_remdups_leq [of "rev xs", simplified])

lemma length_nub: "length (nub xs) = card (set xs)"
  by (metis distinct_card distinct_nub set_nub)

lemma nub_append: "nub (xs @ ys) = nub xs @ nub (filter (\<lambda>y. y \<notin> set xs) ys)"
proof (induction ys rule: rev_induct)
  case Nil
  then show ?case by simp
next
  case (snoc y ys)
  then show ?case
    by (auto simp flip: append_assoc)
qed

lemma nub_nub [simp]: "nub (nub xs) = nub xs"
  by (simp add: nub_distinct)

lemma nub_nub_append: "nub (nub xs @ ys) = nub (xs @ ys)"
  by (simp add: nub_append)

lemma length_nub_append: "length (nub xs) \<le> length (nub (xs @ ys))"
  by (simp add: nub_append)

end
