(* ===== verification/Tokenisation.thy ===== *)
theory Tokenisation
  imports Prelude
begin

text \<open>
  \<open>tokenisation.c\<close> and \<open>tokenisation.h\<close>: the operator names, \<open>tokenize\<close> (count the tokens, then
  split with \<open>strtok\<close>), \<open>isOperator\<close> and \<open>getUniqVars\<close>.

  The two loops of \<open>tokenize\<close> are independent in the code: the first counts, the second calls
  \<open>strtok\<close> exactly that often and hands its result to \<open>strlen\<close> without looking at it. The model
  keeps both, so that the count being right is a theorem (\<open>count_tokens_split\<close>) and not built in.
  Blocks from \<open>GC_MALLOC\<close> are assumed to be there; their sizes are kept where the code copies
  into them (\<open>strncpy_into\<close>). Counters are \<open>nat\<close>: each is bounded by the length of a string in
  memory, so a \<open>size_t\<close> cannot wrap.
\<close>

section \<open>Operators\<close>

definition MAX_VAR_LEN :: nat where "MAX_VAR_LEN = 5 + 1"
definition MAX_OP_LEN :: nat where "MAX_OP_LEN = 2 + 1"

definition OP_OR :: string where "OP_OR = ''+''"
definition OP_AND :: string where "OP_AND = ''.''"
definition OP_XOR :: string where "OP_XOR = ''^''"
definition OP_NOT :: string where "OP_NOT = ''!''"
definition OP_IFF :: string where "OP_IFF = ''=''"
definition OP_EX :: string where "OP_EX = ''EX''"
definition OP_EF :: string where "OP_EF = ''EF''"
definition OP_EG :: string where "OP_EG = ''EG''"
definition OP_EU :: string where "OP_EU = ''EU''"
definition OP_AX :: string where "OP_AX = ''AX''"
definition OP_AF :: string where "OP_AF = ''AF''"
definition OP_AG :: string where "OP_AG = ''AG''"
definition OP_AU :: string where "OP_AU = ''AU''"

lemmas op_defs = OP_OR_def OP_AND_def OP_XOR_def OP_NOT_def OP_IFF_def OP_EX_def OP_EF_def
  OP_EG_def OP_EU_def OP_AX_def OP_AF_def OP_AG_def OP_AU_def

definition operators :: "string list" where
  "operators = [OP_OR, OP_AND, OP_XOR, OP_NOT, OP_IFF, OP_EX, OP_EF, OP_EG, OP_EU, OP_AX,
     OP_AF, OP_AG, OP_AU]"

text \<open>The test \<open>strncmp (token, op, MAX_OP_LEN) == 0\<close> of every operator comparison.\<close>

definition is_op :: "string \<Rightarrow> string \<Rightarrow> bool" where
  "is_op tok opr = strncmp_eq MAX_OP_LEN tok opr"

fun isOperator_loop :: "string list \<Rightarrow> string \<Rightarrow> bool" where
  "isOperator_loop [] tok = False"
| "isOperator_loop (opr # ops) tok = (if is_op tok opr then True else isOperator_loop ops tok)"

definition isOperator :: "string \<Rightarrow> bool" where
  "isOperator tok = isOperator_loop operators tok"

lemma operators_short: "opr \<in> set operators \<Longrightarrow> length opr < MAX_OP_LEN"
  by (auto simp: operators_def op_defs MAX_OP_LEN_def)

lemma is_op_eq [cstr_simps]: "opr \<in> set operators \<Longrightarrow> is_op tok opr \<longleftrightarrow> tok = opr"
  unfolding is_op_def by (rule strncmp_eq_short) (rule operators_short)

lemma isOperator_loop_iff: "isOperator_loop ops tok \<longleftrightarrow> (\<exists>opr \<in> set ops. is_op tok opr)"
  by (induction ops) auto

lemma isOperator_iff [cstr_simps]: "isOperator tok \<longleftrightarrow> tok \<in> set operators"
  by (auto simp: isOperator_def isOperator_loop_iff is_op_eq)

section \<open>tokenize\<close>

definition is_space :: "char \<Rightarrow> bool" where
  "is_space c \<longleftrightarrow> c = CHR '' ''"

text \<open>The counting loop, with its state \<open>outside\<close> and \<open>count\<close>.\<close>

fun count_tokens :: "string \<Rightarrow> bool \<Rightarrow> nat \<Rightarrow> nat" where
  "count_tokens [] outside count = count"
| "count_tokens (c # cs) outside count =
     (if outside \<and> \<not> is_space c then count_tokens cs False (count + 1)
      else if \<not> outside \<and> is_space c then count_tokens cs True count
      else count_tokens cs outside count)"

text \<open>
  \<open>strtok (s, " ")\<close> on the text that is left: skip delimiters; NULL (\<open>None\<close>) at the end;
  otherwise the characters up to the next delimiter, which is overwritten by the NUL.
\<close>

definition strtok :: "string \<Rightarrow> string option \<times> string" where
  "strtok s = (let r = dropWhile is_space s in
     if r = [] then (None, [])
     else (Some (takeWhile (\<lambda>c. \<not> is_space c) r), drop 1 (dropWhile (\<lambda>c. \<not> is_space c) r)))"

fun tokenize_loop :: "nat \<Rightarrow> string option \<Rightarrow> string \<Rightarrow> stop + string list" where
  "tokenize_loop 0 token rest = Inr []"
| "tokenize_loop (Suc n) token rest =
     (case token of
        None \<Rightarrow> Inl (Undefined ''strlen of NULL'')
      | Some t \<Rightarrow>
          if \<not> length t < MAX_VAR_LEN then Inl (Exit 2 ''Too long symbol'')
          else (case strncpy_into MAX_VAR_LEN t of
              Inl e \<Rightarrow> Inl e
            | Inr t' \<Rightarrow>
                (let (token', rest') = strtok rest in
                 case tokenize_loop n token' rest' of
                   Inl e \<Rightarrow> Inl e
                 | Inr ts \<Rightarrow> Inr (t' # ts))))"

definition tokenize :: "string \<Rightarrow> stop + string list" where
  "tokenize s = (let count = count_tokens s True 0; (token, rest) = strtok s in
     tokenize_loop count token rest)"

section \<open>getUniqVars\<close>

fun seen_before :: "string list \<Rightarrow> string \<Rightarrow> bool" where
  "seen_before [] tok = False"
| "seen_before (v # vs) tok = (if strncmp_eq MAX_VAR_LEN v tok then True else seen_before vs tok)"

fun getUniqVars_loop :: "string list \<Rightarrow> string list \<Rightarrow> stop + string list" where
  "getUniqVars_loop [] seen = Inr seen"
| "getUniqVars_loop (t # ts) seen =
     (if \<not> isOperator t then
        (if \<not> seen_before seen t then
           (case strncpy_into MAX_VAR_LEN t of
              Inl e \<Rightarrow> Inl e
            | Inr t' \<Rightarrow> getUniqVars_loop ts (seen @ [t']))
         else getUniqVars_loop ts seen)
      else getUniqVars_loop ts seen)"

fun copy_vars :: "string list \<Rightarrow> stop + string list" where
  "copy_vars [] = Inr []"
| "copy_vars (v # vs) = (case strncpy_into MAX_VAR_LEN v of
      Inl e \<Rightarrow> Inl e
    | Inr v' \<Rightarrow> (case copy_vars vs of Inl e \<Rightarrow> Inl e | Inr vs' \<Rightarrow> Inr (v' # vs')))"

definition getUniqVars :: "string list \<Rightarrow> stop + string list" where
  "getUniqVars tokens = (case getUniqVars_loop tokens [] of
      Inl e \<Rightarrow> Inl e
    | Inr seen \<Rightarrow> copy_vars seen)"

section \<open>What tokenize computes\<close>

text \<open>
  The specification of the tokeniser: cut the text at every blank, drop the empty pieces. It says
  nothing about \<open>strtok\<close> or counting.
\<close>

fun split_sp :: "string \<Rightarrow> string list" where
  "split_sp [] = [[]]"
| "split_sp (c # cs) = (if is_space c then [] # split_sp cs
     else (case split_sp cs of [] \<Rightarrow> [[c]] | w # ws \<Rightarrow> (c # w) # ws))"

definition tokens_of :: "string \<Rightarrow> string list" where
  "tokens_of s = filter (\<lambda>w. w \<noteq> []) (split_sp s)"

lemma split_sp_nonempty [simp]: "split_sp s \<noteq> []"
  by (induction s) (auto split: list.splits)

lemma split_sp_word:
  "\<forall>c \<in> set w. \<not> is_space c \<Longrightarrow> split_sp (w @ s) = (w @ hd (split_sp s)) # tl (split_sp s)"
  by (induction w) auto

lemma tokens_of_Nil [simp]: "tokens_of [] = []"
  by (simp add: tokens_of_def)

lemma tokens_of_space [simp]: "is_space c \<Longrightarrow> tokens_of (c # cs) = tokens_of cs"
  by (simp add: tokens_of_def)

lemma tokens_of_dropWhile: "tokens_of (dropWhile is_space s) = tokens_of s"
  by (induction s) auto

lemma tokens_of_word:
  assumes "w \<noteq> []" "\<forall>c \<in> set w. \<not> is_space c" "s = [] \<or> is_space (hd s)"
  shows "tokens_of (w @ s) = w # tokens_of (drop 1 s)"
  using assms split_sp_word [of w s] by (cases s) (auto simp: tokens_of_def)

lemma tokens_of_strtok:
  "tokens_of s = (case strtok s of (None, _) \<Rightarrow> [] | (Some t, rest) \<Rightarrow> t # tokens_of rest)"
proof -
  define r where "r = dropWhile is_space s"
  show ?thesis
  proof (cases "r = []")
    case True
    then have "tokens_of s = []"
      using tokens_of_dropWhile [of s] by (simp add: r_def [symmetric])
    then show ?thesis
      using True by (simp add: strtok_def r_def [symmetric])
  next
    case False
    define w where "w = takeWhile (\<lambda>c. \<not> is_space c) r"
    define q where "q = dropWhile (\<lambda>c. \<not> is_space c) r"
    have "\<not> is_space (hd r)"
      using False unfolding r_def by (rule hd_dropWhile)
    with False have "w \<noteq> []"
      by (cases r) (auto simp: w_def)
    moreover have "\<forall>c \<in> set w. \<not> is_space c"
      by (auto simp: w_def dest: set_takeWhileD)
    moreover have "q = [] \<or> is_space (hd q)"
      using hd_dropWhile [of "\<lambda>c. \<not> is_space c" r] by (auto simp: q_def)
    ultimately have "tokens_of (w @ q) = w # tokens_of (drop 1 q)"
      by (rule tokens_of_word)
    moreover have "r = w @ q"
      by (simp add: w_def q_def)
    moreover have "strtok s = (Some w, drop 1 q)"
      using False by (simp add: strtok_def Let_def r_def [symmetric] w_def q_def)
    ultimately show ?thesis
      using tokens_of_dropWhile [of s] by (simp add: r_def [symmetric])
  qed
qed

lemma count_tokens_split:
  "count_tokens s outside n =
     n + length (if outside then tokens_of s else filter (\<lambda>w. w \<noteq> []) (tl (split_sp s)))"
proof (induction s arbitrary: outside n)
  case Nil
  then show ?case by simp
next
  case (Cons c cs)
  then show ?case
    by (cases "split_sp cs") (auto simp: tokens_of_def)
qed

lemma count_tokens_tokens_of: "count_tokens s True 0 = length (tokens_of s)"
  by (simp add: count_tokens_split)

lemma tokenize_loop_tokens_of:
  "strtok s = (token, rest) \<Longrightarrow> n = length (tokens_of s) \<Longrightarrow>
   tokenize_loop n token rest =
     (if \<forall>t \<in> set (tokens_of s). length t < MAX_VAR_LEN then Inr (tokens_of s)
      else Inl (Exit 2 ''Too long symbol''))"
proof (induction n arbitrary: s token rest)
  case 0
  then show ?case by auto
next
  case (Suc n)
  from Suc.prems obtain t where t: "token = Some t" and ts: "tokens_of s = t # tokens_of rest"
    using tokens_of_strtok [of s] by (cases token) auto
  obtain token' rest' where next': "strtok rest = (token', rest')"
    by (cases "strtok rest")
  have "n = length (tokens_of rest)"
    using Suc.prems(2) ts by simp
  from Suc.IH [OF next' this] show ?case
    by (auto simp: t ts next')
qed

lemma tokenize_tokens_of:
  "tokenize s =
     (if \<forall>t \<in> set (tokens_of s). length t < MAX_VAR_LEN then Inr (tokens_of s)
      else Inl (Exit 2 ''Too long symbol''))"
proof -
  obtain token rest where *: "strtok s = (token, rest)"
    by (cases "strtok s")
  from tokenize_loop_tokens_of [OF this refl] show ?thesis
    by (simp add: tokenize_def * count_tokens_tokens_of)
qed

lemma tokens_of_set:
  "t \<in> set (tokens_of s) \<Longrightarrow> t \<noteq> [] \<and> (\<forall>c \<in> set t. \<not> is_space c)"
proof -
  have "\<forall>w \<in> set (split_sp s). \<forall>c \<in> set w. \<not> is_space c"
    by (induction s) (auto split: list.splits)
  then show "t \<in> set (tokens_of s) \<Longrightarrow> ?thesis"
    by (auto simp: tokens_of_def)
qed

text \<open>Printing tokens with one blank between them, the form of the formulae in \<open>test_cases\<close>.\<close>

fun unwords :: "string list \<Rightarrow> string" where
  "unwords [] = []"
| "unwords [t] = t"
| "unwords (t # ts) = t @ CHR '' '' # unwords ts"

definition token_ok :: "string \<Rightarrow> bool" where
  "token_ok t \<longleftrightarrow> t \<noteq> [] \<and> length t < MAX_VAR_LEN \<and> (\<forall>c \<in> set t. \<not> is_space c)"

lemma tokens_of_unwords: "\<forall>t \<in> set ts. token_ok t \<Longrightarrow> tokens_of (unwords ts) = ts"
proof (induction ts rule: unwords.induct)
  case (2 t)
  then show ?case
    using tokens_of_word [of t "[]"] by (simp add: token_ok_def)
next
  case (3 t u ts)
  then show ?case
    using tokens_of_word [of t "CHR '' '' # unwords (u # ts)"]
    by (auto simp: token_ok_def is_space_def)
qed simp

text \<open>C10: \<open>tokenize\<close> returns exactly the blank-separated non-empty pieces of its argument, in order,
  when all of them are shorter than \<open>MAX_VAR_LEN\<close>, and otherwise exits with code 2; in particular
  the count of the first loop is right, so the second loop never passes NULL to \<open>strlen\<close>.\<close>

theorem tokenize_correct:
  "tokenize s =
     (if list_all (\<lambda>t. length t < MAX_VAR_LEN) (tokens_of s) then Inr (tokens_of s)
      else Inl (Exit 2 ''Too long symbol''))"
  by (simp add: tokenize_tokens_of list_all_iff)

text \<open>Printing tokens with single blanks and tokenising again gives the same tokens back.\<close>

theorem tokenize_unwords:
  assumes "list_all token_ok ts"
  shows "tokenize (unwords ts) = Inr ts"
proof -
  have "tokens_of (unwords ts) = ts"
    using assms by (simp add: tokens_of_unwords list_all_iff)
  then show ?thesis
    using assms by (simp add: tokenize_tokens_of list_all_iff token_ok_def)
qed

theorem tokenize_unwords_witness:
  "tokenize (unwords [''x0'', ''!'', ''x10'', ''='', ''EX'']) =
     Inr [''x0'', ''!'', ''x10'', ''='', ''EX'']"
  by (rule tokenize_unwords) (simp add: token_ok_def MAX_VAR_LEN_def is_space_def)

section \<open>What getUniqVars computes\<close>

lemma seen_before_iff:
  "length t < MAX_VAR_LEN \<Longrightarrow> seen_before vs t \<longleftrightarrow> t \<in> set vs"
  by (induction vs) (auto simp: strncmp_eq_short)

lemma getUniqVars_loop_nub:
  "\<forall>t \<in> set ts. length t < MAX_VAR_LEN \<Longrightarrow>
   getUniqVars_loop ts (nub (filter (\<lambda>t. \<not> isOperator t) us)) =
     Inr (nub (filter (\<lambda>t. \<not> isOperator t) (us @ ts)))"
proof (induction ts arbitrary: us)
  case Nil
  then show ?case by simp
next
  case (Cons t ts)
  then have "getUniqVars_loop ts (nub (filter (\<lambda>t. \<not> isOperator t) (us @ [t]))) =
      Inr (nub (filter (\<lambda>t. \<not> isOperator t) ((us @ [t]) @ ts)))"
    by (meson list.set_intros(2))
  then show ?case
    using Cons.prems by (auto simp: seen_before_iff split: if_splits)
qed

lemma copy_vars_short: "\<forall>v \<in> set vs. length v < MAX_VAR_LEN \<Longrightarrow> copy_vars vs = Inr vs"
  by (induction vs) auto

lemma getUniqVars_nub:
  "\<forall>t \<in> set ts. length t < MAX_VAR_LEN \<Longrightarrow>
   getUniqVars ts = Inr (nub (filter (\<lambda>t. \<not> isOperator t) ts))"
  using getUniqVars_loop_nub [of ts "[]"] by (simp add: getUniqVars_def copy_vars_short)

text \<open>C11: on the tokens \<open>tokenize\<close> delivers, \<open>getUniqVars\<close> never leaves a name without its NUL and
  returns the tokens that are not operators, each once, in the order of their first occurrence.\<close>

theorem getUniqVars_correct:
  assumes "tokenize s = Inr ts"
  shows "getUniqVars ts = Inr (nub (filter (\<lambda>t. t \<notin> set operators) ts))"
proof -
  have "\<forall>t \<in> set ts. length t < MAX_VAR_LEN"
    using assms by (auto simp: tokenize_tokens_of split: if_splits)
  then show ?thesis
    by (simp add: getUniqVars_nub isOperator_iff)
qed

theorem getUniqVars_correct_witness:
  "getUniqVars [''x0'', ''x1'', ''.'', ''x0'', ''EX'', ''+''] =
     Inr (nub (filter (\<lambda>t. t \<notin> set operators)
       [''x0'', ''x1'', ''.'', ''x0'', ''EX'', ''+'']))"
proof (rule getUniqVars_correct)
  show "tokenize ''x0 x1 . x0 EX +'' = Inr [''x0'', ''x1'', ''.'', ''x0'', ''EX'', ''+'']"
    by code_simp
qed

end
