(* ===== verification/Cudd.thy ===== *)
theory Cudd
  imports Prelude
begin

text \<open>
  The decision-diagram package CUDD, which is not part of the repository, as a parameter: the
  record \<open>cudd\<close> holds the functions of \<open>cudd.h\<close> the program calls, over an unknown type \<open>'m\<close> of
  managers and an unknown type \<open>'n\<close> of nodes. The definitions of the model take such a record as
  an argument and say nothing about it. What the program relies on is the locale \<open>cudd_package\<close>:
  the documented meaning of each call, as long as memory lasts.

  Pointers to nodes are kept as C has them. \<open>Cudd_Not\<close> is a macro that flips the lowest bit of
  the pointer and does not look at the node, so it also maps the null pointer to a pointer that
  is neither null nor a node: \<open>NullPtr True\<close>. Every other call looks at the node and is undefined
  on both.
\<close>

datatype 'n ptr = NullPtr bool | NodePtr 'n

abbreviation NULL :: "'n ptr" where "NULL \<equiv> NullPtr False"

record ('m, 'n) cudd =
  cudd_init :: "'m option"                                        \<comment> \<open>\<open>Cudd_Init\<close>\<close>
  cudd_newvar :: "'m \<Rightarrow> 'n ptr \<times> 'm"                               \<comment> \<open>\<open>Cudd_bddNewVar\<close>\<close>
  cudd_and :: "'m \<Rightarrow> 'n \<Rightarrow> 'n \<Rightarrow> 'n ptr \<times> 'm"                      \<comment> \<open>\<open>Cudd_bddAnd\<close>\<close>
  cudd_or :: "'m \<Rightarrow> 'n \<Rightarrow> 'n \<Rightarrow> 'n ptr \<times> 'm"                       \<comment> \<open>\<open>Cudd_bddOr\<close>\<close>
  cudd_xor :: "'m \<Rightarrow> 'n \<Rightarrow> 'n \<Rightarrow> 'n ptr \<times> 'm"                      \<comment> \<open>\<open>Cudd_bddXor\<close>\<close>
  cudd_not :: "'n \<Rightarrow> 'n"                                          \<comment> \<open>\<open>Cudd_Not\<close>\<close>
  cudd_exist :: "'m \<Rightarrow> 'n \<Rightarrow> 'n \<Rightarrow> 'n ptr \<times> 'm"                    \<comment> \<open>\<open>Cudd_bddExistAbstract\<close>\<close>
  cudd_swap :: "'m \<Rightarrow> 'n \<Rightarrow> 'n list \<Rightarrow> 'n list \<Rightarrow> 'n ptr \<times> 'm"      \<comment> \<open>\<open>Cudd_bddSwapVariables\<close>\<close>
  cudd_equivdc :: "'m \<Rightarrow> 'n \<Rightarrow> 'n \<Rightarrow> 'n \<Rightarrow> nat \<times> 'm"               \<comment> \<open>\<open>Cudd_EquivDC\<close>\<close>
  cudd_zero :: "'m \<Rightarrow> 'n"                                         \<comment> \<open>\<open>Cudd_ReadLogicZero\<close>\<close>
  cudd_ref :: "'m \<Rightarrow> 'n \<Rightarrow> 'm"                                     \<comment> \<open>\<open>Cudd_Ref\<close>\<close>
  cudd_deref :: "'m \<Rightarrow> 'n \<Rightarrow> 'm"                                   \<comment> \<open>\<open>Cudd_RecursiveDeref\<close>\<close>

section \<open>The calls, on pointers\<close>

definition node_of :: "'n ptr \<Rightarrow> stop + 'n" where
  "node_of p = (case p of NodePtr n \<Rightarrow> Inr n | NullPtr _ \<Rightarrow> Inl (Undefined ''not a node''))"

fun nodes_of :: "'n ptr list \<Rightarrow> stop + 'n list" where
  "nodes_of [] = Inr []"
| "nodes_of (p # ps) = (case node_of p of Inl e \<Rightarrow> Inl e
     | Inr n \<Rightarrow> (case nodes_of ps of Inl e \<Rightarrow> Inl e | Inr ns \<Rightarrow> Inr (n # ns)))"

text \<open>The first \<open>n\<close> entries of an array of node pointers, all of which the call looks at.\<close>

definition read_nodes :: "nat \<Rightarrow> 'n ptr list \<Rightarrow> stop + 'n list" where
  "read_nodes n x = (if n \<le> length x then nodes_of (take n x)
     else Inl (Undefined ''read past the array''))"

definition call1 :: "('m \<Rightarrow> 'n \<Rightarrow> 'a \<times> 'm) \<Rightarrow> 'n ptr \<Rightarrow> ('m, 'a) cm" where
  "call1 f p = cbind (clift (node_of p)) (\<lambda>n m. Inr (f m n))"

definition call2 :: "('m \<Rightarrow> 'n \<Rightarrow> 'n \<Rightarrow> 'a \<times> 'm) \<Rightarrow> 'n ptr \<Rightarrow> 'n ptr \<Rightarrow> ('m, 'a) cm" where
  "call2 f p q =
     cbind (clift (node_of p)) (\<lambda>a. cbind (clift (node_of q)) (\<lambda>b m. Inr (f m a b)))"

definition Cudd_bddNewVar :: "('m, 'n) cudd \<Rightarrow> ('m, 'n ptr) cm" where
  "Cudd_bddNewVar C = (\<lambda>m. Inr (cudd_newvar C m))"

definition Cudd_bddAnd :: "('m, 'n) cudd \<Rightarrow> 'n ptr \<Rightarrow> 'n ptr \<Rightarrow> ('m, 'n ptr) cm" where
  "Cudd_bddAnd C = call2 (cudd_and C)"

definition Cudd_bddOr :: "('m, 'n) cudd \<Rightarrow> 'n ptr \<Rightarrow> 'n ptr \<Rightarrow> ('m, 'n ptr) cm" where
  "Cudd_bddOr C = call2 (cudd_or C)"

definition Cudd_bddXor :: "('m, 'n) cudd \<Rightarrow> 'n ptr \<Rightarrow> 'n ptr \<Rightarrow> ('m, 'n ptr) cm" where
  "Cudd_bddXor C = call2 (cudd_xor C)"

definition Cudd_Not :: "('m, 'n) cudd \<Rightarrow> 'n ptr \<Rightarrow> 'n ptr" where
  "Cudd_Not C p = (case p of NullPtr b \<Rightarrow> NullPtr (\<not> b) | NodePtr n \<Rightarrow> NodePtr (cudd_not C n))"

definition Cudd_bddExistAbstract :: "('m, 'n) cudd \<Rightarrow> 'n ptr \<Rightarrow> 'n ptr \<Rightarrow> ('m, 'n ptr) cm" where
  "Cudd_bddExistAbstract C = call2 (cudd_exist C)"

definition Cudd_bddSwapVariables ::
  "('m, 'n) cudd \<Rightarrow> 'n ptr \<Rightarrow> 'n ptr list \<Rightarrow> 'n ptr list \<Rightarrow> nat \<Rightarrow> ('m, 'n ptr) cm" where
  "Cudd_bddSwapVariables C f x y n =
     cbind (clift (read_nodes n x)) (\<lambda>xs.
     cbind (clift (read_nodes n y)) (\<lambda>ys.
     call1 (\<lambda>m f. cudd_swap C m f xs ys) f))"

definition Cudd_ReadLogicZero :: "('m, 'n) cudd \<Rightarrow> ('m, 'n ptr) cm" where
  "Cudd_ReadLogicZero C = (\<lambda>m. Inr (NodePtr (cudd_zero C m), m))"

definition Cudd_EquivDC ::
  "('m, 'n) cudd \<Rightarrow> 'n ptr \<Rightarrow> 'n ptr \<Rightarrow> 'n ptr \<Rightarrow> ('m, nat) cm" where
  "Cudd_EquivDC C f g d =
     cbind (clift (node_of f)) (\<lambda>f'. cbind (clift (node_of g)) (\<lambda>g'.
     cbind (clift (node_of d)) (\<lambda>d' m. Inr (cudd_equivdc C m f' g' d'))))"

definition Cudd_Ref :: "('m, 'n) cudd \<Rightarrow> 'n ptr \<Rightarrow> ('m, unit) cm" where
  "Cudd_Ref C = call1 (\<lambda>m n. ((), cudd_ref C m n))"

definition Cudd_RecursiveDeref :: "('m, 'n) cudd \<Rightarrow> 'n ptr \<Rightarrow> ('m, unit) cm" where
  "Cudd_RecursiveDeref C = call1 (\<lambda>m n. ((), cudd_deref C m n))"

lemma node_of_NodePtr [simp, cm_simps]: "node_of (NodePtr n) = Inr n"
  by (simp add: node_of_def)

lemma node_of_NullPtr [simp, cm_simps]: "node_of (NullPtr b) = Inl (Undefined ''not a node'')"
  by (simp add: node_of_def)

lemma nodes_of_NodePtrs [simp, cm_simps]: "nodes_of (map NodePtr ns) = Inr ns"
  by (induction ns) auto

lemma nodes_of_Inr: "nodes_of ps = Inr ns \<Longrightarrow> ps = map NodePtr ns"
  by (induction ps arbitrary: ns) (auto simp: node_of_def split: ptr.splits sum.splits)

section \<open>The documented behaviour\<close>

text \<open>
  A Boolean function is a function of valuations of the variables, which are numbered in the order
  \<open>Cudd_bddNewVar\<close> creates them. \<open>repr m p \<phi>\<close>: in manager \<open>m\<close> the pointer \<open>p\<close> is a node for the
  function \<open>\<phi>\<close>. \<open>extends\<close>: what a call may do to the manager; everything represented before is
  represented after it and the variables stay the same.

  The laws include what the program needs but never asks for: that no call runs out of memory
  (it would return NULL), and that a node stays alive although the program does not call
  \<open>Cudd_Ref\<close> on intermediate results (the manual asks for it before the next call, since an
  unreferenced node may be reclaimed).
\<close>

type_synonym bfun = "(nat \<Rightarrow> bool) \<Rightarrow> bool"

definition extends ::
  "('m \<Rightarrow> bool) \<Rightarrow> ('m \<Rightarrow> 'n ptr \<Rightarrow> bfun \<Rightarrow> bool) \<Rightarrow> ('m \<Rightarrow> nat) \<Rightarrow> 'm \<Rightarrow> 'm \<Rightarrow> bool" where
  "extends ok repr nvars m m' \<longleftrightarrow>
     ok m' \<and> nvars m' = nvars m \<and> (\<forall>p \<phi>. repr m p \<phi> \<longrightarrow> repr m' p \<phi>)"

text \<open>The renaming behind \<open>Cudd_bddSwapVariables\<close>: variable \<open>x\<^sub>i\<close> for \<open>y\<^sub>i\<close> and back.\<close>

definition swap_var :: "nat list \<Rightarrow> nat list \<Rightarrow> nat \<Rightarrow> nat" where
  "swap_var vx vy v = (case map_of (zip vx vy) v of Some w \<Rightarrow> w
     | None \<Rightarrow> (case map_of (zip vy vx) v of Some w \<Rightarrow> w | None \<Rightarrow> v))"

locale cudd_package =
  fixes C :: "('m, 'n) cudd"
    and ok :: "'m \<Rightarrow> bool"
    and repr :: "'m \<Rightarrow> 'n ptr \<Rightarrow> bfun \<Rightarrow> bool"
    and nvars :: "'m \<Rightarrow> nat"
  assumes init_ok: "\<exists>m. cudd_init C = Some m \<and> ok m \<and> nvars m = 0"
    and repr_node: "repr m p \<phi> \<Longrightarrow> \<exists>n. p = NodePtr n"
    and repr_unique: "repr m p \<phi> \<Longrightarrow> repr m p \<psi> \<Longrightarrow> \<phi> = \<psi>"
    and repr_support: "repr m p \<phi> \<Longrightarrow> (\<And>v. v < nvars m \<Longrightarrow> e v = e' v) \<Longrightarrow> \<phi> e = \<phi> e'"
    and newvar: "ok m \<Longrightarrow> cudd_newvar C m = (p, m') \<Longrightarrow>
      ok m' \<and> nvars m' = Suc (nvars m) \<and> repr m' p (\<lambda>e. e (nvars m)) \<and>
      (\<forall>q \<phi>. repr m q \<phi> \<longrightarrow> repr m' q \<phi>)"
    and and_ok: "ok m \<Longrightarrow> repr m (NodePtr a) \<phi> \<Longrightarrow> repr m (NodePtr b) \<psi> \<Longrightarrow>
      cudd_and C m a b = (p, m') \<Longrightarrow>
      extends ok repr nvars m m' \<and> repr m' p (\<lambda>e. \<phi> e \<and> \<psi> e)"
    and or_ok: "ok m \<Longrightarrow> repr m (NodePtr a) \<phi> \<Longrightarrow> repr m (NodePtr b) \<psi> \<Longrightarrow>
      cudd_or C m a b = (p, m') \<Longrightarrow>
      extends ok repr nvars m m' \<and> repr m' p (\<lambda>e. \<phi> e \<or> \<psi> e)"
    and xor_ok: "ok m \<Longrightarrow> repr m (NodePtr a) \<phi> \<Longrightarrow> repr m (NodePtr b) \<psi> \<Longrightarrow>
      cudd_xor C m a b = (p, m') \<Longrightarrow>
      extends ok repr nvars m m' \<and> repr m' p (\<lambda>e. \<phi> e \<noteq> \<psi> e)"
    and not_ok: "ok m \<Longrightarrow> repr m (NodePtr a) \<phi> \<Longrightarrow> repr m (NodePtr (cudd_not C a)) (\<lambda>e. \<not> \<phi> e)"
    and exist_ok: "ok m \<Longrightarrow> repr m (NodePtr a) \<phi> \<Longrightarrow> repr m (NodePtr c) (\<lambda>e. e v) \<Longrightarrow>
      v < nvars m \<Longrightarrow> cudd_exist C m a c = (p, m') \<Longrightarrow>
      extends ok repr nvars m m' \<and> repr m' p (\<lambda>e. \<exists>b. \<phi> (e(v := b)))"
    and swap_ok: "ok m \<Longrightarrow> repr m (NodePtr a) \<phi> \<Longrightarrow>
      list_all2 (\<lambda>x v. repr m (NodePtr x) (\<lambda>e. e v)) xs vx \<Longrightarrow>
      list_all2 (\<lambda>y v. repr m (NodePtr y) (\<lambda>e. e v)) ys vy \<Longrightarrow>
      length vx = length vy \<Longrightarrow> distinct (vx @ vy) \<Longrightarrow> (\<forall>v \<in> set (vx @ vy). v < nvars m) \<Longrightarrow>
      cudd_swap C m a xs ys = (p, m') \<Longrightarrow>
      extends ok repr nvars m m' \<and> repr m' p (\<lambda>e. \<phi> (\<lambda>v. e (swap_var vx vy v)))"
    and equivdc_ok: "ok m \<Longrightarrow> repr m (NodePtr f) \<phi> \<Longrightarrow> repr m (NodePtr g) \<psi> \<Longrightarrow>
      repr m (NodePtr d) \<delta> \<Longrightarrow> cudd_equivdc C m f g d = (r, m') \<Longrightarrow>
      extends ok repr nvars m m' \<and> r = (if \<forall>e. \<not> \<delta> e \<longrightarrow> \<phi> e = \<psi> e then 1 else 0)"
    and zero_ok: "ok m \<Longrightarrow> repr m (NodePtr (cudd_zero C m)) (\<lambda>e. False)"
    and ref_ok: "ok m \<Longrightarrow> repr m (NodePtr n) \<phi> \<Longrightarrow> extends ok repr nvars m (cudd_ref C m n)"
begin

abbreviation ext :: "'m \<Rightarrow> 'm \<Rightarrow> bool" where "ext \<equiv> extends ok repr nvars"

lemma ext_refl [simp]: "ok m \<Longrightarrow> ext m m"
  by (simp add: extends_def)

lemma ext_trans [trans]: "ext m m' \<Longrightarrow> ext m' m'' \<Longrightarrow> ext m m''"
  by (simp add: extends_def)

lemma ext_repr: "ext m m' \<Longrightarrow> repr m p \<phi> \<Longrightarrow> repr m' p \<phi>"
  by (simp add: extends_def)

lemma ext_ok: "ext m m' \<Longrightarrow> ok m'"
  by (simp add: extends_def)

lemma ext_nvars: "ext m m' \<Longrightarrow> nvars m' = nvars m"
  by (simp add: extends_def)

text \<open>The calls as the program makes them: each returns, and what it returns.\<close>

lemma runs_call2:
  assumes "repr m p \<phi>" "repr m q \<psi>"
    and "\<And>a b r m'. p = NodePtr a \<Longrightarrow> q = NodePtr b \<Longrightarrow> f m a b = (r, m') \<Longrightarrow> Q r m'"
  shows "runs (call2 f p q) m Q"
proof -
  obtain a b where p: "p = NodePtr a" and q: "q = NodePtr b"
    using assms(1,2) repr_node by metis
  obtain r m' where "f m a b = (r, m')"
    by (cases "f m a b")
  with assms(3) [OF p q this] show ?thesis
    by (auto simp: call2_def p q intro!: runsI)
qed

lemma runs_And [run_intros]:
  "ok m \<Longrightarrow> repr m p \<phi> \<Longrightarrow> repr m q \<psi> \<Longrightarrow>
   (\<And>r m'. ext m m' \<Longrightarrow> repr m' r (\<lambda>e. \<phi> e \<and> \<psi> e) \<Longrightarrow> Q r m') \<Longrightarrow>
   runs (Cudd_bddAnd C p q) m Q"
  unfolding Cudd_bddAnd_def by (rule runs_call2) (auto dest: and_ok)

lemma runs_Or [run_intros]:
  "ok m \<Longrightarrow> repr m p \<phi> \<Longrightarrow> repr m q \<psi> \<Longrightarrow>
   (\<And>r m'. ext m m' \<Longrightarrow> repr m' r (\<lambda>e. \<phi> e \<or> \<psi> e) \<Longrightarrow> Q r m') \<Longrightarrow>
   runs (Cudd_bddOr C p q) m Q"
  unfolding Cudd_bddOr_def by (rule runs_call2) (auto dest: or_ok)

lemma runs_Xor [run_intros]:
  "ok m \<Longrightarrow> repr m p \<phi> \<Longrightarrow> repr m q \<psi> \<Longrightarrow>
   (\<And>r m'. ext m m' \<Longrightarrow> repr m' r (\<lambda>e. \<phi> e \<noteq> \<psi> e) \<Longrightarrow> Q r m') \<Longrightarrow>
   runs (Cudd_bddXor C p q) m Q"
  unfolding Cudd_bddXor_def by (rule runs_call2) (auto dest: xor_ok)

lemma repr_Not: "ok m \<Longrightarrow> repr m p \<phi> \<Longrightarrow> repr m (Cudd_Not C p) (\<lambda>e. \<not> \<phi> e)"
  using repr_node [of m p \<phi>] not_ok by (auto simp: Cudd_Not_def)

lemma runs_Exist [run_intros]:
  "ok m \<Longrightarrow> repr m p \<phi> \<Longrightarrow> repr m q (\<lambda>e. e v) \<Longrightarrow> v < nvars m \<Longrightarrow>
   (\<And>r m'. ext m m' \<Longrightarrow> repr m' r (\<lambda>e. \<exists>b. \<phi> (e(v := b))) \<Longrightarrow> Q r m') \<Longrightarrow>
   runs (Cudd_bddExistAbstract C p q) m Q"
  unfolding Cudd_bddExistAbstract_def by (rule runs_call2) (auto dest: exist_ok)

definition var_nodes :: "'m \<Rightarrow> 'n ptr list \<Rightarrow> nat list \<Rightarrow> bool" where
  "var_nodes m ps vs \<longleftrightarrow> list_all2 (\<lambda>p v. repr m p (\<lambda>e. e v) \<and> v < nvars m) ps vs"

lemma var_nodes_ext: "ext m m' \<Longrightarrow> var_nodes m ps vs \<Longrightarrow> var_nodes m' ps vs"
  unfolding var_nodes_def
  by (erule list_all2_mono) (auto dest: ext_repr simp: ext_nvars)

lemma var_nodes_NodePtr:
  "var_nodes m ps vs \<Longrightarrow> \<exists>ns. ps = map NodePtr ns \<and>
     list_all2 (\<lambda>n v. repr m (NodePtr n) (\<lambda>e. e v)) ns vs \<and> (\<forall>v \<in> set vs. v < nvars m)"
  unfolding var_nodes_def
proof (induction ps vs rule: list_all2_induct)
  case Nil
  then show ?case by simp
next
  case (Cons p ps v vs)
  then obtain ns n where "ps = map NodePtr ns" "p = NodePtr n"
    "list_all2 (\<lambda>n v. repr m (NodePtr n) (\<lambda>e. e v)) ns vs"
    using repr_node by blast
  with Cons show ?case
    by (intro exI [of _ "n # ns"]) auto
qed

lemma runs_Swap [run_intros]:
  assumes "ok m" "repr m p \<phi>" "var_nodes m (take n xs) vx" "var_nodes m (take n ys) vy"
    and "n \<le> length xs" "n \<le> length ys" "length vx = length vy" "distinct (vx @ vy)"
    and Q: "\<And>r m'. ext m m' \<Longrightarrow> repr m' r (\<lambda>e. \<phi> (\<lambda>v. e (swap_var vx vy v))) \<Longrightarrow> Q r m'"
  shows "runs (Cudd_bddSwapVariables C p xs ys n) m Q"
proof -
  obtain a where p: "p = NodePtr a"
    using assms(2) repr_node by metis
  obtain as where as: "take n xs = map NodePtr as"
    "list_all2 (\<lambda>n v. repr m (NodePtr n) (\<lambda>e. e v)) as vx" "\<forall>v \<in> set vx. v < nvars m"
    using var_nodes_NodePtr [OF assms(3)] by blast
  obtain bs where bs: "take n ys = map NodePtr bs"
    "list_all2 (\<lambda>n v. repr m (NodePtr n) (\<lambda>e. e v)) bs vy" "\<forall>v \<in> set vy. v < nvars m"
    using var_nodes_NodePtr [OF assms(4)] by blast
  obtain r m' where r: "cudd_swap C m a as bs = (r, m')"
    by (cases "cudd_swap C m a as bs")
  have "ext m m' \<and> repr m' r (\<lambda>e. \<phi> (\<lambda>v. e (swap_var vx vy v)))"
    using swap_ok [OF assms(1) assms(2) [unfolded p] as(2) bs(2) assms(7,8) _ r] as(3) bs(3)
    by auto
  with Q have "Q r m'" by blast
  with r show ?thesis
    using assms(5,6)
    by (auto simp: Cudd_bddSwapVariables_def read_nodes_def as(1) bs(1) p call1_def intro!: runsI)
qed

lemma runs_Zero [run_intros]:
  "ok m \<Longrightarrow> (\<And>r. repr m r (\<lambda>e. False) \<Longrightarrow> Q r m) \<Longrightarrow> runs (Cudd_ReadLogicZero C) m Q"
  unfolding Cudd_ReadLogicZero_def using zero_ok by (auto intro!: runsI)

lemma runs_Equiv [run_intros]:
  assumes "ok m" "repr m f \<phi>" "repr m g \<psi>" "repr m d (\<lambda>e. False)"
    and Q: "\<And>m'. ext m m' \<Longrightarrow> Q (if \<phi> = \<psi> then 1 else 0) m'"
  shows "runs (Cudd_EquivDC C f g d) m Q"
proof -
  obtain f' g' d' where p: "f = NodePtr f'" "g = NodePtr g'" "d = NodePtr d'"
    using assms(2-4) repr_node by metis
  obtain r m' where r: "cudd_equivdc C m f' g' d' = (r, m')"
    by (cases "cudd_equivdc C m f' g' d'")
  have "ext m m' \<and> r = (if \<forall>e. \<not> False \<longrightarrow> \<phi> e = \<psi> e then 1 else 0)"
    using assms(1-4) r unfolding p by (rule equivdc_ok)
  then have "Q r m'"
    using Q [of m'] by (auto simp: fun_eq_iff)
  with r show ?thesis
    by (auto simp: Cudd_EquivDC_def p intro!: runsI)
qed

lemma runs_Ref [run_intros]:
  "ok m \<Longrightarrow> repr m p \<phi> \<Longrightarrow> (\<And>m'. ext m m' \<Longrightarrow> Q () m') \<Longrightarrow> runs (Cudd_Ref C p) m Q"
  using repr_node [of m p \<phi>] ref_ok [of m _ \<phi>]
  by (auto simp: Cudd_Ref_def call1_def intro!: runsI)

lemma runs_NewVar [run_intros]:
  "ok m \<Longrightarrow>
   (\<And>r m'. ok m' \<Longrightarrow> nvars m' = Suc (nvars m) \<Longrightarrow> repr m' r (\<lambda>e. e (nvars m)) \<Longrightarrow>
      (\<And>q \<phi>. repr m q \<phi> \<Longrightarrow> repr m' q \<phi>) \<Longrightarrow> Q r m') \<Longrightarrow>
   runs (Cudd_bddNewVar C) m Q"
  unfolding Cudd_bddNewVar_def
  by (cases "cudd_newvar C m") (auto dest: newvar intro!: runsI)

end

end
