(* ===== verification/DdStack.thy ===== *)
theory DdStack
  imports Cudd
begin

text \<open>
  \<open>ddStack.h\<close> and \<open>ddStack.c\<close>: the bounded stack of node pointers the two formula evaluators use,
  and the record \<open>augmentedDdVar\<close>. \<open>dd_top\<close>, \<open>dd_capacity\<close> and \<open>dd_stack\<close> are the fields \<open>top\<close>,
  \<open>capacity\<close> and \<open>stack\<close>; the list \<open>dd_stack\<close> is the flexible array, one entry per slot of the
  allocated block, so that reading or writing beyond the block is visible (\<open>Undefined\<close>). \<open>size_t\<close>
  is \<open>nat\<close>: \<open>top\<close> moves by one between 0 and \<open>capacity\<close>, so it never wraps.

  The locale \<open>bounded_stack\<close> is what the evaluators rely on: a last-in first-out sequence of at
  most \<open>cap\<close> elements, whose \<open>pop\<close> on the empty stack returns the null pointer and whose \<open>push\<close> on
  the full one reports failure; both leave the stack as it was.
\<close>

record 'n ddStack =
  dd_top :: nat
  dd_capacity :: nat
  dd_stack :: "'n ptr list"

text \<open>The zeroed block with \<open>n\<close> slots that \<open>GC_MALLOC (sizeof (ddStack) + n * sizeof (DdNode*))\<close>
  returns.\<close>

definition ddStack_malloc :: "nat \<Rightarrow> 'n ddStack" where
  "ddStack_malloc n = \<lparr>dd_top = 0, dd_capacity = 0, dd_stack = replicate n NULL\<rparr>"

definition ddStack_init :: "'n ddStack \<Rightarrow> nat \<Rightarrow> 'n ddStack" where
  "ddStack_init d capacity = d\<lparr>dd_top := 0, dd_capacity := capacity\<rparr>"

definition ddStack_push :: "'n ddStack \<Rightarrow> 'n ptr \<Rightarrow> stop + bool \<times> 'n ddStack" where
  "ddStack_push d node =
     (if dd_top d < dd_capacity d then
        (if dd_top d < length (dd_stack d) then
           Inr (True, d\<lparr>dd_stack := (dd_stack d)[dd_top d := node], dd_top := dd_top d + 1\<rparr>)
         else Inl (Undefined ''write past the stack block''))
      else Inr (False, d))"

definition ddStack_pop :: "'n ddStack \<Rightarrow> stop + 'n ptr \<times> 'n ddStack" where
  "ddStack_pop d =
     (if dd_top d \<noteq> 0 then
        (if dd_top d - 1 < length (dd_stack d) then
           Inr (dd_stack d ! (dd_top d - 1), d\<lparr>dd_top := dd_top d - 1\<rparr>)
         else Inl (Undefined ''read past the stack block''))
      else Inr (NULL, d))"

definition ddStack_isEmpty :: "'n ddStack \<Rightarrow> bool" where
  "ddStack_isEmpty d \<longleftrightarrow> dd_top d = 0"

record 'n augmentedDdVar =
  parity :: bool            \<comment> \<open>true if primed\<close>
  var_name :: string        \<comment> \<open>\<open>name[MAX_VAR_LEN]\<close>\<close>
  var_node :: "'n ptr"

section \<open>The contract\<close>

locale bounded_stack =
  fixes fresh :: "nat \<Rightarrow> 's"
    and push :: "'s \<Rightarrow> 'a \<Rightarrow> stop + bool \<times> 's"
    and pop :: "'s \<Rightarrow> stop + 'a \<times> 's"
    and is_empty :: "'s \<Rightarrow> bool"
    and null :: 'a
    and seq :: "'s \<Rightarrow> 'a list"
    and cap :: "'s \<Rightarrow> nat"
    and inv :: "'s \<Rightarrow> bool"
  assumes fresh_inv: "inv (fresh n)"
    and fresh_seq: "seq (fresh n) = []"
    and fresh_cap: "cap (fresh n) = n"
    and push_room: "inv s \<Longrightarrow> length (seq s) < cap s \<Longrightarrow>
      \<exists>s'. push s x = Inr (True, s') \<and> inv s' \<and> seq s' = x # seq s \<and> cap s' = cap s"
    and push_full: "inv s \<Longrightarrow> \<not> length (seq s) < cap s \<Longrightarrow> push s x = Inr (False, s)"
    and pop_top: "inv s \<Longrightarrow> seq s = x # xs \<Longrightarrow>
      \<exists>s'. pop s = Inr (x, s') \<and> inv s' \<and> seq s' = xs \<and> cap s' = cap s"
    and pop_none: "inv s \<Longrightarrow> seq s = [] \<Longrightarrow> pop s = Inr (null, s)"
    and empty_iff: "inv s \<Longrightarrow> is_empty s \<longleftrightarrow> seq s = []"
    and bounded: "inv s \<Longrightarrow> length (seq s) \<le> cap s"
begin

text \<open>\<open>holds s xs n\<close>: a stack of capacity \<open>n\<close> with the elements \<open>xs\<close>, the top first.\<close>

definition holds :: "'s \<Rightarrow> 'a list \<Rightarrow> nat \<Rightarrow> bool" where
  "holds s xs n \<longleftrightarrow> inv s \<and> seq s = xs \<and> cap s = n"

lemma holds_fresh: "holds (fresh n) [] n"
  by (simp add: holds_def fresh_inv fresh_seq fresh_cap)

lemma holds_push:
  assumes "holds s xs n" "length xs < n"
  shows "\<exists>s'. push s x = Inr (True, s') \<and> holds s' (x # xs) n"
  using assms push_room [of s x] by (auto simp: holds_def)

lemma holds_pop:
  assumes "holds s (x # xs) n"
  shows "\<exists>s'. pop s = Inr (x, s') \<and> holds s' xs n"
  using assms pop_top [of s x xs] by (auto simp: holds_def)

lemma holds_pop2:
  assumes "holds s (x # y # xs) n"
  shows "\<exists>s' s''. pop s = Inr (x, s') \<and> pop s' = Inr (y, s'') \<and> holds s'' xs n"
  using holds_pop [OF assms] holds_pop by blast

lemma holds_pop_none: "holds s [] n \<Longrightarrow> pop s = Inr (null, s)"
  by (auto simp: holds_def pop_none)

lemma push_never_stops: "inv s \<Longrightarrow> \<exists>b s'. push s x = Inr (b, s') \<and> inv s'"
  using push_room [of s x] push_full [of s x] by blast

lemma pop_never_stops: "inv s \<Longrightarrow> \<exists>x s'. pop s = Inr (x, s') \<and> inv s'"
  using pop_top [of s] pop_none [of s] by (cases "seq s") auto

fun push_all :: "'s \<Rightarrow> 'a list \<Rightarrow> stop + 's" where
  "push_all s [] = Inr s"
| "push_all s (x # xs) = (case push s x of Inl e \<Rightarrow> Inl e | Inr (_, s') \<Rightarrow> push_all s' xs)"

fun pop_all :: "'s \<Rightarrow> nat \<Rightarrow> stop + 'a list \<times> 's" where
  "pop_all s 0 = Inr ([], s)"
| "pop_all s (Suc n) = (case pop s of Inl e \<Rightarrow> Inl e
     | Inr (x, s') \<Rightarrow> (case pop_all s' n of Inl e \<Rightarrow> Inl e | Inr (xs, s'') \<Rightarrow> Inr (x # xs, s'')))"

lemma push_all_holds:
  "holds s ys n \<Longrightarrow> length ys + length xs \<le> n \<Longrightarrow>
   \<exists>s'. push_all s xs = Inr s' \<and> holds s' (rev xs @ ys) n"
proof (induction xs arbitrary: s ys)
  case (Cons x xs)
  obtain s' where "push s x = Inr (True, s')" "holds s' (x # ys) n"
    using holds_push [OF Cons.prems(1), of x] Cons.prems(2) by auto
  then show ?case
    using Cons.IH [of s' "x # ys"] Cons.prems(2) by auto
qed simp

lemma pop_all_holds:
  "holds s (xs @ ys) n \<Longrightarrow> \<exists>s'. pop_all s (length xs) = Inr (xs, s') \<and> holds s' ys n"
proof (induction xs arbitrary: s)
  case (Cons x xs)
  then show ?case
    using holds_pop [of s x "xs @ ys" n] by fastforce
qed simp

text \<open>Last in, first out.\<close>

lemma lifo:
  assumes "length xs \<le> n"
  shows "\<exists>s s'. push_all (fresh n) xs = Inr s \<and> pop_all s (length xs) = Inr (rev xs, s') \<and>
    holds s' [] n"
proof -
  obtain s where s: "push_all (fresh n) xs = Inr s" "holds s (rev xs @ []) n"
    using push_all_holds [OF holds_fresh, of xs n] assms by auto
  then show ?thesis
    using pop_all_holds [of s "rev xs" "[]" n] by auto
qed

end

section \<open>ddStack keeps the contract\<close>

definition ddStack_seq :: "'n ddStack \<Rightarrow> 'n ptr list" where
  "ddStack_seq d = rev (take (dd_top d) (dd_stack d))"

definition ddStack_inv :: "'n ddStack \<Rightarrow> bool" where
  "ddStack_inv d \<longleftrightarrow> dd_top d \<le> dd_capacity d \<and> dd_capacity d \<le> length (dd_stack d)"

definition ddStack_new :: "nat \<Rightarrow> 'n ddStack" where
  "ddStack_new n = ddStack_init (ddStack_malloc n) n"

lemma ddStack_seq_push:
  "dd_top d < length (dd_stack d) \<Longrightarrow>
   rev (take (Suc (dd_top d)) ((dd_stack d)[dd_top d := x])) = x # ddStack_seq d"
  by (simp add: ddStack_seq_def take_Suc_conv_app_nth)

lemma ddStack_seq_pop:
  assumes "dd_top d \<le> length (dd_stack d)" "ddStack_seq d = x # xs"
  shows "0 < dd_top d" "dd_stack d ! (dd_top d - 1) = x"
    "rev (take (dd_top d - 1) (dd_stack d)) = xs"
proof -
  show pos: "0 < dd_top d"
    using assms(2) by (auto simp: ddStack_seq_def intro!: Nat.gr0I)
  then have "take (dd_top d) (dd_stack d) =
      take (dd_top d - 1) (dd_stack d) @ [dd_stack d ! (dd_top d - 1)]"
    using assms(1) take_Suc_conv_app_nth [of "dd_top d - 1" "dd_stack d"] by simp
  then show "dd_stack d ! (dd_top d - 1) = x" "rev (take (dd_top d - 1) (dd_stack d)) = xs"
    using assms(2) by (simp_all add: ddStack_seq_def)
qed

interpretation dds: bounded_stack ddStack_new ddStack_push ddStack_pop ddStack_isEmpty NULL
  ddStack_seq dd_capacity ddStack_inv
proof (unfold_locales, goal_cases)
  case (4 s x)
  then have "dd_top s < dd_capacity s" "dd_top s < length (dd_stack s)"
    by (auto simp: ddStack_inv_def ddStack_seq_def)
  then show ?case
    using 4(1) ddStack_seq_push [of s x]
    by (auto simp: ddStack_push_def ddStack_inv_def ddStack_seq_def)
next
  case (5 s x)
  then have "dd_top s = dd_capacity s"
    by (auto simp: ddStack_inv_def ddStack_seq_def)
  then show ?case by (simp add: ddStack_push_def)
next
  case (6 s x xs)
  then have "dd_top s \<le> length (dd_stack s)"
    by (simp add: ddStack_inv_def)
  note top = ddStack_seq_pop [OF this 6(2)]
  then show ?case
    using 6 by (auto simp: ddStack_pop_def ddStack_inv_def ddStack_seq_def)
next
  case (7 s)
  then show ?case
    by (auto simp: ddStack_pop_def ddStack_inv_def ddStack_seq_def)
qed (auto simp: ddStack_new_def ddStack_init_def ddStack_malloc_def ddStack_inv_def
    ddStack_seq_def ddStack_isEmpty_def)

lemma dd_top_length: "dds.holds d xs n \<Longrightarrow> dd_top d = length xs"
  by (auto simp: dds.holds_def ddStack_inv_def ddStack_seq_def)

lemma seq_after_push:
  "ddStack_push d x = Inr (True, d') \<Longrightarrow> ddStack_inv d \<Longrightarrow> ddStack_seq d' = x # ddStack_seq d"
  using dds.push_room [of d x] dds.push_full [of d x] by (cases "length (ddStack_seq d) < dd_capacity d") auto

text \<open>C12: the stack is a bounded last-in first-out sequence. From any state the operations keep
  consistent (\<open>top \<le> capacity \<le>\<close> slots of the block), \<open>push\<close> puts the node on top when there is
  room and otherwise changes nothing and returns false, \<open>pop\<close> takes the top off and returns it
  and returns NULL on the empty stack; neither reads or writes outside the block, and both keep
  the invariant.\<close>

theorem ddStack_refines_list:
  assumes "ddStack_inv d"
  shows "(\<exists>d'. ddStack_push d x = Inr (length (ddStack_seq d) < dd_capacity d, d') \<and>
      ddStack_inv d' \<and> dd_capacity d' = dd_capacity d \<and>
      ddStack_seq d' = (if length (ddStack_seq d) < dd_capacity d then x # ddStack_seq d
        else ddStack_seq d)) \<and>
    (\<exists>d'. ddStack_pop d = Inr (case ddStack_seq d of [] \<Rightarrow> NULL | y # _ \<Rightarrow> y, d') \<and>
      ddStack_inv d' \<and> dd_capacity d' = dd_capacity d \<and> ddStack_seq d' = tl (ddStack_seq d)) \<and>
    ddStack_isEmpty d = (ddStack_seq d = [])"
proof (intro conjI)
  show "\<exists>d'. ddStack_push d x = Inr (length (ddStack_seq d) < dd_capacity d, d') \<and>
      ddStack_inv d' \<and> dd_capacity d' = dd_capacity d \<and>
      ddStack_seq d' = (if length (ddStack_seq d) < dd_capacity d then x # ddStack_seq d
        else ddStack_seq d)"
    using dds.push_room [OF assms, of x] dds.push_full [OF assms, of x] assms by auto
  show "\<exists>d'. ddStack_pop d = Inr (case ddStack_seq d of [] \<Rightarrow> NULL | y # _ \<Rightarrow> y, d') \<and>
      ddStack_inv d' \<and> dd_capacity d' = dd_capacity d \<and> ddStack_seq d' = tl (ddStack_seq d)"
    using dds.pop_top [OF assms] dds.pop_none [OF assms] assms by (cases "ddStack_seq d") auto
  show "ddStack_isEmpty d = (ddStack_seq d = [])"
    using assms by (rule dds.empty_iff)
qed

theorem ddStack_refines_list_witness:
  "\<exists>d'. ddStack_pop (ddStack_new 1 :: nat ddStack) =
      Inr (case ddStack_seq (ddStack_new 1 :: nat ddStack) of [] \<Rightarrow> NULL | y # _ \<Rightarrow> y, d') \<and>
      ddStack_inv d' \<and> dd_capacity d' = dd_capacity (ddStack_new 1 :: nat ddStack) \<and>
      ddStack_seq d' = tl (ddStack_seq (ddStack_new 1 :: nat ddStack))"
  by (rule ddStack_refines_list [OF dds.fresh_inv, of 1 NULL, THEN conjunct2, THEN conjunct1])

end
