(* ===== verification/Reference_Package.thy ===== *)
theory Reference_Package
  imports Cudd
begin

text \<open>
  A small decision-diagram package that keeps every promise of \<open>cudd_package\<close>: ordered, reduced
  binary decision diagrams as trees. It is not a model of CUDD, whose code is not in the
  repository; it shows that the promises can be kept, and it lets a whole run of the program be
  evaluated inside the logic. A manager counts its variables and logs the calls of \<open>Cudd_Ref\<close> and
  \<open>Cudd_RecursiveDeref\<close> on each diagram.
\<close>

datatype bdd = Leaf bool | Branch bdd nat bdd   \<comment> \<open>low, variable, high\<close>

record mgr =
  count :: nat
  refs :: "(bool \<times> bdd) list"

fun beval :: "bdd \<Rightarrow> (nat \<Rightarrow> bool) \<Rightarrow> bool" where
  "beval (Leaf b) e = b"
| "beval (Branch l v h) e = (if e v then beval h e else beval l e)"

text \<open>Along every path the variables increase; \<open>n\<close> bounds them from below.\<close>

fun ordered :: "nat \<Rightarrow> bdd \<Rightarrow> bool" where
  "ordered n (Leaf b) = True"
| "ordered n (Branch l v h) = (n \<le> v \<and> ordered (Suc v) l \<and> ordered (Suc v) h)"

fun vars_below :: "nat \<Rightarrow> bdd \<Rightarrow> bool" where
  "vars_below n (Leaf b) = True"
| "vars_below n (Branch l v h) = (v < n \<and> vars_below n l \<and> vars_below n h)"

definition mk :: "bdd \<Rightarrow> nat \<Rightarrow> bdd \<Rightarrow> bdd" where
  "mk l v h = (if l = h then l else Branch l v h)"

fun apply_op :: "(bool \<Rightarrow> bool \<Rightarrow> bool) \<Rightarrow> bdd \<Rightarrow> bdd \<Rightarrow> bdd" where
  "apply_op f (Leaf a) (Leaf b) = Leaf (f a b)"
| "apply_op f (Leaf a) (Branch l v h) = mk (apply_op f (Leaf a) l) v (apply_op f (Leaf a) h)"
| "apply_op f (Branch l v h) (Leaf b) = mk (apply_op f l (Leaf b)) v (apply_op f h (Leaf b))"
| "apply_op f (Branch l v h) (Branch l' v' h') =
     (if v = v' then mk (apply_op f l l') v (apply_op f h h')
      else if v < v' then
        mk (apply_op f l (Branch l' v' h')) v (apply_op f h (Branch l' v' h'))
      else mk (apply_op f (Branch l v h) l') v' (apply_op f (Branch l v h) h'))"

fun bnot :: "bdd \<Rightarrow> bdd" where
  "bnot (Leaf b) = Leaf (\<not> b)"
| "bnot (Branch l v h) = Branch (bnot l) v (bnot h)"

fun cofactor :: "nat \<Rightarrow> bool \<Rightarrow> bdd \<Rightarrow> bdd" where
  "cofactor x b (Leaf c) = Leaf c"
| "cofactor x b (Branch l v h) =
     (if v = x then (if b then h else l) else mk (cofactor x b l) v (cofactor x b h))"

definition bvar :: "nat \<Rightarrow> bdd" where
  "bvar v = Branch (Leaf False) v (Leaf True)"

fun top_var :: "bdd \<Rightarrow> nat" where
  "top_var (Leaf b) = 0"
| "top_var (Branch l v h) = v"

definition bite :: "bdd \<Rightarrow> bdd \<Rightarrow> bdd \<Rightarrow> bdd" where
  "bite c h l = apply_op (\<or>) (apply_op (\<and>) c h) (apply_op (\<and>) (bnot c) l)"

fun rename_vars :: "(nat \<Rightarrow> nat) \<Rightarrow> bdd \<Rightarrow> bdd" where
  "rename_vars s (Leaf b) = Leaf b"
| "rename_vars s (Branch l v h) = bite (bvar (s v)) (rename_vars s h) (rename_vars s l)"

fun tautology :: "bdd \<Rightarrow> bool" where
  "tautology (Leaf b) = b"
| "tautology (Branch l v h) = (tautology l \<and> tautology h)"

definition bdd_package :: "(mgr, bdd) cudd" where
  "bdd_package =
     \<lparr>cudd_init = Some \<lparr>count = 0, refs = []\<rparr>,
      cudd_newvar = (\<lambda>m. (NodePtr (bvar (count m)), m\<lparr>count := Suc (count m)\<rparr>)),
      cudd_and = (\<lambda>m a b. (NodePtr (apply_op (\<and>) a b), m)),
      cudd_or = (\<lambda>m a b. (NodePtr (apply_op (\<or>) a b), m)),
      cudd_xor = (\<lambda>m a b. (NodePtr (apply_op (\<noteq>) a b), m)),
      cudd_not = bnot,
      cudd_exist = (\<lambda>m a c. (NodePtr (apply_op (\<or>) (cofactor (top_var c) False a)
        (cofactor (top_var c) True a)), m)),
      cudd_swap = (\<lambda>m a xs ys.
        (NodePtr (rename_vars (swap_var (map top_var xs) (map top_var ys)) a), m)),
      cudd_equivdc = (\<lambda>m f g d.
        (if tautology (apply_op (\<or>) d (bnot (apply_op (\<noteq>) f g))) then 1 else 0, m)),
      cudd_zero = (\<lambda>m. Leaf False),
      cudd_ref = (\<lambda>m n. m\<lparr>refs := refs m @ [(True, n)]\<rparr>),
      cudd_deref = (\<lambda>m n. m\<lparr>refs := refs m @ [(False, n)]\<rparr>)\<rparr>"

text \<open>No test is redundant.\<close>

fun reduced :: "bdd \<Rightarrow> bool" where
  "reduced (Leaf b) = True"
| "reduced (Branch l v h) = (l \<noteq> h \<and> reduced l \<and> reduced h)"

definition bdd_repr :: "mgr \<Rightarrow> bdd ptr \<Rightarrow> bfun \<Rightarrow> bool" where
  "bdd_repr m p \<phi> \<longleftrightarrow>
     (\<exists>t. p = NodePtr t \<and> ordered 0 t \<and> reduced t \<and> vars_below (count m) t \<and> \<phi> = beval t)"

definition bdd_ok :: "mgr \<Rightarrow> bool" where
  "bdd_ok m \<longleftrightarrow> True"

section \<open>Each operation computes what it should\<close>

lemma ordered_mono: "ordered n t \<Longrightarrow> k \<le> n \<Longrightarrow> ordered k t"
  by (cases t) auto

lemma vars_below_Suc: "vars_below n t \<Longrightarrow> vars_below (Suc n) t"
  by (induction t) auto

lemma beval_mk [simp]: "beval (mk l v h) e = (if e v then beval h e else beval l e)"
  by (simp add: mk_def)

lemma ordered_mk: "n \<le> v \<Longrightarrow> ordered (Suc v) l \<Longrightarrow> ordered (Suc v) h \<Longrightarrow> ordered n (mk l v h)"
  by (auto simp: mk_def intro: ordered_mono)

lemma vars_below_mk [simp]:
  "v < n \<Longrightarrow> vars_below n l \<Longrightarrow> vars_below n h \<Longrightarrow> vars_below n (mk l v h)"
  by (simp add: mk_def)

lemma beval_apply: "beval (apply_op f a b) e = f (beval a e) (beval b e)"
  by (induction f a b rule: apply_op.induct) auto

lemma ordered_apply: "ordered n a \<Longrightarrow> ordered n b \<Longrightarrow> ordered n (apply_op f a b)"
proof (induction f a b arbitrary: n rule: apply_op.induct)
  case (4 f l v h l' v' h')
  consider "v = v'" | "v < v'" | "v' < v" by linarith
  then show ?case
  proof cases
    case 1
    with 4 show ?thesis by (auto intro!: ordered_mk)
  next
    case 2
    with 4 have "ordered (Suc v) (Branch l' v' h')" by simp
    with 2 4 show ?thesis by (auto intro!: ordered_mk)
  next
    case 3
    with 4 have "ordered (Suc v') (Branch l v h)" by simp
    with 3 4 show ?thesis by (auto intro!: ordered_mk)
  qed
qed (auto intro!: ordered_mk)

lemma vars_below_apply: "vars_below n a \<Longrightarrow> vars_below n b \<Longrightarrow> vars_below n (apply_op f a b)"
  by (induction f a b rule: apply_op.induct) auto

lemma beval_bnot [simp]: "beval (bnot t) e = (\<not> beval t e)"
  by (induction t) auto

lemma ordered_bnot: "ordered n t \<Longrightarrow> ordered n (bnot t)"
  by (induction t arbitrary: n) auto

lemma vars_below_bnot: "vars_below n t \<Longrightarrow> vars_below n (bnot t)"
  by (induction t) auto

lemma ordered_cofactor: "ordered n t \<Longrightarrow> ordered n (cofactor x b t)"
proof (induction t arbitrary: n)
  case (Branch l v h)
  then show ?case
    by (auto intro!: ordered_mk intro: ordered_mono)
qed simp

lemma vars_below_cofactor: "vars_below n t \<Longrightarrow> vars_below n (cofactor x b t)"
  by (induction t) auto

lemma beval_unused: "ordered n t \<Longrightarrow> x < n \<Longrightarrow> beval t (e(x := b)) = beval t e"
  by (induction t arbitrary: n) auto

lemma beval_cofactor: "ordered n t \<Longrightarrow> beval (cofactor x b t) e = beval t (e(x := b))"
proof (induction t arbitrary: n)
  case (Branch l v h)
  show ?case
  proof (cases "v = x")
    case True
    with Branch.prems show ?thesis
      using beval_unused [of "Suc x" l x e b] beval_unused [of "Suc x" h x e b]
      by (simp del: fun_upd_apply) (simp del: fun_upd_apply add: fun_upd_same)
  next
    case False
    have "beval (cofactor x b l) e = beval l (e(x := b))"
      "beval (cofactor x b h) e = beval h (e(x := b))"
      using Branch.prems by (auto intro!: Branch.IH [of "Suc v"] simp del: fun_upd_apply)
    with False show ?thesis
      by (simp del: fun_upd_apply) (simp add: fun_upd_other)
  qed
qed simp

lemma beval_bvar [simp]: "beval (bvar v) e = e v"
  by (simp add: bvar_def)

lemma ordered_bvar [simp]: "ordered 0 (bvar v)"
  by (simp add: bvar_def)

lemma vars_below_bvar [simp]: "vars_below n (bvar v) \<longleftrightarrow> v < n"
  by (simp add: bvar_def)

lemma beval_rename: "beval (rename_vars s t) e = beval t (\<lambda>v. e (s v))"
  by (induction t) (auto simp: bite_def beval_apply)

lemma ordered_rename: "ordered 0 (rename_vars s t)"
  by (induction t) (auto simp: bite_def intro!: ordered_apply ordered_bnot)

lemma vars_below_rename:
  "vars_below n t \<Longrightarrow> \<forall>v < n. s v < n \<Longrightarrow> vars_below n (rename_vars s t)"
  by (induction t) (auto simp: bite_def intro!: vars_below_apply vars_below_bnot)

lemma tautology_iff: "ordered n t \<Longrightarrow> tautology t \<longleftrightarrow> (\<forall>e. beval t e)"
proof (induction t arbitrary: n)
  case (Branch l v h)
  have "(\<forall>e. beval (Branch l v h) e) \<longleftrightarrow> (\<forall>e. beval l e) \<and> (\<forall>e. beval h e)"
  proof
    assume all: "\<forall>e. beval (Branch l v h) e"
    show "(\<forall>e. beval l e) \<and> (\<forall>e. beval h e)"
    proof (intro conjI allI)
      fix e
      show "beval l e"
        using all [rule_format, of "e(v := False)"] beval_unused [of "Suc v" l v e False] Branch.prems
        by simp
      show "beval h e"
        using all [rule_format, of "e(v := True)"] beval_unused [of "Suc v" h v e True] Branch.prems
        by simp
    qed
  qed simp
  moreover have "tautology l \<longleftrightarrow> (\<forall>e. beval l e)" "tautology h \<longleftrightarrow> (\<forall>e. beval h e)"
    using Branch.prems by (auto intro!: Branch.IH [of "Suc v"])
  ultimately show ?case by simp
qed auto

lemma beval_support: "vars_below n t \<Longrightarrow> (\<And>v. v < n \<Longrightarrow> e v = e' v) \<Longrightarrow> beval t e = beval t e'"
  by (induction t) auto

lemma reduced_mk [simp]: "reduced l \<Longrightarrow> reduced h \<Longrightarrow> reduced (mk l v h)"
  by (simp add: mk_def)

lemma reduced_apply: "reduced a \<Longrightarrow> reduced b \<Longrightarrow> reduced (apply_op f a b)"
  by (induction f a b rule: apply_op.induct) auto

lemma bnot_inject [simp]: "bnot a = bnot b \<longleftrightarrow> a = b"
proof (induction a arbitrary: b)
  case (Leaf c)
  then show ?case by (cases b) auto
next
  case (Branch l v h)
  then show ?case by (cases b) auto
qed

lemma reduced_bnot: "reduced t \<Longrightarrow> reduced (bnot t)"
  by (induction t) auto

lemma reduced_cofactor: "reduced t \<Longrightarrow> reduced (cofactor x b t)"
  by (induction t) auto

lemma reduced_bvar [simp]: "reduced (bvar v)"
  by (simp add: bvar_def)

lemma reduced_rename: "reduced (rename_vars s t)"
  by (induction t) (auto simp: bite_def intro!: reduced_apply reduced_bnot)

lemma branch_children:
  assumes "ordered n (Branch l v h)"
  shows "beval l e = beval (Branch l v h) (e(v := False))"
    and "beval h e = beval (Branch l v h) (e(v := True))"
  using assms beval_unused [of "Suc v" l v e False] beval_unused [of "Suc v" h v e True] by auto

lemma canonical:
  "ordered n a \<Longrightarrow> ordered n b \<Longrightarrow> reduced a \<Longrightarrow> reduced b \<Longrightarrow> beval a = beval b \<Longrightarrow> a = b"
proof (induction "size a + size b" arbitrary: a b n rule: less_induct)
  case less
  have one_sided: False
    if t: "ordered n (Branch l v h)" "reduced (Branch l v h)" and u: "ordered (Suc v) u" "reduced u"
      and eq: "beval (Branch l v h) = beval u"
      and sz: "size l + size u < size a + size b" "size h + size u < size a + size b"
    for l v h u n
  proof -
    have "beval l = beval u" "beval h = beval u"
      using branch_children [OF t(1)] beval_unused [OF u(1), of v] eq by (auto simp: fun_eq_iff)
    then have "l = u" "h = u"
      using less(1) [of l u "Suc v"] less(1) [of h u "Suc v"] t u sz by auto
    with t(2) show False by simp
  qed
  show ?case
  proof (cases a)
    case a: (Leaf c)
    show ?thesis
    proof (cases b)
      case (Leaf d)
      with a less.prems(5) show ?thesis by (auto simp: fun_eq_iff)
    next
      case (Branch l v h)
      then have False
        using one_sided [of n l v h a] less.prems a by auto
      then show ?thesis ..
    qed
  next
    case a: (Branch l v h)
    show ?thesis
    proof (cases b)
      case (Leaf d)
      then have False
        using one_sided [of n l v h b] less.prems a by auto
      then show ?thesis ..
    next
      case b: (Branch l' v' h')
      consider "v < v'" | "v' < v" | "v = v'" by linarith
      then show ?thesis
      proof cases
        case 1
        then have False
          using one_sided [of n l v h b] less.prems a b by auto
        then show ?thesis ..
      next
        case 2
        then have False
          using one_sided [of n l' v' h' a] less.prems a b by auto
        then show ?thesis ..
      next
        case 3
        have "beval (Branch l v h) = beval (Branch l' v h')"
          using less.prems(5) a b 3 by simp
        then have "beval l = beval l'" "beval h = beval h'"
          using branch_children [of n l v h] branch_children [of n l' v h'] less.prems(1,2) a b 3
          by (auto simp: fun_eq_iff simp del: beval.simps)
        then have "l = l'" "h = h'"
          using less(1) [of l l' "Suc v"] less(1) [of h h' "Suc v"] less.prems a b 3 by auto
        with 3 a b show ?thesis by simp
      qed
    qed
  qed
qed

section \<open>The package keeps the promises\<close>

lemma bdd_repr_NodePtr:
  "bdd_repr m (NodePtr t) \<phi> \<longleftrightarrow>
     ordered 0 t \<and> reduced t \<and> vars_below (count m) t \<and> \<phi> = beval t"
  by (simp add: bdd_repr_def)

lemma bdd_repr_var: "bdd_repr m (NodePtr t) (\<lambda>e. e v) \<Longrightarrow> t = bvar v"
proof -
  assume "bdd_repr m (NodePtr t) (\<lambda>e. e v)"
  then have "ordered 0 t" "reduced t" "beval t = beval (bvar v)"
    by (auto simp: bdd_repr_NodePtr fun_eq_iff)
  then show ?thesis
    by (intro canonical [of 0]) auto
qed

lemma bdd_repr_vars:
  "list_all2 (\<lambda>x v. bdd_repr m (NodePtr x) (\<lambda>e. e v)) xs vs \<Longrightarrow> map top_var xs = vs"
proof (induction xs vs rule: list_all2_induct)
  case (Cons x xs v vs)
  then show ?case
    using bdd_repr_var [of m x v] by (simp add: bvar_def)
qed simp

lemma swap_var_below:
  assumes "\<forall>v \<in> set (vx @ vy). v < n" "v < n"
  shows "swap_var vx vy v < n"
proof -
  have "w < n" if "map_of (zip vx vy) v = Some w" for w
    using that assms(1) by (auto dest!: map_of_SomeD set_zip_rightD)
  moreover have "w < n" if "map_of (zip vy vx) v = Some w" for w
    using that assms(1) by (auto dest!: map_of_SomeD set_zip_rightD)
  ultimately show ?thesis
    using assms(2) by (auto simp: swap_var_def split: option.splits)
qed

lemma bdd_extends_refl [simp]: "extends bdd_ok bdd_repr count m m"
  by (simp add: extends_def bdd_ok_def)

lemma bdd_repr_refs [simp]: "bdd_repr (m\<lparr>refs := r\<rparr>) p \<phi> \<longleftrightarrow> bdd_repr m p \<phi>"
  by (simp add: bdd_repr_def)

lemma bdd_repr_apply:
  "bdd_repr m (NodePtr a) \<phi> \<Longrightarrow> bdd_repr m (NodePtr b) \<psi> \<Longrightarrow>
   bdd_repr m (NodePtr (apply_op f a b)) (\<lambda>e. f (\<phi> e) (\<psi> e))"
  by (auto simp: bdd_repr_NodePtr ordered_apply vars_below_apply reduced_apply beval_apply)

lemma bdd_repr_bnot:
  "bdd_repr m (NodePtr a) \<phi> \<Longrightarrow> bdd_repr m (NodePtr (bnot a)) (\<lambda>e. \<not> \<phi> e)"
  by (auto simp: bdd_repr_NodePtr ordered_bnot vars_below_bnot reduced_bnot)

lemma bdd_repr_cofactor:
  "bdd_repr m (NodePtr a) \<phi> \<Longrightarrow> bdd_repr m (NodePtr (cofactor v b a)) (\<lambda>e. \<phi> (e(v := b)))"
  by (auto simp: bdd_repr_NodePtr ordered_cofactor vars_below_cofactor reduced_cofactor
      beval_cofactor)

lemma bdd_repr_exist:
  assumes "bdd_repr m (NodePtr a) \<phi>"
  shows "bdd_repr m (NodePtr (apply_op (\<or>) (cofactor v False a) (cofactor v True a)))
    (\<lambda>e. \<exists>b. \<phi> (e(v := b)))"
proof -
  have "(\<lambda>e. \<exists>b. \<phi> (e(v := b))) = (\<lambda>e. \<phi> (e(v := False)) \<or> \<phi> (e(v := True)))"
    by (rule ext) (metis (full_types))
  then show ?thesis
    using bdd_repr_apply [OF bdd_repr_cofactor bdd_repr_cofactor, OF assms assms] by simp
qed

lemma bdd_repr_rename:
  "bdd_repr m (NodePtr a) \<phi> \<Longrightarrow> \<forall>v < count m. s v < count m \<Longrightarrow>
   bdd_repr m (NodePtr (rename_vars s a)) (\<lambda>e. \<phi> (\<lambda>v. e (s v)))"
  by (auto simp: bdd_repr_NodePtr ordered_rename reduced_rename vars_below_rename beval_rename)

lemma bdd_equiv:
  assumes "bdd_repr m (NodePtr f) \<phi>" "bdd_repr m (NodePtr g) \<psi>" "bdd_repr m (NodePtr d) \<delta>"
  shows "tautology (apply_op (\<or>) d (bnot (apply_op (\<noteq>) f g))) \<longleftrightarrow>
    (\<forall>e. \<not> \<delta> e \<longrightarrow> \<phi> e = \<psi> e)"
proof -
  have "bdd_repr m (NodePtr (apply_op (\<or>) d (bnot (apply_op (\<noteq>) f g))))
      (\<lambda>e. \<delta> e \<or> \<not> (\<phi> e \<noteq> \<psi> e))"
    by (rule bdd_repr_apply [OF assms(3) bdd_repr_bnot [OF bdd_repr_apply [OF assms(1,2)]]])
  then show ?thesis
    by (auto simp: bdd_repr_NodePtr tautology_iff [of 0] fun_eq_iff)
qed

interpretation bdd: cudd_package bdd_package bdd_ok bdd_repr count
proof (unfold_locales, goal_cases)
  case 1
  show ?case by (simp add: bdd_package_def bdd_ok_def)
next
  case (2 m p \<phi>)
  then show ?case by (auto simp: bdd_repr_def)
next
  case (3 m p \<phi> \<psi>)
  then show ?case by (auto simp: bdd_repr_def)
next
  case (4 m p \<phi> e e')
  then obtain t where "vars_below (count m) t" "\<phi> = beval t"
    by (auto simp: bdd_repr_def)
  with 4(2) show ?case
    using beval_support [of "count m" t e e'] by simp
next
  case (5 m p m')
  then show ?case
    by (auto simp: bdd_package_def bdd_ok_def bdd_repr_def fun_eq_iff vars_below_Suc)
next
  case (6 m a \<phi> b \<psi> p m')
  then show ?case
    using bdd_repr_apply [of m a \<phi> b \<psi> "(\<and>)"] by (auto simp: bdd_package_def)
next
  case (7 m a \<phi> b \<psi> p m')
  then show ?case
    using bdd_repr_apply [of m a \<phi> b \<psi> "(\<or>)"] by (auto simp: bdd_package_def)
next
  case (8 m a \<phi> b \<psi> p m')
  then show ?case
    using bdd_repr_apply [of m a \<phi> b \<psi> "(\<noteq>)"] by (auto simp: bdd_package_def)
next
  case (9 m a \<phi>)
  then show ?case by (simp add: bdd_package_def bdd_repr_bnot)
next
  case (10 m a \<phi> c v p m')
  then have "c = bvar v" by (intro bdd_repr_var)
  with 10 show ?case
    using bdd_repr_exist [of m a \<phi> v] by (auto simp: bdd_package_def bvar_def)
next
  case (11 m a \<phi> xs vx ys vy p m')
  have "map top_var xs = vx" "map top_var ys = vy"
    using 11(3,4) by (auto intro: bdd_repr_vars)
  moreover have "\<forall>v < count m. swap_var vx vy v < count m"
    using 11(7) swap_var_below by blast
  ultimately show ?case
    using 11 bdd_repr_rename [of m a \<phi> "swap_var vx vy"] by (auto simp: bdd_package_def)
next
  case (12 m f \<phi> g \<psi> d \<delta> r m')
  then show ?case
    using bdd_equiv [of m f \<phi> g \<psi> d \<delta>] by (auto simp: bdd_package_def split: if_splits)
next
  case (13 m)
  then show ?case
    by (simp add: bdd_package_def bdd_repr_NodePtr fun_eq_iff)
next
  case (14 m n \<phi>)
  then show ?case
    by (simp add: bdd_package_def extends_def bdd_ok_def)
qed

end
