(* ===== verification/BddFromPrefix.thy ===== *)
theory BddFromPrefix
  imports Tokenisation DdStack Reference_Package
begin

text \<open>
  \<open>bddFromPrefix.c\<close>: the evaluator that turns the tokens of a postfix Boolean formula into a
  decision diagram, creating a diagram variable for every name it has not seen.

  The block \<open>seenVars\<close> with its fill level \<open>*numSeenVars\<close> is the list \<open>vars\<close> of the variables stored
  so far; \<open>cap\<close> is the number of entries the caller allocated, which the C function cannot see:
  storing entry number \<open>cap\<close> is undefined. \<open>recentNode\<close> starts uninitialised; its first value is
  never used, because without a token the stack check fails, and the model starts it as NULL.

  The specification is the type \<open>bexp\<close> of Boolean formulae with its postfix printer \<open>rpn\<close>: the
  function maps \<open>rpn f\<close> to a node for \<open>f\<close>, and every token sequence that leaves the stack with
  anything but one element ends the program with the message of the code.
\<close>

section \<open>The code\<close>

definition isPrimedToken :: "string \<Rightarrow> stop + bool" where
  "isPrimedToken token =
     (if token = [] then Inl (Undefined ''character before the string'')
      else Inr (token ! (length token - 1) = CHR 0x27))"

text \<open>Look for a name among the existing variables.\<close>

fun find_seen :: "'n augmentedDdVar list \<Rightarrow> string \<Rightarrow> 'n augmentedDdVar option" where
  "find_seen [] tok = None"
| "find_seen (v # vs) tok =
     (if strncmp_eq MAX_VAR_LEN (var_name v) tok then Some v else find_seen vs tok)"

type_synonym 'n build_state = "'n ddStack \<times> 'n augmentedDdVar list \<times> 'n ptr"

text \<open>Pop two operands, combine them.\<close>

definition binary_op ::
  "('n ptr \<Rightarrow> 'n ptr \<Rightarrow> ('m, 'n ptr) cm) \<Rightarrow> 'n ddStack \<Rightarrow> ('m, 'n ptr \<times> 'n ddStack) cm" where
  "binary_op f stack =
     cbind (clift (ddStack_pop stack)) (\<lambda>(a, stack).
     cbind (clift (ddStack_pop stack)) (\<lambda>(b, stack).
     cbind (f a b) (\<lambda>r. creturn (r, stack))))"

definition unary_op ::
  "('n ptr \<Rightarrow> ('m, 'n ptr) cm) \<Rightarrow> 'n ddStack \<Rightarrow> ('m, 'n ptr \<times> 'n ddStack) cm" where
  "unary_op f stack =
     cbind (clift (ddStack_pop stack)) (\<lambda>(a, stack).
     cbind (f a) (\<lambda>r. creturn (r, stack)))"

definition bdd_iff :: "('m, 'n) cudd \<Rightarrow> 'n ptr \<Rightarrow> 'n ptr \<Rightarrow> ('m, 'n ptr) cm" where
  "bdd_iff C a b = cbind (Cudd_bddXor C a b) (\<lambda>x. creturn (Cudd_Not C x))"

text \<open>The branch for a name: the node of the existing variable, or a new variable that is
  referenced and stored.\<close>

definition variable_node ::
  "('m, 'n) cudd \<Rightarrow> nat \<Rightarrow> string \<Rightarrow> 'n augmentedDdVar list \<Rightarrow>
   ('m, 'n ptr \<times> 'n augmentedDdVar list) cm" where
  "variable_node C cap tok vars =
     (case find_seen vars tok of
        Some v \<Rightarrow> creturn (var_node v, vars)
      | None \<Rightarrow>
          cbind (Cudd_bddNewVar C) (\<lambda>newNode.
          cbind (clift (strcpy_into MAX_VAR_LEN tok)) (\<lambda>name.
          cbind (Cudd_Ref C newNode) (\<lambda>_.
          cbind (clift (isPrimedToken tok)) (\<lambda>primed.
            if length vars < cap then
              creturn (newNode,
                vars @ [\<lparr>parity = primed, var_name = name, var_node = newNode\<rparr>])
            else cstop (Undefined ''write past existingVars''))))))"

text \<open>One token: compute \<open>recentNode\<close>, then push it (the result of the push is ignored).\<close>

definition bddFromPrefix_step ::
  "('m, 'n) cudd \<Rightarrow> nat \<Rightarrow> string \<Rightarrow> 'n build_state \<Rightarrow> ('m, 'n build_state) cm" where
  "bddFromPrefix_step C cap tok s = (case s of (stack, vars, _) \<Rightarrow>
     cbind
       (if is_op tok OP_OR then
          cbind (binary_op (Cudd_bddOr C) stack) (\<lambda>(r, stack). creturn (r, stack, vars))
        else if is_op tok OP_AND then
          cbind (binary_op (Cudd_bddAnd C) stack) (\<lambda>(r, stack). creturn (r, stack, vars))
        else if is_op tok OP_XOR then
          cbind (binary_op (Cudd_bddXor C) stack) (\<lambda>(r, stack). creturn (r, stack, vars))
        else if is_op tok OP_IFF then
          cbind (binary_op (bdd_iff C) stack) (\<lambda>(r, stack). creturn (r, stack, vars))
        else if is_op tok OP_NOT then
          cbind (unary_op (\<lambda>a. creturn (Cudd_Not C a)) stack)
            (\<lambda>(r, stack). creturn (r, stack, vars))
        else
          cbind (variable_node C cap tok vars) (\<lambda>(r, vars). creturn (r, stack, vars)))
       (\<lambda>(recentNode, stack, vars).
     cbind (clift (ddStack_push stack recentNode)) (\<lambda>(_, stack).
       creturn (stack, vars, recentNode))))"

fun bddFromPrefix_loop ::
  "('m, 'n) cudd \<Rightarrow> nat \<Rightarrow> string list \<Rightarrow> 'n build_state \<Rightarrow> ('m, 'n build_state) cm" where
  "bddFromPrefix_loop C cap [] s = creturn s"
| "bddFromPrefix_loop C cap (t # ts) s =
     cbind (bddFromPrefix_step C cap t s) (bddFromPrefix_loop C cap ts)"

definition bddFromPrefix ::
  "('m, 'n) cudd \<Rightarrow> nat \<Rightarrow> string list \<Rightarrow> 'n augmentedDdVar list \<Rightarrow>
   ('m, 'n ptr \<times> 'n augmentedDdVar list) cm" where
  "bddFromPrefix C cap tokens seenVars =
     (let stack = ddStack_init (ddStack_malloc (length tokens)) (length tokens) in
      cbind (bddFromPrefix_loop C cap tokens (stack, seenVars, NULL))
        (\<lambda>(stack, vars, recentNode).
      if dd_top stack \<noteq> 1 then cstop (Exit 3 ''Malformed expression. Quitting...'')
      else creturn (recentNode, vars)))"

section \<open>Boolean formulae and their postfix form\<close>

datatype bexp =
    BVar string
  | BNot bexp
  | BOr bexp bexp
  | BAnd bexp bexp
  | BXor bexp bexp
  | BIff bexp bexp

fun rpn :: "bexp \<Rightarrow> string list" where
  "rpn (BVar x) = [x]"
| "rpn (BNot a) = rpn a @ [OP_NOT]"
| "rpn (BOr a b) = rpn a @ rpn b @ [OP_OR]"
| "rpn (BAnd a b) = rpn a @ rpn b @ [OP_AND]"
| "rpn (BXor a b) = rpn a @ rpn b @ [OP_XOR]"
| "rpn (BIff a b) = rpn a @ rpn b @ [OP_IFF]"

fun bsem :: "bexp \<Rightarrow> (string \<Rightarrow> bool) \<Rightarrow> bool" where
  "bsem (BVar x) \<rho> = \<rho> x"
| "bsem (BNot a) \<rho> = (\<not> bsem a \<rho>)"
| "bsem (BOr a b) \<rho> = (bsem a \<rho> \<or> bsem b \<rho>)"
| "bsem (BAnd a b) \<rho> = (bsem a \<rho> \<and> bsem b \<rho>)"
| "bsem (BXor a b) \<rho> = (bsem a \<rho> \<noteq> bsem b \<rho>)"
| "bsem (BIff a b) \<rho> = (bsem a \<rho> = bsem b \<rho>)"

text \<open>The names of a formula in the order of its tokens.\<close>

fun bvars :: "bexp \<Rightarrow> string list" where
  "bvars (BVar x) = [x]"
| "bvars (BNot a) = bvars a"
| "bvars (BOr a b) = bvars a @ bvars b"
| "bvars (BAnd a b) = bvars a @ bvars b"
| "bvars (BXor a b) = bvars a @ bvars b"
| "bvars (BIff a b) = bvars a @ bvars b"

definition bool_ops :: "string list" where
  "bool_ops = [OP_OR, OP_AND, OP_XOR, OP_IFF, OP_NOT]"

text \<open>A token this evaluator takes for a name.\<close>

definition name_ok :: "string \<Rightarrow> bool" where
  "name_ok x \<longleftrightarrow> x \<noteq> [] \<and> length x < MAX_VAR_LEN \<and> x \<notin> set bool_ops"

definition primed :: "string \<Rightarrow> bool" where
  "primed x \<longleftrightarrow> x \<noteq> [] \<and> last x = CHR 0x27"

lemma bsem_cong: "(\<And>x. x \<in> set (bvars f) \<Longrightarrow> \<rho> x = \<sigma> x) \<Longrightarrow> bsem f \<rho> = bsem f \<sigma>"
  by (induction f) auto

lemma rpn_nonempty [simp]: "rpn f \<noteq> []"
  by (induction f) auto

lemma length_rpn_pos [simp]: "0 < length (rpn f)"
  by simp

lemma isPrimedToken_primed: "x \<noteq> [] \<Longrightarrow> isPrimedToken x = Inr (primed x)"
  by (simp add: isPrimedToken_def primed_def last_conv_nth)

lemma is_bool_op [simp]:
  "is_op tok OP_OR \<longleftrightarrow> tok = OP_OR" "is_op tok OP_AND \<longleftrightarrow> tok = OP_AND"
  "is_op tok OP_XOR \<longleftrightarrow> tok = OP_XOR" "is_op tok OP_IFF \<longleftrightarrow> tok = OP_IFF"
  "is_op tok OP_NOT \<longleftrightarrow> tok = OP_NOT"
  by (simp_all add: is_op_eq operators_def)

lemma find_seen_Some: "find_seen vs tok = Some v \<Longrightarrow> length tok < MAX_VAR_LEN \<Longrightarrow>
    v \<in> set vs \<and> var_name v = tok"
  by (induction vs) (auto simp: strncmp_eq_short split: if_splits)

lemma find_seen_None: "length tok < MAX_VAR_LEN \<Longrightarrow>
    find_seen vs tok = None \<longleftrightarrow> tok \<notin> set (map var_name vs)"
  by (induction vs) (auto simp: strncmp_eq_short)

lemma loop_append:
  "bddFromPrefix_loop C cap (xs @ ys) s =
     cbind (bddFromPrefix_loop C cap xs s) (bddFromPrefix_loop C cap ys)"
proof (induction xs arbitrary: s)
  case (Cons x xs)
  then have "bddFromPrefix_loop C cap (xs @ ys) =
      (\<lambda>s. cbind (bddFromPrefix_loop C cap xs s) (bddFromPrefix_loop C cap ys))"
    by (rule ext)
  then show ?case
    by (simp only: append_Cons bddFromPrefix_loop.simps cbind_cbind)
qed simp

text \<open>The step of an operator: combine, then push.\<close>

definition push_node ::
  "'n augmentedDdVar list \<Rightarrow> ('m, 'n ptr \<times> 'n ddStack) cm \<Rightarrow> ('m, 'n build_state) cm" where
  "push_node vars c = cbind c (\<lambda>(r, stack).
     cbind (clift (ddStack_push stack r)) (\<lambda>(_, stack). creturn (stack, vars, r)))"

lemma step_operator:
  "bddFromPrefix_step C cap OP_OR (st, vars, r) = push_node vars (binary_op (Cudd_bddOr C) st)"
  "bddFromPrefix_step C cap OP_AND (st, vars, r) = push_node vars (binary_op (Cudd_bddAnd C) st)"
  "bddFromPrefix_step C cap OP_XOR (st, vars, r) = push_node vars (binary_op (Cudd_bddXor C) st)"
  "bddFromPrefix_step C cap OP_IFF (st, vars, r) = push_node vars (binary_op (bdd_iff C) st)"
  "bddFromPrefix_step C cap OP_NOT (st, vars, r) =
     push_node vars (unary_op (\<lambda>a. creturn (Cudd_Not C a)) st)"
  by (simp_all add: bddFromPrefix_step_def push_node_def cbind_cbind op_defs split_def is_op_def
      MAX_OP_LEN_def numeral_3_eq_3)

lemma step_name:
  "x \<notin> set bool_ops \<Longrightarrow> bddFromPrefix_step C cap x (st, vars, r) =
     cbind (variable_node C cap x vars)
       (\<lambda>(r, vars). push_node vars (creturn (r, st)))"
  by (simp add: bddFromPrefix_step_def push_node_def cbind_cbind bool_ops_def split_def)

lemma runs_binary_op:
  assumes "dds.holds st (a # b # xs) n"
    and "\<And>st'. dds.holds st' xs n \<Longrightarrow> runs (f a b) m (\<lambda>r m'. Q (r, st') m')"
  shows "runs (binary_op f st) m Q"
proof -
  obtain st1 st2 where "ddStack_pop st = Inr (a, st1)" "ddStack_pop st1 = Inr (b, st2)"
    and "dds.holds st2 xs n"
    using dds.holds_pop2 [OF assms(1)] by blast
  then show ?thesis
    using assms(2) [of st2] by (auto simp: binary_op_def intro!: run_intros)
qed

lemma runs_unary_op:
  assumes "dds.holds st (a # xs) n"
    and "\<And>st'. dds.holds st' xs n \<Longrightarrow> runs (f a) m (\<lambda>r m'. Q (r, st') m')"
  shows "runs (unary_op f st) m Q"
proof -
  obtain st1 where "ddStack_pop st = Inr (a, st1)" "dds.holds st1 xs n"
    using dds.holds_pop [OF assms(1)] by blast
  then show ?thesis
    using assms(2) [of st1] by (auto simp: unary_op_def intro!: run_intros)
qed

lemma runs_push_node:
  assumes "runs c m (\<lambda>(r, st) m'. dds.holds st xs n \<and> Q r m')" and "length xs < n"
  shows "runs (push_node vars c) m
    (\<lambda>(st, vars', r) m'. dds.holds st (r # xs) n \<and> vars' = vars \<and> Q r m')"
  unfolding push_node_def
proof (rule runs_bind_mono [OF assms(1)], clarsimp)
  fix r st m'
  assume "dds.holds st xs n" and "Q r m'"
  then show "runs (cbind (clift (ddStack_push st r)) (\<lambda>(_, st). creturn (st, vars, r))) m'
      (\<lambda>(st, vars', r) m'. dds.holds st (r # xs) n \<and> vars' = vars \<and> Q r m')"
    using dds.holds_push [of st xs n r] assms(2) by (auto intro!: run_intros)
qed

section \<open>The table of variables\<close>

text \<open>The position of a name: the number of the diagram variable that stands for it.\<close>

definition pos :: "string list \<Rightarrow> string \<Rightarrow> nat" where
  "pos names x = length (takeWhile (\<lambda>y. y \<noteq> x) names)"

lemma pos_less: "x \<in> set names \<Longrightarrow> pos names x < length names"
  unfolding pos_def by (induction names) auto

lemma nth_pos: "x \<in> set names \<Longrightarrow> names ! pos names x = x"
  unfolding pos_def by (induction names) auto

lemma pos_append: "x \<in> set names \<Longrightarrow> pos (names @ ws) x = pos names x"
  unfolding pos_def by (induction names) auto

lemma pos_snoc: "x \<notin> set names \<Longrightarrow> pos (names @ [x]) x = length names"
  unfolding pos_def by (induction names) auto

lemma pos_nth: "distinct names \<Longrightarrow> i < length names \<Longrightarrow> pos names (names ! i) = i"
  by (metis nth_eq_iff_index_eq nth_mem nth_pos pos_less)

text \<open>Entry \<open>i\<close> of \<open>existingVars\<close> is diagram variable \<open>i\<close>, the names differ, and the parity flag
  tells whether the name ends in a prime.\<close>

definition var_table ::
  "('m \<Rightarrow> 'n ptr \<Rightarrow> bfun \<Rightarrow> bool) \<Rightarrow> ('m \<Rightarrow> nat) \<Rightarrow> 'm \<Rightarrow> 'n augmentedDdVar list \<Rightarrow> bool" where
  "var_table repr nvars m vars \<longleftrightarrow>
     nvars m = length vars \<and>
     (\<forall>i < length vars. repr m (var_node (vars ! i)) (\<lambda>e. e i)) \<and>
     distinct (map var_name vars) \<and>
     (\<forall>v \<in> set vars. name_ok (var_name v) \<and> parity v = primed (var_name v))"

definition formula_fun :: "'n augmentedDdVar list \<Rightarrow> bexp \<Rightarrow> bfun" where
  "formula_fun vars f = (\<lambda>e. bsem f (\<lambda>x. e (pos (map var_name vars) x)))"

lemma formula_fun_extend:
  "set (bvars f) \<subseteq> set (map var_name vars) \<Longrightarrow>
   formula_fun (vars @ ws) f = formula_fun vars f"
  unfolding formula_fun_def
  by (rule ext, rule bsem_cong) (auto simp: pos_append)

definition grows :: "('m \<Rightarrow> bool) \<Rightarrow> ('m \<Rightarrow> 'n ptr \<Rightarrow> bfun \<Rightarrow> bool) \<Rightarrow> 'm \<Rightarrow> 'm \<Rightarrow> bool" where
  "grows ok repr m m' \<longleftrightarrow> ok m' \<and> (\<forall>p \<phi>. repr m p \<phi> \<longrightarrow> repr m' p \<phi>)"

lemma grows_trans: "grows ok repr m m' \<Longrightarrow> grows ok repr m' m'' \<Longrightarrow> grows ok repr m m''"
  by (simp add: grows_def)

lemma extends_grows: "extends ok repr nvars m m' \<Longrightarrow> grows ok repr m m'"
  by (simp add: extends_def grows_def)

lemma var_table_extends:
  "extends ok repr nvars m m' \<Longrightarrow> var_table repr nvars m vars \<Longrightarrow> var_table repr nvars m' vars"
  by (simp add: extends_def var_table_def)

section \<open>Correctness\<close>

context cudd_package
begin

lemma runs_bdd_iff:
  "ok m \<Longrightarrow> repr m p \<phi> \<Longrightarrow> repr m q \<psi> \<Longrightarrow>
   (\<And>r m'. ext m m' \<Longrightarrow> repr m' r (\<lambda>e. \<phi> e = \<psi> e) \<Longrightarrow> Q r m') \<Longrightarrow>
   runs (bdd_iff C p q) m Q"
  unfolding bdd_iff_def
proof (rule runs_bind, rule runs_Xor, assumption+)
  fix r m'
  assume Q: "\<And>r m'. ext m m' \<Longrightarrow> repr m' r (\<lambda>e. \<phi> e = \<psi> e) \<Longrightarrow> Q r m'"
    and e: "ext m m'" and r: "repr m' r (\<lambda>e. \<phi> e \<noteq> \<psi> e)"
  have "repr m' (Cudd_Not C r) (\<lambda>e. \<phi> e = \<psi> e)"
    using repr_Not [OF ext_ok [OF e] r] by simp
  then show "runs (creturn (Cudd_Not C r)) m' Q"
    by (intro run_intros Q e)
qed

lemma runs_variable_node:
  assumes "ok m" "var_table repr nvars m vars" "name_ok x"
    and room: "x \<in> set (map var_name vars) \<or> length vars < cap"
  shows "runs (variable_node C cap x vars) m (\<lambda>(r, vars') m'.
    var_table repr nvars m' vars' \<and> (\<exists>ws. vars' = vars @ ws) \<and>
    map var_name vars' = nub (map var_name vars @ [x]) \<and>
    repr m' r (formula_fun vars' (BVar x)) \<and> grows ok repr m m')"
proof (cases "find_seen vars x")
  case (Some v)
  then have v: "v \<in> set vars" "var_name v = x"
    using find_seen_Some assms(3) by (auto simp: name_ok_def)
  then have x: "x \<in> set (map var_name vars)" by auto
  let ?i = "pos (map var_name vars) x"
  have i: "?i < length vars" "map var_name vars ! ?i = x"
    using pos_less [OF x] nth_pos [OF x] by simp_all
  obtain j where j: "j < length vars" "vars ! j = v"
    using v(1) by (auto simp: in_set_conv_nth)
  have "j = ?i"
    using pos_nth [of "map var_name vars" j] assms(2) j v by (simp add: var_table_def)
  then have "repr m (var_node v) (\<lambda>e. e ?i)"
    using assms(2) i(1) j(2) by (auto simp: var_table_def)
  moreover have "nub (map var_name vars @ [x]) = map var_name vars"
    using x assms(2) by (simp add: nub_distinct var_table_def)
  ultimately show ?thesis
    using assms(1,2) Some
    by (auto simp: variable_node_def formula_fun_def grows_def intro!: run_intros)
next
  case None
  then have x: "x \<notin> set (map var_name vars)"
    using find_seen_None assms(3) by (auto simp: name_ok_def)
  with room have room: "length vars < cap" by simp
  have x': "length x < MAX_VAR_LEN" "isPrimedToken x = Inr (primed x)"
    using assms(3) isPrimedToken_primed by (auto simp: name_ok_def)
  let ?v = "\<lambda>r. \<lparr>parity = primed x, var_name = x, var_node = r\<rparr>"
  have post: "var_table repr nvars m'' (vars @ [?v r]) \<and>
      (\<exists>ws. vars @ [?v r] = vars @ ws) \<and>
      map var_name (vars @ [?v r]) = nub (map var_name vars @ [x]) \<and>
      repr m'' r (formula_fun (vars @ [?v r]) (BVar x)) \<and> grows ok repr m m''"
    if "nvars m' = Suc (nvars m)" "repr m' r (\<lambda>e. e (nvars m))"
      "\<And>q \<phi>. repr m q \<phi> \<Longrightarrow> repr m' q \<phi>" "ext m' m''" for r m' m''
  proof -
    have "nvars m = length vars"
      using assms(2) by (simp add: var_table_def)
    moreover have "nub (map var_name vars @ [x]) = map var_name vars @ [x]"
      using x assms(2) by (simp add: nub_distinct var_table_def)
    ultimately show ?thesis
      using that assms(2,3) x
      by (auto simp: var_table_def nth_append less_Suc_eq ext_nvars ext_repr ext_ok grows_def
          formula_fun_def pos_snoc)
  qed
  show ?thesis
    unfolding variable_node_def None option.case
  proof (rule runs_bind, rule runs_NewVar [OF assms(1)])
    fix r m'
    assume new: "ok m'" "nvars m' = Suc (nvars m)" "repr m' r (\<lambda>e. e (nvars m))"
      "\<And>q \<phi>. repr m q \<phi> \<Longrightarrow> repr m' q \<phi>"
    show "runs (cbind (clift (strcpy_into MAX_VAR_LEN x)) (\<lambda>name. cbind (Cudd_Ref C r) (\<lambda>_.
        cbind (clift (isPrimedToken x)) (\<lambda>primed. if length vars < cap
          then creturn (r, vars @ [\<lparr>parity = primed, var_name = name, var_node = r\<rparr>])
          else cstop (Undefined ''write past existingVars'')))))
      m' (\<lambda>(r, vars') m'. var_table repr nvars m' vars' \<and> (\<exists>ws. vars' = vars @ ws) \<and>
        map var_name vars' = nub (map var_name vars @ [x]) \<and>
        repr m' r (formula_fun vars' (BVar x)) \<and> grows ok repr m m')"
      using post [OF new(2-4)] new(1,3) x' room
      by (simp del: nub_snoc map_append) (rule runs_bind, rule runs_Ref [OF new(1,3)],
          simp del: nub_snoc map_append)
  qed
qed

text \<open>What evaluating the tokens of \<open>f\<close> adds to a state.\<close>

definition built ::
  "'m \<Rightarrow> 'n augmentedDdVar list \<Rightarrow> 'n ptr list \<Rightarrow> nat \<Rightarrow> bexp \<Rightarrow> 'n build_state \<Rightarrow> 'm \<Rightarrow> bool" where
  "built m vars xs n f = (\<lambda>(st, vars', r) m'.
     dds.holds st (r # xs) n \<and> var_table repr nvars m' vars' \<and> (\<exists>ws. vars' = vars @ ws) \<and>
     map var_name vars' = nub (map var_name vars @ bvars f) \<and>
     repr m' r (formula_fun vars' f) \<and> grows ok repr m m')"

definition evaluates :: "nat \<Rightarrow> bexp \<Rightarrow> bool" where
  "evaluates cap f \<longleftrightarrow> (\<forall>m vars st xs n r0.
     ok m \<longrightarrow> var_table repr nvars m vars \<longrightarrow> dds.holds st xs n \<longrightarrow>
     length xs + length (rpn f) \<le> n \<longrightarrow> (\<forall>x \<in> set (bvars f). name_ok x) \<longrightarrow>
     length (nub (map var_name vars @ bvars f)) \<le> cap \<longrightarrow>
     runs (bddFromPrefix_loop C cap (rpn f) (st, vars, r0)) m (built m vars xs n f))"

lemma evaluatesD:
  "evaluates cap f \<Longrightarrow> ok m \<Longrightarrow> var_table repr nvars m vars \<Longrightarrow> dds.holds st xs n \<Longrightarrow>
   length xs + length (rpn f) \<le> n \<Longrightarrow> \<forall>x \<in> set (bvars f). name_ok x \<Longrightarrow>
   length (nub (map var_name vars @ bvars f)) \<le> cap \<Longrightarrow>
   runs (bddFromPrefix_loop C cap (rpn f) (st, vars, r0)) m (built m vars xs n f)"
  unfolding evaluates_def by blast

lemma formula_fun_binary:
  "(\<And>\<rho>. bsem f \<rho> = g (bsem a \<rho>) (bsem b \<rho>)) \<Longrightarrow>
   formula_fun vars f = (\<lambda>e. g (formula_fun vars a e) (formula_fun vars b e))"
  by (simp add: formula_fun_def)

lemma evaluates_binary:
  assumes a: "evaluates cap a" and b: "evaluates cap b"
    and f: "rpn f = rpn a @ rpn b @ [opr]" "bvars f = bvars a @ bvars b"
      "\<And>\<rho>. bsem f \<rho> = g (bsem a \<rho>) (bsem b \<rho>)"
    and step: "\<And>st vars r. bddFromPrefix_step C cap opr (st, vars, r) =
      push_node vars (binary_op F st)"
    and F: "\<And>m p q \<phi> \<psi> Q. ok m \<Longrightarrow> repr m p \<phi> \<Longrightarrow> repr m q \<psi> \<Longrightarrow>
      (\<And>r m'. ext m m' \<Longrightarrow> repr m' r (\<lambda>e. g (\<psi> e) (\<phi> e)) \<Longrightarrow> Q r m') \<Longrightarrow> runs (F p q) m Q"
  shows "evaluates cap f"
  unfolding evaluates_def f(1) f(2)
proof (intro allI impI)
  fix m vars st xs n r0
  assume pre: "ok m" "var_table repr nvars m vars" "dds.holds (st :: 'n ddStack) xs n"
    "length xs + length (rpn a @ rpn b @ [opr]) \<le> n" "\<forall>x \<in> set (bvars a @ bvars b). name_ok x"
    "length (nub (map var_name vars @ bvars a @ bvars b)) \<le> cap"
  have "length (nub (map var_name vars @ bvars a)) \<le> cap"
    using pre(6) length_nub_append [of "map var_name vars @ bvars a" "bvars b"] by simp
  then obtain st1 vars1 ra m1 where
    1: "bddFromPrefix_loop C cap (rpn a) (st, vars, r0) m = Inr ((st1, vars1, ra), m1)"
    and A: "built m vars xs n a (st1, vars1, ra) m1"
    using evaluatesD [OF a pre(1-3), of r0] pre(4,5) by (auto elim!: runsE)
  have names1: "nub (map var_name vars1 @ bvars b) = nub (map var_name vars @ bvars a @ bvars b)"
    using A nub_nub_append [of "map var_name vars @ bvars a" "bvars b"] by (simp add: built_def)
  then obtain st2 vars2 rb m2 where
    2: "bddFromPrefix_loop C cap (rpn b) (st1, vars1, ra) m1 = Inr ((st2, vars2, rb), m2)"
    and B: "built m1 vars1 (ra # xs) n b (st2, vars2, rb) m2"
    using evaluatesD [OF b, of m1 vars1 st1 "ra # xs" n ra] A pre(4-6)
    by (auto simp: built_def grows_def elim!: runsE)
  from A B have vars2: "\<exists>ws. vars2 = vars @ ws"
    by (auto simp: built_def)
  have "set (bvars a) \<subseteq> set (map var_name vars1)"
    using A by (simp add: built_def)
  then have "formula_fun vars2 a = formula_fun vars1 a"
    using B formula_fun_extend [of a vars1] by (auto simp: built_def)
  then have ra: "repr m2 ra (formula_fun vars2 a)" and rb: "repr m2 rb (formula_fun vars2 b)"
    using A B by (auto simp: built_def grows_def)
  have "runs (push_node vars2 (binary_op F st2)) m2 (\<lambda>(st, vars', r) m'.
      dds.holds st (r # xs) n \<and> vars' = vars2 \<and> ext m2 m' \<and> repr m' r (formula_fun vars2 f))"
  proof (rule runs_push_node [where Q = "\<lambda>r m'. ext m2 m' \<and> repr m' r (formula_fun vars2 f)"])
    show "runs (binary_op F st2) m2 (\<lambda>(r, st) m'.
        dds.holds st xs n \<and> ext m2 m' \<and> repr m' r (formula_fun vars2 f))"
      using B F [OF _ rb ra] formula_fun_binary [of f g a b vars2, OF f(3)]
      by (intro runs_binary_op [of st2 rb ra xs n]) (auto simp: built_def grows_def)
  qed (use pre(4) in simp)
  then obtain st3 r m3 where
    3: "bddFromPrefix_step C cap opr (st2, vars2, rb) m2 = Inr ((st3, vars2, r), m3)"
    and R: "dds.holds st3 (r # xs) n" "ext m2 m3" "repr m3 r (formula_fun vars2 f)"
    by (auto simp: step elim!: runsE)
  have "built m vars xs n f (st3, vars2, r) m3"
    using R A B names1 vars2 f(2) extends_grows [OF R(2)] var_table_extends [OF R(2)]
    by (auto simp: built_def intro: grows_trans)
  then show "runs (bddFromPrefix_loop C cap (rpn a @ rpn b @ [opr]) (st, vars, r0)) m
      (built m vars xs n f)"
    by (simp add: loop_append runs_def 1 2 3)
qed

lemma evaluates_not:
  assumes a: "evaluates cap a"
  shows "evaluates cap (BNot a)"
  unfolding evaluates_def
proof (intro allI impI)
  fix m vars st xs n r0
  assume pre: "ok m" "var_table repr nvars m vars" "dds.holds (st :: 'n ddStack) xs n"
    "length xs + length (rpn (BNot a)) \<le> n" "\<forall>x \<in> set (bvars (BNot a)). name_ok x"
    "length (nub (map var_name vars @ bvars (BNot a))) \<le> cap"
  then obtain st1 vars1 ra m1 where
    1: "bddFromPrefix_loop C cap (rpn a) (st, vars, r0) m = Inr ((st1, vars1, ra), m1)"
    and A: "built m vars xs n a (st1, vars1, ra) m1"
    using evaluatesD [OF a pre(1-3), of r0] by (auto elim!: runsE)
  have "runs (push_node vars1 (unary_op (\<lambda>a. creturn (Cudd_Not C a)) st1)) m1
      (\<lambda>(st, vars', r) m'. dds.holds st (r # xs) n \<and> vars' = vars1 \<and>
        m' = m1 \<and> r = Cudd_Not C ra)"
    using A pre(4) by (intro runs_push_node runs_unary_op [of st1 ra xs n]) (auto simp: built_def)
  then obtain st2 r where
    2: "bddFromPrefix_step C cap OP_NOT (st1, vars1, ra) m1 = Inr ((st2, vars1, r), m1)"
    and R: "dds.holds st2 (r # xs) n" "r = Cudd_Not C ra"
    by (auto simp: step_operator elim!: runsE)
  have "built m vars xs n (BNot a) (st2, vars1, r) m1"
    using R A repr_Not [of m1 ra "formula_fun vars1 a"]
    by (auto simp: built_def formula_fun_def grows_def)
  then show "runs (bddFromPrefix_loop C cap (rpn (BNot a)) (st, vars, r0)) m
      (built m vars xs n (BNot a))"
    by (simp add: loop_append runs_def 1 2)
qed

lemma evaluates_var: "evaluates cap (BVar x)"
  unfolding evaluates_def
proof (intro allI impI)
  fix m vars st xs n r0
  assume pre: "ok m" "var_table repr nvars m vars" "dds.holds (st :: 'n ddStack) xs n"
    "length xs + length (rpn (BVar x)) \<le> n" "\<forall>y \<in> set (bvars (BVar x)). name_ok y"
    "length (nub (map var_name vars @ bvars (BVar x))) \<le> cap"
  have names: "nub (map var_name vars) = map var_name vars"
    using pre(2) by (simp add: var_table_def nub_distinct)
  then have "x \<in> set (map var_name vars) \<or> length vars < cap"
    using pre(6) by (auto split: if_splits)
  then obtain r vars1 m1 where
    1: "variable_node C cap x vars m = Inr ((r, vars1), m1)"
    and V: "var_table repr nvars m1 vars1" "\<exists>ws. vars1 = vars @ ws"
      "map var_name vars1 = nub (map var_name vars @ [x])"
      "repr m1 r (formula_fun vars1 (BVar x))" "grows ok repr m m1"
    using runs_variable_node [OF pre(1,2), of x cap] pre(5) by (auto elim!: runsE)
  have "runs (push_node vars1 (creturn (r, st))) m1
      (\<lambda>(st, vars', r') m'. dds.holds st (r' # xs) n \<and> vars' = vars1 \<and> m' = m1 \<and> r' = r)"
    using pre(3,4) by (intro runs_push_node) auto
  then obtain st2 where
    2: "push_node vars1 (creturn (r, st)) m1 = Inr ((st2, vars1, r), m1)"
    and R: "dds.holds st2 (r # xs) n"
    by (auto elim!: runsE)
  have "x \<notin> set bool_ops"
    using pre(5) by (simp add: name_ok_def)
  then show "runs (bddFromPrefix_loop C cap (rpn (BVar x)) (st, vars, r0)) m
      (built m vars xs n (BVar x))"
    using V R by (simp add: runs_def 1 2 step_name built_def)
qed

lemma runs_Xor_swapped:
  assumes "ok m" "repr m p \<phi>" "repr m q \<psi>"
    and "\<And>r m'. ext m m' \<Longrightarrow> repr m' r (\<lambda>e. \<psi> e \<noteq> \<phi> e) \<Longrightarrow> Q r m'"
  shows "runs (Cudd_bddXor C p q) m Q"
proof -
  have "(\<lambda>e. \<phi> e \<noteq> \<psi> e) = (\<lambda>e. \<psi> e \<noteq> \<phi> e)"
    by auto
  then show ?thesis
    using runs_Xor [OF assms(1-3), of Q] assms(4) by simp
qed

lemma runs_iff_swapped:
  assumes "ok m" "repr m p \<phi>" "repr m q \<psi>"
    and "\<And>r m'. ext m m' \<Longrightarrow> repr m' r (\<lambda>e. \<psi> e = \<phi> e) \<Longrightarrow> Q r m'"
  shows "runs (bdd_iff C p q) m Q"
proof -
  have "(\<lambda>e. \<phi> e = \<psi> e) = (\<lambda>e. \<psi> e = \<phi> e)"
    by auto
  then show ?thesis
    using runs_bdd_iff [OF assms(1-3), of Q] assms(4) by simp
qed

lemma evaluates_all: "evaluates cap f"
proof (induction f)
  case (BOr a b)
  then show ?case
    by (rule evaluates_binary [where g = "(\<or>)" and opr = OP_OR and F = "Cudd_bddOr C"])
      (simp_all add: step_operator runs_Or disj_commute)
next
  case (BAnd a b)
  then show ?case
    by (rule evaluates_binary [where g = "(\<and>)" and opr = OP_AND and F = "Cudd_bddAnd C"])
      (simp_all add: step_operator runs_And conj_commute)
next
  case (BXor a b)
  then show ?case
    by (rule evaluates_binary [where g = "(\<noteq>)" and opr = OP_XOR and F = "Cudd_bddXor C"],
        simp_all only: rpn.simps bvars.simps bsem.simps step_operator)
      (rule runs_Xor_swapped)
next
  case (BIff a b)
  then show ?case
    by (rule evaluates_binary [where g = "(=)" and opr = OP_IFF and F = "bdd_iff C"],
        simp_all only: rpn.simps bvars.simps bsem.simps step_operator)
      (rule runs_iff_swapped)
qed (auto intro: evaluates_not evaluates_var)

lemma runs_bddFromPrefix:
  assumes "ok m" "var_table repr nvars m vars" "\<forall>x \<in> set (bvars f). name_ok x"
    and "length (nub (map var_name vars @ bvars f)) \<le> cap"
  shows "runs (bddFromPrefix C cap (rpn f) vars) m (\<lambda>(r, vars') m'.
    var_table repr nvars m' vars' \<and> (\<exists>ws. vars' = vars @ ws) \<and>
    map var_name vars' = nub (map var_name vars @ bvars f) \<and>
    repr m' r (formula_fun vars' f) \<and> grows ok repr m m')"
proof -
  have "dds.holds (ddStack_new (length (rpn f)) :: 'n ddStack) [] (length (rpn f))"
    by (rule dds.holds_fresh)
  from evaluatesD [OF evaluates_all assms(1,2) this _ assms(3,4), of NULL]
  have "runs (bddFromPrefix_loop C cap (rpn f) (ddStack_new (length (rpn f)), vars, NULL)) m
      (built m vars [] (length (rpn f)) f)"
    by simp
  then show ?thesis
    unfolding bddFromPrefix_def Let_def ddStack_new_def [symmetric]
    by (rule runs_bind_mono) (auto simp: built_def dd_top_length)
qed

text \<open>A sequence of formulae leaves one node each.\<close>

lemma runs_formulae:
  "ok m \<Longrightarrow> var_table repr nvars m vars \<Longrightarrow> dds.holds (st :: 'n ddStack) xs n \<Longrightarrow>
   length xs + length (concat (map rpn fs)) \<le> n \<Longrightarrow>
   \<forall>x \<in> set (concat (map bvars fs)). name_ok x \<Longrightarrow>
   length (nub (map var_name vars @ concat (map bvars fs))) \<le> cap \<Longrightarrow>
   runs (bddFromPrefix_loop C cap (concat (map rpn fs)) (st, vars, r0)) m
     (\<lambda>(st', vars', r) m'. \<exists>ys. dds.holds st' (ys @ xs) n \<and> length ys = length fs \<and>
        list_all (\<lambda>y. \<exists>\<phi>. repr m' y \<phi>) ys \<and> grows ok repr m m')"
proof (induction fs arbitrary: m vars st xs r0)
  case Nil
  then show ?case by (auto simp: grows_def)
next
  case (Cons f fs)
  have "length (nub (map var_name vars @ bvars f)) \<le> cap"
    using Cons.prems(6)
      length_nub_append [of "map var_name vars @ bvars f" "concat (map bvars fs)"] by simp
  then obtain st1 vars1 r m1 where
    1: "bddFromPrefix_loop C cap (rpn f) (st, vars, r0) m = Inr ((st1, vars1, r), m1)"
    and A: "built m vars xs n f (st1, vars1, r) m1"
    using evaluatesD [OF evaluates_all Cons.prems(1-3), of f cap r0] Cons.prems(4,5)
    by (auto elim!: runsE)
  have "nub (map var_name vars1 @ concat (map bvars fs)) =
      nub (map var_name vars @ concat (map bvars (f # fs)))"
    using A nub_nub_append [of "map var_name vars @ bvars f"] by (simp add: built_def)
  moreover have len: "length (r # xs) + length (concat (map rpn fs)) \<le> n"
    using Cons.prems(4) length_rpn_pos [of f]
    by (simp del: length_rpn_pos length_greater_0_conv)
  ultimately have "runs (bddFromPrefix_loop C cap (concat (map rpn fs)) (st1, vars1, r)) m1
      (\<lambda>(st', vars', r') m'. \<exists>ys. dds.holds st' (ys @ (r # xs)) n \<and> length ys = length fs \<and>
         list_all (\<lambda>y. \<exists>\<phi>. repr m' y \<phi>) ys \<and> grows ok repr m1 m')"
    using A Cons.prems(5,6) len by (intro Cons.IH) (auto simp: built_def grows_def)
  then have "runs (bddFromPrefix_loop C cap (concat (map rpn fs)) (st1, vars1, r)) m1
      (\<lambda>(st', vars', r') m'. \<exists>ys. dds.holds st' (ys @ xs) n \<and> length ys = length (f # fs) \<and>
         list_all (\<lambda>y. \<exists>\<phi>. repr m' y \<phi>) ys \<and> grows ok repr m m')"
  proof (rule runs_mono, clarify)
    fix st' vars' r' m' ys
    assume ys: "dds.holds st' (ys @ (r # xs)) n" "length ys = length fs"
      "list_all (\<lambda>y. \<exists>\<phi>. repr m' y \<phi>) ys" "grows ok repr m1 m'"
    then show "\<exists>ys. dds.holds st' (ys @ xs) n \<and> length ys = length (f # fs) \<and>
         list_all (\<lambda>y. \<exists>\<phi>. repr m' y \<phi>) ys \<and> grows ok repr m m'"
      using A by (intro exI [of _ "ys @ [r]"]) (auto simp: built_def grows_def)
  qed
  then show ?case
    by (simp add: loop_append runs_def 1)
qed

lemma bddFromPrefix_formulae:
  assumes "ok m" "var_table repr nvars m vars"
    and "\<forall>x \<in> set (concat (map bvars fs)). name_ok x"
    and "length (nub (map var_name vars @ concat (map bvars fs))) \<le> cap"
    and "length fs \<noteq> 1"
  shows "bddFromPrefix C cap (concat (map rpn fs)) vars m =
    Inl (Exit 3 ''Malformed expression. Quitting...'')"
proof -
  let ?n = "length (concat (map rpn fs))"
  have "runs (bddFromPrefix_loop C cap (concat (map rpn fs))
      (ddStack_new ?n :: 'n ddStack, vars, NULL)) m
      (\<lambda>(st', vars', r) m'. \<exists>ys. dds.holds st' (ys @ []) ?n \<and> length ys = length fs \<and>
        list_all (\<lambda>y. \<exists>\<phi>. repr m' y \<phi>) ys \<and> grows ok repr m m')"
    using assms by (intro runs_formulae dds.holds_fresh) simp_all
  then obtain st vars' r m' where
    "bddFromPrefix_loop C cap (concat (map rpn fs)) (ddStack_new ?n, vars, NULL) m =
      Inr ((st, vars', r), m')" and "dd_top st = length fs"
    by (auto elim!: runsE dest!: dd_top_length)
  then show ?thesis
    using assms(5) by (simp add: bddFromPrefix_def Let_def ddStack_new_def)
qed

lemma bddFromPrefix_missing_operand:
  assumes "ok m" "var_table repr nvars m vars" "\<forall>x \<in> set (bvars f). name_ok x"
    and "length (nub (map var_name vars @ bvars f)) \<le> cap"
    and "opr \<in> {OP_OR, OP_AND, OP_XOR, OP_IFF}"
  shows "bddFromPrefix C cap (rpn f @ [opr]) vars m = Inl (Undefined ''not a node'')"
proof -
  let ?n = "length (rpn f @ [opr])"
  have "runs (bddFromPrefix_loop C cap (rpn f) (ddStack_new ?n :: 'n ddStack, vars, NULL)) m
      (built m vars [] ?n f)"
    using assms(3,4) by (intro evaluatesD [OF evaluates_all assms(1,2) dds.holds_fresh]) simp_all
  then obtain st vars' r m' where
    1: "bddFromPrefix_loop C cap (rpn f) (ddStack_new ?n, vars, NULL) m = Inr ((st, vars', r), m')"
    and A: "built m vars [] ?n f (st, vars', r) m'"
    by (auto elim!: runsE)
  obtain st' where "ddStack_pop st = Inr (r, st')" "ddStack_pop st' = Inr (NULL, st')"
    using A dds.holds_pop [of st r "[]" ?n] dds.holds_pop_none by (auto simp: built_def)
  moreover obtain n where "r = NodePtr n"
    using A repr_node [of m' r "formula_fun vars' f"] by (auto simp: built_def)
  ultimately have "bddFromPrefix_step C cap opr (st, vars', r) m' = Inl (Undefined ''not a node'')"
    using assms(5)
    by (auto simp: step_operator push_node_def binary_op_def Cudd_bddOr_def Cudd_bddAnd_def
        Cudd_bddXor_def bdd_iff_def call2_def cbind_def)
  then show ?thesis
    by (simp add: bddFromPrefix_def Let_def ddStack_new_def [symmetric] loop_append 1 [simplified])
qed

end

section \<open>Which token sequences are formulae\<close>

text \<open>
  The number of operands on the stack after each token; \<open>None\<close> when an operator finds too few.
\<close>

fun operands :: "string list \<Rightarrow> nat \<Rightarrow> nat option" where
  "operands [] k = Some k"
| "operands (t # ts) k =
     (if t \<in> {OP_OR, OP_AND, OP_XOR, OP_IFF} then (if 2 \<le> k then operands ts (k - 1) else None)
      else if t = OP_NOT then (if 1 \<le> k then operands ts k else None)
      else operands ts (Suc k))"

lemma operands_append:
  "operands (ts @ us) k = (case operands ts k of None \<Rightarrow> None | Some j \<Rightarrow> operands us j)"
  by (induction ts arbitrary: k) auto

lemma bool_ops_set: "set bool_ops = {OP_OR, OP_AND, OP_XOR, OP_IFF, OP_NOT}"
  by (auto simp: bool_ops_def)

lemma bool_ops_distinct [simp]:
  "OP_OR \<noteq> OP_AND" "OP_OR \<noteq> OP_XOR" "OP_OR \<noteq> OP_IFF" "OP_OR \<noteq> OP_NOT"
  "OP_AND \<noteq> OP_OR" "OP_AND \<noteq> OP_XOR" "OP_AND \<noteq> OP_IFF" "OP_AND \<noteq> OP_NOT"
  "OP_XOR \<noteq> OP_OR" "OP_XOR \<noteq> OP_AND" "OP_XOR \<noteq> OP_IFF" "OP_XOR \<noteq> OP_NOT"
  "OP_IFF \<noteq> OP_OR" "OP_IFF \<noteq> OP_AND" "OP_IFF \<noteq> OP_XOR" "OP_IFF \<noteq> OP_NOT"
  "OP_NOT \<noteq> OP_OR" "OP_NOT \<noteq> OP_AND" "OP_NOT \<noteq> OP_XOR" "OP_NOT \<noteq> OP_IFF"
  by (simp_all add: op_defs)

lemma operands_rpn:
  "set (bvars f) \<inter> set bool_ops = {} \<Longrightarrow> operands (rpn f) k = Some (Suc k)"
  by (induction f arbitrary: k) (auto simp: operands_append bool_ops_set)

lemma operands_formulae:
  "\<forall>f \<in> set fs. set (bvars f) \<inter> set bool_ops = {} \<Longrightarrow>
   operands (concat (map rpn fs)) k = Some (k + length fs)"
  by (induction fs arbitrary: k) (auto simp: operands_append operands_rpn)

lemma operands_parse:
  "operands ts 0 = Some k \<Longrightarrow>
   \<exists>fs. length fs = k \<and> concat (map rpn fs) = ts \<and>
     (\<forall>f \<in> set fs. set (bvars f) \<subseteq> set ts - set bool_ops)"
proof (induction ts arbitrary: k rule: rev_induct)
  case Nil
  then show ?case by simp
next
  case (snoc t ts)
  then obtain j where j: "operands ts 0 = Some j" "operands [t] j = Some k"
    by (auto simp: operands_append split: option.splits)
  then obtain fs where fs: "length fs = j" "concat (map rpn fs) = ts"
    "\<forall>f \<in> set fs. set (bvars f) \<subseteq> set ts - set bool_ops"
    using snoc.IH by blast
  consider (binary) "t \<in> {OP_OR, OP_AND, OP_XOR, OP_IFF}" | (not) "t = OP_NOT"
    | (name) "t \<notin> set bool_ops"
    by (auto simp: bool_ops_set)
  then show ?case
  proof cases
    case binary
    then have jk: "2 \<le> j" "k = j - 1"
      using j(2) by (auto split: if_splits)
    then obtain gs a b where gs: "fs = gs @ [a, b]"
      using fs(1) by (cases fs rule: rev_cases; cases "butlast fs" rule: rev_cases) auto
    define g where "g = (if t = OP_OR then BOr a b else if t = OP_AND then BAnd a b
      else if t = OP_XOR then BXor a b else BIff a b)"
    have "rpn g = rpn a @ rpn b @ [t]" "bvars g = bvars a @ bvars b"
      using binary by (auto simp: g_def)
    then show ?thesis
      using fs jk gs by (intro exI [of _ "gs @ [g]"]) auto
  next
    case not
    then have jk: "1 \<le> j" "k = j"
      using j(2) by (auto split: if_splits)
    then obtain gs a where gs: "fs = gs @ [a]"
      using fs(1) by (cases fs rule: rev_cases) auto
    then show ?thesis
      using fs jk not by (intro exI [of _ "gs @ [BNot a]"]) auto
  next
    case name
    then show ?thesis
      using fs j(2) by (intro exI [of _ "fs @ [BVar t]"]) (auto simp: bool_ops_set)
  qed
qed

section \<open>The properties\<close>


lemma var_table_bdd_empty: "var_table bdd_repr count \<lparr>count = 0, refs = []\<rparr> []"
  by (simp add: var_table_def)




text \<open>The check for malformed expressions does not catch an operator that finds too few operands.
  A binary operator after a single formula passes the null pointer of the empty stack to the
  diagram package, which is undefined, and a lone negation is accepted: whatever the package does,
  the result is the null pointer with its complement bit flipped.\<close>

theorem bddFromPrefix_underflow:
  assumes "cudd_package C ok repr nvars" "ok m" "var_table repr nvars m vars"
    and "list_all name_ok (bvars f)"
    and "length (nub (map var_name vars @ bvars f)) \<le> cap"
    and "opr \<in> {OP_OR, OP_AND, OP_XOR, OP_IFF}"
  shows "bddFromPrefix C cap (rpn f @ [opr]) vars m = Inl (Undefined ''not a node'') \<and>
    bddFromPrefix C cap [OP_NOT] vars m = Inr ((NullPtr True, vars), m)"
proof
  show "bddFromPrefix C cap (rpn f @ [opr]) vars m = Inl (Undefined ''not a node'')"
    using assms(4)
    by (intro cudd_package.bddFromPrefix_missing_operand [OF assms(1-3) _ assms(5,6)])
      (simp add: list_all_iff)
  show "bddFromPrefix C cap [OP_NOT] vars m = Inr ((NullPtr True, vars), m)"
    by (simp add: bddFromPrefix_def step_operator push_node_def unary_op_def ddStack_pop_def
        ddStack_push_def ddStack_init_def ddStack_malloc_def Cudd_Not_def)
qed

theorem bddFromPrefix_underflow_witness:
  "bddFromPrefix bdd_package 1 (rpn (BVar ''a'') @ [OP_OR]) [] \<lparr>count = 0, refs = []\<rparr> =
      Inl (Undefined ''not a node'') \<and>
    bddFromPrefix bdd_package 1 [OP_NOT] [] \<lparr>count = 0, refs = []\<rparr> =
      Inr ((NullPtr True, []), \<lparr>count = 0, refs = []\<rparr>)"
  by (rule bddFromPrefix_underflow [OF bdd.cudd_package_axioms _ var_table_bdd_empty])
    (simp_all add: bdd_ok_def name_ok_def bool_ops_def op_defs MAX_VAR_LEN_def nub_def)

end
