(* ===== verification/CtlSpec.thy ===== *)
theory CtlSpec
  imports Prelude
begin

text \<open>
  What model checking means, without decision diagrams: transition systems over a finite set of
  states, the temporal operators of CTL over paths, and the fixpoints that characterise them.

  The transition relation need not be total (the program does not check it), so the semantics
  says what the operators mean in states without successors: \<open>EG\<close>, \<open>AF\<close> and \<open>AU\<close> speak about
  infinite paths, \<open>AX\<close> holds where there is no successor, and \<open>AU\<close> in addition forbids a finite
  path that leaves the first set before the second is reached. Where every state has a successor
  \<open>AU\<close> is the usual one (\<open>sat_AU_total\<close>).
\<close>

section \<open>Paths and operators\<close>

definition paths :: "('s \<times> 's) set \<Rightarrow> 's \<Rightarrow> (nat \<Rightarrow> 's) set" where
  "paths R s = {\<pi>. \<pi> 0 = s \<and> (\<forall>i. (\<pi> i, \<pi> (Suc i)) \<in> R)}"

definition until :: "'s set \<Rightarrow> 's set \<Rightarrow> (nat \<Rightarrow> 's) \<Rightarrow> bool" where
  "until A B \<pi> \<longleftrightarrow> (\<exists>n. \<pi> n \<in> B \<and> (\<forall>i < n. \<pi> i \<in> A))"

text \<open>A finite path from \<open>s\<close> through states of \<open>A\<close> that ends in \<open>B\<close>.\<close>

definition reaches_via :: "('s \<times> 's) set \<Rightarrow> 's set \<Rightarrow> 's set \<Rightarrow> 's \<Rightarrow> bool" where
  "reaches_via R A B s \<longleftrightarrow>
     (\<exists>n \<pi>. \<pi> 0 = s \<and> (\<forall>i < n. (\<pi> i, \<pi> (Suc i)) \<in> R \<and> \<pi> i \<in> A) \<and> \<pi> n \<in> B)"

text \<open>The states of \<open>S\<close> that satisfy each operator, given the states that satisfy its arguments.\<close>

definition sat_EX :: "'s set \<Rightarrow> ('s \<times> 's) set \<Rightarrow> 's set \<Rightarrow> 's set" where
  "sat_EX S R A = {s \<in> S. \<exists>t. (s, t) \<in> R \<and> t \<in> A}"

definition sat_AX :: "'s set \<Rightarrow> ('s \<times> 's) set \<Rightarrow> 's set \<Rightarrow> 's set" where
  "sat_AX S R A = {s \<in> S. \<forall>t. (s, t) \<in> R \<longrightarrow> t \<in> A}"

definition sat_EF :: "'s set \<Rightarrow> ('s \<times> 's) set \<Rightarrow> 's set \<Rightarrow> 's set" where
  "sat_EF S R A = {s \<in> S. \<exists>t. (s, t) \<in> R\<^sup>* \<and> t \<in> A}"

definition sat_AF :: "'s set \<Rightarrow> ('s \<times> 's) set \<Rightarrow> 's set \<Rightarrow> 's set" where
  "sat_AF S R A = {s \<in> S. \<forall>\<pi> \<in> paths R s. \<exists>i. \<pi> i \<in> A}"

definition sat_EG :: "'s set \<Rightarrow> ('s \<times> 's) set \<Rightarrow> 's set \<Rightarrow> 's set" where
  "sat_EG S R A = {s \<in> S. \<exists>\<pi> \<in> paths R s. \<forall>i. \<pi> i \<in> A}"

definition sat_AG :: "'s set \<Rightarrow> ('s \<times> 's) set \<Rightarrow> 's set \<Rightarrow> 's set" where
  "sat_AG S R A = {s \<in> S. \<forall>t. (s, t) \<in> R\<^sup>* \<longrightarrow> t \<in> A}"

definition sat_EU :: "'s set \<Rightarrow> ('s \<times> 's) set \<Rightarrow> 's set \<Rightarrow> 's set \<Rightarrow> 's set" where
  "sat_EU S R A B = {s \<in> S. reaches_via R A B s}"

definition sat_AU :: "'s set \<Rightarrow> ('s \<times> 's) set \<Rightarrow> 's set \<Rightarrow> 's set \<Rightarrow> 's set" where
  "sat_AU S R A B = {s \<in> S. (\<forall>\<pi> \<in> paths R s. until A B \<pi>) \<and>
     \<not> reaches_via R (A - B) (- A - B) s}"

lemma paths_shift: "\<pi> \<in> paths R s \<Longrightarrow> (\<lambda>i. \<pi> (Suc i)) \<in> paths R (\<pi> 1)"
  by (simp add: paths_def)

lemma paths_0: "\<pi> \<in> paths R s \<Longrightarrow> \<pi> 0 = s"
  by (simp add: paths_def)

lemma paths_step: "\<pi> \<in> paths R s \<Longrightarrow> (\<pi> i, \<pi> (Suc i)) \<in> R"
  by (simp add: paths_def)

lemma paths_Cons: "(s, t) \<in> R \<Longrightarrow> \<pi> \<in> paths R t \<Longrightarrow> case_nat s \<pi> \<in> paths R s"
  by (auto simp: paths_def split: nat.split)

text \<open>From steps that stay inside a set, an infinite path inside it.\<close>

lemma path_in_set:
  assumes "s \<in> Q" and "\<And>x. x \<in> Q \<Longrightarrow> \<exists>y. (x, y) \<in> R \<and> y \<in> Q"
  shows "\<exists>\<pi> \<in> paths R s. \<forall>i. \<pi> i \<in> Q"
proof -
  obtain \<pi> where "\<pi> 0 = s" "\<And>n. \<pi> n \<in> Q \<and> (\<pi> n, \<pi> (Suc n)) \<in> R"
    using dependent_nat_choice [of "\<lambda>n x. x \<in> Q \<and> (n = 0 \<longrightarrow> x = s)" "\<lambda>n x y. (x, y) \<in> R"]
      assms by (metis (no_types, lifting) nat.distinct(1))
  then show ?thesis
    by (auto simp: paths_def)
qed

lemma reaches_via_0: "s \<in> B \<Longrightarrow> reaches_via R A B s"
  unfolding reaches_via_def by (intro exI [of _ 0] exI [of _ "\<lambda>_. s"]) simp

lemma reaches_via_step:
  assumes "s \<in> A" "(s, t) \<in> R" "reaches_via R A B t"
  shows "reaches_via R A B s"
proof -
  obtain n \<pi> where "\<pi> 0 = t" "\<forall>i < n. (\<pi> i, \<pi> (Suc i)) \<in> R \<and> \<pi> i \<in> A" "\<pi> n \<in> B"
    using assms(3) by (auto simp: reaches_via_def)
  then show ?thesis
    using assms(1,2) unfolding reaches_via_def
    by (intro exI [of _ "Suc n"] exI [of _ "case_nat s \<pi>"]) (auto simp: less_Suc_eq_0_disj)
qed

lemma reaches_via_cases:
  assumes "reaches_via R A B s"
  shows "s \<in> B \<or> s \<in> A \<and> (\<exists>t. (s, t) \<in> R \<and> reaches_via R A B t)"
proof -
  obtain n \<pi> where \<pi>: "\<pi> 0 = s" "\<forall>i < n. (\<pi> i, \<pi> (Suc i)) \<in> R \<and> \<pi> i \<in> A" "\<pi> n \<in> B"
    using assms by (auto simp: reaches_via_def)
  show ?thesis
  proof (cases n)
    case 0
    with \<pi> show ?thesis by simp
  next
    case (Suc k)
    have "reaches_via R A B (\<pi> 1)"
      unfolding reaches_via_def
      using \<pi> Suc by (intro exI [of _ k] exI [of _ "\<lambda>i. \<pi> (Suc i)"]) auto
    moreover have "s \<in> A" "(s, \<pi> 1) \<in> R"
      using \<pi> Suc by auto
    ultimately show ?thesis by blast
  qed
qed

text \<open>Where every state has a successor, \<open>AU\<close> is the usual operator on infinite paths.\<close>

lemma sat_AU_total:
  assumes total: "\<And>s. s \<in> S \<Longrightarrow> \<exists>t. (s, t) \<in> R" and closed: "R \<subseteq> S \<times> S"
  shows "sat_AU S R A B = {s \<in> S. \<forall>\<pi> \<in> paths R s. until A B \<pi>}"
proof -
  have ex: "\<exists>\<pi>. \<pi> \<in> paths R s" if "s \<in> S" for s
    using path_in_set [of s S R] that total closed by blast
  have "\<exists>\<pi> \<in> paths R s. \<not> until A B \<pi>"
    if \<pi>: "\<pi> 0 = s" "\<forall>i < n. (\<pi> i, \<pi> (Suc i)) \<in> R \<and> \<pi> i \<in> A - B" "\<pi> n \<in> - A - B" and "s \<in> S"
    for n \<pi> s
  proof -
    have "\<pi> n \<in> S"
      using \<pi>(1,2) \<open>s \<in> S\<close> closed by (cases n) auto
    then obtain \<sigma> where \<sigma>: "\<sigma> \<in> paths R (\<pi> n)"
      using ex by blast
    let ?\<rho> = "\<lambda>i. if i < n then \<pi> i else \<sigma> (i - n)"
    have at_n: "?\<rho> i = \<pi> i" if "i \<le> n" for i
      using that \<sigma> by (auto simp: paths_def)
    have "(?\<rho> i, ?\<rho> (Suc i)) \<in> R" for i
    proof (cases "i < n")
      case True
      then show ?thesis
        using \<pi>(2) at_n [of i] at_n [of "Suc i"] by auto
    next
      case False
      then show ?thesis
        using paths_step [OF \<sigma>, of "i - n"] by (simp add: Suc_diff_le)
    qed
    then have "?\<rho> \<in> paths R s"
      using \<pi>(1) at_n [of 0] by (simp add: paths_def)
    moreover have "\<not> until A B ?\<rho>"
      unfolding until_def
    proof
      assume "\<exists>k. ?\<rho> k \<in> B \<and> (\<forall>i < k. ?\<rho> i \<in> A)"
      then obtain k where k: "?\<rho> k \<in> B" "\<forall>i < k. ?\<rho> i \<in> A"
        by blast
      have "\<not> k \<le> n"
        using k(1) at_n [of k] \<pi>(2,3) by (cases "k = n") auto
      then have "\<pi> n \<in> A"
        using k(2) at_n [of n] by (metis not_le_imp_less order_refl)
      with \<pi>(3) show False by simp
    qed
    ultimately show ?thesis by blast
  qed
  then show ?thesis
    unfolding sat_AU_def reaches_via_def by blast
qed

section \<open>Fixpoints\<close>

text \<open>
  What a loop computes that starts from \<open>X\<close> and applies \<open>G\<close> until nothing changes: the least
  fixpoint above \<open>X\<close>, or the greatest one below it, among the subsets of \<open>S\<close>.
\<close>

definition least_from :: "'s set \<Rightarrow> ('s set \<Rightarrow> 's set) \<Rightarrow> 's set \<Rightarrow> 's set \<Rightarrow> bool" where
  "least_from S G X Y \<longleftrightarrow> Y \<subseteq> S \<and> G Y = Y \<and> X \<subseteq> Y \<and>
     (\<forall>Z. Z \<subseteq> S \<longrightarrow> X \<subseteq> Z \<longrightarrow> G Z \<subseteq> Z \<longrightarrow> Y \<subseteq> Z)"

definition greatest_from :: "'s set \<Rightarrow> ('s set \<Rightarrow> 's set) \<Rightarrow> 's set \<Rightarrow> 's set \<Rightarrow> bool" where
  "greatest_from S G X Y \<longleftrightarrow> Y \<subseteq> S \<and> G Y = Y \<and> Y \<subseteq> X \<and>
     (\<forall>Z. Z \<subseteq> S \<longrightarrow> Z \<subseteq> X \<longrightarrow> Z \<subseteq> G Z \<longrightarrow> Z \<subseteq> Y)"

locale transition_system =
  fixes S :: "'s set" and R :: "('s \<times> 's) set"
  assumes finite_states: "finite S" and closed: "R \<subseteq> S \<times> S"
begin

lemma in_states: "(s, t) \<in> R \<Longrightarrow> s \<in> S \<and> t \<in> S"
  using closed by blast

lemma EF_least:
  assumes "A \<subseteq> S" "least_from S (\<lambda>X. A \<union> sat_EX S R X) A Y"
  shows "Y = sat_EF S R A"
proof
  have "A \<subseteq> sat_EF S R A" "sat_EF S R A \<subseteq> S"
    using assms(1) by (auto simp: sat_EF_def)
  moreover have "sat_EX S R (sat_EF S R A) \<subseteq> sat_EF S R A"
    by (auto simp: sat_EF_def sat_EX_def intro: converse_rtrancl_into_rtrancl)
  ultimately show "Y \<subseteq> sat_EF S R A"
    using assms(2) by (simp add: least_from_def)
  show "sat_EF S R A \<subseteq> Y"
  proof
    fix s
    assume "s \<in> sat_EF S R A"
    then obtain t where "(s, t) \<in> R\<^sup>*" "t \<in> A"
      by (auto simp: sat_EF_def)
    then show "s \<in> Y"
    proof (induction rule: converse_rtrancl_induct)
      case base
      then show ?case using assms(2) by (auto simp: least_from_def)
    next
      case (step s t)
      then have "s \<in> sat_EX S R Y"
        using in_states by (auto simp: sat_EX_def)
      then show ?case using assms(2) by (auto simp: least_from_def)
    qed
  qed
qed

lemma AF_least:
  assumes "A \<subseteq> S" "least_from S (\<lambda>X. A \<union> sat_AX S R X) A Y"
  shows "Y = sat_AF S R A"
proof
  have "A \<union> sat_AX S R (sat_AF S R A) \<subseteq> sat_AF S R A"
  proof
    fix s
    assume s: "s \<in> A \<union> sat_AX S R (sat_AF S R A)"
    then have "s \<in> S" using assms(1) by (auto simp: sat_AX_def)
    moreover have "\<exists>i. \<pi> i \<in> A" if "\<pi> \<in> paths R s" for \<pi>
    proof (cases "s \<in> A")
      case True
      then show ?thesis using that by (auto dest: paths_0)
    next
      case False
      then have "\<pi> 1 \<in> sat_AF S R A"
        using s that paths_0 [OF that] paths_step [OF that, of 0] by (auto simp: sat_AX_def)
      then show ?thesis
        using paths_shift [OF that] by (auto simp: sat_AF_def)
    qed
    ultimately show "s \<in> sat_AF S R A" by (simp add: sat_AF_def)
  qed
  moreover have "A \<subseteq> sat_AF S R A"
    using assms(1) by (auto simp: sat_AF_def dest: paths_0)
  ultimately show "Y \<subseteq> sat_AF S R A"
    using assms(2) by (auto simp: least_from_def sat_AF_def)
  show "sat_AF S R A \<subseteq> Y"
  proof
    fix s
    assume s: "s \<in> sat_AF S R A"
    show "s \<in> Y"
    proof (rule ccontr)
      assume "s \<notin> Y"
      have fix_Y: "A \<union> sat_AX S R Y = Y"
        using assms(2) by (simp add: least_from_def)
      have "\<exists>y. (x, y) \<in> R \<and> y \<in> S - Y" if "x \<in> S - Y" for x
        using that fix_Y in_states by (auto simp: sat_AX_def)
      then obtain \<pi> where "\<pi> \<in> paths R s" "\<forall>i. \<pi> i \<in> S - Y"
        using path_in_set [of s "S - Y" R] s \<open>s \<notin> Y\<close> by (auto simp: sat_AF_def)
      moreover have "\<exists>i. \<pi> i \<in> A"
        using s \<open>\<pi> \<in> paths R s\<close> by (simp add: sat_AF_def)
      ultimately show False
        using fix_Y by blast
    qed
  qed
qed

lemma EG_greatest:
  assumes "A \<subseteq> S" "greatest_from S (\<lambda>X. A \<inter> sat_EX S R X) A Y"
  shows "Y = sat_EG S R A"
proof
  have fix_Y: "A \<inter> sat_EX S R Y = Y"
    using assms(2) by (simp add: greatest_from_def)
  show "Y \<subseteq> sat_EG S R A"
  proof
    fix s
    assume "s \<in> Y"
    moreover have "\<exists>y. (x, y) \<in> R \<and> y \<in> Y" if "x \<in> Y" for x
      using that fix_Y by (auto simp: sat_EX_def)
    ultimately obtain \<pi> where "\<pi> \<in> paths R s" "\<forall>i. \<pi> i \<in> Y"
      using path_in_set [of s Y R] by blast
    then show "s \<in> sat_EG S R A"
      using fix_Y \<open>s \<in> Y\<close> assms(1) by (auto simp: sat_EG_def)
  qed
  have "sat_EG S R A \<subseteq> A \<inter> sat_EX S R (sat_EG S R A)"
  proof
    fix s
    assume "s \<in> sat_EG S R A"
    then obtain \<pi> where \<pi>: "s \<in> S" "\<pi> \<in> paths R s" "\<forall>i. \<pi> i \<in> A"
      by (auto simp: sat_EG_def)
    then have "\<pi> 1 \<in> S"
      using assms(1) by blast
    then have "\<pi> 1 \<in> sat_EG S R A"
      using paths_shift [OF \<pi>(2)] \<pi>(3) by (auto simp: sat_EG_def)
    moreover have "(s, \<pi> 1) \<in> R" "s \<in> A"
      using \<pi> paths_step [of \<pi> R s 0] paths_0 [of \<pi> R s] by auto
    ultimately show "s \<in> A \<inter> sat_EX S R (sat_EG S R A)"
      using \<pi>(1) by (auto simp: sat_EX_def)
  qed
  then show "sat_EG S R A \<subseteq> Y"
    using assms by (auto simp: greatest_from_def sat_EG_def)
qed

lemma AG_greatest:
  assumes "A \<subseteq> S" "greatest_from S (\<lambda>X. A \<inter> sat_AX S R X) A Y"
  shows "Y = sat_AG S R A"
proof
  have fix_Y: "A \<inter> sat_AX S R Y = Y"
    using assms(2) by (simp add: greatest_from_def)
  show "Y \<subseteq> sat_AG S R A"
  proof
    fix s
    assume "s \<in> Y"
    have "t \<in> Y" if "(s, t) \<in> R\<^sup>*" for t
      using that
    proof (induction rule: rtrancl_induct)
      case base
      show ?case by fact
    next
      case (step t u)
      then show ?case using fix_Y by (auto simp: sat_AX_def)
    qed
    then show "s \<in> sat_AG S R A"
      using fix_Y assms(1) \<open>s \<in> Y\<close> by (auto simp: sat_AG_def)
  qed
  have "sat_AG S R A \<subseteq> A \<inter> sat_AX S R (sat_AG S R A)"
    using in_states by (auto simp: sat_AG_def sat_AX_def intro: converse_rtrancl_into_rtrancl)
  then show "sat_AG S R A \<subseteq> Y"
    using assms by (auto simp: greatest_from_def sat_AG_def)
qed

lemma EU_least:
  assumes "A \<subseteq> S" "B \<subseteq> S" "least_from S (\<lambda>X. B \<union> (A \<inter> sat_EX S R X)) B Y"
  shows "Y = sat_EU S R A B"
proof
  have "B \<union> (A \<inter> sat_EX S R (sat_EU S R A B)) \<subseteq> sat_EU S R A B"
    using assms(1,2) by (auto simp: sat_EU_def sat_EX_def intro: reaches_via_0 reaches_via_step)
  then show "Y \<subseteq> sat_EU S R A B"
    using assms by (auto simp: least_from_def sat_EU_def)
  have fix_Y: "B \<union> (A \<inter> sat_EX S R Y) = Y"
    using assms(3) by (simp add: least_from_def)
  show "sat_EU S R A B \<subseteq> Y"
  proof
    fix s
    assume "s \<in> sat_EU S R A B"
    then obtain n \<pi> where "\<pi> 0 = s" "\<forall>i < n. (\<pi> i, \<pi> (Suc i)) \<in> R \<and> \<pi> i \<in> A" "\<pi> n \<in> B"
      by (auto simp: sat_EU_def reaches_via_def)
    then show "s \<in> Y"
    proof (induction n arbitrary: s \<pi>)
      case 0
      then show ?case using fix_Y by auto
    next
      case (Suc n)
      have "\<pi> 1 \<in> Y"
        using Suc.prems by (intro Suc.IH [of "\<lambda>i. \<pi> (Suc i)"]) auto
      moreover have "(s, \<pi> 1) \<in> R" "s \<in> A"
        using Suc.prems by auto
      ultimately have "s \<in> A \<inter> sat_EX S R Y"
        using in_states by (auto simp: sat_EX_def)
      then show ?case using fix_Y by auto
    qed
  qed
qed

lemma AU_closed:
  assumes "A \<subseteq> S" "B \<subseteq> S"
  shows "B \<union> (A \<inter> sat_AX S R (sat_AU S R A B)) \<subseteq> sat_AU S R A B"
proof
  fix s
  assume s: "s \<in> B \<union> (A \<inter> sat_AX S R (sat_AU S R A B))"
  then have "s \<in> S" using assms by auto
  show "s \<in> sat_AU S R A B"
  proof (cases "s \<in> B")
    case True
    then have "until A B \<pi>" if "\<pi> \<in> paths R s" for \<pi>
      using that unfolding until_def by (intro exI [of _ 0]) (auto dest: paths_0)
    moreover have "\<not> reaches_via R (A - B) (- A - B) s"
      using True reaches_via_cases [of R "A - B" "- A - B" s] by auto
    ultimately show ?thesis using \<open>s \<in> S\<close> by (simp add: sat_AU_def)
  next
    case False
    with s have A: "s \<in> A" and succ: "\<And>t. (s, t) \<in> R \<Longrightarrow> t \<in> sat_AU S R A B"
      by (auto simp: sat_AX_def)
    have "until A B \<pi>" if \<pi>: "\<pi> \<in> paths R s" for \<pi>
    proof -
      have "\<pi> 1 \<in> sat_AU S R A B"
        using succ paths_step [OF \<pi>, of 0] paths_0 [OF \<pi>] by simp
      then obtain n where "\<pi> (Suc n) \<in> B" "\<forall>i < n. \<pi> (Suc i) \<in> A"
        using paths_shift [OF \<pi>] by (auto simp: sat_AU_def until_def)
      then show ?thesis
        using A paths_0 [OF \<pi>] unfolding until_def
        by (intro exI [of _ "Suc n"]) (auto simp: less_Suc_eq_0_disj)
    qed
    moreover have "\<not> reaches_via R (A - B) (- A - B) s"
      using A succ reaches_via_cases [of R "A - B" "- A - B" s] by (auto simp: sat_AU_def)
    ultimately show ?thesis using \<open>s \<in> S\<close> by (simp add: sat_AU_def)
  qed
qed

lemma AU_least:
  assumes "A \<subseteq> S" "B \<subseteq> S" "least_from S (\<lambda>X. B \<union> (A \<inter> sat_AX S R X)) B Y"
  shows "Y = sat_AU S R A B"
proof
  have "B \<subseteq> sat_AU S R A B"
    using AU_closed [OF assms(1,2)] by simp
  then show "Y \<subseteq> sat_AU S R A B"
    using assms(3) AU_closed [OF assms(1,2)] by (auto simp: least_from_def sat_AU_def)
  have fix_Y: "B \<union> (A \<inter> sat_AX S R Y) = Y"
    using assms(3) by (simp add: least_from_def)
  show "sat_AU S R A B \<subseteq> Y"
  proof
    fix s
    assume s: "s \<in> sat_AU S R A B"
    let ?Q = "{x \<in> S. x \<notin> Y \<and> \<not> reaches_via R (A - B) (- A - B) x}"
    have step: "\<exists>y. (x, y) \<in> R \<and> y \<in> ?Q" if x: "x \<in> ?Q" for x
    proof -
      have AB: "x \<in> A - B"
        using x fix_Y reaches_via_0 [of x "- A - B"] by auto
      then obtain y where y: "(x, y) \<in> R" "y \<notin> Y"
        using x fix_Y by (auto simp: sat_AX_def)
      moreover have "\<not> reaches_via R (A - B) (- A - B) y"
        using x AB y(1) reaches_via_step [of x "A - B" y R] by blast
      ultimately show ?thesis
        using in_states by blast
    qed
    show "s \<in> Y"
    proof (rule ccontr)
      assume "s \<notin> Y"
      then obtain \<pi> where \<pi>: "\<pi> \<in> paths R s" "\<forall>i. \<pi> i \<in> ?Q"
        using path_in_set [of s ?Q R] step s by (auto simp: sat_AU_def)
      then have "until A B \<pi>"
        using s by (simp add: sat_AU_def)
      then show False
        using \<pi>(2) fix_Y by (auto simp: until_def)
    qed
  qed
qed

end

section \<open>Formulae\<close>

datatype ctl =
    CVar string
  | CNot ctl
  | COr ctl ctl
  | CAnd ctl ctl
  | CXor ctl ctl
  | CIff ctl ctl
  | CEX ctl
  | CAX ctl
  | CEF ctl
  | CAF ctl
  | CEG ctl
  | CAG ctl
  | CEU ctl ctl
  | CAU ctl ctl

text \<open>The states that satisfy a formula; \<open>L x\<close> are the states in which variable \<open>x\<close> is true.\<close>

primrec csat :: "'s set \<Rightarrow> ('s \<times> 's) set \<Rightarrow> (string \<Rightarrow> 's set) \<Rightarrow> ctl \<Rightarrow> 's set" where
  "csat S R L (CVar x) = L x \<inter> S"
| "csat S R L (CNot a) = S - csat S R L a"
| "csat S R L (COr a b) = csat S R L a \<union> csat S R L b"
| "csat S R L (CAnd a b) = csat S R L a \<inter> csat S R L b"
| "csat S R L (CXor a b) = (csat S R L a - csat S R L b) \<union> (csat S R L b - csat S R L a)"
| "csat S R L (CIff a b) = {s \<in> S. s \<in> csat S R L a \<longleftrightarrow> s \<in> csat S R L b}"
| "csat S R L (CEX a) = sat_EX S R (csat S R L a)"
| "csat S R L (CAX a) = sat_AX S R (csat S R L a)"
| "csat S R L (CEF a) = sat_EF S R (csat S R L a)"
| "csat S R L (CAF a) = sat_AF S R (csat S R L a)"
| "csat S R L (CEG a) = sat_EG S R (csat S R L a)"
| "csat S R L (CAG a) = sat_AG S R (csat S R L a)"
| "csat S R L (CEU a b) = sat_EU S R (csat S R L a) (csat S R L b)"
| "csat S R L (CAU a b) = sat_AU S R (csat S R L a) (csat S R L b)"

lemmas sat_defs = sat_EX_def sat_AX_def sat_EF_def sat_AF_def sat_EG_def sat_AG_def sat_EU_def
  sat_AU_def

lemma csat_subset: "csat S R L f \<subseteq> S"
  by (induction f) (auto simp: sat_defs)

text \<open>The usual dualities hold without totality.\<close>

lemma sat_AX_dual: "R \<subseteq> S \<times> S \<Longrightarrow> sat_AX S R A = S - sat_EX S R (S - A)"
  by (auto simp: sat_AX_def sat_EX_def)

lemma sat_AG_dual: "R \<subseteq> S \<times> S \<Longrightarrow> sat_AG S R A = S - sat_EF S R (S - A)"
proof -
  assume R: "R \<subseteq> S \<times> S"
  have "t \<in> S" if "(s, t) \<in> R\<^sup>*" "s \<in> S" for s t
    using that by (induction rule: rtrancl_induct) (use R in auto)
  then show ?thesis
    by (auto simp: sat_AG_def sat_EF_def)
qed

end
