(* ===== verification/Image.thy ===== *)
theory Image
  imports BddFromPrefix CtlSpec
begin

text \<open>
  \<open>aux.c\<close>: the search of the variable table (\<open>find\<close>) and the image of a set of states under the
  transition relation (\<open>translatedImage\<close>); and the loop that abstracts an array of variables, which
  \<open>translatedImage\<close> and \<open>EX\<close> share.

  A state of the model is the set of the names of its true unprimed variables. \<open>view\<close> reads a
  state off a valuation of the diagram variables, through the numbers of the unprimed or of the
  primed variables; \<open>set_repr\<close> says that a node stands for a set of states; \<open>step_repr\<close> that a node
  over both groups of variables stands for a transition relation.
\<close>

section \<open>The code\<close>

fun find_var :: "string \<Rightarrow> 'n augmentedDdVar list \<Rightarrow> 'n augmentedDdVar option" where
  "find_var key [] = None"
| "find_var key (v # vs) = (if strcmp_eq key (var_name v) then Some v else find_var key vs)"

definition array_get :: "'a list \<Rightarrow> nat \<Rightarrow> stop + 'a" where
  "array_get xs i = (if i < length xs then Inr (xs ! i)
     else Inl (Undefined ''read past the array''))"

text \<open>\<open>for (i...) image = Cudd_bddExistAbstract (manager, image, nodes[i])\<close>\<close>

fun abstract_nodes ::
  "('m, 'n) cudd \<Rightarrow> 'n ptr list \<Rightarrow> nat list \<Rightarrow> 'n ptr \<Rightarrow> ('m, 'n ptr) cm" where
  "abstract_nodes C nodes [] img = creturn img"
| "abstract_nodes C nodes (i # is) img =
     cbind (clift (array_get nodes i)) (\<lambda>v.
     cbind (Cudd_bddExistAbstract C img v) (abstract_nodes C nodes is))"

definition translatedImage ::
  "('m, 'n) cudd \<Rightarrow> 'n ptr \<Rightarrow> 'n ptr \<Rightarrow> 'n ptr list \<Rightarrow> 'n ptr list \<Rightarrow> nat \<Rightarrow> ('m, 'n ptr) cm" where
  "translatedImage C states transition primedNodes unprimedNodes numNodes =
     cbind (Cudd_bddAnd C states transition) (\<lambda>img.
     cbind (abstract_nodes C unprimedNodes [0..<numNodes] img) (\<lambda>img.
     cbind (Cudd_bddSwapVariables C img primedNodes unprimedNodes numNodes) (\<lambda>img.
       if img \<noteq> NULL then creturn img
       else cstop (Exit 3 ''Failed to swap vars. Check formula. Quitting...''))))"

section \<open>find\<close>

lemma find_var_Some: "find_var key vs = Some v \<Longrightarrow> v \<in> set vs \<and> var_name v = key"
  by (induction vs) (auto simp: strcmp_eq_def split: if_splits)

lemma find_var_None: "find_var key vs = None \<longleftrightarrow> key \<notin> set (map var_name vs)"
  by (induction vs) (auto simp: strcmp_eq_def)

lemma find_var_nth:
  assumes "distinct (map var_name vs)" "i < length vs"
  shows "find_var (var_name (vs ! i)) vs = Some (vs ! i)"
proof -
  obtain v where v: "find_var (var_name (vs ! i)) vs = Some v"
    using find_var_None [of "var_name (vs ! i)" vs] assms(2) by fastforce
  then obtain j where "j < length vs" "vs ! j = v" "var_name v = var_name (vs ! i)"
    using find_var_Some [OF v] by (auto simp: in_set_conv_nth)
  then have "j = i"
    using assms by (metis length_map nth_eq_iff_index_eq nth_map)
  with v \<open>vs ! j = v\<close> show ?thesis by simp
qed

section \<open>States and valuations\<close>

type_synonym state = "string set"

text \<open>The names \<open>us\<close> of the unprimed variables, the numbers \<open>vu\<close> of their diagram variables, and the
  numbers \<open>vp\<close> of the diagram variables of their primed counterparts.\<close>

definition frame :: "string list \<Rightarrow> nat list \<Rightarrow> nat list \<Rightarrow> bool" where
  "frame us vu vp \<longleftrightarrow> length vu = length us \<and> length vp = length us \<and> distinct us \<and>
     distinct (vu @ vp)"

definition view :: "string list \<Rightarrow> nat list \<Rightarrow> (nat \<Rightarrow> bool) \<Rightarrow> state" where
  "view us vs e = {x. \<exists>v. (x, v) \<in> set (zip us vs) \<and> e v}"

lemma view_nth:
  "length vs = length us \<Longrightarrow> view us vs e = {us ! i | i. i < length us \<and> e (vs ! i)}"
  by (auto simp: view_def set_zip)

lemma view_subset: "view us vs e \<subseteq> set us"
  by (auto simp: view_def dest: set_zip_leftD)

lemma view_cong: "(\<And>v. v \<in> set vs \<Longrightarrow> e v = e' v) \<Longrightarrow> view us vs e = view us vs e'"
  by (auto simp: view_def dest: set_zip_rightD)

lemma swap_var_nth:
  assumes "distinct (vx @ vy)" "length vx = length vy" "i < length vx"
  shows "swap_var vx vy (vx ! i) = vy ! i" and "swap_var vx vy (vy ! i) = vx ! i"
proof -
  show "swap_var vx vy (vx ! i) = vy ! i"
    using assms by (simp add: swap_var_def map_of_zip_nth)
  have "vy ! i \<notin> set vx"
    using assms by auto
  then have none: "map_of (zip vx vy) (vy ! i) = None"
    using assms(2) by simp
  show "swap_var vx vy (vy ! i) = vx ! i"
    unfolding swap_var_def none using assms by (simp add: map_of_zip_nth)
qed

lemma view_swap:
  assumes "frame us vu vp"
  shows "view us vu (\<lambda>v. e (swap_var vp vu v)) = view us vp e"
    and "view us vp (\<lambda>v. e (swap_var vp vu v)) = view us vu e"
proof -
  have "distinct (vp @ vu)" "length vp = length vu" "length vu = length us"
    using assms by (auto simp: frame_def)
  then show "view us vu (\<lambda>v. e (swap_var vp vu v)) = view us vp e"
    and "view us vp (\<lambda>v. e (swap_var vp vu v)) = view us vu e"
    using swap_var_nth [of vp vu] by (auto simp: view_nth)
qed

text \<open>Any state can be read off some valuation that changes only the given variables.\<close>

lemma view_surj:
  assumes "distinct vs" "length vs = length us" "distinct us" "t \<subseteq> set us"
  shows "\<exists>e'. (\<forall>v. v \<notin> set vs \<longrightarrow> e' v = e v) \<and> view us vs e' = t"
proof -
  define e' where "e' v = (case map_of (zip vs us) v of None \<Rightarrow> e v | Some x \<Rightarrow> x \<in> t)" for v
  have "e' (vs ! i) \<longleftrightarrow> us ! i \<in> t" if "i < length us" for i
    using that assms(1,2) by (simp add: e'_def map_of_zip_nth)
  then have "view us vs e' = t"
    using assms by (auto simp: view_nth in_set_conv_nth) (metis in_set_conv_nth subset_iff)
  moreover have "e' v = e v" if "v \<notin> set vs" for v
  proof -
    have none: "map_of (zip vs us) v = None"
      using that assms(2) by simp
    show ?thesis
      unfolding e'_def none by simp
  qed
  ultimately show ?thesis by blast
qed

lemma ex_view:
  assumes "distinct vs" "length vs = length us" "distinct us" "set vs \<inter> set ws = {}"
  shows "(\<exists>e'. (\<forall>v. v \<notin> set vs \<longrightarrow> e' v = e v) \<and> P (view us ws e') (view us vs e')) \<longleftrightarrow>
    (\<exists>t \<subseteq> set us. P (view us ws e) t)"
proof
  assume "\<exists>e'. (\<forall>v. v \<notin> set vs \<longrightarrow> e' v = e v) \<and> P (view us ws e') (view us vs e')"
  then obtain e' where e': "\<forall>v. v \<notin> set vs \<longrightarrow> e' v = e v" "P (view us ws e') (view us vs e')"
    by blast
  have "view us ws e' = view us ws e"
    using e'(1) assms(4) by (intro view_cong) auto
  with e'(2) view_subset [of us vs e'] show "\<exists>t \<subseteq> set us. P (view us ws e) t"
    by auto
next
  assume "\<exists>t \<subseteq> set us. P (view us ws e) t"
  then obtain t where t: "t \<subseteq> set us" "P (view us ws e) t"
    by blast
  obtain e' where e': "\<forall>v. v \<notin> set vs \<longrightarrow> e' v = e v" "view us vs e' = t"
    using view_surj [OF assms(1-3) t(1)] by blast
  moreover have "view us ws e' = view us ws e"
    using e'(1) assms(4) by (intro view_cong) auto
  ultimately show "\<exists>e'. (\<forall>v. v \<notin> set vs \<longrightarrow> e' v = e v) \<and> P (view us ws e') (view us vs e')"
    using t(2) by (intro exI [of _ e']) simp
qed

definition set_repr ::
  "('m \<Rightarrow> 'n ptr \<Rightarrow> bfun \<Rightarrow> bool) \<Rightarrow> string list \<Rightarrow> nat list \<Rightarrow> 'm \<Rightarrow> 'n ptr \<Rightarrow> state set \<Rightarrow> bool" where
  "set_repr repr us vu m p X \<longleftrightarrow> (\<exists>\<phi>. repr m p \<phi> \<and> (\<forall>e. \<phi> e \<longleftrightarrow> view us vu e \<in> X))"

definition step_repr ::
  "('m \<Rightarrow> 'n ptr \<Rightarrow> bfun \<Rightarrow> bool) \<Rightarrow> string list \<Rightarrow> nat list \<Rightarrow> nat list \<Rightarrow> 'm \<Rightarrow> 'n ptr \<Rightarrow>
   (state \<times> state) set \<Rightarrow> bool" where
  "step_repr repr us vu vp m p R \<longleftrightarrow>
     (\<exists>\<tau>. repr m p \<tau> \<and> (\<forall>e. \<tau> e \<longleftrightarrow> (view us vu e, view us vp e) \<in> R))"

definition node_array ::
  "('m \<Rightarrow> 'n ptr \<Rightarrow> bfun \<Rightarrow> bool) \<Rightarrow> ('m \<Rightarrow> nat) \<Rightarrow> 'm \<Rightarrow> 'n ptr list \<Rightarrow> nat list \<Rightarrow> bool" where
  "node_array repr nvars m nodes vs \<longleftrightarrow> length vs \<le> length nodes \<and>
     (\<forall>i < length vs. repr m (nodes ! i) (\<lambda>e. e (vs ! i)) \<and> vs ! i < nvars m)"

section \<open>What the image is\<close>

definition image_of :: "(state \<times> state) set \<Rightarrow> state set \<Rightarrow> state set" where
  "image_of R X = {t. \<exists>s \<in> X. (s, t) \<in> R}"

context cudd_package
begin

lemma node_array_ext: "ext m m' \<Longrightarrow> node_array repr nvars m nodes vs \<Longrightarrow>
    node_array repr nvars m' nodes vs"
  by (simp add: node_array_def ext_repr ext_nvars)

lemma set_repr_ext: "ext m m' \<Longrightarrow> set_repr repr us vu m p X \<Longrightarrow> set_repr repr us vu m' p X"
  unfolding set_repr_def using ext_repr by blast

lemma step_repr_ext:
  "ext m m' \<Longrightarrow> step_repr repr us vu vp m p R \<Longrightarrow> step_repr repr us vu vp m' p R"
  unfolding step_repr_def using ext_repr by blast

lemma node_array_var_nodes:
  "node_array repr nvars m nodes vs \<Longrightarrow> var_nodes m (take (length vs) nodes) vs"
  by (simp add: node_array_def var_nodes_def list_all2_conv_all_nth)

lemma ex_agree_insert:
  "(\<exists>e'. (\<forall>w. w \<notin> V \<longrightarrow> e' w = e w) \<and> (\<exists>b. \<phi> (e'(v := b)))) \<longleftrightarrow>
   (\<exists>e'. (\<forall>w. w \<notin> insert v V \<longrightarrow> e' w = e w) \<and> \<phi> e')"
proof
  assume "\<exists>e'. (\<forall>w. w \<notin> V \<longrightarrow> e' w = e w) \<and> (\<exists>b. \<phi> (e'(v := b)))"
  then obtain e' b where "\<forall>w. w \<notin> V \<longrightarrow> e' w = e w" "\<phi> (e'(v := b))"
    by blast
  then show "\<exists>e'. (\<forall>w. w \<notin> insert v V \<longrightarrow> e' w = e w) \<and> \<phi> e'"
    by (intro exI [of _ "e'(v := b)"]) auto
next
  assume "\<exists>e'. (\<forall>w. w \<notin> insert v V \<longrightarrow> e' w = e w) \<and> \<phi> e'"
  then obtain e' where e': "\<forall>w. w \<notin> insert v V \<longrightarrow> e' w = e w" "\<phi> e'"
    by blast
  define d where "d w = (if w \<in> V then e' w else e w)" for w
  have "d(v := e' v) = e'"
    using e'(1) by (auto simp: d_def)
  then have "\<phi> (d(v := e' v))"
    using e'(2) by simp
  then show "\<exists>e'. (\<forall>w. w \<notin> V \<longrightarrow> e' w = e w) \<and> (\<exists>b. \<phi> (e'(v := b)))"
    by (intro exI [of _ d] conjI exI [of _ "e' v"]) (auto simp: d_def)
qed

lemma runs_abstract_nodes:
  "ok m \<Longrightarrow> repr m p \<phi> \<Longrightarrow> node_array repr nvars m nodes vs \<Longrightarrow> set is \<subseteq> {..<length vs} \<Longrightarrow>
   runs (abstract_nodes C nodes is p) m (\<lambda>r m'. ext m m' \<and>
     repr m' r (\<lambda>e. \<exists>e'. (\<forall>v. v \<notin> (!) vs ` set is \<longrightarrow> e' v = e v) \<and> \<phi> e'))"
proof (induction "is" arbitrary: m p \<phi>)
  case Nil
  have "(\<lambda>e. \<exists>e'. (\<forall>v. e' v = e v) \<and> \<phi> e') = \<phi>"
    by (auto simp: fun_eq_iff [symmetric])
  with Nil show ?case by simp
next
  case (Cons i "is")
  have i: "i < length nodes" "repr m (nodes ! i) (\<lambda>e. e (vs ! i))" "vs ! i < nvars m"
    using Cons.prems by (auto simp: node_array_def)
  have "runs (Cudd_bddExistAbstract C p (nodes ! i)) m
      (\<lambda>r m'. ext m m' \<and> repr m' r (\<lambda>e. \<exists>b. \<phi> (e(vs ! i := b))))"
    using Cons.prems(1,2) i by (intro runs_Exist) auto
  then have "runs (cbind (Cudd_bddExistAbstract C p (nodes ! i)) (abstract_nodes C nodes is)) m
      (\<lambda>r m'. ext m m' \<and>
        repr m' r (\<lambda>e. \<exists>e'. (\<forall>v. v \<notin> (!) vs ` set (i # is) \<longrightarrow> e' v = e v) \<and> \<phi> e'))"
  proof (rule runs_bind_mono)
    fix r m1
    assume 1: "ext m m1 \<and> repr m1 r (\<lambda>e. \<exists>b. \<phi> (e(vs ! i := b)))"
    have "runs (abstract_nodes C nodes is r) m1 (\<lambda>r m'. ext m1 m' \<and>
        repr m' r (\<lambda>e. \<exists>e'. (\<forall>v. v \<notin> (!) vs ` set is \<longrightarrow> e' v = e v) \<and>
          (\<exists>b. \<phi> (e'(vs ! i := b)))))"
      using 1 Cons.prems(3,4) node_array_ext by (intro Cons.IH) (auto simp: ext_ok simp del: fun_upd_apply)
    then show "runs (abstract_nodes C nodes is r) m1 (\<lambda>r m'. ext m m' \<and>
        repr m' r (\<lambda>e. \<exists>e'. (\<forall>v. v \<notin> (!) vs ` set (i # is) \<longrightarrow> e' v = e v) \<and> \<phi> e'))"
      by (rule runs_mono) (use 1 in \<open>auto simp: ex_agree_insert intro: ext_trans\<close>)
  qed
  then show ?case
    using i(1) by (simp add: array_get_def)
qed

lemma runs_abstract_all:
  assumes "ok m" "repr m p \<phi>" "node_array repr nvars m nodes vs" "n = length vs"
  shows "runs (abstract_nodes C nodes [0..<n] p) m (\<lambda>r m'. ext m m' \<and>
    repr m' r (\<lambda>e. \<exists>e'. (\<forall>v. v \<notin> set vs \<longrightarrow> e' v = e v) \<and> \<phi> e'))"
proof -
  have "(!) vs ` set [0..<n] = set vs"
    using assms(4) by (auto simp: in_set_conv_nth)
  then show ?thesis
    using runs_abstract_nodes [OF assms(1-3), of "[0..<n]"] assms(4)
    by (simp add: atLeast0LessThan)
qed

lemma runs_swap_view:
  assumes "ok m" "frame us vu vp" "repr m p \<phi>"
    and "node_array repr nvars m unprimed vu" "node_array repr nvars m prim vp"
  shows "runs (Cudd_bddSwapVariables C p prim unprimed (length us)) m
    (\<lambda>r m'. ext m m' \<and> repr m' r (\<lambda>e. \<phi> (\<lambda>v. e (swap_var vp vu v))))"
proof (rule runs_Swap [OF assms(1,3)])
  have len: "length vp = length us" "length vu = length us"
    using assms(2) by (auto simp: frame_def)
  show "var_nodes m (take (length us) prim) vp" "var_nodes m (take (length us) unprimed) vu"
    using node_array_var_nodes [OF assms(4)] node_array_var_nodes [OF assms(5)] len by simp_all
  show "length us \<le> length prim" "length us \<le> length unprimed"
    using assms(4,5) len by (auto simp: node_array_def)
  show "length vp = length vu" "distinct (vp @ vu)"
    using assms(2) by (auto simp: frame_def)
qed simp

lemma runs_translatedImage:
  assumes "ok m" "frame us vu vp" "set_repr repr us vu m p X" "step_repr repr us vu vp m T R"
    and "node_array repr nvars m unprimed vu" "node_array repr nvars m prim vp"
    and R: "R \<subseteq> Pow (set us) \<times> Pow (set us)"
  shows "runs (translatedImage C p T prim unprimed (length us)) m
    (\<lambda>r m'. ext m m' \<and> set_repr repr us vu m' r (image_of R X))"
proof -
  obtain \<phi> where \<phi>: "repr m p \<phi>" "\<And>e. \<phi> e \<longleftrightarrow> view us vu e \<in> X"
    using assms(3) by (auto simp: set_repr_def)
  obtain \<tau> where \<tau>: "repr m T \<tau>" "\<And>e. \<tau> e \<longleftrightarrow> (view us vu e, view us vp e) \<in> R"
    using assms(4) by (auto simp: step_repr_def)
  have vu: "distinct vu" "length vu = length us" "distinct us" "set vu \<inter> set vp = {}"
    using assms(2) by (auto simp: frame_def)
  let ?\<phi>1 = "\<lambda>e. \<phi> e \<and> \<tau> e"
  let ?\<phi>2 = "\<lambda>e. \<exists>e'. (\<forall>v. v \<notin> set vu \<longrightarrow> e' v = e v) \<and> ?\<phi>1 e'"
  obtain r1 m1 where 1: "Cudd_bddAnd C p T m = Inr (r1, m1)" "ext m m1" "repr m1 r1 ?\<phi>1"
    using runs_And [OF assms(1) \<phi>(1) \<tau>(1), of "\<lambda>r m'. ext m m' \<and> repr m' r ?\<phi>1"]
    by (auto elim: runsE)
  obtain r2 m2 where
    2: "abstract_nodes C unprimed [0..<length us] r1 m1 = Inr (r2, m2)" "ext m1 m2" "repr m2 r2 ?\<phi>2"
    using runs_abstract_all [OF ext_ok [OF 1(2)] 1(3) node_array_ext [OF 1(2) assms(5)]
        vu(2) [symmetric]]
    by (rule runsE) auto
  have m2: "ext m m2"
    using 1(2) 2(2) by (rule ext_trans)
  obtain r3 m3 where
    3: "Cudd_bddSwapVariables C r2 prim unprimed (length us) m2 = Inr (r3, m3)" "ext m2 m3"
      "repr m3 r3 (\<lambda>e. ?\<phi>2 (\<lambda>v. e (swap_var vp vu v)))"
    using runs_swap_view [OF ext_ok [OF m2] assms(2) 2(3) node_array_ext [OF m2 assms(5)]
        node_array_ext [OF m2 assms(6)]]
    by (rule runsE) auto
  have "?\<phi>2 e \<longleftrightarrow> view us vp e \<in> image_of R X" for e
  proof -
    have "?\<phi>2 e \<longleftrightarrow> (\<exists>e'. (\<forall>v. v \<notin> set vu \<longrightarrow> e' v = e v) \<and>
        (\<lambda>t s. s \<in> X \<and> (s, t) \<in> R) (view us vp e') (view us vu e'))"
      by (simp add: \<phi>(2) \<tau>(2))
    also have "\<dots> \<longleftrightarrow> (\<exists>s \<subseteq> set us. s \<in> X \<and> (s, view us vp e) \<in> R)"
      by (rule ex_view [OF vu])
    finally show ?thesis
      using R by (auto simp: image_of_def)
  qed
  then have "set_repr repr us vu m3 r3 (image_of R X)"
    unfolding set_repr_def
    by (intro exI [of _ "\<lambda>e. ?\<phi>2 (\<lambda>v. e (swap_var vp vu v))"] conjI allI 3(3))
      (simp add: view_swap [OF assms(2)])
  moreover have "r3 \<noteq> NULL"
    using repr_node [OF 3(3)] by auto
  ultimately show ?thesis
    using 3 ext_trans [OF m2 3(2)] by (simp add: translatedImage_def runs_def 1 2)
qed

end

section \<open>The property\<close>


text \<open>A one-bit system that toggles, over the reference package: variable 0 is \<open>x\<close>, variable 1 its
  primed counterpart.\<close>

definition toggle_mgr :: mgr where
  "toggle_mgr = \<lparr>count = 2, refs = []\<rparr>"

definition toggle_steps :: "(state \<times> state) set" where
  "toggle_steps = {({}, {''x''}), ({''x''}, {})}"

definition toggle_node :: bdd where
  "toggle_node = Branch (bvar 1) 0 (bnot (bvar 1))"

lemma toggle_frame: "frame [''x''] [0] [1]"
  by (simp add: frame_def)

lemma toggle_ok: "bdd_ok toggle_mgr"
  by (simp add: bdd_ok_def)

lemma toggle_vars:
  "node_array bdd_repr count toggle_mgr [NodePtr (bvar 0)] [0]"
  "node_array bdd_repr count toggle_mgr [NodePtr (bvar 1)] [1]"
  by (auto simp: node_array_def toggle_mgr_def bdd_repr_NodePtr fun_eq_iff)

lemma toggle_set: "set_repr bdd_repr [''x''] [0] toggle_mgr (NodePtr (bvar 0)) {{''x''}}"
  by (auto simp: set_repr_def toggle_mgr_def bdd_repr_NodePtr view_def)

lemma toggle_step:
  "step_repr bdd_repr [''x''] [0] [1] toggle_mgr (NodePtr toggle_node) toggle_steps"
  unfolding step_repr_def
proof (intro exI conjI allI)
  show "bdd_repr toggle_mgr (NodePtr toggle_node) (beval toggle_node)"
    by (simp add: bdd_repr_NodePtr toggle_node_def toggle_mgr_def bvar_def)
  show "beval toggle_node e = ((view [''x''] [0] e, view [''x''] [1] e) \<in> toggle_steps)" for e
    by (cases "e 0"; cases "e 1") (auto simp: toggle_node_def bvar_def view_def toggle_steps_def)
qed

lemma toggle_steps_subset: "toggle_steps \<subseteq> Pow (set [''x'']) \<times> Pow (set [''x''])"
  by (auto simp: toggle_steps_def)


end
