(* ===== verification/Ctlmc.thy ===== *)
theory Ctlmc
  imports Image
begin

text \<open>
  \<open>ctlmc.c\<close>: the eight temporal operators on sets of states given as decision diagrams, and \<open>check\<close>,
  the evaluator of postfix CTL formulae. \<open>modelContext\<close> is the record of \<open>main.c\<close> they share; its
  \<open>manager\<close> is the state that the computations pass on.

  The six fixpoint operators are the same loop with different bodies. \<open>fix_loop\<close> is that loop, with
  a number of iterations it may use at most (\<open>fuel\<close>); running out of it is the outcome \<open>No_Fuel\<close>,
  and the theorems show that as many iterations as the model has states are enough.
\<close>

section \<open>The code: operators\<close>

record 'n modelContext =
  transition :: "'n ptr"
  existingVars :: "'n augmentedDdVar list"
  primedVars :: "'n augmentedDdVar option list"
  unprimedVars :: "'n augmentedDdVar list"
  numExistingVars :: nat
  primedNodes :: "'n ptr list"
  unprimedNodes :: "'n ptr list"
  numUnprimedNodes :: nat

definition ctl_EX :: "('m, 'n) cudd \<Rightarrow> 'n ptr \<Rightarrow> 'n modelContext \<Rightarrow> ('m, 'n ptr) cm" where
  "ctl_EX C propStates context =
     cbind (Cudd_bddSwapVariables C propStates (primedNodes context) (unprimedNodes context)
       (numUnprimedNodes context)) (\<lambda>propStatesPrimed.
     cbind (Cudd_bddAnd C (transition context) propStatesPrimed) (\<lambda>preExist.
     abstract_nodes C (primedNodes context) [0..<numUnprimedNodes context] preExist))"

definition ctl_AX :: "('m, 'n) cudd \<Rightarrow> 'n ptr \<Rightarrow> 'n modelContext \<Rightarrow> ('m, 'n ptr) cm" where
  "ctl_AX C propStates context =
     cbind (ctl_EX C (Cudd_Not C propStates) context) (\<lambda>r. creturn (Cudd_Not C r))"

text \<open>\<open>while (Cudd_EquivDC (manager, prev, current, zero) != 1) { prev = current; current = body; }\<close>\<close>

fun fix_loop ::
  "('m, 'n) cudd \<Rightarrow> nat \<Rightarrow> ('n ptr \<Rightarrow> ('m, 'n ptr) cm) \<Rightarrow> 'n ptr \<Rightarrow> 'n ptr \<Rightarrow> ('m, 'n ptr) cm" where
  "fix_loop C 0 body prev current = cstop No_Fuel"
| "fix_loop C (Suc fuel) body prev current =
     cbind (Cudd_ReadLogicZero C) (\<lambda>zero.
     cbind (Cudd_EquivDC C prev current zero) (\<lambda>eq.
       if eq \<noteq> 1 then cbind (body current) (\<lambda>next. fix_loop C fuel body current next)
       else creturn current))"

definition ctl_EF :: "('m, 'n) cudd \<Rightarrow> nat \<Rightarrow> 'n ptr \<Rightarrow> 'n modelContext \<Rightarrow> ('m, 'n ptr) cm" where
  "ctl_EF C fuel propStates context =
     (let body = (\<lambda>current. cbind (ctl_EX C current context) (\<lambda>x. Cudd_bddOr C propStates x)) in
      cbind (body propStates) (\<lambda>current. fix_loop C fuel body propStates current))"

definition ctl_AF :: "('m, 'n) cudd \<Rightarrow> nat \<Rightarrow> 'n ptr \<Rightarrow> 'n modelContext \<Rightarrow> ('m, 'n ptr) cm" where
  "ctl_AF C fuel propStates context =
     (let body = (\<lambda>current. cbind (ctl_AX C current context) (\<lambda>x. Cudd_bddOr C propStates x)) in
      cbind (body propStates) (\<lambda>current. fix_loop C fuel body propStates current))"

definition ctl_EG :: "('m, 'n) cudd \<Rightarrow> nat \<Rightarrow> 'n ptr \<Rightarrow> 'n modelContext \<Rightarrow> ('m, 'n ptr) cm" where
  "ctl_EG C fuel propStates context =
     (let body = (\<lambda>current. cbind (ctl_EX C current context) (\<lambda>x. Cudd_bddAnd C propStates x)) in
      cbind (body propStates) (\<lambda>current. fix_loop C fuel body propStates current))"

definition ctl_AG :: "('m, 'n) cudd \<Rightarrow> nat \<Rightarrow> 'n ptr \<Rightarrow> 'n modelContext \<Rightarrow> ('m, 'n ptr) cm" where
  "ctl_AG C fuel propStates context =
     (let body = (\<lambda>current. cbind (ctl_AX C current context) (\<lambda>x. Cudd_bddAnd C propStates x)) in
      cbind (body propStates) (\<lambda>current. fix_loop C fuel body propStates current))"

definition ctl_EU ::
  "('m, 'n) cudd \<Rightarrow> nat \<Rightarrow> 'n ptr \<Rightarrow> 'n ptr \<Rightarrow> 'n modelContext \<Rightarrow> ('m, 'n ptr) cm" where
  "ctl_EU C fuel beforeStates finallyStates context =
     (let body = (\<lambda>current. cbind (ctl_EX C current context) (\<lambda>x.
        cbind (Cudd_bddAnd C beforeStates x) (\<lambda>y. Cudd_bddOr C finallyStates y))) in
      cbind (body finallyStates) (\<lambda>current. fix_loop C fuel body finallyStates current))"

definition ctl_AU ::
  "('m, 'n) cudd \<Rightarrow> nat \<Rightarrow> 'n ptr \<Rightarrow> 'n ptr \<Rightarrow> 'n modelContext \<Rightarrow> ('m, 'n ptr) cm" where
  "ctl_AU C fuel beforeStates finallyStates context =
     (let body = (\<lambda>current. cbind (ctl_AX C current context) (\<lambda>x.
        cbind (Cudd_bddAnd C beforeStates x) (\<lambda>y. Cudd_bddOr C finallyStates y))) in
      cbind (body finallyStates) (\<lambda>current. fix_loop C fuel body finallyStates current))"

section \<open>The code: check\<close>

text \<open>The two globals kept for a backtrace that is not implemented; nothing reads them.\<close>

record 'n ctl_globals =
  RECENT_CTLPROP :: string
  EGPROP :: "'n ptr"

type_synonym 'n check_state = "'n ddStack \<times> 'n ctl_globals \<times> 'n ptr"

text \<open>Pop the two operands of an until: the top is the event, below it what holds before.\<close>

definition until_op ::
  "('n ptr \<Rightarrow> 'n ptr \<Rightarrow> ('m, 'n ptr) cm) \<Rightarrow> 'n ddStack \<Rightarrow> ('m, 'n ptr \<times> 'n ddStack) cm" where
  "until_op f stack =
     cbind (clift (ddStack_pop stack)) (\<lambda>(event, stack).
     cbind (clift (ddStack_pop stack)) (\<lambda>(befor, stack).
     cbind (f befor event) (\<lambda>r. creturn (r, stack))))"

definition check_step ::
  "('m, 'n) cudd \<Rightarrow> nat \<Rightarrow> 'n modelContext \<Rightarrow> string \<Rightarrow> 'n check_state \<Rightarrow> ('m, 'n check_state) cm"
where
  "check_step C fuel context tok s = (case s of (stack, g, _) \<Rightarrow>
     cbind (clift (isPrimedToken tok)) (\<lambda>prime.
     if prime then cstop (Exit 3 ''Can not have primed variables in CTL formula. Quitting...'')
     else
     cbind
       (if is_op tok OP_OR then
          cbind (binary_op (Cudd_bddOr C) stack) (\<lambda>(r, stack). creturn (r, stack, g))
        else if is_op tok OP_AND then
          cbind (binary_op (Cudd_bddAnd C) stack) (\<lambda>(r, stack). creturn (r, stack, g))
        else if is_op tok OP_XOR then
          cbind (binary_op (Cudd_bddXor C) stack) (\<lambda>(r, stack). creturn (r, stack, g))
        else if is_op tok OP_IFF then
          cbind (binary_op (bdd_iff C) stack) (\<lambda>(r, stack). creturn (r, stack, g))
        else if is_op tok OP_NOT then
          cbind (unary_op (\<lambda>a. creturn (Cudd_Not C a)) stack)
            (\<lambda>(r, stack). creturn (r, stack, g))
        else if is_op tok OP_EX then
          cbind (unary_op (\<lambda>a. ctl_EX C a context) stack)
            (\<lambda>(r, stack). creturn (r, stack, g\<lparr>RECENT_CTLPROP := tok\<rparr>))
        else if is_op tok OP_AX then
          cbind (unary_op (\<lambda>a. ctl_AX C a context) stack)
            (\<lambda>(r, stack). creturn (r, stack, g\<lparr>RECENT_CTLPROP := tok\<rparr>))
        else if is_op tok OP_EF then
          cbind (unary_op (\<lambda>a. ctl_EF C fuel a context) stack)
            (\<lambda>(r, stack). creturn (r, stack, g\<lparr>RECENT_CTLPROP := tok\<rparr>))
        else if is_op tok OP_AF then
          cbind (unary_op (\<lambda>a. ctl_AF C fuel a context) stack)
            (\<lambda>(r, stack). creturn (r, stack, g\<lparr>RECENT_CTLPROP := tok\<rparr>))
        else if is_op tok OP_EG then
          cbind (clift (ddStack_pop stack)) (\<lambda>(a, stack).
          cbind (ctl_EG C fuel a context) (\<lambda>r.
            creturn (r, stack, g\<lparr>RECENT_CTLPROP := tok, EGPROP := a\<rparr>)))
        else if is_op tok OP_AG then
          cbind (unary_op (\<lambda>a. ctl_AG C fuel a context) stack)
            (\<lambda>(r, stack). creturn (r, stack, g\<lparr>RECENT_CTLPROP := tok\<rparr>))
        else if is_op tok OP_EU then
          cbind (until_op (\<lambda>a b. ctl_EU C fuel a b context) stack)
            (\<lambda>(r, stack). creturn (r, stack, g\<lparr>RECENT_CTLPROP := tok\<rparr>))
        else if is_op tok OP_AU then
          cbind (until_op (\<lambda>a b. ctl_AU C fuel a b context) stack)
            (\<lambda>(r, stack). creturn (r, stack, g\<lparr>RECENT_CTLPROP := tok\<rparr>))
        else
          (case find_var tok (take (numExistingVars context) (existingVars context)) of
             Some v \<Rightarrow> creturn (var_node v, stack, g)
           | None \<Rightarrow> cstop (Exit 3 ''Found undeclared variable in CTL formula. Quitting...'')))
       (\<lambda>(recentNode, stack, g).
     cbind (clift (ddStack_push stack recentNode)) (\<lambda>(_, stack).
       creturn (stack, g, recentNode)))))"

fun check_loop ::
  "('m, 'n) cudd \<Rightarrow> nat \<Rightarrow> 'n modelContext \<Rightarrow> string list \<Rightarrow> 'n check_state \<Rightarrow>
   ('m, 'n check_state) cm" where
  "check_loop C fuel context [] s = creturn s"
| "check_loop C fuel context (t # ts) s =
     cbind (check_step C fuel context t s) (check_loop C fuel context ts)"

definition check ::
  "('m, 'n) cudd \<Rightarrow> nat \<Rightarrow> string \<Rightarrow> 'n modelContext \<Rightarrow> 'n ctl_globals \<Rightarrow>
   ('m, 'n ptr \<times> 'n ctl_globals) cm" where
  "check C fuel propForm context g =
     cbind (clift (tokenize propForm)) (\<lambda>propTokens.
     cbind (clift (getUniqVars propTokens)) (\<lambda>propUniqVars.
     (let stack = ddStack_init (ddStack_malloc (length propTokens)) (length propTokens) in
      cbind (check_loop C fuel context propTokens (stack, g, NULL)) (\<lambda>(stack, g, recentNode).
      if dd_top stack \<noteq> 1 then cstop (Exit 3 ''Malformed property expression. Quitting...'')
      else creturn (recentNode, g)))))"

section \<open>The context the operators run in\<close>

text \<open>Transition relation \<open>R\<close> over the states of the unprimed names \<open>us\<close>.\<close>

definition context_ok ::
  "('m \<Rightarrow> 'n ptr \<Rightarrow> bfun \<Rightarrow> bool) \<Rightarrow> ('m \<Rightarrow> nat) \<Rightarrow> string list \<Rightarrow> nat list \<Rightarrow> nat list \<Rightarrow>
   (state \<times> state) set \<Rightarrow> 'm \<Rightarrow> 'n modelContext \<Rightarrow> bool" where
  "context_ok repr nvars us vu vp R m ctx \<longleftrightarrow>
     frame us vu vp \<and> R \<subseteq> Pow (set us) \<times> Pow (set us) \<and>
     numUnprimedNodes ctx = length us \<and>
     step_repr repr us vu vp m (transition ctx) R \<and>
     node_array repr nvars m (unprimedNodes ctx) vu \<and>
     node_array repr nvars m (primedNodes ctx) vp"

abbreviation states :: "string list \<Rightarrow> state set" where "states us \<equiv> Pow (set us)"

lemma context_system: "context_ok repr nvars us vu vp R m ctx \<Longrightarrow> transition_system (states us) R"
  by (simp add: context_ok_def transition_system_def)

section \<open>CTL formulae in postfix form\<close>

text \<open>\<open>a b EU\<close> is \<open>E (a U b)\<close>.\<close>

primrec ctl_rpn :: "ctl \<Rightarrow> string list" where
  "ctl_rpn (CVar x) = [x]"
| "ctl_rpn (CNot a) = ctl_rpn a @ [OP_NOT]"
| "ctl_rpn (COr a b) = ctl_rpn a @ ctl_rpn b @ [OP_OR]"
| "ctl_rpn (CAnd a b) = ctl_rpn a @ ctl_rpn b @ [OP_AND]"
| "ctl_rpn (CXor a b) = ctl_rpn a @ ctl_rpn b @ [OP_XOR]"
| "ctl_rpn (CIff a b) = ctl_rpn a @ ctl_rpn b @ [OP_IFF]"
| "ctl_rpn (CEX a) = ctl_rpn a @ [OP_EX]"
| "ctl_rpn (CAX a) = ctl_rpn a @ [OP_AX]"
| "ctl_rpn (CEF a) = ctl_rpn a @ [OP_EF]"
| "ctl_rpn (CAF a) = ctl_rpn a @ [OP_AF]"
| "ctl_rpn (CEG a) = ctl_rpn a @ [OP_EG]"
| "ctl_rpn (CAG a) = ctl_rpn a @ [OP_AG]"
| "ctl_rpn (CEU a b) = ctl_rpn a @ ctl_rpn b @ [OP_EU]"
| "ctl_rpn (CAU a b) = ctl_rpn a @ ctl_rpn b @ [OP_AU]"

primrec cvars :: "ctl \<Rightarrow> string list" where
  "cvars (CVar x) = [x]"
| "cvars (CNot a) = cvars a"
| "cvars (COr a b) = cvars a @ cvars b"
| "cvars (CAnd a b) = cvars a @ cvars b"
| "cvars (CXor a b) = cvars a @ cvars b"
| "cvars (CIff a b) = cvars a @ cvars b"
| "cvars (CEX a) = cvars a"
| "cvars (CAX a) = cvars a"
| "cvars (CEF a) = cvars a"
| "cvars (CAF a) = cvars a"
| "cvars (CEG a) = cvars a"
| "cvars (CAG a) = cvars a"
| "cvars (CEU a b) = cvars a @ cvars b"
| "cvars (CAU a b) = cvars a @ cvars b"

text \<open>A token that \<open>check\<close> takes for an unprimed name.\<close>

definition ctl_name :: "string \<Rightarrow> bool" where
  "ctl_name x \<longleftrightarrow> token_ok x \<and> x \<notin> set operators \<and> \<not> primed x"

text \<open>The states that satisfy a formula of a system over the names \<open>us\<close>.\<close>

abbreviation ctl_states :: "string list \<Rightarrow> (state \<times> state) set \<Rightarrow> ctl \<Rightarrow> state set" where
  "ctl_states us R f \<equiv> csat (states us) R (\<lambda>x. {s. x \<in> s}) f"

text \<open>Every unprimed name is found in the table, with a node for the states in which it is true.\<close>

definition ctx_vars ::
  "('m \<Rightarrow> 'n ptr \<Rightarrow> bfun \<Rightarrow> bool) \<Rightarrow> string list \<Rightarrow> nat list \<Rightarrow> 'm \<Rightarrow> 'n modelContext \<Rightarrow> bool" where
  "ctx_vars repr us vu m ctx \<longleftrightarrow> (\<forall>x \<in> set us. \<exists>v.
     find_var x (take (numExistingVars ctx) (existingVars ctx)) = Some v \<and>
     set_repr repr us vu m (var_node v) {s. x \<in> s})"

lemma operator_tokens: "opr \<in> set operators \<Longrightarrow> token_ok opr \<and> isPrimedToken opr = Inr False"
  by (auto simp: operators_def op_defs token_ok_def MAX_VAR_LEN_def is_space_def isPrimedToken_def)

lemma ctl_rpn_tokens:
  "(\<forall>x \<in> set (cvars f). ctl_name x) \<Longrightarrow> list_all token_ok (ctl_rpn f)"
proof -
  have "\<forall>t \<in> set operators. token_ok t"
    using operator_tokens by blast
  then have ops: "list_all token_ok operators"
    by (simp only: list_all_iff)
  have ops': "token_ok OP_OR" "token_ok OP_AND" "token_ok OP_XOR" "token_ok OP_IFF"
    "token_ok OP_NOT" "token_ok OP_EX" "token_ok OP_AX" "token_ok OP_EF" "token_ok OP_AF"
    "token_ok OP_EG" "token_ok OP_AG" "token_ok OP_EU" "token_ok OP_AU"
    using ops by (simp_all add: operators_def)
  have var: "ctl_name x \<Longrightarrow> token_ok x" for x
    by (simp add: ctl_name_def)
  show "(\<forall>x \<in> set (cvars f). ctl_name x) \<Longrightarrow> list_all token_ok (ctl_rpn f)"
    by (induction f) (simp_all add: ops' var)
qed

lemma ctl_rpn_nonempty [simp]: "ctl_rpn f \<noteq> []"
  by (induction f) auto

text \<open>The step of an operator: pop, compute, push.\<close>

definition push_result ::
  "('m, 'n ptr \<times> 'n ddStack \<times> 'n ctl_globals) cm \<Rightarrow> ('m, 'n check_state) cm" where
  "push_result c = cbind c (\<lambda>(r, stack, g).
     cbind (clift (ddStack_push stack r)) (\<lambda>(_, stack). creturn (stack, g, r)))"

definition pop1 ::
  "'n ddStack \<Rightarrow> ('n ptr \<Rightarrow> ('m, 'n ptr) cm) \<Rightarrow> ('n ptr \<Rightarrow> 'n ctl_globals) \<Rightarrow>
   ('m, 'n ptr \<times> 'n ddStack \<times> 'n ctl_globals) cm" where
  "pop1 st F G = cbind (clift (ddStack_pop st)) (\<lambda>(a, st). cbind (F a) (\<lambda>r. creturn (r, st, G a)))"

definition pop2 ::
  "'n ddStack \<Rightarrow> ('n ptr \<Rightarrow> 'n ptr \<Rightarrow> ('m, 'n ptr) cm) \<Rightarrow> 'n ctl_globals \<Rightarrow>
   ('m, 'n ptr \<times> 'n ddStack \<times> 'n ctl_globals) cm" where
  "pop2 st F g = cbind (clift (ddStack_pop st)) (\<lambda>(a, st). cbind (clift (ddStack_pop st)) (\<lambda>(b, st).
     cbind (F a b) (\<lambda>r. creturn (r, st, g))))"

lemma is_op_code: "is_op t u \<longleftrightarrow> take MAX_OP_LEN t = take MAX_OP_LEN u"
  by (simp add: is_op_def strncmp_eq_take)

lemmas check_step_simps = check_step_def isPrimedToken_def push_result_def pop1_def pop2_def
  cbind_cbind binary_op_def unary_op_def until_op_def split_def is_op_code op_defs MAX_OP_LEN_def

lemma check_step_unary:
  "check_step C fuel ctx OP_NOT (st, g, r) =
     push_result (pop1 st (\<lambda>a. creturn (Cudd_Not C a)) (\<lambda>_. g))"
  "check_step C fuel ctx OP_EX (st, g, r) =
     push_result (pop1 st (\<lambda>a. ctl_EX C a ctx) (\<lambda>_. g\<lparr>RECENT_CTLPROP := OP_EX\<rparr>))"
  "check_step C fuel ctx OP_AX (st, g, r) =
     push_result (pop1 st (\<lambda>a. ctl_AX C a ctx) (\<lambda>_. g\<lparr>RECENT_CTLPROP := OP_AX\<rparr>))"
  "check_step C fuel ctx OP_EF (st, g, r) =
     push_result (pop1 st (\<lambda>a. ctl_EF C fuel a ctx) (\<lambda>_. g\<lparr>RECENT_CTLPROP := OP_EF\<rparr>))"
  "check_step C fuel ctx OP_AF (st, g, r) =
     push_result (pop1 st (\<lambda>a. ctl_AF C fuel a ctx) (\<lambda>_. g\<lparr>RECENT_CTLPROP := OP_AF\<rparr>))"
  "check_step C fuel ctx OP_EG (st, g, r) =
     push_result (pop1 st (\<lambda>a. ctl_EG C fuel a ctx)
       (\<lambda>a. g\<lparr>RECENT_CTLPROP := OP_EG, EGPROP := a\<rparr>))"
  "check_step C fuel ctx OP_AG (st, g, r) =
     push_result (pop1 st (\<lambda>a. ctl_AG C fuel a ctx) (\<lambda>_. g\<lparr>RECENT_CTLPROP := OP_AG\<rparr>))"
  by (simp_all add: check_step_simps del: creturn_apply)

lemma check_step_binary:
  "check_step C fuel ctx OP_OR (st, g, r) = push_result (pop2 st (Cudd_bddOr C) g)"
  "check_step C fuel ctx OP_AND (st, g, r) = push_result (pop2 st (Cudd_bddAnd C) g)"
  "check_step C fuel ctx OP_XOR (st, g, r) = push_result (pop2 st (Cudd_bddXor C) g)"
  "check_step C fuel ctx OP_IFF (st, g, r) = push_result (pop2 st (bdd_iff C) g)"
  "check_step C fuel ctx OP_EU (st, g, r) =
     push_result (pop2 st (\<lambda>b a. ctl_EU C fuel a b ctx) (g\<lparr>RECENT_CTLPROP := OP_EU\<rparr>))"
  "check_step C fuel ctx OP_AU (st, g, r) =
     push_result (pop2 st (\<lambda>b a. ctl_AU C fuel a b ctx) (g\<lparr>RECENT_CTLPROP := OP_AU\<rparr>))"
  by (simp_all add: check_step_simps del: creturn_apply)

lemma check_step_name:
  "ctl_name x \<Longrightarrow> check_step C fuel ctx x (st, g, r) =
     (case find_var x (take (numExistingVars ctx) (existingVars ctx)) of
        Some v \<Rightarrow> push_result (creturn (var_node v, st, g))
      | None \<Rightarrow> cstop (Exit 3 ''Found undeclared variable in CTL formula. Quitting...''))"
  using isPrimedToken_primed [of x]
  by (auto simp: ctl_name_def token_ok_def check_step_def push_result_def is_op_eq operators_def
      split: option.split)

lemma check_loop_append:
  "check_loop C fuel ctx (xs @ ys) s =
     cbind (check_loop C fuel ctx xs s) (check_loop C fuel ctx ys)"
proof (induction xs arbitrary: s)
  case (Cons x xs)
  then have "check_loop C fuel ctx (xs @ ys) =
      (\<lambda>s. cbind (check_loop C fuel ctx xs s) (check_loop C fuel ctx ys))"
    by (rule ext)
  then show ?case
    by (simp only: append_Cons check_loop.simps cbind_cbind)
qed simp

section \<open>Sets of states under the diagram operations\<close>

context cudd_package
begin

lemma context_ok_ext:
  "ext m m' \<Longrightarrow> context_ok repr nvars us vu vp R m ctx \<Longrightarrow>
   context_ok repr nvars us vu vp R m' ctx"
  by (simp add: context_ok_def step_repr_ext node_array_ext)

lemma set_repr_Not:
  assumes "ok m" "set_repr repr us vu m p X"
  shows "set_repr repr us vu m (Cudd_Not C p) (states us - X)"
proof -
  obtain \<phi> where "repr m p \<phi>" "\<forall>e. \<phi> e \<longleftrightarrow> view us vu e \<in> X"
    using assms(2) by (auto simp: set_repr_def)
  then show ?thesis
    using repr_Not [OF assms(1)] view_subset unfolding set_repr_def by blast
qed

lemma runs_set_binary:
  assumes "\<And>\<phi> \<psi>. repr m p \<phi> \<Longrightarrow> repr m q \<psi> \<Longrightarrow>
      runs (f p q) m (\<lambda>r m'. ext m m' \<and> repr m' r (\<lambda>e. g (\<phi> e) (\<psi> e)))"
    and "set_repr repr us vu m p X" "set_repr repr us vu m q Y"
    and Z: "\<And>s. s \<subseteq> set us \<Longrightarrow> s \<in> Z \<longleftrightarrow> g (s \<in> X) (s \<in> Y)"
  shows "runs (f p q) m (\<lambda>r m'. ext m m' \<and> set_repr repr us vu m' r Z)"
proof -
  obtain \<phi> \<psi> where "repr m p \<phi>" "\<forall>e. \<phi> e \<longleftrightarrow> view us vu e \<in> X"
    and "repr m q \<psi>" "\<forall>e. \<psi> e \<longleftrightarrow> view us vu e \<in> Y"
    using assms(2,3) by (auto simp: set_repr_def)
  then show ?thesis
    using Z view_subset
    by (intro runs_mono [OF assms(1)]) (auto simp: set_repr_def intro!: exI [of _ "\<lambda>e. g (\<phi> e) (\<psi> e)"])
qed

lemma runs_set_Or:
  assumes "ok m" "set_repr repr us vu m p X" "set_repr repr us vu m q Y"
  shows "runs (Cudd_bddOr C p q) m (\<lambda>r m'. ext m m' \<and> set_repr repr us vu m' r (X \<union> Y))"
proof (rule runs_set_binary [OF _ assms(2,3), where g = "(\<or>)"])
  show "runs (Cudd_bddOr C p q) m (\<lambda>r m'. ext m m' \<and> repr m' r (\<lambda>e. \<phi> e \<or> \<psi> e))"
    if "repr m p \<phi>" "repr m q \<psi>" for \<phi> \<psi>
    using that by (intro runs_Or [OF assms(1)]) auto
qed simp

lemma runs_set_And:
  assumes "ok m" "set_repr repr us vu m p X" "set_repr repr us vu m q Y"
  shows "runs (Cudd_bddAnd C p q) m (\<lambda>r m'. ext m m' \<and> set_repr repr us vu m' r (X \<inter> Y))"
proof (rule runs_set_binary [OF _ assms(2,3), where g = "(\<and>)"])
  show "runs (Cudd_bddAnd C p q) m (\<lambda>r m'. ext m m' \<and> repr m' r (\<lambda>e. \<phi> e \<and> \<psi> e))"
    if "repr m p \<phi>" "repr m q \<psi>" for \<phi> \<psi>
    using that by (intro runs_And [OF assms(1)]) auto
qed simp

lemma set_repr_equal:
  assumes "frame us vu vp" "set_repr repr us vu m p X" "set_repr repr us vu m q Y"
    and "X \<subseteq> states us" "Y \<subseteq> states us" "repr m p \<phi>" "repr m q \<psi>"
  shows "\<phi> = \<psi> \<longleftrightarrow> X = Y"
proof -
  have \<phi>: "\<phi> e \<longleftrightarrow> view us vu e \<in> X" and \<psi>: "\<psi> e \<longleftrightarrow> view us vu e \<in> Y" for e
    using assms(2,3) repr_unique [OF assms(6)] repr_unique [OF assms(7)]
    by (auto simp: set_repr_def)
  have "\<exists>e. view us vu e = s" if "s \<subseteq> set us" for s
    using view_surj [of vu us s] assms(1) that by (auto simp: frame_def)
  then have "X \<subseteq> Y \<and> Y \<subseteq> X" if "\<phi> = \<psi>"
    using that \<phi> \<psi> assms(4,5) by (metis Pow_iff subset_iff)
  then show ?thesis
    using \<phi> \<psi> by (auto simp: fun_eq_iff)
qed

lemma runs_set_Equiv:
  assumes "ok m" "frame us vu vp" "set_repr repr us vu m p X" "set_repr repr us vu m q Y"
    and "X \<subseteq> states us" "Y \<subseteq> states us" "repr m z (\<lambda>e. False)"
  shows "runs (Cudd_EquivDC C p q z) m (\<lambda>r m'. ext m m' \<and> r = (if X = Y then 1 else 0))"
proof -
  obtain \<phi> \<psi> where "repr m p \<phi>" "repr m q \<psi>"
    using assms(3,4) by (auto simp: set_repr_def)
  then show ?thesis
    using set_repr_equal [OF assms(2-6)] by (intro runs_Equiv [OF assms(1) _ _ assms(7)]) auto
qed

section \<open>EX and AX\<close>

lemma runs_EX:
  assumes "ok m" "context_ok repr nvars us vu vp R m ctx" "set_repr repr us vu m p X"
  shows "runs (ctl_EX C p ctx) m
    (\<lambda>r m'. ext m m' \<and> set_repr repr us vu m' r (sat_EX (states us) R X))"
proof -
  note ctx = assms(2) [unfolded context_ok_def]
  have frame: "frame us vu vp"
    using ctx by blast
  have vp: "distinct vp" "length vp = length us" "distinct us" "set vp \<inter> set vu = {}"
    using frame by (auto simp: frame_def)
  obtain \<phi> where \<phi>: "repr m p \<phi>" "\<And>e. \<phi> e \<longleftrightarrow> view us vu e \<in> X"
    using assms(3) by (auto simp: set_repr_def)
  let ?\<phi>1 = "\<lambda>e. \<phi> (\<lambda>v. e (swap_var vp vu v))"
  obtain r1 m1 where 1: "Cudd_bddSwapVariables C p (primedNodes ctx) (unprimedNodes ctx)
      (length us) m = Inr (r1, m1)" "ext m m1" "repr m1 r1 ?\<phi>1"
    using runs_swap_view [OF assms(1) frame \<phi>(1), of "unprimedNodes ctx" "primedNodes ctx"] ctx
    by (auto elim: runsE)
  obtain \<tau> where \<tau>: "repr m1 (transition ctx) \<tau>"
    "\<And>e. \<tau> e \<longleftrightarrow> (view us vu e, view us vp e) \<in> R"
    using ctx step_repr_ext [OF 1(2), of us vu vp "transition ctx" R] by (auto simp: step_repr_def)
  obtain r2 m2 where 2: "Cudd_bddAnd C (transition ctx) r1 m1 = Inr (r2, m2)" "ext m1 m2"
      "repr m2 r2 (\<lambda>e. \<tau> e \<and> ?\<phi>1 e)"
    using runs_And [OF ext_ok [OF 1(2)] \<tau>(1) 1(3),
        of "\<lambda>r m'. ext m1 m' \<and> repr m' r (\<lambda>e. \<tau> e \<and> ?\<phi>1 e)"]
    by (auto elim: runsE)
  have m2: "ext m m2"
    using 1(2) 2(2) by (rule ext_trans)
  have arr: "node_array repr nvars m2 (primedNodes ctx) vp"
    using ctx node_array_ext [OF m2] by blast
  let ?\<phi>3 = "\<lambda>e. \<exists>e'. (\<forall>v. v \<notin> set vp \<longrightarrow> e' v = e v) \<and> \<tau> e' \<and> ?\<phi>1 e'"
  obtain r3 m3 where
    3: "abstract_nodes C (primedNodes ctx) [0..<length us] r2 m2 = Inr (r3, m3)" "ext m2 m3"
      "repr m3 r3 ?\<phi>3"
    using runs_abstract_all [OF ext_ok [OF m2] 2(3) arr vp(2) [symmetric]] by (rule runsE) auto
  have "?\<phi>3 e \<longleftrightarrow> view us vu e \<in> sat_EX (states us) R X" for e
  proof -
    have "?\<phi>3 e \<longleftrightarrow> (\<exists>e'. (\<forall>v. v \<notin> set vp \<longrightarrow> e' v = e v) \<and>
        (\<lambda>s t. (s, t) \<in> R \<and> t \<in> X) (view us vu e') (view us vp e'))"
      by (simp add: \<phi>(2) \<tau>(2) view_swap [OF frame])
    also have "\<dots> \<longleftrightarrow> (\<exists>t \<subseteq> set us. (view us vu e, t) \<in> R \<and> t \<in> X)"
      by (rule ex_view [OF vp])
    finally show ?thesis
      using ctx view_subset [of us vu e] by (auto simp: sat_EX_def)
  qed
  then have "set_repr repr us vu m3 r3 (sat_EX (states us) R X)"
    unfolding set_repr_def by (intro exI [of _ ?\<phi>3] conjI allI 3(3))
  then show ?thesis
    using ctx 3 ext_trans [OF m2 3(2)] by (simp add: ctl_EX_def runs_def 1 2)
qed

lemma runs_AX:
  assumes "ok m" "context_ok repr nvars us vu vp R m ctx" "set_repr repr us vu m p X"
  shows "runs (ctl_AX C p ctx) m
    (\<lambda>r m'. ext m m' \<and> set_repr repr us vu m' r (sat_AX (states us) R X))"
proof -
  have "runs (ctl_EX C (Cudd_Not C p) ctx) m (\<lambda>r m'. ext m m' \<and>
      set_repr repr us vu m' r (sat_EX (states us) R (states us - X)))"
    by (rule runs_EX [OF assms(1,2) set_repr_Not [OF assms(1,3)]])
  moreover have "sat_AX (states us) R X = states us - sat_EX (states us) R (states us - X)"
    using assms(2) by (intro sat_AX_dual) (simp add: context_ok_def)
  ultimately show ?thesis
    unfolding ctl_AX_def by (elim runs_bind_mono) (auto intro: set_repr_Not ext_ok)
qed

section \<open>The fixpoint loop\<close>

text \<open>
  A predicate that survives the growth of the manager, for the operands a body uses besides the
  current set.
\<close>

definition stable :: "('m \<Rightarrow> bool) \<Rightarrow> bool" where
  "stable I \<longleftrightarrow> (\<forall>m m'. I m \<longrightarrow> ext m m' \<longrightarrow> I m')"

lemma stableD: "stable I \<Longrightarrow> I m \<Longrightarrow> ext m m' \<Longrightarrow> I m'"
  unfolding stable_def by blast

text \<open>\<open>body\<close> computes \<open>G\<close> on sets of states.\<close>

definition computes ::
  "string list \<Rightarrow> nat list \<Rightarrow> ('m \<Rightarrow> bool) \<Rightarrow> ('n ptr \<Rightarrow> ('m, 'n ptr) cm) \<Rightarrow> (state set \<Rightarrow> state set) \<Rightarrow> bool"
where
  "computes us vu I body G \<longleftrightarrow> (\<forall>m p X. ok m \<longrightarrow> I m \<longrightarrow> set_repr repr us vu m p X \<longrightarrow>
     X \<subseteq> states us \<longrightarrow>
     runs (body p) m (\<lambda>r m'. ext m m' \<and> set_repr repr us vu m' r (G X)))"

lemma computesD:
  "computes us vu I body G \<Longrightarrow> ok m \<Longrightarrow> I m \<Longrightarrow> set_repr repr us vu m p X \<Longrightarrow>
   X \<subseteq> states us \<Longrightarrow> runs (body p) m (\<lambda>r m'. ext m m' \<and> set_repr repr us vu m' r (G X))"
  unfolding computes_def by blast

lemma runs_fix_loop:
  assumes frame: "frame us vu vp" and st: "stable I" and body: "computes us vu I body G"
    and G: "\<And>X. X \<subseteq> states us \<Longrightarrow> G X \<subseteq> states us"
    and P: "\<And>X. P X \<Longrightarrow> X \<subseteq> states us"
    and step: "\<And>X. P X \<Longrightarrow> X \<noteq> G X \<Longrightarrow> P (G X) \<and> f (G X) < f X"
  shows "ok m \<Longrightarrow> I m \<Longrightarrow> P X \<Longrightarrow> set_repr repr us vu m prev X \<Longrightarrow>
    set_repr repr us vu m cur (G X) \<Longrightarrow> f X < fuel \<Longrightarrow>
    runs (fix_loop C fuel body prev cur) m
      (\<lambda>r m'. ext m m' \<and> (\<exists>Y. P Y \<and> G Y = Y \<and> set_repr repr us vu m' r Y))"
proof (induction fuel arbitrary: m X prev cur)
  case 0
  then show ?case by simp
next
  case (Suc fuel)
  have X: "X \<subseteq> states us" "G X \<subseteq> states us"
    using P [OF Suc.prems(3)] G by blast+
  obtain z where z: "Cudd_ReadLogicZero C m = Inr (z, m)" "repr m z (\<lambda>e. False)"
    using runs_Zero [OF Suc.prems(1), of "\<lambda>r m'. m' = m \<and> repr m r (\<lambda>e. False)"]
    by (auto elim: runsE)
  obtain m1 where 1: "Cudd_EquivDC C prev cur z m = Inr (if X = G X then 1 else 0, m1)" "ext m m1"
    using runs_set_Equiv [OF Suc.prems(1) frame Suc.prems(4,5) X z(2)] by (auto elim: runsE)
  show ?case
  proof (cases "X = G X")
    case True
    then show ?thesis
      using Suc.prems set_repr_ext [OF 1(2)] 1(2) by (auto simp: runs_def z 1)
  next
    case False
    have GX: "P (G X)" "f (G X) < f X"
      using step [OF Suc.prems(3) False] by blast+
    obtain n m2 where 2: "body cur m1 = Inr (n, m2)" "ext m1 m2" "set_repr repr us vu m2 n (G (G X))"
      using computesD [OF body ext_ok [OF 1(2)] stableD [OF st Suc.prems(2) 1(2)]
          set_repr_ext [OF 1(2) Suc.prems(5)] X(2)]
      by (auto elim: runsE)
    have m2: "ext m m2"
      using 1(2) 2(2) by (rule ext_trans)
    have "runs (fix_loop C fuel body cur n) m2
        (\<lambda>r m'. ext m2 m' \<and> (\<exists>Y. P Y \<and> G Y = Y \<and> set_repr repr us vu m' r Y))"
      using Suc.IH [OF ext_ok [OF m2] stableD [OF st Suc.prems(2) m2] GX(1)
          set_repr_ext [OF m2 Suc.prems(5)] 2(3)] GX(2) Suc.prems(6)
      by simp
    then have "runs (fix_loop C fuel body cur n) m2
        (\<lambda>r m'. ext m m' \<and> (\<exists>Y. P Y \<and> G Y = Y \<and> set_repr repr us vu m' r Y))"
      by (rule runs_mono) (auto intro: ext_trans [OF m2])
    then show ?thesis
      using False by (simp add: runs_def z 1 2)
  qed
qed

lemma runs_fix_op:
  assumes frame: "frame us vu vp" and st: "stable I" and body: "computes us vu I body G"
    and G: "\<And>X. X \<subseteq> states us \<Longrightarrow> G X \<subseteq> states us"
    and P: "\<And>X. P X \<Longrightarrow> X \<subseteq> states us"
    and step: "\<And>X. P X \<Longrightarrow> X \<noteq> G X \<Longrightarrow> P (G X) \<and> f (G X) < f X"
    and m: "ok m" "I m" "P X" "set_repr repr us vu m p X" "f X < fuel"
  shows "runs (cbind (body p) (\<lambda>cur. fix_loop C fuel body p cur)) m
      (\<lambda>r m'. ext m m' \<and> (\<exists>Y. P Y \<and> G Y = Y \<and> set_repr repr us vu m' r Y))"
proof (rule runs_bind_mono [OF computesD [OF body m(1,2,4) P [OF m(3)]]])
  fix cur m1
  assume 1: "ext m m1 \<and> set_repr repr us vu m1 cur (G X)"
  then have "runs (fix_loop C fuel body p cur) m1
      (\<lambda>r m'. ext m1 m' \<and> (\<exists>Y. P Y \<and> G Y = Y \<and> set_repr repr us vu m' r Y))"
    using m stableD [OF st m(2)] set_repr_ext ext_ok
    by (intro runs_fix_loop [where P = P and f = f and X = X, OF frame st body G P step]) auto
  then show "runs (fix_loop C fuel body p cur) m1
      (\<lambda>r m'. ext m m' \<and> (\<exists>Y. P Y \<and> G Y = Y \<and> set_repr repr us vu m' r Y))"
    by (rule runs_mono) (use 1 in \<open>auto intro: ext_trans\<close>)
qed

text \<open>Starting below its image, the loop climbs to the least fixpoint.\<close>

lemma runs_least:
  assumes "frame us vu vp" "stable I" "computes us vu I body G"
    and G: "\<And>X. X \<subseteq> states us \<Longrightarrow> G X \<subseteq> states us"
    and mono: "\<And>X Y. X \<subseteq> Y \<Longrightarrow> G X \<subseteq> G Y"
    and m: "ok m" "I m" "set_repr repr us vu m p X" "X \<subseteq> states us" "X \<subseteq> G X"
    and fuel: "card (states us) < fuel"
  shows "runs (cbind (body p) (\<lambda>cur. fix_loop C fuel body p cur)) m
    (\<lambda>r m'. ext m m' \<and> (\<exists>Y. least_from (states us) G X Y \<and> set_repr repr us vu m' r Y))"
proof -
  define P where "P Z \<longleftrightarrow> Z \<subseteq> states us \<and> X \<subseteq> Z \<and> Z \<subseteq> G Z \<and>
    (\<forall>W. W \<subseteq> states us \<longrightarrow> X \<subseteq> W \<longrightarrow> G W \<subseteq> W \<longrightarrow> Z \<subseteq> W)" for Z
  have step: "P (G Z) \<and> card (states us - G Z) < card (states us - Z)" if Z: "P Z" "Z \<noteq> G Z" for Z
  proof
    have Z1: "Z \<subseteq> states us" "X \<subseteq> Z" "Z \<subseteq> G Z"
      and Z2: "\<And>W. W \<subseteq> states us \<Longrightarrow> X \<subseteq> W \<Longrightarrow> G W \<subseteq> W \<Longrightarrow> Z \<subseteq> W"
      using Z(1) by (simp_all add: P_def)
    show "P (G Z)"
      unfolding P_def
    proof (intro conjI allI impI)
      show "G Z \<subseteq> W" if W: "W \<subseteq> states us" "X \<subseteq> W" "G W \<subseteq> W" for W
        using mono [OF Z2 [OF W]] W(3) by (rule order_trans)
    qed (use G [OF Z1(1)] mono [OF Z1(3)] order_trans [OF Z1(2,3)] in simp_all)
    have "states us - G Z \<subset> states us - Z"
      using Z(2) Z1 G [OF Z1(1)] by blast
    then show "card (states us - G Z) < card (states us - Z)"
      by (intro psubset_card_mono) auto
  qed
  have f: "card (states us - X) < fuel"
    using fuel card_mono [of "states us" "states us - X"] by auto
  have P: "P X" "\<And>Z. P Z \<Longrightarrow> Z \<subseteq> states us"
    using m(4,5) unfolding P_def by blast+
  have "runs (cbind (body p) (\<lambda>cur. fix_loop C fuel body p cur)) m
      (\<lambda>r m'. ext m m' \<and> (\<exists>Y. P Y \<and> G Y = Y \<and> set_repr repr us vu m' r Y))"
    by (rule runs_fix_op [where P = P and f = "\<lambda>Z. card (states us - Z)" and X = X,
          OF assms(1-3) G P(2) step m(1,2) P(1) m(3) f])
  then show ?thesis
  proof (rule runs_mono)
    fix r m'
    assume "ext m m' \<and> (\<exists>Y. P Y \<and> G Y = Y \<and> set_repr repr us vu m' r Y)"
    then obtain Y where "ext m m'" "P Y" "G Y = Y" "set_repr repr us vu m' r Y"
      by (elim conjE exE)
    then show "ext m m' \<and> (\<exists>Y. least_from (states us) G X Y \<and> set_repr repr us vu m' r Y)"
      by (intro conjI exI [of _ Y]) (simp_all add: P_def least_from_def)
  qed
qed

text \<open>Starting above its image, it descends to the greatest.\<close>

lemma runs_greatest:
  assumes "frame us vu vp" "stable I" "computes us vu I body G"
    and G: "\<And>X. X \<subseteq> states us \<Longrightarrow> G X \<subseteq> states us"
    and mono: "\<And>X Y. X \<subseteq> Y \<Longrightarrow> G X \<subseteq> G Y"
    and m: "ok m" "I m" "set_repr repr us vu m p X" "X \<subseteq> states us" "G X \<subseteq> X"
    and fuel: "card (states us) < fuel"
  shows "runs (cbind (body p) (\<lambda>cur. fix_loop C fuel body p cur)) m
    (\<lambda>r m'. ext m m' \<and> (\<exists>Y. greatest_from (states us) G X Y \<and> set_repr repr us vu m' r Y))"
proof -
  define P where "P Z \<longleftrightarrow> Z \<subseteq> states us \<and> Z \<subseteq> X \<and> G Z \<subseteq> Z \<and>
    (\<forall>W. W \<subseteq> states us \<longrightarrow> W \<subseteq> X \<longrightarrow> W \<subseteq> G W \<longrightarrow> W \<subseteq> Z)" for Z
  have step: "P (G Z) \<and> card (G Z) < card Z" if Z: "P Z" "Z \<noteq> G Z" for Z
  proof
    have Z1: "Z \<subseteq> states us" "Z \<subseteq> X" "G Z \<subseteq> Z"
      and Z2: "\<And>W. W \<subseteq> states us \<Longrightarrow> W \<subseteq> X \<Longrightarrow> W \<subseteq> G W \<Longrightarrow> W \<subseteq> Z"
      using Z(1) by (simp_all add: P_def)
    show "P (G Z)"
      unfolding P_def
    proof (intro conjI allI impI)
      show "W \<subseteq> G Z" if W: "W \<subseteq> states us" "W \<subseteq> X" "W \<subseteq> G W" for W
        using W(3) mono [OF Z2 [OF W]] by (rule order_trans)
    qed (use G [OF Z1(1)] mono [OF Z1(3)] order_trans [OF Z1(3,2)] in simp_all)
    have "finite Z"
      using Z1(1) by (rule finite_subset) simp
    then show "card (G Z) < card Z"
      using Z(2) Z1(3) by (intro psubset_card_mono) auto
  qed
  have f: "card X < fuel"
    using fuel m(4) card_mono [of "states us" X] by auto
  have P: "P X" "\<And>Z. P Z \<Longrightarrow> Z \<subseteq> states us"
    using m(4,5) by (simp_all add: P_def)
  have "runs (cbind (body p) (\<lambda>cur. fix_loop C fuel body p cur)) m
      (\<lambda>r m'. ext m m' \<and> (\<exists>Y. P Y \<and> G Y = Y \<and> set_repr repr us vu m' r Y))"
    by (rule runs_fix_op [where P = P and f = card and X = X,
          OF assms(1-3) G P(2) step m(1,2) P(1) m(3) f])
  then show ?thesis
  proof (rule runs_mono)
    fix r m'
    assume "ext m m' \<and> (\<exists>Y. P Y \<and> G Y = Y \<and> set_repr repr us vu m' r Y)"
    then obtain Y where "ext m m'" "P Y" "G Y = Y" "set_repr repr us vu m' r Y"
      by (elim conjE exE)
    then show "ext m m' \<and> (\<exists>Y. greatest_from (states us) G X Y \<and> set_repr repr us vu m' r Y)"
      by (intro conjI exI [of _ Y]) (simp_all add: P_def greatest_from_def)
  qed
qed

section \<open>The six fixpoint operators\<close>

text \<open>What the bodies use besides the current set: the context, and the operands.\<close>

abbreviation ctx_ok :: "string list \<Rightarrow> nat list \<Rightarrow> nat list \<Rightarrow> (state \<times> state) set \<Rightarrow> 'n modelContext \<Rightarrow>
    'm \<Rightarrow> bool" where
  "ctx_ok us vu vp R ctx m \<equiv> context_ok repr nvars us vu vp R m ctx"

lemma stable_context: "stable (ctx_ok us vu vp R ctx)"
  unfolding stable_def using context_ok_ext by blast

lemma stable_set: "stable (\<lambda>m. set_repr repr us vu m p A)"
  unfolding stable_def using set_repr_ext by blast

lemma stable_conj: "stable I \<Longrightarrow> stable J \<Longrightarrow> stable (\<lambda>m. I m \<and> J m)"
  unfolding stable_def by blast

lemma computes_EX:
  "computes us vu (ctx_ok us vu vp R ctx) (\<lambda>p. ctl_EX C p ctx) (sat_EX (states us) R)"
  unfolding computes_def by (intro allI impI) (rule runs_EX)

lemma computes_AX:
  "computes us vu (ctx_ok us vu vp R ctx) (\<lambda>p. ctl_AX C p ctx) (sat_AX (states us) R)"
  unfolding computes_def by (intro allI impI) (rule runs_AX)

lemma computes_bind:
  assumes "stable I" "computes us vu I op H"
    and "\<And>m x Y. ok m \<Longrightarrow> I m \<Longrightarrow> set_repr repr us vu m x Y \<Longrightarrow>
      runs (f x) m (\<lambda>r m'. ext m m' \<and> set_repr repr us vu m' r (F Y))"
  shows "computes us vu I (\<lambda>cur. cbind (op cur) f) (\<lambda>X. F (H X))"
  unfolding computes_def
proof (intro allI impI)
  fix m p X
  assume m: "ok m" "I m" "set_repr repr us vu m p X" "X \<subseteq> states us"
  show "runs (cbind (op p) f) m (\<lambda>r m'. ext m m' \<and> set_repr repr us vu m' r (F (H X)))"
  proof (rule runs_bind_mono [OF computesD [OF assms(2) m]])
    fix x m1
    assume 1: "ext m m1 \<and> set_repr repr us vu m1 x (H X)"
    have "runs (f x) m1 (\<lambda>r m'. ext m1 m' \<and> set_repr repr us vu m' r (F (H X)))"
      using 1 m(2) by (intro assms(3)) (auto intro: ext_ok stableD [OF assms(1)])
    then show "runs (f x) m1 (\<lambda>r m'. ext m m' \<and> set_repr repr us vu m' r (F (H X)))"
      by (rule runs_mono) (use 1 in \<open>auto intro: ext_trans\<close>)
  qed
qed

lemma computes_weaken: "computes us vu I op H \<Longrightarrow> computes us vu (\<lambda>m. I m \<and> J m) op H"
  unfolding computes_def by blast

lemma computes_Or:
  assumes "stable I" "computes us vu I op H"
  shows "computes us vu (\<lambda>m. I m \<and> set_repr repr us vu m p A)
    (\<lambda>cur. cbind (op cur) (\<lambda>x. Cudd_bddOr C p x)) (\<lambda>X. A \<union> H X)"
  by (rule computes_bind [OF stable_conj [OF assms(1) stable_set] computes_weaken [OF assms(2)]])
    (rule runs_set_Or, simp_all)

lemma computes_And:
  assumes "stable I" "computes us vu I op H"
  shows "computes us vu (\<lambda>m. I m \<and> set_repr repr us vu m p A)
    (\<lambda>cur. cbind (op cur) (\<lambda>x. Cudd_bddAnd C p x)) (\<lambda>X. A \<inter> H X)"
  by (rule computes_bind [OF stable_conj [OF assms(1) stable_set] computes_weaken [OF assms(2)]])
    (rule runs_set_And, simp_all)

lemma computes_Until:
  assumes "stable I" "computes us vu I op H"
  shows "computes us vu (\<lambda>m. (I m \<and> set_repr repr us vu m p A) \<and> set_repr repr us vu m q B)
    (\<lambda>cur. cbind (op cur) (\<lambda>x. cbind (Cudd_bddAnd C p x) (\<lambda>y. Cudd_bddOr C q y)))
    (\<lambda>X. B \<union> (A \<inter> H X))"
  using computes_Or [OF stable_conj [OF assms(1) stable_set] computes_And [OF assms]]
  by (simp add: cbind_cbind)

lemma runs_to: "runs c m (\<lambda>r m'. ext m m' \<and> (\<exists>Y. L Y \<and> set_repr repr us vu m' r Y)) \<Longrightarrow>
    (\<And>Y. L Y \<Longrightarrow> Y = Z) \<Longrightarrow> runs c m (\<lambda>r m'. ext m m' \<and> set_repr repr us vu m' r Z)"
  by (erule runs_mono) blast

lemma ctx_frame: "ctx_ok us vu vp R ctx m \<Longrightarrow> frame us vu vp"
  by (simp add: context_ok_def)

lemmas ctl_op_defs = ctl_EF_def ctl_AF_def ctl_EG_def ctl_AG_def ctl_EU_def ctl_AU_def Let_def

lemma runs_EF:
  assumes "ok m" "ctx_ok us vu vp R ctx m" "set_repr repr us vu m p A" "A \<subseteq> states us"
    and "card (states us) < fuel"
  shows "runs (ctl_EF C fuel p ctx) m
    (\<lambda>r m'. ext m m' \<and> set_repr repr us vu m' r (sat_EF (states us) R A))"
  unfolding ctl_op_defs
  by (rule runs_to [OF runs_least [where G = "\<lambda>X. A \<union> sat_EX (states us) R X",
        OF ctx_frame [OF assms(2)] stable_conj [OF stable_context stable_set]
          computes_Or [OF stable_context computes_EX] _ _ assms(1) _ assms(3,4) _ assms(5)]])
    (use assms transition_system.EF_least [OF context_system [OF assms(2)] assms(4)] in
      \<open>auto simp: sat_EX_def\<close>)

lemma runs_AF:
  assumes "ok m" "ctx_ok us vu vp R ctx m" "set_repr repr us vu m p A" "A \<subseteq> states us"
    and "card (states us) < fuel"
  shows "runs (ctl_AF C fuel p ctx) m
    (\<lambda>r m'. ext m m' \<and> set_repr repr us vu m' r (sat_AF (states us) R A))"
  unfolding ctl_op_defs
  by (rule runs_to [OF runs_least [where G = "\<lambda>X. A \<union> sat_AX (states us) R X",
        OF ctx_frame [OF assms(2)] stable_conj [OF stable_context stable_set]
          computes_Or [OF stable_context computes_AX] _ _ assms(1) _ assms(3,4) _ assms(5)]])
    (use assms transition_system.AF_least [OF context_system [OF assms(2)] assms(4)] in
      \<open>auto simp: sat_AX_def\<close>)

lemma runs_EG:
  assumes "ok m" "ctx_ok us vu vp R ctx m" "set_repr repr us vu m p A" "A \<subseteq> states us"
    and "card (states us) < fuel"
  shows "runs (ctl_EG C fuel p ctx) m
    (\<lambda>r m'. ext m m' \<and> set_repr repr us vu m' r (sat_EG (states us) R A))"
  unfolding ctl_op_defs
  by (rule runs_to [OF runs_greatest [where G = "\<lambda>X. A \<inter> sat_EX (states us) R X",
        OF ctx_frame [OF assms(2)] stable_conj [OF stable_context stable_set]
          computes_And [OF stable_context computes_EX] _ _ assms(1) _ assms(3,4) _ assms(5)]])
    (use assms transition_system.EG_greatest [OF context_system [OF assms(2)] assms(4)] in
      \<open>auto simp: sat_EX_def\<close>)

lemma runs_AG:
  assumes "ok m" "ctx_ok us vu vp R ctx m" "set_repr repr us vu m p A" "A \<subseteq> states us"
    and "card (states us) < fuel"
  shows "runs (ctl_AG C fuel p ctx) m
    (\<lambda>r m'. ext m m' \<and> set_repr repr us vu m' r (sat_AG (states us) R A))"
  unfolding ctl_op_defs
  by (rule runs_to [OF runs_greatest [where G = "\<lambda>X. A \<inter> sat_AX (states us) R X",
        OF ctx_frame [OF assms(2)] stable_conj [OF stable_context stable_set]
          computes_And [OF stable_context computes_AX] _ _ assms(1) _ assms(3,4) _ assms(5)]])
    (use assms transition_system.AG_greatest [OF context_system [OF assms(2)] assms(4)] in
      \<open>auto simp: sat_AX_def\<close>)

lemma runs_EU:
  assumes "ok m" "ctx_ok us vu vp R ctx m"
    and "set_repr repr us vu m p A" "A \<subseteq> states us" "set_repr repr us vu m q B" "B \<subseteq> states us"
    and "card (states us) < fuel"
  shows "runs (ctl_EU C fuel p q ctx) m
    (\<lambda>r m'. ext m m' \<and> set_repr repr us vu m' r (sat_EU (states us) R A B))"
  unfolding ctl_op_defs
  by (rule runs_to [OF runs_least [where G = "\<lambda>X. B \<union> (A \<inter> sat_EX (states us) R X)",
        OF ctx_frame [OF assms(2)] stable_conj [OF stable_conj [OF stable_context stable_set] stable_set]
          computes_Until [OF stable_context computes_EX] _ _ assms(1) _ assms(5,6) _ assms(7)]])
    (use assms transition_system.EU_least [OF context_system [OF assms(2)] assms(4,6)] in
      \<open>auto simp: sat_EX_def\<close>)

lemma runs_AU:
  assumes "ok m" "ctx_ok us vu vp R ctx m"
    and "set_repr repr us vu m p A" "A \<subseteq> states us" "set_repr repr us vu m q B" "B \<subseteq> states us"
    and "card (states us) < fuel"
  shows "runs (ctl_AU C fuel p q ctx) m
    (\<lambda>r m'. ext m m' \<and> set_repr repr us vu m' r (sat_AU (states us) R A B))"
  unfolding ctl_op_defs
  by (rule runs_to [OF runs_least [where G = "\<lambda>X. B \<union> (A \<inter> sat_AX (states us) R X)",
        OF ctx_frame [OF assms(2)] stable_conj [OF stable_conj [OF stable_context stable_set] stable_set]
          computes_Until [OF stable_context computes_AX] _ _ assms(1) _ assms(5,6) _ assms(7)]])
    (use assms transition_system.AU_least [OF context_system [OF assms(2)] assms(4,6)] in
      \<open>auto simp: sat_AX_def\<close>)

section \<open>check\<close>

text \<open>What evaluating the tokens of a formula leaves: its states on top of the stack.\<close>

definition checked ::
  "string list \<Rightarrow> nat list \<Rightarrow> (state \<times> state) set \<Rightarrow> 'm \<Rightarrow> 'n ptr list \<Rightarrow> nat \<Rightarrow> ctl \<Rightarrow>
   'n check_state \<Rightarrow> 'm \<Rightarrow> bool" where
  "checked us vu R m xs n f = (\<lambda>(st, g, r) m'.
     dds.holds st (r # xs) n \<and> ext m m' \<and> set_repr repr us vu m' r (ctl_states us R f))"

definition checks ::
  "string list \<Rightarrow> nat list \<Rightarrow> nat list \<Rightarrow> (state \<times> state) set \<Rightarrow> 'n modelContext \<Rightarrow> nat \<Rightarrow> ctl \<Rightarrow>
   bool" where
  "checks us vu vp R ctx fuel f \<longleftrightarrow> (\<forall>m st xs n g r0.
     ok m \<longrightarrow> ctx_ok us vu vp R ctx m \<longrightarrow> ctx_vars repr us vu m ctx \<longrightarrow> dds.holds st xs n \<longrightarrow>
     length xs + length (ctl_rpn f) \<le> n \<longrightarrow> (\<forall>x \<in> set (cvars f). ctl_name x \<and> x \<in> set us) \<longrightarrow>
     runs (check_loop C fuel ctx (ctl_rpn f) (st, g, r0)) m (checked us vu R m xs n f))"

lemma checksD:
  "checks us vu vp R ctx fuel f \<Longrightarrow> ok m \<Longrightarrow> ctx_ok us vu vp R ctx m \<Longrightarrow>
   ctx_vars repr us vu m ctx \<Longrightarrow> dds.holds st xs n \<Longrightarrow> length xs + length (ctl_rpn f) \<le> n \<Longrightarrow>
   \<forall>x \<in> set (cvars f). ctl_name x \<and> x \<in> set us \<Longrightarrow>
   runs (check_loop C fuel ctx (ctl_rpn f) (st, g, r0)) m (checked us vu R m xs n f)"
  unfolding checks_def by blast

lemma ctx_vars_ext: "ext m m' \<Longrightarrow> ctx_vars repr us vu m ctx \<Longrightarrow> ctx_vars repr us vu m' ctx"
  unfolding ctx_vars_def using set_repr_ext by blast

lemma runs_push_result:
  assumes "runs c m (\<lambda>(r, st, g) m'. dds.holds st xs n \<and> Q r m')" and "length xs < n"
  shows "runs (push_result c) m (\<lambda>(st, g, r) m'. dds.holds st (r # xs) n \<and> Q r m')"
  unfolding push_result_def
proof (rule runs_bind_mono [OF assms(1)], clarsimp)
  fix r st g m'
  assume "dds.holds st xs n" and "Q r m'"
  then show "runs (cbind (clift (ddStack_push st r)) (\<lambda>(_, st). creturn (st, g, r))) m'
      (\<lambda>(st, g, r) m'. dds.holds st (r # xs) n \<and> Q r m')"
    using dds.holds_push [of st xs n r] assms(2) by (auto intro!: run_intros)
qed

lemma runs_pop1:
  assumes "dds.holds st (a # xs) n" "runs (F a) m Q"
  shows "runs (pop1 st F G) m (\<lambda>(r, st, g) m'. dds.holds st xs n \<and> Q r m')"
  using dds.holds_pop [OF assms(1)] assms(2) by (auto simp: pop1_def elim: runs_mono intro!: runs_bind)

lemma runs_pop2:
  assumes "dds.holds st (a # b # xs) n" "runs (F a b) m Q"
  shows "runs (pop2 st F g) m (\<lambda>(r, st, g) m'. dds.holds st xs n \<and> Q r m')"
  using dds.holds_pop2 [OF assms(1)] assms(2) by (auto simp: pop2_def elim: runs_mono intro!: runs_bind)

lemma checks_unary:
  assumes a: "checks us vu vp R ctx fuel a"
    and f: "ctl_rpn f = ctl_rpn a @ [opr]" "cvars f = cvars a"
    and step: "\<And>st g r. check_step C fuel ctx opr (st, g, r) = push_result (pop1 st F (G g))"
    and F: "\<And>m p. ok m \<Longrightarrow> ctx_ok us vu vp R ctx m \<Longrightarrow>
      set_repr repr us vu m p (ctl_states us R a) \<Longrightarrow>
      runs (F p) m (\<lambda>r m'. ext m m' \<and> set_repr repr us vu m' r (ctl_states us R f))"
  shows "checks us vu vp R ctx fuel f"
  unfolding checks_def f
proof (intro allI impI)
  fix m st xs n g r0
  assume pre: "ok m" "ctx_ok us vu vp R ctx m" "ctx_vars repr us vu m ctx"
    "dds.holds (st :: 'n ddStack) xs n" "length xs + length (ctl_rpn a @ [opr]) \<le> n"
    "\<forall>x \<in> set (cvars a). ctl_name x \<and> x \<in> set us"
  then obtain st1 g1 ra m1 where
    1: "check_loop C fuel ctx (ctl_rpn a) (st, g, r0) m = Inr ((st1, g1, ra), m1)"
    and A: "checked us vu R m xs n a (st1, g1, ra) m1"
    using checksD [OF a pre(1-4), of g r0] by (auto elim!: runsE)
  have m1: "ext m m1" "dds.holds st1 (ra # xs) n" "set_repr repr us vu m1 ra (ctl_states us R a)"
    using A by (auto simp: checked_def)
  have "runs (push_result (pop1 st1 F (G g1))) m1 (\<lambda>(st, g, r) m'. dds.holds st (r # xs) n \<and>
      (ext m1 m' \<and> set_repr repr us vu m' r (ctl_states us R f)))"
    using pre(5)
    by (intro runs_push_result runs_pop1 [OF m1(2)] F [OF ext_ok [OF m1(1)]
          context_ok_ext [OF m1(1) pre(2)] m1(3)]) simp
  then have "runs (check_step C fuel ctx opr (st1, g1, ra)) m1 (checked us vu R m xs n f)"
    unfolding step checked_def by (rule runs_mono) (auto intro: ext_trans [OF m1(1)])
  then show "runs (check_loop C fuel ctx (ctl_rpn a @ [opr]) (st, g, r0)) m
      (checked us vu R m xs n f)"
    by (simp add: check_loop_append runs_def 1) (auto simp: cbind_def)
qed

lemma checks_binary:
  assumes a: "checks us vu vp R ctx fuel a" and b: "checks us vu vp R ctx fuel b"
    and f: "ctl_rpn f = ctl_rpn a @ ctl_rpn b @ [opr]" "cvars f = cvars a @ cvars b"
    and step: "\<And>st g r. check_step C fuel ctx opr (st, g, r) = push_result (pop2 st F (G g))"
    and F: "\<And>m p q. ok m \<Longrightarrow> ctx_ok us vu vp R ctx m \<Longrightarrow>
      set_repr repr us vu m p (ctl_states us R a) \<Longrightarrow>
      set_repr repr us vu m q (ctl_states us R b) \<Longrightarrow>
      runs (F q p) m (\<lambda>r m'. ext m m' \<and> set_repr repr us vu m' r (ctl_states us R f))"
  shows "checks us vu vp R ctx fuel f"
  unfolding checks_def f
proof (intro allI impI)
  fix m st xs n g r0
  assume pre: "ok m" "ctx_ok us vu vp R ctx m" "ctx_vars repr us vu m ctx"
    "dds.holds (st :: 'n ddStack) xs n" "length xs + length (ctl_rpn a @ ctl_rpn b @ [opr]) \<le> n"
    "\<forall>x \<in> set (cvars a @ cvars b). ctl_name x \<and> x \<in> set us"
  then obtain st1 g1 ra m1 where
    1: "check_loop C fuel ctx (ctl_rpn a) (st, g, r0) m = Inr ((st1, g1, ra), m1)"
    and A: "checked us vu R m xs n a (st1, g1, ra) m1"
    using checksD [OF a pre(1-4), of g r0] by (auto elim!: runsE)
  have m1: "ext m m1" "dds.holds st1 (ra # xs) n" "set_repr repr us vu m1 ra (ctl_states us R a)"
    using A by (auto simp: checked_def)
  obtain st2 g2 rb m2 where
    2: "check_loop C fuel ctx (ctl_rpn b) (st1, g1, ra) m1 = Inr ((st2, g2, rb), m2)"
    and B: "checked us vu R m1 (ra # xs) n b (st2, g2, rb) m2"
    using checksD [OF b ext_ok [OF m1(1)] context_ok_ext [OF m1(1) pre(2)]
        ctx_vars_ext [OF m1(1) pre(3)] m1(2), of g1 ra] pre(5,6)
    by (auto elim!: runsE)
  have m2: "ext m1 m2" "dds.holds st2 (rb # ra # xs) n"
    "set_repr repr us vu m2 rb (ctl_states us R b)"
    using B by (auto simp: checked_def)
  have e2: "ext m m2"
    using m1(1) m2(1) by (rule ext_trans)
  have "runs (push_result (pop2 st2 F (G g2))) m2 (\<lambda>(st, g, r) m'. dds.holds st (r # xs) n \<and>
      (ext m2 m' \<and> set_repr repr us vu m' r (ctl_states us R f)))"
    using pre(5)
    by (intro runs_push_result runs_pop2 [OF m2(2)] F [OF ext_ok [OF e2]
          context_ok_ext [OF e2 pre(2)] set_repr_ext [OF m2(1) m1(3)] m2(3)]) simp
  then have "runs (check_step C fuel ctx opr (st2, g2, rb)) m2 (checked us vu R m xs n f)"
    unfolding step checked_def by (rule runs_mono) (auto intro: ext_trans [OF e2])
  then show "runs (check_loop C fuel ctx (ctl_rpn a @ ctl_rpn b @ [opr]) (st, g, r0)) m
      (checked us vu R m xs n f)"
    by (simp add: check_loop_append runs_def 1 2) (auto simp: cbind_def)
qed

lemma checks_var: "checks us vu vp R ctx fuel (CVar x)"
  unfolding checks_def
proof (intro allI impI)
  fix m st xs n g r0
  assume pre: "ok m" "ctx_vars repr us vu m ctx"
    "dds.holds (st :: 'n ddStack) xs n" "length xs + length (ctl_rpn (CVar x)) \<le> n"
    "\<forall>y \<in> set (cvars (CVar x)). ctl_name y \<and> y \<in> set us"
  then obtain v where v: "find_var x (take (numExistingVars ctx) (existingVars ctx)) = Some v"
    "set_repr repr us vu m (var_node v) {s. x \<in> s}"
    by (auto simp: ctx_vars_def)
  have "set_repr repr us vu m (var_node v) (ctl_states us R (CVar x))"
    using v(2) view_subset [of us vu] by (auto simp: set_repr_def)
  then have "runs (push_result (creturn (var_node v, st, g))) m (\<lambda>(st, g, r) m'.
      dds.holds st (r # xs) n \<and> (ext m m' \<and> set_repr repr us vu m' r (ctl_states us R (CVar x))))"
    using pre by (intro runs_push_result) auto
  then show "runs (check_loop C fuel ctx (ctl_rpn (CVar x)) (st, g, r0)) m
      (checked us vu R m xs n (CVar x))"
    using pre(5) by (auto simp: check_step_name v checked_def runs_def cbind_def)
qed

lemma runs_set_Xor:
  assumes "ok m" "set_repr repr us vu m p X" "set_repr repr us vu m q Y"
  shows "runs (Cudd_bddXor C p q) m
    (\<lambda>r m'. ext m m' \<and> set_repr repr us vu m' r ((X - Y) \<union> (Y - X)))"
proof (rule runs_set_binary [OF _ assms(2,3), where g = "(\<noteq>)"])
  show "runs (Cudd_bddXor C p q) m (\<lambda>r m'. ext m m' \<and> repr m' r (\<lambda>e. \<phi> e \<noteq> \<psi> e))"
    if "repr m p \<phi>" "repr m q \<psi>" for \<phi> \<psi>
    using that by (intro runs_Xor [OF assms(1)]) auto
qed auto

lemma runs_set_Iff:
  assumes "ok m" "set_repr repr us vu m p X" "set_repr repr us vu m q Y"
  shows "runs (bdd_iff C p q) m
    (\<lambda>r m'. ext m m' \<and> set_repr repr us vu m' r {s \<in> states us. s \<in> X \<longleftrightarrow> s \<in> Y})"
proof (rule runs_set_binary [OF _ assms(2,3), where g = "(=)"])
  show "runs (bdd_iff C p q) m (\<lambda>r m'. ext m m' \<and> repr m' r (\<lambda>e. \<phi> e = \<psi> e))"
    if "repr m p \<phi>" "repr m q \<psi>" for \<phi> \<psi>
    using that by (intro runs_bdd_iff [OF assms(1)]) auto
qed auto

text \<open>Every formula, by the operator lemmas.\<close>

lemma checks_all:
  assumes "card (states us) < fuel"
  shows "checks us vu vp R ctx fuel f"
proof (induction f)
  case (CVar x)
  show ?case by (rule checks_var)
next
  case (CNot a)
  show ?case
    by (rule checks_unary [where G = "\<lambda>g _. g",
          OF CNot ctl_rpn.simps(2) cvars.simps(2) check_step_unary(1)])
      (simp add: set_repr_Not)
next
  case (COr a b)
  show ?case
    by (rule checks_binary [where G = "\<lambda>g. g",
          OF COr ctl_rpn.simps(3) cvars.simps(3) check_step_binary(1)])
      (simp only: csat.simps, subst Un_commute, rule runs_set_Or)
next
  case (CAnd a b)
  show ?case
    by (rule checks_binary [where G = "\<lambda>g. g",
          OF CAnd ctl_rpn.simps(4) cvars.simps(4) check_step_binary(2)])
      (simp only: csat.simps, subst Int_commute, rule runs_set_And)
next
  case (CXor a b)
  show ?case
    by (rule checks_binary [where G = "\<lambda>g. g",
          OF CXor ctl_rpn.simps(5) cvars.simps(5) check_step_binary(3)])
      (simp only: csat.simps, subst Un_commute, rule runs_set_Xor)
next
  case (CIff a b)
  have *: "{s \<in> states us. s \<in> A \<longleftrightarrow> s \<in> B} = {s \<in> states us. s \<in> B \<longleftrightarrow> s \<in> A}" for A B
    by blast
  show ?case
    by (rule checks_binary [where G = "\<lambda>g. g",
          OF CIff ctl_rpn.simps(6) cvars.simps(6) check_step_binary(4)])
      (simp only: csat.simps, subst *, rule runs_set_Iff)
next
  case (CEX a)
  show ?case
    by (rule checks_unary [where G = "\<lambda>g _. g\<lparr>RECENT_CTLPROP := OP_EX\<rparr>",
          OF CEX ctl_rpn.simps(7) cvars.simps(7) check_step_unary(2)])
      (simp add: runs_EX)
next
  case (CAX a)
  show ?case
    by (rule checks_unary [where G = "\<lambda>g _. g\<lparr>RECENT_CTLPROP := OP_AX\<rparr>",
          OF CAX ctl_rpn.simps(8) cvars.simps(8) check_step_unary(3)])
      (simp add: runs_AX)
next
  case (CEF a)
  show ?case
    by (rule checks_unary [where G = "\<lambda>g _. g\<lparr>RECENT_CTLPROP := OP_EF\<rparr>",
          OF CEF ctl_rpn.simps(9) cvars.simps(9) check_step_unary(4)])
      (simp add: runs_EF [OF _ _ _ csat_subset assms])
next
  case (CAF a)
  show ?case
    by (rule checks_unary [where G = "\<lambda>g _. g\<lparr>RECENT_CTLPROP := OP_AF\<rparr>",
          OF CAF ctl_rpn.simps(10) cvars.simps(10) check_step_unary(5)])
      (simp add: runs_AF [OF _ _ _ csat_subset assms])
next
  case (CEG a)
  show ?case
    by (rule checks_unary [where G = "\<lambda>g p. g\<lparr>RECENT_CTLPROP := OP_EG, EGPROP := p\<rparr>",
          OF CEG ctl_rpn.simps(11) cvars.simps(11) check_step_unary(6)])
      (simp add: runs_EG [OF _ _ _ csat_subset assms])
next
  case (CAG a)
  show ?case
    by (rule checks_unary [where G = "\<lambda>g _. g\<lparr>RECENT_CTLPROP := OP_AG\<rparr>",
          OF CAG ctl_rpn.simps(12) cvars.simps(12) check_step_unary(7)])
      (simp add: runs_AG [OF _ _ _ csat_subset assms])
next
  case (CEU a b)
  show ?case
    by (rule checks_binary [where G = "\<lambda>g. g\<lparr>RECENT_CTLPROP := OP_EU\<rparr>",
          OF CEU ctl_rpn.simps(13) cvars.simps(13) check_step_binary(5)])
      (simp add: runs_EU [OF _ _ _ csat_subset _ csat_subset assms])
next
  case (CAU a b)
  show ?case
    by (rule checks_binary [where G = "\<lambda>g. g\<lparr>RECENT_CTLPROP := OP_AU\<rparr>",
          OF CAU ctl_rpn.simps(14) cvars.simps(14) check_step_binary(6)])
      (simp add: runs_AU [OF _ _ _ csat_subset _ csat_subset assms])
qed

text \<open>The loop of \<open>check\<close> on the tokens of several formulae leaves one node for each.\<close>

lemma runs_check_formulae:
  assumes fuel: "card (states us) < fuel"
  shows "ok m \<Longrightarrow> ctx_ok us vu vp R ctx m \<Longrightarrow> ctx_vars repr us vu m ctx \<Longrightarrow>
   dds.holds (st :: 'n ddStack) xs n \<Longrightarrow> length xs + length (concat (map ctl_rpn fs)) \<le> n \<Longrightarrow>
   \<forall>x \<in> set (concat (map cvars fs)). ctl_name x \<and> x \<in> set us \<Longrightarrow>
   runs (check_loop C fuel ctx (concat (map ctl_rpn fs)) (st, g, r0)) m
     (\<lambda>(st', g', r) m'. ext m m' \<and> (\<exists>ys. dds.holds st' (ys @ xs) n \<and>
        list_all2 (\<lambda>y f. set_repr repr us vu m' y (ctl_states us R f)) ys (rev fs)))"
proof (induction fs arbitrary: m st xs g r0)
  case Nil
  then show ?case by auto
next
  case (Cons f fs)
  obtain st1 g1 r m1 where
    1: "check_loop C fuel ctx (ctl_rpn f) (st, g, r0) m = Inr ((st1, g1, r), m1)"
    and A: "checked us vu R m xs n f (st1, g1, r) m1"
    using checksD [OF checks_all [OF fuel] Cons.prems(1-4), of f g r0] Cons.prems(5,6)
    by (auto elim!: runsE)
  have m1: "ext m m1" "dds.holds st1 (r # xs) n" "set_repr repr us vu m1 r (ctl_states us R f)"
    using A by (auto simp: checked_def)
  have "Suc 0 \<le> length (ctl_rpn f)"
    using ctl_rpn_nonempty [of f] by (cases "ctl_rpn f") auto
  then have len: "length (r # xs) + length (concat (map ctl_rpn fs)) \<le> n"
    using Cons.prems(5) by simp
  have "runs (check_loop C fuel ctx (concat (map ctl_rpn fs)) (st1, g1, r)) m1
     (\<lambda>(st', g', r') m'. ext m1 m' \<and> (\<exists>ys. dds.holds st' (ys @ (r # xs)) n \<and>
        list_all2 (\<lambda>y f. set_repr repr us vu m' y (ctl_states us R f)) ys (rev fs)))"
    using Cons.prems(6)
    by (intro Cons.IH [OF ext_ok [OF m1(1)] context_ok_ext [OF m1(1) Cons.prems(2)]
          ctx_vars_ext [OF m1(1) Cons.prems(3)] m1(2) len]) auto
  then have "runs (check_loop C fuel ctx (concat (map ctl_rpn fs)) (st1, g1, r)) m1
     (\<lambda>(st', g', r') m'. ext m m' \<and> (\<exists>ys. dds.holds st' (ys @ xs) n \<and>
        list_all2 (\<lambda>y f. set_repr repr us vu m' y (ctl_states us R f)) ys (rev (f # fs))))"
  proof (rule runs_mono, clarify)
    fix st' g' r' m' ys
    assume ys: "ext m1 m'" "dds.holds st' (ys @ (r # xs)) n"
      "list_all2 (\<lambda>y f. set_repr repr us vu m' y (ctl_states us R f)) ys (rev fs)"
    have "set_repr repr us vu m' r (ctl_states us R f)"
      using ys(1) m1(3) by (rule set_repr_ext)
    then show "ext m m' \<and> (\<exists>ys. dds.holds st' (ys @ xs) n \<and>
        list_all2 (\<lambda>y f. set_repr repr us vu m' y (ctl_states us R f)) ys (rev (f # fs)))"
      using ys(2,3) ext_trans [OF m1(1) ys(1)]
      by (intro conjI exI [of _ "ys @ [r]"]) (simp_all add: list_all2_appendI)
  qed
  then show ?case
    by (simp add: check_loop_append runs_def 1)
qed

lemma check_tokens:
  assumes "list_all (\<lambda>t. length t < MAX_VAR_LEN) (tokens_of s)"
  shows "check C fuel s ctx g = cbind (check_loop C fuel ctx (tokens_of s)
      (ddStack_new (length (tokens_of s)), g, NULL)) (\<lambda>(stack, g, recentNode).
      if dd_top stack \<noteq> 1 then cstop (Exit 3 ''Malformed property expression. Quitting...'')
      else creturn (recentNode, g))"
proof -
  have "tokenize s = Inr (tokens_of s)"
    "getUniqVars (tokens_of s) = Inr (nub (filter (\<lambda>t. \<not> isOperator t) (tokens_of s)))"
    using assms by (auto simp: tokenize_tokens_of list_all_iff getUniqVars_nub)
  then show ?thesis
    by (simp add: check_def ddStack_new_def Let_def)
qed

lemma formula_tokens_short:
  assumes "\<forall>x \<in> set (cvars f). ctl_name x \<and> x \<in> set us"
  shows "list_all (\<lambda>t. length t < MAX_VAR_LEN) (ctl_rpn f)"
  using ctl_rpn_tokens [of f] assms by (auto simp: list_all_iff token_ok_def)

lemma runs_check:
  assumes "ok m" "ctx_ok us vu vp R ctx m" "ctx_vars repr us vu m ctx"
    and "\<forall>x \<in> set (cvars f). ctl_name x \<and> x \<in> set us"
    and "tokens_of s = ctl_rpn f" "card (states us) < fuel"
  shows "runs (check C fuel s ctx g) m
    (\<lambda>(r, g') m'. ext m m' \<and> set_repr repr us vu m' r (ctl_states us R f))"
proof -
  have "runs (check_loop C fuel ctx (ctl_rpn f) (ddStack_new (length (ctl_rpn f)), g, NULL)) m
      (checked us vu R m [] (length (ctl_rpn f)) f)"
    using assms by (intro checksD [OF checks_all [OF assms(6)] assms(1-3) dds.holds_fresh]) simp_all
  then show ?thesis
    using assms(5) formula_tokens_short [OF assms(4)]
    by (subst check_tokens, simp, simp)
      (erule runs_bind_mono, auto simp: checked_def dd_top_length)
qed

lemma check_prefix:
  assumes "ok m" "ctx_ok us vu vp R ctx m" "ctx_vars repr us vu m ctx"
    and "\<forall>x \<in> set (concat (map cvars fs)). ctl_name x \<and> x \<in> set us"
    and "length (concat (map ctl_rpn fs)) \<le> n" "card (states us) < fuel"
  shows "\<exists>st g' r ys m'.
    check_loop C fuel ctx (concat (map ctl_rpn fs)) (ddStack_new n, g, NULL) m =
      Inr ((st, g', r), m') \<and> ext m m' \<and> dds.holds st ys n \<and> length ys = length fs \<and>
    list_all2 (\<lambda>y f. set_repr repr us vu m' y (ctl_states us R f)) ys (rev fs)"
proof -
  have "runs (check_loop C fuel ctx (concat (map ctl_rpn fs)) (ddStack_new n :: 'n ddStack, g, NULL)) m
     (\<lambda>(st', g', r) m'. ext m m' \<and> (\<exists>ys. dds.holds st' (ys @ []) n \<and>
        list_all2 (\<lambda>y f. set_repr repr us vu m' y (ctl_states us R f)) ys (rev fs)))"
    using assms by (intro runs_check_formulae dds.holds_fresh) simp_all
  then show ?thesis
    by (rule runsE) (fastforce dest: list_all2_lengthD)
qed

lemma check_bad_token:
  assumes "ok m" "ctx_ok us vu vp R ctx m" "ctx_vars repr us vu m ctx"
    and "\<forall>x \<in> set (concat (map cvars fs)). ctl_name x \<and> x \<in> set us" "card (states us) < fuel"
    and "tokens_of s = concat (map ctl_rpn fs) @ t # rest"
    and "list_all (\<lambda>t. length t < MAX_VAR_LEN) (tokens_of s)"
    and stop: "\<And>st g r m. check_step C fuel ctx t (st, g, r) m = Inl e"
  shows "check C fuel s ctx g m = Inl e"
proof -
  have "length (concat (map ctl_rpn fs)) \<le> length (tokens_of s)"
    by (simp add: assms(6))
  from check_prefix [OF assms(1-4) this assms(5), of g]
  obtain st g' r m' where
    "check_loop C fuel ctx (concat (map ctl_rpn fs)) (ddStack_new (length (tokens_of s)), g, NULL) m =
      Inr ((st, g', r), m')"
    by blast
  then show ?thesis
    using stop by (simp add: check_tokens [OF assms(7)] assms(6) check_loop_append)
qed

lemma check_malformed:
  assumes "ok m" "ctx_ok us vu vp R ctx m" "ctx_vars repr us vu m ctx"
    and "\<forall>x \<in> set (concat (map cvars fs)). ctl_name x \<and> x \<in> set us" "card (states us) < fuel"
    and "tokens_of s = concat (map ctl_rpn fs)" "length fs \<noteq> 1"
  shows "check C fuel s ctx g m = Inl (Exit 3 ''Malformed property expression. Quitting...'')"
proof -
  have "list_all (\<lambda>t. length t < MAX_VAR_LEN) (tokens_of s)"
    using formula_tokens_short assms(4) by (fastforce simp: assms(6) list_all_iff)
  note short = check_tokens [OF this]
  from check_prefix [OF assms(1-4) order_refl assms(5), of g]
  obtain st g' r ys m' where
    "check_loop C fuel ctx (concat (map ctl_rpn fs))
      (ddStack_new (length (concat (map ctl_rpn fs))), g, NULL) m = Inr ((st, g', r), m')"
    "dds.holds st ys (length (concat (map ctl_rpn fs)))" "length ys = length fs"
    by blast
  then show ?thesis
    using assms(7) dd_top_length [of st ys] by (simp add: short assms(6))
qed

lemma EX_not_node:
  assumes "context_ok repr nvars us vu vp R m ctx"
  shows "ctl_EX C (NullPtr b) ctx m = Inl (Undefined ''not a node'')"
proof -
  have arr: "node_array repr nvars m (primedNodes ctx) vp"
    "node_array repr nvars m (unprimedNodes ctx) vu" "numUnprimedNodes ctx = length us"
    "length vu = length us" "length vp = length us"
    using assms by (auto simp: context_ok_def frame_def)
  then obtain xs ys where
    "take (length us) (primedNodes ctx) = map NodePtr xs"
    "take (length us) (unprimedNodes ctx) = map NodePtr ys"
    using var_nodes_NodePtr node_array_var_nodes by metis
  then show ?thesis
    using arr by (simp add: ctl_EX_def Cudd_bddSwapVariables_def read_nodes_def call1_def
        node_array_def cbind_def)
qed

lemma check_missing_operand:
  assumes "ok m" "ctx_ok us vu vp R ctx m" "ctx_vars repr us vu m ctx"
    and "\<forall>x \<in> set (cvars f). ctl_name x \<and> x \<in> set us" "card (states us) < fuel"
    and "tokens_of s = ctl_rpn f @ [opr]" "opr \<in> {OP_OR, OP_AND, OP_XOR, OP_IFF, OP_EU, OP_AU}"
  shows "check C fuel s ctx g m = Inl (Undefined ''not a node'')"
proof -
  have "token_ok opr"
    using assms(7) operator_tokens by (auto simp: operators_def)
  then have short: "list_all (\<lambda>t. length t < MAX_VAR_LEN) (tokens_of s)"
    using formula_tokens_short [OF assms(4)] by (simp add: assms(6) token_ok_def)
  from assms(4) have "\<forall>x \<in> set (concat (map cvars [f])). ctl_name x \<and> x \<in> set us"
    by simp
  from check_prefix [OF assms(1-3) this _ assms(5), of "length (tokens_of s)" g] assms(6)
  obtain st g' r ys m' where
    1: "check_loop C fuel ctx (ctl_rpn f) (ddStack_new (length (tokens_of s)), g, NULL) m =
      Inr ((st, g', r), m')"
    and 2: "ext m m'" "dds.holds st ys (length (tokens_of s))" "length ys = 1"
    "list_all2 (\<lambda>y f. set_repr repr us vu m' y (ctl_states us R f)) ys (rev [f])"
    by auto
  then obtain y where y: "ys = [y]" "set_repr repr us vu m' y (ctl_states us R f)"
    by (auto simp: list_all2_Cons2)
  obtain st' where pops: "ddStack_pop st = Inr (y, st')" "ddStack_pop st' = Inr (NULL, st')"
    using dds.holds_pop [of st y "[]"] dds.holds_pop_none 2(2) y(1) by metis
  have ctx': "ctx_ok us vu vp R ctx m'"
    using 2(1) assms(2) by (rule context_ok_ext)
  obtain n where n: "y = NodePtr n"
    using y(2) repr_node unfolding set_repr_def by blast
  obtain r1 m1 where EX: "ctl_EX C y ctx m' = Inr (r1, m1)"
    using runs_EX [OF ext_ok [OF 2(1)] ctx' y(2)] by (auto elim: runsE)
  obtain r2 m2 where AX: "ctl_AX C y ctx m' = Inr (r2, m2)"
    using runs_AX [OF ext_ok [OF 2(1)] ctx' y(2)] by (auto elim: runsE)
  have "check_step C fuel ctx opr (st, g', r) m' = Inl (Undefined ''not a node'')"
    using assms(7) EX AX pops
    by (auto simp: check_step_binary push_result_def pop2_def Cudd_bddOr_def Cudd_bddAnd_def
        Cudd_bddXor_def bdd_iff_def call2_def ctl_EU_def ctl_AU_def n cbind_def Let_def)
  then show ?thesis
    by (simp add: check_tokens [OF short] assms(6) check_loop_append 1 [unfolded assms(6), simplified])
qed

end

section \<open>The properties\<close>

lemma card_states: "frame us vu vp \<Longrightarrow> card (states us) = 2 ^ length us"
  by (simp add: card_Pow distinct_card frame_def)

lemma runs_ex: "runs c m (\<lambda>r m'. P m' \<and> Q r m') \<Longrightarrow> \<exists>r m'. c m = Inr (r, m') \<and> Q r m' \<and> P m'"
  by (auto elim: runsE)

lemma runs_ex_fst: "runs c m (\<lambda>(r, x) m'. P m' \<and> Q r m') \<Longrightarrow>
    \<exists>r x m'. c m = Inr ((r, x), m') \<and> Q r m' \<and> P m'"
  by (auto elim: runsE)

text \<open>The context of the one-bit system that toggles.\<close>

definition toggle_ctx :: "bdd modelContext" where
  "toggle_ctx =
     (let x = \<lparr>parity = False, var_name = ''x'', var_node = NodePtr (bvar 0)\<rparr>;
          y = \<lparr>parity = True, var_name = [CHR ''x'', CHR 0x27], var_node = NodePtr (bvar 1)\<rparr> in
      \<lparr>transition = NodePtr toggle_node, existingVars = [x, y], primedVars = [Some y],
       unprimedVars = [x], numExistingVars = 2, primedNodes = [NodePtr (bvar 1)],
       unprimedNodes = [NodePtr (bvar 0)], numUnprimedNodes = 1\<rparr>)"

lemma toggle_ctx_ok: "context_ok bdd_repr count [''x''] [0] [1] toggle_steps toggle_mgr toggle_ctx"
  using toggle_frame toggle_step toggle_vars toggle_steps_subset
  by (simp add: context_ok_def toggle_ctx_def Let_def)

lemma toggle_ctx_vars: "ctx_vars bdd_repr [''x''] [0] toggle_mgr toggle_ctx"
  by (auto simp: ctx_vars_def toggle_ctx_def Let_def strcmp_eq_def set_repr_def toggle_mgr_def
      bdd_repr_NodePtr view_def)

lemma toggle_x: "ctl_name ''x'' \<and> ''x'' \<in> set [''x'']"
  by (simp add: ctl_name_def token_ok_def MAX_VAR_LEN_def is_space_def operators_def op_defs primed_def)











text \<open>The check for malformed properties has the same hole as the one of \<open>bddFromPrefix\<close>. An
  operator that needs two operands and finds one works on the null pointer, which is undefined,
  and a lone negation is accepted with a result that is not a node.\<close>

theorem check_underflow:
  assumes "cudd_package C ok repr nvars" "ok m" "context_ok repr nvars us vu vp R m ctx"
    and "ctx_vars repr us vu m ctx" "list_all (\<lambda>x. ctl_name x \<and> x \<in> set us) (cvars f)"
    and "2 ^ length us < fuel" "opr \<in> {OP_OR, OP_AND, OP_XOR, OP_IFF, OP_EU, OP_AU}"
    and "tokens_of s = ctl_rpn f @ [opr]" "tokens_of s' = [OP_NOT]"
  shows "check C fuel s ctx g m = Inl (Undefined ''not a node'') \<and>
    check C fuel s' ctx g m = Inr ((NullPtr True, g), m)"
proof
  have "frame us vu vp"
    using assms(3) by (simp add: context_ok_def)
  then have fuel: "card (states us) < fuel"
    using assms(6) by (simp add: card_states)
  show "check C fuel s ctx g m = Inl (Undefined ''not a node'')"
    using assms(5)
    by (intro cudd_package.check_missing_operand [OF assms(1-4) _ fuel assms(8,7)])
      (simp add: list_all_iff)
  have "list_all (\<lambda>t. length t < MAX_VAR_LEN) (tokens_of s')"
    by (simp add: assms(9) op_defs MAX_VAR_LEN_def)
  then show "check C fuel s' ctx g m = Inr ((NullPtr True, g), m)"
    by (simp add: cudd_package.check_tokens [OF assms(1)] assms(9) check_step_unary push_result_def pop1_def ddStack_pop_def
        ddStack_push_def ddStack_new_def ddStack_init_def ddStack_malloc_def Cudd_Not_def)
qed

theorem check_underflow_witness:
  "check bdd_package 3 ''x EU'' toggle_ctx \<lparr>RECENT_CTLPROP = [], EGPROP = NULL\<rparr> toggle_mgr =
     Inl (Undefined ''not a node'') \<and>
   check bdd_package 3 ''!'' toggle_ctx \<lparr>RECENT_CTLPROP = [], EGPROP = NULL\<rparr> toggle_mgr =
     Inr ((NullPtr True, \<lparr>RECENT_CTLPROP = [], EGPROP = NULL\<rparr>), toggle_mgr)"
proof (rule check_underflow [OF bdd.cudd_package_axioms toggle_ok toggle_ctx_ok toggle_ctx_vars,
      where f = "CVar ''x''" and opr = OP_EU])
  show "tokens_of ''x EU'' = ctl_rpn (CVar ''x'') @ [OP_EU]"
    by code_simp
  show "tokens_of ''!'' = [OP_NOT]"
    by code_simp
qed (use toggle_x in simp_all)

end
