(* ===== verification/MainProg.thy ===== *)
theory MainProg
  imports Ctlmc
begin

text \<open>
  \<open>main.c\<close>: from the five command-line arguments to the two answers and the request for the dot
  file. \<open>main\<close> is cut into the steps that its comments name; each is one definition, and
  \<open>main\<close> composes them.

  What the program prints and hands to \<open>Cudd_DumpDot\<close> is the value of \<open>main\<close>: the record \<open>report\<close>,
  or the usage text. \<open>fopen_ok\<close> says for which names \<open>fopen\<close> succeeds; the code does not look at
  the result. The bytes that \<open>Cudd_DumpDot\<close> writes are the business of the package. \<open>Cudd_Quit\<close> at
  the end of \<open>main\<close> frees the manager and has no counterpart.
\<close>

section \<open>The code\<close>

text \<open>\<open>strcat\<close> in a block of \<open>n\<close> bytes.\<close>

definition strcat_into :: "nat \<Rightarrow> string \<Rightarrow> string \<Rightarrow> stop + string" where
  "strcat_into n dest s = (if length dest + length s < n then Inr (dest @ s)
     else Inl (Undefined ''strcat past the block''))"

definition read_formula :: "string \<Rightarrow> stop + string list \<times> string list" where
  "read_formula form = (case tokenize form of
      Inl e \<Rightarrow> Inl e
    | Inr tokens \<Rightarrow> (case getUniqVars tokens of
        Inl e \<Rightarrow> Inl e
      | Inr uniqVars \<Rightarrow> Inr (tokens, uniqVars)))"

text \<open>
  Build the three diagrams. \<open>cap\<close> is \<open>max_num_possib_vars\<close>, the number of entries of the block
  \<open>existingVars\<close>.
\<close>

definition build_bdds ::
  "('m, 'n) cudd \<Rightarrow> nat \<Rightarrow> string list \<Rightarrow> string list \<Rightarrow> string \<Rightarrow>
   ('m, 'n ptr \<times> 'n ptr \<times> 'n ptr \<times> 'n augmentedDdVar list) cm" where
  "build_bdds C cap initTokens transTokens expectedForm =
     cbind (bddFromPrefix C cap initTokens []) (\<lambda>(initial, vars).
     cbind (Cudd_Ref C initial) (\<lambda>_.
     cbind (bddFromPrefix C cap transTokens vars) (\<lambda>(transition, vars).
     cbind (Cudd_Ref C transition) (\<lambda>_.
     cbind (clift (read_formula expectedForm)) (\<lambda>(expectedTokens, _).
     cbind (bddFromPrefix C cap expectedTokens vars) (\<lambda>(expected, vars').
     cbind (Cudd_Ref C expected) (\<lambda>_.
       if length vars = length vars' then creturn (initial, transition, expected, vars')
       else cstop Assert_Failed)))))))"

text \<open>The unprimed variables, and how many primed ones there are.\<close>

fun separate_vars ::
  "'n augmentedDdVar list \<Rightarrow> 'n augmentedDdVar list \<Rightarrow> nat \<Rightarrow> 'n augmentedDdVar list \<times> nat" where
  "separate_vars [] unprimed numPrimed = (unprimed, numPrimed)"
| "separate_vars (v # vs) unprimed numPrimed =
     (if \<not> parity v then separate_vars vs (unprimed @ [v]) numPrimed
      else separate_vars vs unprimed (numPrimed + 1))"

text \<open>
  The inner loop of the search for a primed counterpart, \<open>j\<close> rounds: it repeats the same search and
  stores what it finds in entry \<open>i\<close> of the two zeroed blocks.
\<close>

fun assign_primed ::
  "nat \<Rightarrow> string \<Rightarrow> 'n augmentedDdVar list \<Rightarrow> nat \<Rightarrow>
   'n augmentedDdVar option list \<times> 'n ptr list \<Rightarrow> 'n augmentedDdVar option list \<times> 'n ptr list" where
  "assign_primed 0 key vars i b = b"
| "assign_primed (Suc j) key vars i b =
     (case find_var key vars of
        Some found \<Rightarrow> assign_primed j key vars i ((fst b)[i := Some found], (snd b)[i := var_node found])
      | None \<Rightarrow> assign_primed j key vars i b)"

fun pair_vars ::
  "'n augmentedDdVar list \<Rightarrow> 'n augmentedDdVar list \<Rightarrow> nat \<Rightarrow>
   'n augmentedDdVar option list \<times> 'n ptr list \<Rightarrow>
   stop + 'n augmentedDdVar option list \<times> 'n ptr list" where
  "pair_vars vars [] i b = Inr b"
| "pair_vars vars (u # us) i b =
     (case strcpy_into MAX_VAR_LEN (var_name u) of
        Inl e \<Rightarrow> Inl e
      | Inr name \<Rightarrow> (case strcat_into MAX_VAR_LEN name [CHR 0x27] of
          Inl e \<Rightarrow> Inl e
        | Inr key \<Rightarrow> pair_vars vars us (i + 1) (assign_primed (length vars) key vars i b)))"

definition make_context ::
  "'n ptr \<Rightarrow> 'n augmentedDdVar list \<Rightarrow> stop + 'n modelContext" where
  "make_context transNode vars =
     (let (unprimed, numPrimed) = separate_vars vars [] 0 in
      if numPrimed \<noteq> length unprimed then
        Inl (Exit 2 ''Fix your formulae. All primed and unprimed variables should show up in the union of the two input formulae.'')
      else (case pair_vars vars unprimed 0
              (replicate (length vars) None, replicate (length vars) NULL) of
          Inl e \<Rightarrow> Inl e
        | Inr (prVars, prNodes) \<Rightarrow> Inr
            \<lparr>transition = transNode, existingVars = vars, primedVars = prVars, unprimedVars = unprimed,
             numExistingVars = length vars, primedNodes = prNodes,
             unprimedNodes = map var_node unprimed, numUnprimedNodes = length unprimed\<rparr>))"

text \<open>The loop that collects the reachable states; it applies the relation to the last image only.\<close>

fun reach_loop ::
  "('m, 'n) cudd \<Rightarrow> nat \<Rightarrow> 'n modelContext \<Rightarrow> 'n ptr \<Rightarrow> 'n ptr \<Rightarrow> 'n ptr \<Rightarrow>
   ('m, 'n ptr \<times> 'n ptr \<times> 'n ptr) cm" where
  "reach_loop C 0 ctx prevReachable reachable img = cstop No_Fuel"
| "reach_loop C (Suc fuel) ctx prevReachable reachable img =
     cbind (Cudd_ReadLogicZero C) (\<lambda>zero.
     cbind (Cudd_EquivDC C prevReachable reachable zero) (\<lambda>eq.
       if eq \<noteq> 1 then
         cbind (translatedImage C img (transition ctx) (primedNodes ctx) (unprimedNodes ctx)
           (numUnprimedNodes ctx)) (\<lambda>img'.
         cbind (Cudd_bddOr C reachable img') (\<lambda>reachable'.
           reach_loop C fuel ctx reachable reachable' img'))
       else creturn (prevReachable, reachable, img)))"

definition reachable_states ::
  "('m, 'n) cudd \<Rightarrow> nat \<Rightarrow> 'n modelContext \<Rightarrow> 'n ptr \<Rightarrow> ('m, 'n ptr \<times> 'n ptr \<times> 'n ptr) cm" where
  "reachable_states C fuel ctx initial =
     cbind (translatedImage C initial (transition ctx) (primedNodes ctx) (unprimedNodes ctx)
       (numUnprimedNodes ctx)) (\<lambda>img.
     cbind (Cudd_bddOr C initial img) (\<lambda>reachable.
       reach_loop C fuel ctx initial reachable img))"

text \<open>What the program tells: the two answers, and the arguments of \<open>Cudd_DumpDot\<close>.\<close>

record ('m, 'n) report =
  reach_correct :: bool     \<comment> \<open>Reachable satisfying states correct?\<close>
  init_satisfy :: bool      \<comment> \<open>Initial states satisfy property?\<close>
  dot_file :: string
  dot_manager :: 'm
  dot_node :: "'n ptr"
  dot_inputs :: "string list"
  dot_output :: string

text \<open>The name of the output, built in a block of \<open>50 + strlen (initForm) + strlen (transForm)\<close> bytes.\<close>

definition output_name :: "string \<Rightarrow> string \<Rightarrow> string \<Rightarrow> stop + string" where
  "output_name initForm transForm dotfileName =
     (let n = 50 + length initForm + length transForm in
      case strcpy_into n ''Image of ('' of Inl e \<Rightarrow> Inl e | Inr s \<Rightarrow>
      case strcat_into n s initForm of Inl e \<Rightarrow> Inl e | Inr s \<Rightarrow>
      case strcat_into n s '') under ('' of Inl e \<Rightarrow> Inl e | Inr s \<Rightarrow>
      case strcat_into n s dotfileName of Inl e \<Rightarrow> Inl e | Inr s \<Rightarrow>
      strcat_into n s '')'')"

fun deref_all :: "('m, 'n) cudd \<Rightarrow> 'n ptr list \<Rightarrow> ('m, unit) cm" where
  "deref_all C [] = creturn ()"
| "deref_all C (p # ps) = cbind (Cudd_RecursiveDeref C p) (\<lambda>_. deref_all C ps)"

definition equivalent :: "('m, 'n) cudd \<Rightarrow> 'n ptr \<Rightarrow> 'n ptr \<Rightarrow> ('m, bool) cm" where
  "equivalent C f g =
     cbind (Cudd_ReadLogicZero C) (\<lambda>zero.
     cbind (Cudd_EquivDC C f g zero) (\<lambda>eq. creturn (eq \<noteq> 0)))"

text \<open>Everything after \<open>Cudd_Init\<close>.\<close>

definition model_check ::
  "('m, 'n) cudd \<Rightarrow> nat \<Rightarrow> (string \<Rightarrow> bool) \<Rightarrow> 'n ctl_globals \<Rightarrow> string \<Rightarrow> string \<Rightarrow> string \<Rightarrow> string \<Rightarrow>
   string \<Rightarrow> nat \<Rightarrow> string list \<Rightarrow> string list \<Rightarrow> ('m, ('m, 'n) report) cm" where
  "model_check C fuel fopen_ok g initForm transForm propForm dotfileName expectedForm
      cap initTokens transTokens =
     cbind (build_bdds C cap initTokens transTokens expectedForm)
       (\<lambda>(initial, transNode, expected, vars).
     cbind (clift (make_context transNode vars)) (\<lambda>ctx.
     cbind (reachable_states C fuel ctx initial) (\<lambda>(prevReachable, reachable, img).
     cbind (check C fuel propForm ctx g) (\<lambda>(satisfyingStates, _).
     cbind (Cudd_Ref C satisfyingStates) (\<lambda>_.
     cbind (Cudd_bddAnd C satisfyingStates reachable) (\<lambda>alsoReachable.
     cbind (Cudd_Ref C alsoReachable) (\<lambda>_.
     cbind (equivalent C alsoReachable expected) (\<lambda>answer1.
     cbind (Cudd_bddAnd C initial satisfyingStates) (\<lambda>alsoInitial.
     cbind (Cudd_Ref C alsoInitial) (\<lambda>_.
     cbind (equivalent C initial alsoInitial) (\<lambda>answer2.
     cbind (clift (output_name initForm transForm dotfileName)) (\<lambda>outputName.
     if \<not> fopen_ok dotfileName then cstop (Undefined ''write to a NULL FILE'')
     else cbind (\<lambda>m. Inr (\<lparr>reach_correct = answer1, init_satisfy = answer2,
         dot_file = dotfileName, dot_manager = m, dot_node = alsoReachable,
         dot_inputs = map var_name vars, dot_output = outputName\<rparr>, m)) (\<lambda>rep.
     cbind (deref_all C [satisfyingStates, alsoReachable, alsoInitial, reachable, img,
         prevReachable, initial, transNode, expected]) (\<lambda>_.
       creturn rep))))))))))))))"

datatype ('m, 'n) main_result = Usage | Report "('m, 'n) report"

definition main ::
  "('m, 'n) cudd \<Rightarrow> nat \<Rightarrow> (string \<Rightarrow> bool) \<Rightarrow> string list \<Rightarrow> stop + ('m, 'n) main_result" where
  "main C fuel fopen_ok argv =
     (if length argv \<noteq> 6 then Inr Usage
      else let initForm = argv ! 1; transForm = argv ! 2; propForm = argv ! 3;
               dotfileName = argv ! 4; expectedForm = argv ! 5 in
        case tokenize initForm of Inl e \<Rightarrow> Inl e | Inr initTokens \<Rightarrow>
        case tokenize transForm of Inl e \<Rightarrow> Inl e | Inr transTokens \<Rightarrow>
        case getUniqVars initTokens of Inl e \<Rightarrow> Inl e | Inr uniqInitVars \<Rightarrow>
        case getUniqVars transTokens of Inl e \<Rightarrow> Inl e | Inr uniqTransVars \<Rightarrow>
        case cudd_init C of
          None \<Rightarrow> Inl (Exit 1 ''Error while initialization'')
        | Some manager \<Rightarrow>
            (case model_check C fuel fopen_ok \<lparr>RECENT_CTLPROP = [], EGPROP = NULL\<rparr>
                initForm transForm propForm dotfileName expectedForm
                (length uniqInitVars + length uniqTransVars) initTokens transTokens manager of
               Inl e \<Rightarrow> Inl e
             | Inr (rep, _) \<Rightarrow> Inr (Report rep)))"

section \<open>Pairing the variables\<close>

definition prime :: "string \<Rightarrow> string" where
  "prime x = x @ [CHR 0x27]"

lemma primed_prime [simp]: "primed (prime x)"
  by (simp add: primed_def prime_def)

lemma prime_inject [simp]: "prime x = prime y \<longleftrightarrow> x = y"
  by (simp add: prime_def)

lemma butlast_prime [simp]: "butlast (prime x) = x"
  by (simp add: prime_def)

lemma separate_vars_filter:
  "separate_vars vs us n = (us @ filter (\<lambda>v. \<not> parity v) vs, n + length (filter parity vs))"
  by (induction vs us n rule: separate_vars.induct) auto

lemma assign_primed_found:
  "find_var key vars = Some v \<Longrightarrow>
   assign_primed (Suc j) key vars i b = ((fst b)[i := Some v], (snd b)[i := var_node v])"
proof (induction j arbitrary: b)
  case (Suc j)
  then show ?case
    by (subst assign_primed.simps) simp
qed simp

lemma pair_vars_found:
  assumes "\<And>u. u \<in> set us \<Longrightarrow> length (var_name u) + 1 < MAX_VAR_LEN \<and>
      find_var (prime (var_name u)) vars = Some (partner u)"
    and "vars \<noteq> []" "i + length us \<le> length (fst b)" "length (snd b) = length (fst b)"
  shows "pair_vars vars us i b =
    Inr (take i (fst b) @ map (Some \<circ> partner) us @ drop (i + length us) (fst b),
         take i (snd b) @ map (var_node \<circ> partner) us @ drop (i + length us) (snd b))"
  using assms(1,3,4)
proof (induction us arbitrary: i b)
  case Nil
  then show ?case by simp
next
  case (Cons u us)
  obtain j where j: "length vars = Suc j"
    using assms(2) by (cases vars) auto
  have u: "length (var_name u) + 1 < MAX_VAR_LEN" "find_var (var_name u @ [CHR 0x27]) vars = Some (partner u)"
    using Cons.prems(1) [of u] by (auto simp: prime_def)
  let ?b = "((fst b)[i := Some (partner u)], (snd b)[i := var_node (partner u)])"
  have "pair_vars vars (u # us) i b = pair_vars vars us (i + 1) ?b"
    using u by (simp add: strcat_into_def assign_primed_found j del: assign_primed.simps)
  also have "\<dots> = Inr (take (i + 1) (fst ?b) @ map (Some \<circ> partner) us @ drop (i + 1 + length us) (fst ?b),
         take (i + 1) (snd ?b) @ map (var_node \<circ> partner) us @ drop (i + 1 + length us) (snd ?b))"
    using Cons.prems by (intro Cons.IH) auto
  finally show ?case
    using Cons.prems(2,3) by (simp add: take_Suc_conv_app_nth)
qed

text \<open>Without a counterpart nothing is stored; with one, only its own entry changes.\<close>

lemma assign_primed_none: "find_var key vars = None \<Longrightarrow> assign_primed j key vars i b = b"
  by (induction j) auto

lemma assign_primed_other:
  "k \<noteq> i \<Longrightarrow> snd (assign_primed j key vars i b) ! k = snd b ! k"
  by (induction j arbitrary: b) (auto split: option.split)

lemma assign_primed_length: "length (snd (assign_primed j key vars i b)) = length (snd b)"
  by (induction j arbitrary: b) (auto split: option.split)

lemma pair_vars_total:
  assumes "\<forall>u \<in> set us. length (var_name u) + 1 < MAX_VAR_LEN"
  shows "\<exists>b'. pair_vars vars us i b = Inr b' \<and> length (snd b') = length (snd b) \<and>
    (\<forall>k < i. snd b' ! k = snd b ! k) \<and>
    (\<forall>k < length us. find_var (prime (var_name (us ! k))) vars = None \<longrightarrow> snd b' ! (i + k) = snd b ! (i + k))"
  using assms
proof (induction us arbitrary: i b)
  case Nil
  then show ?case by auto
next
  case (Cons u us)
  let ?b = "assign_primed (length vars) (prime (var_name u)) vars i b"
  have "length (var_name u) + 1 < MAX_VAR_LEN"
    using Cons.prems by simp
  then have step: "pair_vars vars (u # us) i b = pair_vars vars us (i + 1) ?b"
    by (simp add: strcat_into_def prime_def)
  have "\<forall>u \<in> set us. length (var_name u) + 1 < MAX_VAR_LEN"
    using Cons.prems by simp
  from Cons.IH [OF this, of "i + 1" ?b]
  obtain b' where b': "pair_vars vars us (i + 1) ?b = Inr b'" "\<forall>k < i + 1. snd b' ! k = snd ?b ! k"
    "length (snd b') = length (snd ?b)"
    "\<forall>k < length us. find_var (prime (var_name (us ! k))) vars = None \<longrightarrow>
      snd b' ! (i + 1 + k) = snd ?b ! (i + 1 + k)"
    by blast
  have "snd b' ! (i + k) = snd b ! (i + k)"
    if "k < length (u # us)" "find_var (prime (var_name ((u # us) ! k))) vars = None" for k
  proof (cases k)
    case 0
    then show ?thesis
      using that(2) b'(2) assign_primed_none [of _ vars "length vars" i b] by simp
  next
    case (Suc l)
    then show ?thesis
      using that b'(4) assign_primed_other [of "i + k" i] by simp
  qed
  moreover have "snd b' ! k = snd b ! k" if "k < i" for k
    using b'(2) that assign_primed_other [of k i] by simp
  ultimately show ?case
    using step b'(1,3) assign_primed_length
    by (intro exI [of _ b'] conjI allI impI) simp_all
qed

lemma pair_vars_long:
  assumes "\<And>u. u \<in> set us \<Longrightarrow> length (var_name u) < MAX_VAR_LEN"
    and "\<exists>u \<in> set us. \<not> length (var_name u) + 1 < MAX_VAR_LEN"
  shows "pair_vars vars us i b = Inl (Undefined ''strcat past the block'')"
  using assms by (induction us arbitrary: i b) (auto simp: strcat_into_def)

section \<open>The system two formulae describe\<close>

text \<open>
  The states over the names \<open>us\<close> that satisfy a formula, and the steps a formula over unprimed and
  primed names allows.
\<close>

definition formula_states :: "string list \<Rightarrow> bexp \<Rightarrow> state set" where
  "formula_states us f = {s. s \<subseteq> set us \<and> bsem f (\<lambda>x. x \<in> s)}"

definition formula_steps :: "string list \<Rightarrow> bexp \<Rightarrow> (state \<times> state) set" where
  "formula_steps us f = {(s, t). s \<subseteq> set us \<and> t \<subseteq> set us \<and>
     bsem f (\<lambda>x. if primed x then butlast x \<in> t else x \<in> s)}"

lemma formula_steps_subset: "formula_steps us f \<subseteq> states us \<times> states us"
  by (auto simp: formula_steps_def)

interpretation formula_system: transition_system "Pow (set us)" "formula_steps us f" for us f
  by unfold_locales (use formula_steps_subset [of us f] in auto)

text \<open>Names as the program needs them: no operator among them, room for the prime, and every
  unprimed name comes with its primed counterpart and the other way round.\<close>

definition var_ok :: "string \<Rightarrow> bool" where
  "var_ok x \<longleftrightarrow> token_ok x \<and> x \<notin> set operators \<and> (\<not> primed x \<longrightarrow> length x + 1 < MAX_VAR_LEN)"

definition unprimed_names :: "string list \<Rightarrow> string list" where
  "unprimed_names names = filter (\<lambda>x. \<not> primed x) names"

definition paired :: "string list \<Rightarrow> bool" where
  "paired names \<longleftrightarrow> list_all var_ok names \<and>
     set (filter primed names) = prime ` set (unprimed_names names)"

definition unprimed_pos :: "string list \<Rightarrow> nat list" where
  "unprimed_pos names = map (pos names) (unprimed_names names)"

definition primed_pos :: "string list \<Rightarrow> nat list" where
  "primed_pos names = map (\<lambda>x. pos names (prime x)) (unprimed_names names)"

lemma prime_in_names: "paired names \<Longrightarrow> x \<in> set (unprimed_names names) \<Longrightarrow> prime x \<in> set names"
  unfolding paired_def by (metis (no_types, lifting) filter_is_subset image_eqI subsetD)

lemma unprimed_in_names: "x \<in> set (unprimed_names names) \<Longrightarrow> x \<in> set names \<and> \<not> primed x"
  by (simp add: unprimed_names_def)

lemma primed_in_names:
  assumes "paired names" "x \<in> set names" "primed x"
  shows "butlast x \<in> set (unprimed_names names) \<and> prime (butlast x) = x"
proof -
  have "set (filter primed names) = prime ` set (unprimed_names names)"
    using assms(1) unfolding paired_def by (rule conjunct2)
  moreover have "x \<in> set (filter primed names)"
    using assms(2,3) by simp
  ultimately have "x \<in> prime ` set (unprimed_names names)"
    by (simp only:)
  then obtain y where "x = prime y" "y \<in> set (unprimed_names names)"
    by (rule imageE)
  then show ?thesis by simp
qed

lemma pos_inject: "x \<in> set names \<Longrightarrow> y \<in> set names \<Longrightarrow> pos names x = pos names y \<Longrightarrow> x = y"
  by (metis nth_pos)

lemma frame_names:
  assumes "paired names" "distinct names"
  shows "frame (unprimed_names names) (unprimed_pos names) (primed_pos names)"
proof -
  let ?us = "unprimed_names names"
  have us: "distinct ?us"
    using assms(2) by (simp add: unprimed_names_def)
  have "inj_on (pos names) (set ?us)"
    by (intro inj_onI) (auto dest: unprimed_in_names intro: pos_inject)
  moreover have "inj_on (\<lambda>x. pos names (prime x)) (set ?us)"
  proof (intro inj_onI)
    fix x y
    assume "x \<in> set ?us" "y \<in> set ?us" "pos names (prime x) = pos names (prime y)"
    then have "prime x = prime y"
      using prime_in_names [OF assms(1)] pos_inject by blast
    then show "x = y" by simp
  qed
  moreover have "pos names x \<noteq> pos names (prime y)" if "x \<in> set ?us" "y \<in> set ?us" for x y
  proof
    assume "pos names x = pos names (prime y)"
    then have "x = prime y"
      using that prime_in_names [OF assms(1)] unprimed_in_names pos_inject by blast
    then show False
      using unprimed_in_names [OF that(1)] by simp
  qed
  ultimately show ?thesis
    using us by (auto simp: frame_def unprimed_pos_def primed_pos_def distinct_map)
qed

lemma view_map: "view us (map f us) e = {x \<in> set us. e (f x)}"
  by (auto simp: view_def zip_map2 zip_same_conv_map)

lemma view_unprimed:
  "view (unprimed_names names) (unprimed_pos names) e = {x \<in> set (unprimed_names names). e (pos names x)}"
  by (simp add: unprimed_pos_def view_map)

lemma view_primed:
  "view (unprimed_names names) (primed_pos names) e =
     {x \<in> set (unprimed_names names). e (pos names (prime x))}"
  by (simp add: primed_pos_def view_map)

lemma formula_set_repr:
  assumes "repr m p (formula_fun vars f)" "map var_name vars = names"
    and "set (bvars f) \<subseteq> set (unprimed_names names)"
  shows "set_repr repr (unprimed_names names) (unprimed_pos names) m p
    (formula_states (unprimed_names names) f)"
proof -
  have "bsem f (\<lambda>x. e (pos names x)) =
      bsem f (\<lambda>x. x \<in> view (unprimed_names names) (unprimed_pos names) e)" for e
    using assms(3) by (intro bsem_cong) (auto simp: view_unprimed)
  then show ?thesis
    unfolding set_repr_def
    using assms(1,2) view_subset by (auto simp: formula_fun_def formula_states_def)
qed

lemma formula_step_repr:
  assumes "repr m p (formula_fun vars f)" "map var_name vars = names" "paired names"
    and "set (bvars f) \<subseteq> set names"
  shows "step_repr repr (unprimed_names names) (unprimed_pos names) (primed_pos names) m p
    (formula_steps (unprimed_names names) f)"
proof -
  let ?us = "unprimed_names names"
  have "bsem f (\<lambda>x. e (pos names x)) =
      bsem f (\<lambda>x. if primed x then butlast x \<in> view ?us (primed_pos names) e
        else x \<in> view ?us (unprimed_pos names) e)" for e
  proof (rule bsem_cong)
    fix x
    assume "x \<in> set (bvars f)"
    then have x: "x \<in> set names"
      using assms(4) by blast
    show "e (pos names x) = (if primed x then butlast x \<in> view ?us (primed_pos names) e
        else x \<in> view ?us (unprimed_pos names) e)"
    proof (cases "primed x")
      case True
      then show ?thesis
        using primed_in_names [OF assms(3) x] by (simp add: view_primed)
    next
      case False
      then have "x \<in> set ?us"
        using x by (simp add: unprimed_names_def)
      with False show ?thesis
        by (simp add: view_unprimed)
    qed
  qed
  then have "formula_fun vars f e \<longleftrightarrow>
      (view ?us (unprimed_pos names) e, view ?us (primed_pos names) e) \<in> formula_steps ?us f" for e
    using view_subset assms(2) by (simp add: formula_fun_def formula_steps_def)
  with assms(1) show ?thesis
    unfolding step_repr_def by blast
qed

section \<open>The context the program builds\<close>

lemma table_entry:
  assumes "var_table repr nvars m vars" "map var_name vars = names" "v \<in> set vars"
  shows "repr m (var_node v) (\<lambda>e. e (pos names (var_name v)))" "pos names (var_name v) < nvars m"
    "find_var (var_name v) vars = Some v" "parity v = primed (var_name v)"
proof -
  have d: "distinct (map var_name vars)" and n: "nvars m = length vars"
    and r: "\<And>i. i < length vars \<Longrightarrow> repr m (var_node (vars ! i)) (\<lambda>e. e i)"
    using assms(1) by (auto simp: var_table_def)
  obtain i where i: "i < length vars" "v = vars ! i"
    using assms(3) by (auto simp: in_set_conv_nth)
  then have "pos names (var_name v) = i"
    using pos_nth [OF d, of i] assms(2) by auto
  with i r n show "repr m (var_node v) (\<lambda>e. e (pos names (var_name v)))"
    "pos names (var_name v) < nvars m" by simp_all
  show "find_var (var_name v) vars = Some v"
    using find_var_nth [OF d i(1)] i(2) by simp
  show "parity v = primed (var_name v)"
    using assms(1,3) by (auto simp: var_table_def)
qed

lemma table_lookup:
  assumes "var_table repr nvars m vars" "map var_name vars = names" "x \<in> set names"
  shows "\<exists>v \<in> set vars. var_name v = x \<and> find_var x vars = Some v"
  using table_entry(3) [OF assms(1,2)] assms(2,3) by auto

lemma filter_var_names:
  assumes "\<And>v. v \<in> set vars \<Longrightarrow> parity v = primed (var_name v)"
  shows "map var_name (filter (\<lambda>v. \<not> parity v) vars) = unprimed_names (map var_name vars)"
    and "map var_name (filter parity vars) = filter primed (map var_name vars)"
  using assms by (induction vars) (auto simp: unprimed_names_def)

context cudd_package
begin

lemma node_array_unprimed:
  assumes "var_table repr nvars m vars" "map var_name vars = names"
  shows "map var_name (filter (\<lambda>v. \<not> parity v) vars) = unprimed_names names"
    and "node_array repr nvars m (map var_node (filter (\<lambda>v. \<not> parity v) vars)) (unprimed_pos names)"
proof -
  note entry = table_entry [OF assms]
  show us: "map var_name (filter (\<lambda>v. \<not> parity v) vars) = unprimed_names names"
    using filter_var_names(1) [of vars] entry(4) assms(2) by simp
  show "node_array repr nvars m (map var_node (filter (\<lambda>v. \<not> parity v) vars)) (unprimed_pos names)"
    unfolding node_array_def unprimed_pos_def us [symmetric]
    using entry(1,2) by (auto dest!: nth_mem)
qed

lemma make_context_paired:
  assumes vars: "var_table repr nvars m vars" and names: "map var_name vars = names"
    and paired: "paired names" and ne: "unprimed_names names \<noteq> []"
  shows "\<exists>ctx. make_context p vars = Inr ctx \<and>
    existingVars ctx = vars \<and> numExistingVars ctx = length vars \<and>
    numUnprimedNodes ctx = length (unprimed_names names) \<and> transition ctx = p \<and>
    node_array repr nvars m (unprimedNodes ctx) (unprimed_pos names) \<and>
    node_array repr nvars m (primedNodes ctx) (primed_pos names)"
proof -
  let ?us = "filter (\<lambda>v. \<not> parity v) vars"
  note entry = table_entry [OF vars names]
  note us = node_array_unprimed(1) [OF vars names]
  have prs: "map var_name (filter parity vars) = filter primed names"
    using filter_var_names(2) [of vars] entry(4) names by simp
  have d: "distinct names"
    using vars names by (simp add: var_table_def)
  have "length (filter primed names) = card (set (filter primed names))"
    using d by (intro distinct_card [symmetric]) simp
  also have "\<dots> = card (prime ` set (unprimed_names names))"
    using paired by (simp add: paired_def)
  also have "\<dots> = card (set (unprimed_names names))"
    by (rule card_image) (simp add: inj_on_def)
  also have "\<dots> = length (unprimed_names names)"
    using d by (intro distinct_card) (simp add: unprimed_names_def)
  finally have count: "length (filter parity vars) = length ?us"
    using arg_cong [OF prs, of length] arg_cong [OF us, of length] by simp
  define partner where "partner u = the (find_var (prime (var_name u)) vars)" for u :: "'n augmentedDdVar"
  have partner: "length (var_name u) + 1 < MAX_VAR_LEN \<and>
      find_var (prime (var_name u)) vars = Some (partner u) \<and>
      partner u \<in> set vars \<and> var_name (partner u) = prime (var_name u)" if "u \<in> set ?us" for u
  proof -
    have u: "var_name u \<in> set (unprimed_names names)"
      using that us by (metis image_eqI list.set_map)
    then have "var_ok (var_name u)" "\<not> primed (var_name u)"
      using unprimed_in_names paired by (auto simp: paired_def list_all_iff)
    then show ?thesis
      using table_lookup [OF vars names prime_in_names [OF paired u]]
      by (auto simp: partner_def var_ok_def)
  qed
  have "vars \<noteq> []" "length ?us \<le> length vars"
    using us ne by auto
  then have pair: "pair_vars vars ?us 0 (replicate (length vars) None, replicate (length vars) NULL) =
      Inr (map (Some \<circ> partner) ?us @ replicate (length vars - length ?us) None,
        map (var_node \<circ> partner) ?us @ replicate (length vars - length ?us) NULL)"
    using partner by (subst pair_vars_found [where partner = partner]) auto
  note node_array_unprimed(2) [OF vars names]
  moreover have "node_array repr nvars m
      (map (var_node \<circ> partner) ?us @ replicate (length vars - length ?us) NULL) (primed_pos names)"
    unfolding node_array_def primed_pos_def us [symmetric]
  proof (intro conjI allI impI)
    fix i
    assume "i < length (map (\<lambda>x. pos names (prime x)) (map var_name ?us))"
    then have i: "i < length ?us" by simp
    then have u: "?us ! i \<in> set ?us" by (rule nth_mem)
    from i partner [OF u] entry(1,2) [of "partner (?us ! i)"]
    show "repr m ((map (var_node \<circ> partner) ?us @ replicate (length vars - length ?us) NULL) ! i)
        (\<lambda>e. e (map (\<lambda>x. pos names (prime x)) (map var_name ?us) ! i))"
      "map (\<lambda>x. pos names (prime x)) (map var_name ?us) ! i < nvars m"
      by (simp_all add: nth_append)
  qed simp
  ultimately show ?thesis
    using count pair arg_cong [OF us, of length] by (simp add: make_context_def separate_vars_filter)
qed

lemma ctx_vars_table:
  assumes "var_table repr nvars m vars" "map var_name vars = names"
    and "existingVars ctx = vars" "numExistingVars ctx = length vars"
  shows "ctx_vars repr (unprimed_names names) (unprimed_pos names) m ctx"
  unfolding ctx_vars_def
proof
  fix x
  assume x: "x \<in> set (unprimed_names names)"
  then obtain v where v: "v \<in> set vars" "var_name v = x" "find_var x vars = Some v"
    using table_lookup [OF assms(1,2)] unprimed_in_names by blast
  have "set_repr repr (unprimed_names names) (unprimed_pos names) m (var_node v) {s. x \<in> s}"
    unfolding set_repr_def view_unprimed
    using table_entry(1) [OF assms(1,2) v(1)] v(2) x by (intro exI [of _ "\<lambda>e. e (pos names x)"]) simp
  with v(3) show "\<exists>v. find_var x (take (numExistingVars ctx) (existingVars ctx)) = Some v \<and>
      set_repr repr (unprimed_names names) (unprimed_pos names) m (var_node v) {s. x \<in> s}"
    by (simp add: assms(3,4))
qed

lemma nodes_of_NULL: "NULL \<in> set ps \<Longrightarrow> nodes_of ps = Inl (Undefined ''not a node'')"
  by (induction ps) (auto simp: node_of_def split: ptr.splits)

lemma image_unmatched:
  assumes "ok m" "repr m p \<phi>" "repr m (transition ctx) \<tau>"
    and "node_array repr nvars m (unprimedNodes ctx) vu" "length vu = numUnprimedNodes ctx"
    and "k < numUnprimedNodes ctx" "k < length (primedNodes ctx)" "primedNodes ctx ! k = NULL"
    and "numUnprimedNodes ctx \<le> length (primedNodes ctx)"
  shows "translatedImage C p (transition ctx) (primedNodes ctx) (unprimedNodes ctx)
    (numUnprimedNodes ctx) m = Inl (Undefined ''not a node'')"
proof -
  obtain r1 m1 where 1: "Cudd_bddAnd C p (transition ctx) m = Inr (r1, m1)" "ext m m1"
      "repr m1 r1 (\<lambda>e. \<phi> e \<and> \<tau> e)"
    using runs_And [OF assms(1-3), of "\<lambda>r m'. ext m m' \<and> repr m' r (\<lambda>e. \<phi> e \<and> \<tau> e)"]
    by (auto elim: runsE)
  obtain r2 m2 where
    2: "abstract_nodes C (unprimedNodes ctx) [0..<numUnprimedNodes ctx] r1 m1 = Inr (r2, m2)"
    using runs_abstract_all [OF ext_ok [OF 1(2)] 1(3) node_array_ext [OF 1(2) assms(4)]
        assms(5) [symmetric]]
    by (auto elim: runsE)
  have "take (numUnprimedNodes ctx) (primedNodes ctx) ! k = NULL"
    using assms(6,8) by simp
  then have "NULL \<in> set (take (numUnprimedNodes ctx) (primedNodes ctx))"
    using assms(6,7) by (metis length_take min_less_iff_conj nth_mem)
  then have "read_nodes (numUnprimedNodes ctx) (primedNodes ctx) = Inl (Undefined ''not a node'')"
    using assms(9) by (simp add: read_nodes_def nodes_of_NULL)
  then show ?thesis
    by (simp add: translatedImage_def 1 2 Cudd_bddSwapVariables_def)
qed

section \<open>Reachability\<close>

lemma runs_image:
  assumes "ok m" "ctx_ok us vu vp R ctx m" "set_repr repr us vu m p X"
  shows "runs (translatedImage C p (transition ctx) (primedNodes ctx) (unprimedNodes ctx)
      (numUnprimedNodes ctx)) m (\<lambda>r m'. ext m m' \<and> set_repr repr us vu m' r (image_of R X))"
proof -
  have "frame us vu vp \<and> R \<subseteq> states us \<times> states us \<and> numUnprimedNodes ctx = length us \<and>
      step_repr repr us vu vp m (transition ctx) R \<and>
      node_array repr nvars m (unprimedNodes ctx) vu \<and> node_array repr nvars m (primedNodes ctx) vp"
    using assms(2) by (simp only: context_ok_def)
  then show ?thesis
    by (elim conjE) (simp only:, rule runs_translatedImage [OF assms(1) _ assms(3)])
qed

lemma image_of_Un: "image_of R (X \<union> Y) = image_of R X \<union> image_of R Y"
  by (auto simp: image_of_def)

text \<open>
  The loop keeps \<open>prevReachable = P\<close>, \<open>image = J\<close> and \<open>reachable = P \<union> J\<close>, and the image of \<open>P\<close> lies
  in \<open>P \<union> J\<close>; that is why the image of the last image is enough.
\<close>

lemma runs_reach_loop:
  assumes R: "R \<subseteq> states us \<times> states us"
  shows "ok m \<Longrightarrow> ctx_ok us vu vp R ctx m \<Longrightarrow> set_repr repr us vu m prev P \<Longrightarrow>
   set_repr repr us vu m cur (P \<union> J) \<Longrightarrow> set_repr repr us vu m img J \<Longrightarrow>
   P \<subseteq> states us \<Longrightarrow> J \<subseteq> states us \<Longrightarrow> image_of R P \<subseteq> P \<union> J \<Longrightarrow> I \<subseteq> P \<Longrightarrow> P \<union> J \<subseteq> R\<^sup>* `` I \<Longrightarrow>
   card (states us - P) < fuel \<Longrightarrow>
   runs (reach_loop C fuel ctx prev cur img) m (\<lambda>(p, r, i) m'. ext m m' \<and>
     set_repr repr us vu m' r (R\<^sup>* `` I) \<and> (\<exists>X Y. set_repr repr us vu m' p X \<and> set_repr repr us vu m' i Y))"
proof (induction fuel arbitrary: m prev cur img P J)
  case 0
  then show ?case by simp
next
  case (Suc fuel)
  have PJ: "P \<union> J \<subseteq> states us"
    using Suc.prems(6,7) by blast
  have frame: "frame us vu vp"
    using Suc.prems(2) by (rule ctx_frame)
  obtain z where z: "Cudd_ReadLogicZero C m = Inr (z, m)" "repr m z (\<lambda>e. False)"
    using runs_Zero [OF Suc.prems(1), of "\<lambda>r m'. m' = m \<and> repr m r (\<lambda>e. False)"]
    by (auto elim: runsE)
  obtain m1 where 1: "Cudd_EquivDC C prev cur z m = Inr (if P = P \<union> J then 1 else 0, m1)" "ext m m1"
    using runs_set_Equiv [OF Suc.prems(1) frame Suc.prems(3,4) Suc.prems(6) PJ z(2)]
    by (auto elim: runsE)
  note up1 = set_repr_ext [OF 1(2)]
  show ?case
  proof (cases "P = P \<union> J")
    case True
    then have closed: "image_of R P \<subseteq> P"
      using Suc.prems(8) by simp
    have "t \<in> P" if "(s, t) \<in> R\<^sup>*" "s \<in> I" for s t
      using that(1)
    proof (induction rule: rtrancl_induct)
      case base
      show ?case using that(2) Suc.prems(9) by blast
    next
      case (step t u)
      then show ?case using closed by (auto simp: image_of_def)
    qed
    then have "R\<^sup>* `` I = P \<union> J"
      using Suc.prems(10) True by blast
    then show ?thesis
      using True up1 [OF Suc.prems(3)] up1 [OF Suc.prems(4)] up1 [OF Suc.prems(5)] 1(2)
      by (auto simp: runs_def z 1)
  next
    case False
    have ctx1: "ctx_ok us vu vp R ctx m1"
      using 1(2) Suc.prems(2) by (rule context_ok_ext)
    obtain i2 m2 where 2: "translatedImage C img (transition ctx) (primedNodes ctx)
        (unprimedNodes ctx) (numUnprimedNodes ctx) m1 = Inr (i2, m2)" "ext m1 m2"
      "set_repr repr us vu m2 i2 (image_of R J)"
      using runs_image [OF ext_ok [OF 1(2)] ctx1 up1 [OF Suc.prems(5)]] by (auto elim: runsE)
    have e2: "ext m m2"
      using 1(2) 2(2) by (rule ext_trans)
    obtain c3 m3 where 3: "Cudd_bddOr C cur i2 m2 = Inr (c3, m3)" "ext m2 m3"
      "set_repr repr us vu m3 c3 ((P \<union> J) \<union> image_of R J)"
      using runs_set_Or [OF ext_ok [OF e2] set_repr_ext [OF e2 Suc.prems(4)] 2(3)]
      by (auto elim: runsE)
    have e3: "ext m m3"
      using e2 3(2) by (rule ext_trans)
    have J': "image_of R J \<subseteq> states us"
      using R by (auto simp: image_of_def)
    have reach: "(P \<union> J) \<union> image_of R J \<subseteq> R\<^sup>* `` I"
    proof -
      have "t \<in> R\<^sup>* `` I" if "s \<in> J" "(s, t) \<in> R" for s t
        using that Suc.prems(10) by (meson Image_iff UnI2 rtrancl.rtrancl_into_rtrancl subset_eq)
      then show ?thesis
        using Suc.prems(10) by (auto simp: image_of_def)
    qed
    have "states us - (P \<union> J) \<subset> states us - P"
      using False PJ by blast
    then have card: "card (states us - (P \<union> J)) < fuel"
      using psubset_card_mono [of "states us - P" "states us - (P \<union> J)"] Suc.prems(11) by simp
    have "runs (reach_loop C fuel ctx cur c3 i2) m3 (\<lambda>(p, r, i) m'. ext m3 m' \<and>
        set_repr repr us vu m' r (R\<^sup>* `` I) \<and>
        (\<exists>X Y. set_repr repr us vu m' p X \<and> set_repr repr us vu m' i Y))"
      using Suc.prems(8,9) by (intro Suc.IH [OF ext_ok [OF e3] context_ok_ext [OF e3 Suc.prems(2)]
            set_repr_ext [OF e3 Suc.prems(4)] 3(3) set_repr_ext [OF 3(2) 2(3)] PJ J' _ _ reach card])
        (auto simp: image_of_Un)
    then have "runs (reach_loop C fuel ctx cur c3 i2) m3 (\<lambda>(p, r, i) m'. ext m m' \<and>
        set_repr repr us vu m' r (R\<^sup>* `` I) \<and>
        (\<exists>X Y. set_repr repr us vu m' p X \<and> set_repr repr us vu m' i Y))"
      by (rule runs_mono) (auto intro: ext_trans [OF e3])
    then show ?thesis
      using False by (simp add: runs_def z 1 2 3)
  qed
qed

lemma runs_reachable:
  assumes "ok m" "ctx_ok us vu vp R ctx m" "set_repr repr us vu m p I" "I \<subseteq> states us"
    and "card (states us) < fuel"
  shows "runs (reachable_states C fuel ctx p) m (\<lambda>(p, r, i) m'. ext m m' \<and>
     set_repr repr us vu m' r (R\<^sup>* `` I) \<and> (\<exists>X Y. set_repr repr us vu m' p X \<and> set_repr repr us vu m' i Y))"
proof -
  have R: "R \<subseteq> states us \<times> states us"
    using assms(2) by (simp add: context_ok_def)
  obtain i1 m1 where 1: "translatedImage C p (transition ctx) (primedNodes ctx)
      (unprimedNodes ctx) (numUnprimedNodes ctx) m = Inr (i1, m1)" "ext m m1"
    "set_repr repr us vu m1 i1 (image_of R I)"
    using runs_image [OF assms(1-3)] by (auto elim: runsE)
  obtain c2 m2 where 2: "Cudd_bddOr C p i1 m1 = Inr (c2, m2)" "ext m1 m2"
    "set_repr repr us vu m2 c2 (I \<union> image_of R I)"
    using runs_set_Or [OF ext_ok [OF 1(2)] set_repr_ext [OF 1(2) assms(3)] 1(3)]
    by (auto elim: runsE)
  have e2: "ext m m2"
    using 1(2) 2(2) by (rule ext_trans)
  have J: "image_of R I \<subseteq> states us"
    using R by (auto simp: image_of_def)
  have reach: "I \<union> image_of R I \<subseteq> R\<^sup>* `` I"
    by (auto simp: image_of_def)
  have "card (states us - I) < fuel"
    using assms(5) card_mono [of "states us" "states us - I"] by auto
  from runs_reach_loop [OF R ext_ok [OF e2] context_ok_ext [OF e2 assms(2)]
      set_repr_ext [OF e2 assms(3)] 2(3) set_repr_ext [OF 2(2) 1(3)] assms(4) J _ order_refl reach this]
  have "runs (reach_loop C fuel ctx p c2 i1) m2 (\<lambda>(p, r, i) m'. ext m2 m' \<and>
      set_repr repr us vu m' r (R\<^sup>* `` I) \<and>
      (\<exists>X Y. set_repr repr us vu m' p X \<and> set_repr repr us vu m' i Y))"
    by simp
  then have "runs (reach_loop C fuel ctx p c2 i1) m2 (\<lambda>(p, r, i) m'. ext m m' \<and>
      set_repr repr us vu m' r (R\<^sup>* `` I) \<and>
      (\<exists>X Y. set_repr repr us vu m' p X \<and> set_repr repr us vu m' i Y))"
    by (rule runs_mono) (auto intro: ext_trans [OF e2])
  then show ?thesis
    by (simp add: reachable_states_def runs_def 1 2)
qed

end

section \<open>The whole run\<close>

lemma var_ok_name: "var_ok x \<Longrightarrow> name_ok x"
  by (auto simp: var_ok_def name_ok_def token_ok_def bool_ops_def operators_def)

lemma rpn_short:
  assumes "\<forall>x \<in> set (bvars f). length x < MAX_VAR_LEN"
  shows "list_all (\<lambda>t. length t < MAX_VAR_LEN) (rpn f)"
  using assms by (induction f) (auto simp: op_defs MAX_VAR_LEN_def)

lemma rpn_names:
  assumes "\<forall>x \<in> set (bvars f). x \<notin> set operators"
  shows "filter (\<lambda>t. \<not> isOperator t) (rpn f) = bvars f"
proof -
  have "\<forall>x \<in> set bool_ops. isOperator x"
    by (auto simp: isOperator_iff bool_ops_def operators_def)
  then have "isOperator OP_OR" "isOperator OP_AND" "isOperator OP_XOR" "isOperator OP_IFF"
    "isOperator OP_NOT"
    by (simp_all add: bool_ops_def)
  then show ?thesis
    using assms by (induction f) (auto simp: isOperator_iff)
qed

lemma read_rpn:
  assumes "\<forall>x \<in> set (bvars f). var_ok x" "tokens_of s = rpn f"
  shows "tokenize s = Inr (rpn f)" "getUniqVars (rpn f) = Inr (nub (bvars f))"
proof -
  have short: "list_all (\<lambda>t. length t < MAX_VAR_LEN) (rpn f)"
    using assms(1) by (intro rpn_short) (simp add: var_ok_def token_ok_def)
  then show "tokenize s = Inr (rpn f)"
    by (simp add: tokenize_tokens_of assms(2) list_all_iff)
  have "filter (\<lambda>t. \<not> isOperator t) (rpn f) = bvars f"
    using assms(1) by (intro rpn_names) (simp add: var_ok_def)
  then show "getUniqVars (rpn f) = Inr (nub (bvars f))"
    using short getUniqVars_nub [of "rpn f"] by (simp add: list_all_iff)
qed

lemma bvars_nonempty [simp]: "bvars f \<noteq> []"
  by (induction f) auto

lemma unprimed_nonempty:
  assumes "paired names" "names \<noteq> []"
  shows "unprimed_names names \<noteq> []"
proof -
  obtain x where x: "x \<in> set names"
    using assms(2) by (cases names) auto
  show ?thesis
  proof (cases "primed x")
    case True
    then show ?thesis
      using primed_in_names [OF assms(1) x] by auto
  next
    case False
    with x show ?thesis
      by (auto simp: unprimed_names_def filter_empty_conv)
  qed
qed

context cudd_package
begin

text \<open>The first two formulae.\<close>

lemma build_two:
  assumes m: "ok m" "nvars m = 0"
    and names: "\<forall>x \<in> set (bvars fi @ bvars ft). var_ok x"
    and cap: "length (nub (bvars fi @ bvars ft)) \<le> cap"
  shows "\<exists>i v1 m1 m2 t v2 m3 m4.
    bddFromPrefix C cap (rpn fi) [] m = Inr ((i, v1), m1) \<and> Cudd_Ref C i m1 = Inr ((), m2) \<and>
    bddFromPrefix C cap (rpn ft) v1 m2 = Inr ((t, v2), m3) \<and> Cudd_Ref C t m3 = Inr ((), m4) \<and>
    ok m4 \<and> var_table repr nvars m4 v2 \<and> map var_name v2 = nub (bvars fi @ bvars ft) \<and>
    repr m4 i (formula_fun v2 fi) \<and> repr m4 t (formula_fun v2 ft)"
proof -
  let ?names = "nub (bvars fi @ bvars ft)"
  have names': "\<forall>x \<in> set (bvars fi). name_ok x" "\<forall>x \<in> set (bvars ft). name_ok x"
    using names var_ok_name by auto
  have cap1: "length (nub (map var_name [] @ bvars fi)) \<le> cap"
    using cap length_nub_append [of "bvars fi" "bvars ft"] by simp
  have "var_table repr nvars m []"
    using m(2) by (simp add: var_table_def)
  from runs_bddFromPrefix [OF m(1) this names'(1) cap1]
  obtain i v1 m1 where 1: "bddFromPrefix C cap (rpn fi) [] m = Inr ((i, v1), m1)"
    and A: "var_table repr nvars m1 v1" "map var_name v1 = nub (bvars fi)"
      "repr m1 i (formula_fun v1 fi)" "ok m1"
    by (auto simp: grows_def elim!: runsE)
  obtain m2 where 2: "Cudd_Ref C i m1 = Inr ((), m2)" "ext m1 m2"
    using runs_Ref [OF A(4,3), of "\<lambda>_. ext m1"] by (auto elim: runsE)
  have names2: "nub (map var_name v1 @ bvars ft) = ?names"
    by (simp add: A(2) nub_nub_append)
  from runs_bddFromPrefix [OF ext_ok [OF 2(2)] var_table_extends [OF 2(2) A(1)] names'(2), of cap]
  obtain t v2 m3 where 3: "bddFromPrefix C cap (rpn ft) v1 m2 = Inr ((t, v2), m3)"
    and B: "var_table repr nvars m3 v2" "\<exists>ws. v2 = v1 @ ws" "map var_name v2 = ?names"
      "repr m3 t (formula_fun v2 ft)" "grows ok repr m2 m3"
    using cap names2 by (auto elim!: runsE)
  have B5: "ok m3"
    using B(5) by (simp add: grows_def)
  obtain m4 where 4: "Cudd_Ref C t m3 = Inr ((), m4)" "ext m3 m4"
    using runs_Ref [OF B5 B(4), of "\<lambda>_. ext m3"] by (auto elim: runsE)
  have "formula_fun v2 fi = formula_fun v1 fi"
    using B(2) A(2) formula_fun_extend [of fi v1] by auto
  then have "repr m4 i (formula_fun v2 fi)"
    using A(3) ext_repr [OF 2(2)] B(5) ext_repr [OF 4(2)] by (simp add: grows_def)
  then show ?thesis
    using 1 2(1) 3 4(1) ext_ok [OF 4(2)] var_table_extends [OF 4(2) B(1)] B(3) ext_repr [OF 4(2) B(4)]
    by blast
qed

lemma runs_build_bdds:
  assumes m: "ok m" "nvars m = 0"
    and names: "\<forall>x \<in> set (bvars fi @ bvars ft). var_ok x"
    and exp: "tokens_of s = rpn fe" "set (bvars fe) \<subseteq> set (bvars fi @ bvars ft)"
    and cap: "length (nub (bvars fi @ bvars ft)) \<le> cap"
  shows "runs (build_bdds C cap (rpn fi) (rpn ft) s) m (\<lambda>(i, t, e, vars) m'.
    ok m' \<and> var_table repr nvars m' vars \<and> map var_name vars = nub (bvars fi @ bvars ft) \<and>
    repr m' i (formula_fun vars fi) \<and> repr m' t (formula_fun vars ft) \<and>
    repr m' e (formula_fun vars fe))"
proof -
  let ?names = "nub (bvars fi @ bvars ft)"
  have exp_names: "\<forall>x \<in> set (bvars fe). var_ok x"
    using names exp(2) by blast
  then have exp_names': "\<forall>x \<in> set (bvars fe). name_ok x"
    using var_ok_name by blast
  obtain i v1 m1 m2 t v2 m3 m4 where
    1: "bddFromPrefix C cap (rpn fi) [] m = Inr ((i, v1), m1)" "Cudd_Ref C i m1 = Inr ((), m2)"
      "bddFromPrefix C cap (rpn ft) v1 m2 = Inr ((t, v2), m3)" "Cudd_Ref C t m3 = Inr ((), m4)"
    and A: "ok m4" "var_table repr nvars m4 v2" "map var_name v2 = ?names"
      "repr m4 i (formula_fun v2 fi)" "repr m4 t (formula_fun v2 ft)"
    using build_two [OF m names cap] by blast
  have names3: "nub (map var_name v2 @ bvars fe) = ?names"
  proof -
    have "filter (\<lambda>y. y \<notin> set ?names) (bvars fe) = []"
      using exp(2) by (auto simp: filter_empty_conv)
    then show ?thesis
      using nub_append [of ?names "bvars fe"] by (simp add: A(3))
  qed
  from runs_bddFromPrefix [OF A(1,2) exp_names', of cap]
  obtain e v3 m5 where 5: "bddFromPrefix C cap (rpn fe) v2 m4 = Inr ((e, v3), m5)"
    and D: "var_table repr nvars m5 v3" "\<exists>ws. v3 = v2 @ ws" "map var_name v3 = ?names"
      "repr m5 e (formula_fun v3 fe)" "grows ok repr m4 m5"
    using cap names3 by (auto elim!: runsE)
  have v3: "v3 = v2"
    using D(2,3) A(3) by (auto dest: arg_cong [where f = length])
  have D5: "ok m5"
    using D(5) by (simp add: grows_def)
  obtain m6 where 6: "Cudd_Ref C e m5 = Inr ((), m6)" "ext m5 m6"
    using runs_Ref [OF D5 D(4), of "\<lambda>_. ext m5"] by (auto elim: runsE)
  have "repr m6 i (formula_fun v2 fi)" "repr m6 t (formula_fun v2 ft)" "repr m6 e (formula_fun v2 fe)"
    using A(4,5) D(4,5) ext_repr [OF 6(2)] v3 by (simp_all add: grows_def)
  moreover have "ok m6" "var_table repr nvars m6 v2"
    using ext_ok [OF 6(2)] var_table_extends [OF 6(2) D(1)] v3 by simp_all
  ultimately show ?thesis
    using A(3)
    by (simp add: build_bdds_def read_formula_def read_rpn [OF exp_names exp(1)] runs_def
        1 5 6 v3)
qed

text \<open>A name that only the expected formula has.\<close>

lemma build_new_variable:
  assumes m: "ok m" "nvars m = 0"
    and names: "\<forall>x \<in> set (bvars fi @ bvars ft). var_ok x"
    and x: "tokens_of s = [x]" "var_ok x" "x \<notin> set (bvars fi @ bvars ft)"
    and cap: "length (nub (bvars fi @ bvars ft)) \<le> cap"
  shows "build_bdds C cap (rpn fi) (rpn ft) s m =
    Inl (if cap = length (nub (bvars fi @ bvars ft)) then Undefined ''write past existingVars''
      else Assert_Failed)"
proof -
  let ?names = "nub (bvars fi @ bvars ft)"
  have nx: "name_ok x" "\<forall>y \<in> set (bvars (BVar x)). var_ok y"
    using x(2) var_ok_name by simp_all
  obtain i v1 m1 m2 t v2 m3 m4 where
    1: "bddFromPrefix C cap (rpn fi) [] m = Inr ((i, v1), m1)" "Cudd_Ref C i m1 = Inr ((), m2)"
      "bddFromPrefix C cap (rpn ft) v1 m2 = Inr ((t, v2), m3)" "Cudd_Ref C t m3 = Inr ((), m4)"
    and A: "ok m4" "var_table repr nvars m4 v2" "map var_name v2 = ?names"
    using build_two [OF m names cap] by blast
  have new: "x \<notin> set (map var_name v2)"
    using A(3) x(3) by simp
  have len: "length v2 = length ?names"
    using A(3) by (metis length_map)
  have read: "tokenize s = Inr [x]" "getUniqVars [x] = Inr (nub [x])"
    using read_rpn [OF nx(2), of s] x(1) by simp_all
  show ?thesis
  proof (cases "cap = length ?names")
    case True
    have "find_seen v2 x = None"
      using new find_seen_None [of x v2] nx(1) by (simp add: name_ok_def)
    moreover obtain r m5 where "Cudd_bddNewVar C m4 = Inr (r, m5)" "ok m5"
      "repr m5 r (\<lambda>e. e (nvars m4))"
      using runs_NewVar [OF A(1), of "\<lambda>r m'. ok m' \<and> repr m' r (\<lambda>e. e (nvars m4))"]
      by (auto elim!: runsE)
    moreover obtain m6 where "Cudd_Ref C r m5 = Inr ((), m6)"
      using runs_Ref [OF calculation(3,4), of "\<lambda>_ _. True"] by (auto elim: runsE)
    ultimately have "variable_node C cap x v2 m4 = Inl (Undefined ''write past existingVars'')"
      using nx(1) len True isPrimedToken_primed [of x] by (simp add: variable_node_def name_ok_def)
    moreover have "x \<notin> set bool_ops"
      using nx(1) by (simp add: name_ok_def)
    ultimately have "bddFromPrefix C cap [x] v2 m4 = Inl (Undefined ''write past existingVars'')"
      by (simp add: bddFromPrefix_def step_name)
    then have "build_bdds C cap (rpn fi) (rpn ft) s m = Inl (Undefined ''write past existingVars'')"
      by (simp add: build_bdds_def read_formula_def read 1)
    with True show ?thesis by simp
  next
    case False
    have "nub (map var_name v2) = map var_name v2"
      using A(2) by (simp add: var_table_def nub_distinct)
    then have "length (nub (map var_name v2 @ bvars (BVar x))) \<le> cap"
      using new len cap False by simp
    from runs_bddFromPrefix [OF A(1,2) _ this] nx(1)
    obtain e v3 m5 where "bddFromPrefix C cap [x] v2 m4 = Inr ((e, v3), m5)" "ok m5"
      "map var_name v3 = map var_name v2 @ [x]" "repr m5 e (formula_fun v3 (BVar x))"
      using new \<open>nub (map var_name v2) = map var_name v2\<close>
      by (auto simp: grows_def elim!: runsE)
    moreover obtain m6 where "Cudd_Ref C e m5 = Inr ((), m6)"
      using runs_Ref [OF calculation(2,4), of "\<lambda>_ _. True"] by (auto elim: runsE)
    moreover have "length v3 = Suc (length v2)"
      using arg_cong [OF calculation(3), of length] by simp
    ultimately show ?thesis
      using False by (simp add: build_bdds_def read_formula_def read 1)
  qed
qed

lemma runs_equivalent:
  assumes "ok m" "frame us vu vp" "set_repr repr us vu m p X" "set_repr repr us vu m q Y"
    and "X \<subseteq> states us" "Y \<subseteq> states us"
  shows "runs (equivalent C p q) m (\<lambda>b m'. ext m m' \<and> b = (X = Y))"
proof -
  obtain z where z: "Cudd_ReadLogicZero C m = Inr (z, m)" "repr m z (\<lambda>e. False)"
    using runs_Zero [OF assms(1), of "\<lambda>r m'. m' = m \<and> repr m r (\<lambda>e. False)"]
    by (auto elim: runsE)
  obtain m1 where "Cudd_EquivDC C p q z m = Inr (if X = Y then 1 else 0, m1)" "ext m m1"
    using runs_set_Equiv [OF assms z(2)] by (auto elim: runsE)
  then show ?thesis
    by (simp add: equivalent_def runs_def z)
qed

lemma deref_all_nodes:
  "\<forall>p \<in> set ps. \<exists>n. p = NodePtr n \<Longrightarrow> \<exists>m'. deref_all C ps m = Inr ((), m')"
proof (induction ps arbitrary: m)
  case (Cons p ps)
  then obtain n where "p = NodePtr n" by auto
  then show ?case
    using Cons by (simp add: Cudd_RecursiveDeref_def call1_def)
qed simp

lemma set_repr_node: "set_repr repr us vu m p X \<Longrightarrow> \<exists>n. p = NodePtr n"
  unfolding set_repr_def using repr_node by blast

lemma runs_set_Ref:
  "ok m \<Longrightarrow> set_repr repr us vu m p X \<Longrightarrow> runs (Cudd_Ref C p) m (\<lambda>_ m'. ext m m')"
  unfolding set_repr_def by (elim exE conjE) (rule runs_Ref)

text \<open>The part after the model is built: reachability, the property, the two comparisons.\<close>

lemma runs_model_check:
  assumes m: "ok m" "nvars m = 0"
    and names: "paired (nub (bvars fi @ bvars ft))"
    and us: "us = unprimed_names (nub (bvars fi @ bvars ft))"
    and vu: "vu = unprimed_pos (nub (bvars fi @ bvars ft))"
    and fi: "set (bvars fi) \<subseteq> set us" and fe: "tokens_of es = rpn fe" "set (bvars fe) \<subseteq> set us"
    and fp: "tokens_of ps = ctl_rpn fp" "set (cvars fp) \<subseteq> set us"
    and cap: "length (nub (bvars fi @ bvars ft)) \<le> cap"
    and fuel: "2 ^ length us < fuel"
    and dot: "length d < 30 + length ts" "fopen_ok d"
    and R: "R = formula_steps us ft" and S: "S = ctl_states us R fp"
    and I: "I = formula_states us fi" and E: "E = formula_states us fe"
  shows "runs (model_check C fuel fopen_ok g is ts ps d es cap (rpn fi) (rpn ft)) m
    (\<lambda>rep m'. reach_correct rep = (S \<inter> R\<^sup>* `` I = E) \<and> init_satisfy rep = (I \<subseteq> S) \<and>
      dot_file rep = d \<and> dot_inputs rep = nub (bvars fi @ bvars ft) \<and>
      set_repr repr us vu (dot_manager rep) (dot_node rep) (S \<inter> R\<^sup>* `` I))"
proof -
  let ?names = "nub (bvars fi @ bvars ft)"
  let ?vp = "primed_pos ?names"
  have ok_names: "\<forall>x \<in> set (bvars fi @ bvars ft). var_ok x"
    using names by (simp add: paired_def list_all_iff)
  have sub: "set us \<subseteq> set (bvars fi @ bvars ft)"
    using unprimed_in_names [of _ ?names] by (auto simp: us)
  have ctl_names: "\<forall>x \<in> set (cvars fp). ctl_name x \<and> x \<in> set us"
  proof
    fix x
    assume "x \<in> set (cvars fp)"
    then have x: "x \<in> set us"
      using fp(2) by blast
    then have "var_ok x" "\<not> primed x"
      using ok_names sub unprimed_in_names [of x ?names] by (auto simp: us)
    with x show "ctl_name x \<and> x \<in> set us"
      by (simp add: var_ok_def ctl_name_def)
  qed
  obtain i t e vars m1 where
    1: "build_bdds C cap (rpn fi) (rpn ft) es m = Inr ((i, t, e, vars), m1)"
    and A: "ok m1" "var_table repr nvars m1 vars" "map var_name vars = ?names"
      "repr m1 i (formula_fun vars fi)" "repr m1 t (formula_fun vars ft)"
      "repr m1 e (formula_fun vars fe)"
    using runs_build_bdds [OF m ok_names fe(1) subset_trans [OF fe(2) sub] cap]
    by (auto elim!: runsE)
  have frame: "frame us vu ?vp"
    unfolding us vu using frame_names [OF names] by simp
  have ne: "unprimed_names ?names \<noteq> []"
    using unprimed_nonempty [OF names] bvars_nonempty [of fi]
    by (metis append_is_Nil_conv length_0_conv length_nub card_0_eq finite_set set_empty)
  obtain ctx where 2: "make_context t vars = Inr ctx"
    and ctx: "existingVars ctx = vars" "numExistingVars ctx = length vars"
      "numUnprimedNodes ctx = length us" "transition ctx = t"
      "node_array repr nvars m1 (unprimedNodes ctx) vu"
      "node_array repr nvars m1 (primedNodes ctx) ?vp"
    using make_context_paired [OF A(2,3) names ne, of t] unfolding us vu by blast
  have T: "step_repr repr us vu ?vp m1 t R"
    unfolding us vu R using formula_step_repr [where repr = repr and f = ft, OF A(5,3) names] by simp
  have c: "context_ok repr nvars us vu ?vp R m1 ctx"
    using frame ctx T formula_steps_subset [of us ft] by (simp add: context_ok_def R)
  have cv: "ctx_vars repr us vu m1 ctx"
    unfolding us vu by (rule ctx_vars_table [OF A(2,3) ctx(1,2)])
  have i: "set_repr repr us vu m1 i I" and e: "set_repr repr us vu m1 e E"
    unfolding us vu I E
    using formula_set_repr [where repr = repr and f = fi, OF A(4,3)]
      formula_set_repr [where repr = repr and f = fe, OF A(6,3)] fi fe(2) by (simp_all add: us)
  have IE: "I \<subseteq> states us" "E \<subseteq> states us" and SS: "S \<subseteq> states us"
    by (auto simp: I E formula_states_def S dest: csat_subset [THEN subsetD])
  have fuel': "card (states us) < fuel"
    using fuel card_states [OF frame] by simp
  obtain p2 r2 i2 m2 X2 Y2 where 3: "reachable_states C fuel ctx i m1 = Inr ((p2, r2, i2), m2)"
    and B: "ext m1 m2" "set_repr repr us vu m2 r2 (R\<^sup>* `` I)" "set_repr repr us vu m2 p2 X2"
      "set_repr repr us vu m2 i2 Y2"
    using runs_reachable [OF A(1) c i IE(1) fuel'] by (auto elim!: runsE)
  obtain s3 g3 m3 where 4: "check C fuel ps ctx g m2 = Inr ((s3, g3), m3)"
    and D: "ext m2 m3" "set_repr repr us vu m3 s3 S"
    using runs_check [OF ext_ok [OF B(1)] context_ok_ext [OF B(1) c] ctx_vars_ext [OF B(1) cv]
        ctl_names fp(1) fuel', of g] by (auto simp: S elim!: runsE)
  obtain m4 where 5: "Cudd_Ref C s3 m3 = Inr ((), m4)" "ext m3 m4"
    using runs_set_Ref [OF ext_ok [OF D(1)] D(2)] by (auto elim!: runsE)
  have e4: "ext m2 m4"
    using D(1) 5(2) by (rule ext_trans)
  obtain a5 m5 where 6: "Cudd_bddAnd C s3 r2 m4 = Inr (a5, m5)" "ext m4 m5"
      "set_repr repr us vu m5 a5 (S \<inter> R\<^sup>* `` I)"
    using runs_set_And [OF ext_ok [OF 5(2)] set_repr_ext [OF 5(2) D(2)] set_repr_ext [OF e4 B(2)]]
    by (auto elim!: runsE)
  obtain m6 where 7: "Cudd_Ref C a5 m5 = Inr ((), m6)" "ext m5 m6"
    using runs_set_Ref [OF ext_ok [OF 6(2)] 6(3)] by (auto elim!: runsE)
  have e6: "ext m1 m6"
    using ext_trans [OF B(1) ext_trans [OF e4 ext_trans [OF 6(2) 7(2)]]] .
  have "S \<inter> R\<^sup>* `` I \<subseteq> states us"
    using SS by blast
  from runs_equivalent [OF ext_ok [OF 7(2)] frame set_repr_ext [OF 7(2) 6(3)]
      set_repr_ext [OF e6 e] this IE(2)]
  obtain m7 where 8: "equivalent C a5 e m6 = Inr ((S \<inter> R\<^sup>* `` I = E), m7)" "ext m6 m7"
    by (auto elim!: runsE)
  have e7: "ext m1 m7" "ext m3 m7" "ext m5 m7"
    using ext_trans [OF e6 8(2)] ext_trans [OF 7(2) 8(2)]
      ext_trans [OF 5(2) ext_trans [OF 6(2) ext_trans [OF 7(2) 8(2)]]] by blast+
  obtain b8 m8 where 9: "Cudd_bddAnd C i s3 m7 = Inr (b8, m8)" "ext m7 m8"
      "set_repr repr us vu m8 b8 (I \<inter> S)"
    using runs_set_And [OF ext_ok [OF 8(2)] set_repr_ext [OF e7(1) i] set_repr_ext [OF e7(2) D(2)]]
    by (auto elim!: runsE)
  obtain m9 where 10: "Cudd_Ref C b8 m8 = Inr ((), m9)" "ext m8 m9"
    using runs_set_Ref [OF ext_ok [OF 9(2)] 9(3)] by (auto elim!: runsE)
  have e9: "ext m1 m9" "ext m5 m9"
    using ext_trans [OF e7(1) ext_trans [OF 9(2) 10(2)]]
      ext_trans [OF e7(3) ext_trans [OF 9(2) 10(2)]] by blast+
  have "I \<inter> S \<subseteq> states us"
    using SS by blast
  from runs_equivalent [OF ext_ok [OF 10(2)] frame set_repr_ext [OF e9(1) i]
      set_repr_ext [OF 10(2) 9(3)] IE(1) this]
  obtain m10 where 11: "equivalent C i b8 m9 = Inr ((I = I \<inter> S), m10)" "ext m9 m10"
    by (auto elim!: runsE)
  have dotn: "set_repr repr us vu m10 a5 (S \<inter> R\<^sup>* `` I)"
    using set_repr_ext [OF ext_trans [OF e9(2) 11(2)] 6(3)] .
  obtain out where out: "output_name is ts d = Inr out"
    using dot(1) by (simp add: output_name_def strcpy_into_def strcat_into_def)
  have "\<forall>p \<in> set [s3, a5, b8, r2, i2, p2, i, t, e]. \<exists>n. p = NodePtr n"
    using D(2) 6(3) 9(3) B(2-4) i e repr_node [OF A(5)] set_repr_node by auto
  from deref_all_nodes [OF this, of m10]
  obtain m11 where 12: "deref_all C [s3, a5, b8, r2, i2, p2, i, t, e] m10 = Inr ((), m11)"
    by blast
  have eq: "(I = I \<inter> S) = (I \<subseteq> S)"
    by blast
  show ?thesis
    using dotn A(3) dot(2)
    by (simp add: model_check_def runs_def 1 2 3 4 5 6 7 8 9 10 11 12 out eq del: deref_all.simps)
qed

end

section \<open>The properties\<close>





text \<open>C14: how \<open>main\<close> ends when something is wrong with its arguments: the usage text unless there are
  five; exit code 2 for a token of six or more characters in the initial formula; code 1 when
  the package cannot be initialised.\<close>

theorem main_rejects:
  "(length argv \<noteq> 6 \<longrightarrow> main C fuel fopen_ok argv = Inr Usage) \<and>
   (argv = [prog, is, ts, ps, d, es] \<and> \<not> list_all (\<lambda>t. length t < MAX_VAR_LEN) (tokens_of is) \<longrightarrow>
     main C fuel fopen_ok argv = Inl (Exit 2 ''Too long symbol'')) \<and>
   (argv = [prog, is, ts, ps, d, es] \<and> cudd_init C = None \<and>
     list_all (\<lambda>t. length t < MAX_VAR_LEN) (tokens_of is @ tokens_of ts) \<longrightarrow>
     main C fuel fopen_ok argv = Inl (Exit 1 ''Error while initialization''))"
  by (auto simp: main_def tokenize_tokens_of getUniqVars_nub list_all_iff Let_def)

theorem main_rejects_witness:
  "main bdd_package 3 (\<lambda>_. True) [''mc'', ''state1'', ''x'', ''x'', ''out.dot'', ''x''] =
     Inl (Exit 2 ''Too long symbol'')"
proof (rule main_rejects [THEN conjunct2, THEN conjunct1, THEN mp])
  have "\<not> list_all (\<lambda>t. length t < MAX_VAR_LEN) (tokens_of ''state1'')"
    by code_simp
  then show "[''mc'', ''state1'', ''x'', ''x'', ''out.dot'', ''x''] =
      [''mc'', ''state1'', ''x'', ''x'', ''out.dot'', ''x''] \<and>
    \<not> list_all (\<lambda>t. length t < MAX_VAR_LEN) (tokens_of ''state1'')"
    by simp
qed

text \<open>A name that only the expected formula has does not always reach the assertion that is meant
  to catch it. The table of variables has room for as many entries as the initial and the
  transition formula have names, counted apart; when the two share no name the table is full, and
  the new name is stored behind its end before the assertion is evaluated.\<close>

theorem expected_new_variable:
  assumes "cudd_package C ok repr nvars" "ok m" "nvars m = 0"
    and "list_all var_ok (bvars fi @ bvars ft)" "var_ok x" "x \<notin> set (bvars fi @ bvars ft)"
    and "tokens_of s = [x]"
  shows "build_bdds C (length (nub (bvars fi)) + length (nub (bvars ft))) (rpn fi) (rpn ft) s m =
    Inl (if set (bvars fi) \<inter> set (bvars ft) = {} then Undefined ''write past existingVars''
      else Assert_Failed)"
proof -
  have full: "length (nub (bvars fi)) + length (nub (bvars ft)) = length (nub (bvars fi @ bvars ft)) \<longleftrightarrow>
      set (bvars fi) \<inter> set (bvars ft) = {}"
    using card_Un_Int [of "set (bvars fi)" "set (bvars ft)"] by (simp add: length_nub)
  have cap: "length (nub (bvars fi @ bvars ft)) \<le> length (nub (bvars fi)) + length (nub (bvars ft))"
    by (simp add: length_nub card_Un_le)
  show ?thesis
    unfolding full [symmetric]
    using assms(4) by (intro cudd_package.build_new_variable [OF assms(1-3) _ assms(7,5,6) cap])
      (simp add: list_all_iff)
qed

theorem expected_new_variable_witness:
  "build_bdds bdd_package (length (nub (bvars (BVar ''x''))) + length (nub (bvars (BVar ''y''))))
      (rpn (BVar ''x'')) (rpn (BVar ''y'')) ''z'' \<lparr>count = 0, refs = []\<rparr> =
    Inl (if set (bvars (BVar ''x'')) \<inter> set (bvars (BVar ''y'')) = {}
      then Undefined ''write past existingVars'' else Assert_Failed)"
proof (rule expected_new_variable [OF bdd.cudd_package_axioms])
  show "tokens_of ''z'' = [''z'']"
    by code_simp
qed (simp_all add: bdd_ok_def var_ok_def token_ok_def is_space_def MAX_VAR_LEN_def operators_def
    op_defs)

text \<open>C16: the block for the name of the output is sized with the transition formula but filled with
  the name of the dot file: the copies stay inside it exactly when the file name is shorter than
  the transition formula plus 30 characters.\<close>

theorem output_name_bounds:
  "output_name initForm transForm dotfileName =
    (if length dotfileName < 30 + length transForm
     then Inr (''Image of ('' @ initForm @ '') under ('' @ dotfileName @ '')'')
     else Inl (Undefined ''strcat past the block''))"
  by (simp add: output_name_def strcpy_into_def strcat_into_def)

text \<open>C15: building the context ends the program with code 2 when the numbers of primed and of unprimed
  names differ. When they agree and some unprimed name has five characters, which the tokeniser
  accepts, appending the prime runs past the block of \<open>MAX_VAR_LEN\<close> bytes.\<close>

theorem make_context_rejects:
  assumes "list_all (\<lambda>v. length (var_name v) < MAX_VAR_LEN) vars"
  shows "(length (filter parity vars) \<noteq> length (filter (\<lambda>v. \<not> parity v) vars) \<longrightarrow>
      make_context p vars = Inl (Exit 2 ''Fix your formulae. All primed and unprimed variables should show up in the union of the two input formulae.'')) \<and>
    (length (filter parity vars) = length (filter (\<lambda>v. \<not> parity v) vars) \<and>
      \<not> list_all (\<lambda>v. parity v \<or> length (var_name v) < 5) vars \<longrightarrow>
      make_context p vars = Inl (Undefined ''strcat past the block''))"
proof (intro conjI impI)
  assume "length (filter parity vars) \<noteq> length (filter (\<lambda>v. \<not> parity v) vars)"
  then show "make_context p vars = Inl (Exit 2 ''Fix your formulae. All primed and unprimed variables should show up in the union of the two input formulae.'')"
    by (simp add: make_context_def separate_vars_filter)
next
  assume *: "length (filter parity vars) = length (filter (\<lambda>v. \<not> parity v) vars) \<and>
      \<not> list_all (\<lambda>v. parity v \<or> length (var_name v) < 5) vars"
  have "pair_vars vars (filter (\<lambda>v. \<not> parity v) vars) 0 b = Inl (Undefined ''strcat past the block'')" for b
    using * assms by (intro pair_vars_long) (auto simp: list_all_iff MAX_VAR_LEN_def)
  with * show "make_context p vars = Inl (Undefined ''strcat past the block'')"
    by (simp add: make_context_def separate_vars_filter)
qed

theorem make_context_rejects_witness:
  "make_context (NodePtr (bvar 0)) [\<lparr>parity = False, var_name = ''state'', var_node = NodePtr (bvar 0)\<rparr>,
      \<lparr>parity = True, var_name = [CHR ''x'', CHR 0x27], var_node = NodePtr (bvar 1)\<rparr>] =
    Inl (Undefined ''strcat past the block'')"
  by (rule make_context_rejects [THEN conjunct2, THEN mp]) (simp_all add: MAX_VAR_LEN_def)

text \<open>The counts do not tell whether the names match. When they agree but some unprimed name has no
  primed counterpart, the context is built with a null pointer in the array of primed nodes, and
  the first image hands it to the diagram package, which is undefined.\<close>

theorem make_context_unmatched:
  fixes vars :: "'n augmentedDdVar list"
  assumes "cudd_package C ok repr nvars" "ok m" "var_table repr nvars m vars"
    and "repr m p \<tau>" "repr m initial \<phi>"
    and "length (filter parity vars) = length (filter (\<lambda>v. \<not> parity v) vars)"
    and "list_all (\<lambda>v. parity v \<or> length (var_name v) < 5) vars"
    and "u \<in> set vars" "\<not> parity u" "prime (var_name u) \<notin> set (map var_name vars)"
  shows "\<exists>ctx. make_context p vars = Inr ctx \<and>
    reachable_states C fuel ctx initial m = Inl (Undefined ''not a node'')"
proof -
  let ?us = "filter (\<lambda>v. \<not> parity v) vars"
  let ?b = "(replicate (length vars) (None :: 'n augmentedDdVar option),
    replicate (length vars) (NULL :: 'n ptr))"
  note arr = cudd_package.node_array_unprimed [OF assms(1,3) refl]
  obtain k where k: "k < length ?us" "?us ! k = u"
    using assms(8,9) in_set_conv_nth [of u ?us] by auto
  have le: "length ?us \<le> length vars"
    by simp
  have "\<forall>v \<in> set ?us. length (var_name v) + 1 < MAX_VAR_LEN"
    using assms(7) by (auto simp: list_all_iff MAX_VAR_LEN_def)
  from pair_vars_total [OF this, of vars 0 ?b]
  obtain b' where b0: "pair_vars vars ?us 0 ?b = Inr b'" "length (snd b') = length (snd ?b)"
    "\<forall>k < length ?us. find_var (prime (var_name (?us ! k))) vars = None \<longrightarrow> snd b' ! (0 + k) = snd ?b ! (0 + k)"
    by blast
  have "find_var (prime (var_name (?us ! k))) vars = None"
    using assms(10) by (simp add: k(2) find_var_None)
  then have "snd b' ! k = NULL"
    using b0(3) k(1) order_less_le_trans [OF k(1) le] by simp
  with b0(1,2) have b': "pair_vars vars ?us 0 ?b = Inr b'" "length (snd b') = length vars"
    "snd b' ! k = NULL"
    by simp_all
  obtain ctx where ctx: "make_context p vars = Inr ctx" "transition ctx = p"
    "unprimedNodes ctx = map var_node ?us" "numUnprimedNodes ctx = length ?us"
    "primedNodes ctx = snd b'"
    using b'(1) assms(6)
    by (cases b') (simp add: make_context_def separate_vars_filter)
  have len: "length (unprimed_pos (map var_name vars)) = numUnprimedNodes ctx"
    using arg_cong [OF arr(1), of length] by (simp add: unprimed_pos_def ctx(4))
  have 1: "repr m (transition ctx) \<tau>"
    unfolding ctx(2) by (rule assms(4))
  have 2: "node_array repr nvars m (unprimedNodes ctx) (unprimed_pos (map var_name vars))"
    unfolding ctx(3) by (rule arr(2))
  have 3: "k < numUnprimedNodes ctx"
    unfolding ctx(4) by (rule k(1))
  have 4: "k < length (primedNodes ctx)" "numUnprimedNodes ctx \<le> length (primedNodes ctx)"
    unfolding ctx(4,5) b'(2) using k(1) le by linarith+
  have 5: "primedNodes ctx ! k = NULL"
    unfolding ctx(5) by (rule b'(3))
  have "translatedImage C initial (transition ctx) (primedNodes ctx) (unprimedNodes ctx)
      (numUnprimedNodes ctx) m = Inl (Undefined ''not a node'')"
    by (rule cudd_package.image_unmatched [OF assms(1,2,5) 1 2 len 3 4(1) 5 4(2)])
  then show ?thesis
    using ctx(1) by (simp add: reachable_states_def)
qed

theorem make_context_unmatched_witness:
  "\<exists>ctx. make_context (NodePtr (bvar 0))
      [\<lparr>parity = False, var_name = ''x'', var_node = NodePtr (bvar 0)\<rparr>,
       \<lparr>parity = True, var_name = [CHR ''y'', CHR 0x27], var_node = NodePtr (bvar 1)\<rparr>] = Inr ctx \<and>
    reachable_states bdd_package 3 ctx (NodePtr (bvar 0)) toggle_mgr = Inl (Undefined ''not a node'')"
proof (rule make_context_unmatched [OF bdd.cudd_package_axioms toggle_ok,
      where u = "\<lparr>parity = False, var_name = ''x'', var_node = NodePtr (bvar 0)\<rparr>"])
  show "var_table bdd_repr count toggle_mgr
      [\<lparr>parity = False, var_name = ''x'', var_node = NodePtr (bvar 0)\<rparr>,
       \<lparr>parity = True, var_name = [CHR ''y'', CHR 0x27], var_node = NodePtr (bvar 1)\<rparr>]"
    by (auto simp: var_table_def toggle_mgr_def bdd_repr_NodePtr fun_eq_iff less_Suc_eq name_ok_def
        MAX_VAR_LEN_def bool_ops_def op_defs primed_def)
  show "bdd_repr toggle_mgr (NodePtr (bvar 0)) (\<lambda>e. e 0)"
    "bdd_repr toggle_mgr (NodePtr (bvar 0)) (\<lambda>e. e 0)"
    by (auto simp: toggle_mgr_def bdd_repr_NodePtr fun_eq_iff)
qed (simp_all add: prime_def)

end
