(* ===== verification/Cord.thy ===== *)
theory Cord
  imports Prelude
begin

text \<open>
  The primitives of the cord package (\<open>cord/cordbscs.c\<close> of the bundled collector): the
  representation of cords, what string a cord stands for, and concatenation.

  A cord is a C string, a concatenation node or a function node (\<open>CordRep\<close>); the empty cord is the
  null pointer. A function node whose header is \<open>SUBSTR_HDR\<close> has a pair of a cord and an offset as
  its client data and one of the two access functions as its function; \<open>cord_fn\<close> has these two
  closures as constructors beside the functions of clients, which are taken to depend on the index
  only, as \<open>cord.h\<close> expects. Allocation is taken to succeed: \<open>OUT_OF_MEMORY\<close> has no counterpart.
  A \<open>size_t\<close> is a natural number; where the code's arithmetic can leave the range on inputs that
  the interface allows, the reduction is written out.

  \<open>CORD_cat\<close> and \<open>CORD_balance\<close> call each other. Here the concatenation takes the balancing routine
  as an argument; the theory of balancing closes the knot.
\<close>

section \<open>Representation\<close>

definition NUL :: char where
  "NUL = CHR 0x00"

datatype cord =
    CORD_EMPTY
  | C_string string
  | Concatenation (c_depth: nat) (c_left_len: nat) (c_len: nat) (c_left: cord) (c_right: cord)
  | Function (f_header: fn_header) (f_len: nat) (f_fn: cord_fn)
and cord_fn =
    Client "nat \<Rightarrow> char"
  | CORD_index_access_fn cord nat   \<comment> \<open>\<open>sa_cord\<close>, \<open>sa_index\<close>\<close>
  | CORD_apply_access_fn cord nat   \<comment> \<open>\<open>sa_cord\<close>, \<open>sa_index\<close>\<close>
and fn_header = FN_HDR | SUBSTR_HDR

definition MAX_LEFT_LEN :: nat where
  "MAX_LEFT_LEN = 255"

definition MAX_DEPTH :: nat where
  "MAX_DEPTH = 48"

text \<open>\<open>sizeof (CordRep) - 1\<close> with 8-byte words and pointers.\<close>

definition SHORT_LIMIT :: nat where
  "SHORT_LIMIT = 31"

definition SUBSTR_LIMIT :: nat where
  "SUBSTR_LIMIT = 10 * SHORT_LIMIT"

fun CORD_IS_STRING :: "cord \<Rightarrow> bool" where
  "CORD_IS_STRING (C_string s) = True"
| "CORD_IS_STRING _ = False"

fun IS_CONCATENATION :: "cord \<Rightarrow> bool" where
  "IS_CONCATENATION (Concatenation _ _ _ _ _) = True"
| "IS_CONCATENATION _ = False"

fun IS_FUNCTION :: "cord \<Rightarrow> bool" where
  "IS_FUNCTION (Function _ _ _) = True"
| "IS_FUNCTION _ = False"

text \<open>The fields \<open>len\<close> and \<open>depth\<close>, which only nodes have.\<close>

fun LEN :: "cord \<Rightarrow> nat" where
  "LEN (Concatenation _ _ n _ _) = n"
| "LEN (Function _ n _) = n"
| "LEN _ = 0"

fun DEPTH :: "cord \<Rightarrow> nat" where
  "DEPTH (Concatenation d _ _ _ _) = d"
| "DEPTH _ = 0"

fun GEN_LEN :: "cord \<Rightarrow> nat" where
  "GEN_LEN (C_string s) = length s"
| "GEN_LEN x = LEN x"

text \<open>\<open>LEFT_LEN\<close> of a concatenation with the given fields.\<close>

definition LEFT_LEN :: "nat \<Rightarrow> nat \<Rightarrow> cord \<Rightarrow> cord \<Rightarrow> nat" where
  "LEFT_LEN left_len len left right = (if left_len \<noteq> 0 then left_len
     else if CORD_IS_STRING left then len - GEN_LEN right
     else LEN left)"

definition CORD_len :: "cord \<Rightarrow> nat" where
  "CORD_len x = (case x of CORD_EMPTY \<Rightarrow> 0 | _ \<Rightarrow> GEN_LEN x)"

text \<open>
  Reading entry \<open>i\<close> of a C string, its NUL included; what lies past the NUL is not specified.
\<close>

definition c_char :: "string \<Rightarrow> nat \<Rightarrow> char" where
  "c_char s i = (s @ [NUL]) ! i"

text \<open>
  Calling the function of a function node. \<open>CORD_index_access_fn\<close> reads the string that its data
  points to, \<open>CORD_apply_access_fn\<close> calls the function of the node that its data points to; the two
  are not applied to anything else.
\<close>

fun apply_fn :: "cord_fn \<Rightarrow> nat \<Rightarrow> char" where
  "apply_fn (Client f) i = f i"
| "apply_fn (CORD_index_access_fn (C_string s) sa_index) i = c_char s (i + sa_index)"
| "apply_fn (CORD_apply_access_fn (Function _ _ f) sa_index) i = apply_fn f (i + sa_index)"

text \<open>The value of a \<open>size_t\<close> stored in a 32-bit \<open>int\<close>, and of an \<open>int\<close> passed as a \<open>size_t\<close>.\<close>

definition to_int :: "nat \<Rightarrow> int" where
  "to_int n = (let m = int n mod 2 ^ 32 in if m < 2 ^ 31 then m else m - 2 ^ 32)"

definition to_size :: "int \<Rightarrow> nat" where
  "to_size j = nat (j mod 2 ^ 64)"

section \<open>Concatenation\<close>

text \<open>The general case that \<open>CORD_cat_char_star\<close> and \<open>CORD_cat\<close> end with.\<close>

definition cat_node ::
  "(cord \<Rightarrow> stop + cord) \<Rightarrow> nat \<Rightarrow> nat \<Rightarrow> nat \<Rightarrow> cord \<Rightarrow> cord \<Rightarrow> stop + cord" where
  "cat_node balance depth lenx result_len x y =
     (let result = Concatenation depth (if lenx \<le> MAX_LEFT_LEN then lenx else 0) result_len x y in
      if depth \<ge> MAX_DEPTH then balance result else Inr result)"

text \<open>
  The merge of \<open>y\<close> into the right part of \<open>x\<close>: the new values of \<open>x\<close>, \<open>lenx\<close>, \<open>y\<close> and \<open>leny\<close>.
\<close>

fun merge_right :: "cord \<Rightarrow> string \<Rightarrow> nat \<Rightarrow> cord \<times> nat \<times> string \<times> nat" where
  "merge_right (Concatenation d left_len lenx left (C_string right)) y leny =
     (if leny \<le> SHORT_LIMIT div 2 then
        (let right_len = (if \<not> CORD_IS_STRING left then lenx - LEN left
                          else if left_len \<noteq> 0 then lenx - left_len
                          else length right);
             result_len = right_len + leny in
         if result_len \<le> SHORT_LIMIT
         then (left, lenx - right_len, take right_len right @ take leny y, result_len)
         else (Concatenation d left_len lenx left (C_string right), lenx, y, leny))
      else (Concatenation d left_len lenx left (C_string right), lenx, y, leny))"
| "merge_right x y leny = (x, LEN x, y, leny)"

definition cat_char_star_with ::
  "(cord \<Rightarrow> stop + cord) \<Rightarrow> cord \<Rightarrow> string \<Rightarrow> nat \<Rightarrow> stop + cord" where
  "cat_char_star_with balance x y leny =
     (case x of
        CORD_EMPTY \<Rightarrow> Inr (C_string y)
      | C_string s \<Rightarrow>
          if leny = 0 then Inr x
          else
            let lenx = length s; result_len = lenx + leny in
            if result_len \<le> SHORT_LIMIT then Inr (C_string (s @ take leny y))
            else cat_node balance 1 lenx result_len x (C_string y)
      | _ \<Rightarrow>
          if leny = 0 then Inr x
          else
            let (x', lenx', y', leny') = merge_right x y leny;
                depth = (if CORD_IS_STRING x' then 1 else DEPTH x' + 1) in
            cat_node balance depth lenx' (lenx' + leny') x' (C_string y'))"

definition cat_with :: "(cord \<Rightarrow> stop + cord) \<Rightarrow> cord \<Rightarrow> cord \<Rightarrow> stop + cord" where
  "cat_with balance x y =
     (case (x, y) of
        (CORD_EMPTY, _) \<Rightarrow> Inr y
      | (_, CORD_EMPTY) \<Rightarrow> Inr x
      | (_, C_string t) \<Rightarrow> cat_char_star_with balance x t (length t)
      | (C_string s, _) \<Rightarrow>
          cat_node balance (DEPTH y + 1) (length s) (length s + LEN y) x y
      | _ \<Rightarrow>
          let depthy = DEPTH y; depth = DEPTH x + 1 in
          cat_node balance (if depthy \<ge> depth then depthy + 1 else depth)
            (LEN x) (LEN x + LEN y) x y)"

section \<open>The string a cord stands for\<close>

fun chars :: "cord \<Rightarrow> string" where
  "chars CORD_EMPTY = []"
| "chars (C_string s) = s"
| "chars (Concatenation _ _ _ left right) = chars left @ chars right"
| "chars (Function _ n fn) = map (apply_fn fn) [0..<n]"

text \<open>
  The invariant of non-empty cords: strings are not empty and have no NUL, the fields of a
  concatenation are what its children make them, and the offset of a substring node leaves the
  substring inside the string or function that it refers to.
\<close>

fun cord_ok :: "cord \<Rightarrow> bool" and fn_ok :: "fn_header \<Rightarrow> nat \<Rightarrow> cord_fn \<Rightarrow> bool" where
  "cord_ok CORD_EMPTY = False"
| "cord_ok (C_string s) = (s \<noteq> [] \<and> NUL \<notin> set s)"
| "cord_ok (Concatenation d ll n left right) =
     (cord_ok left \<and> cord_ok right \<and> d = 1 + max (DEPTH left) (DEPTH right) \<and>
      n = CORD_len left + CORD_len right \<and>
      ll = (if CORD_len left \<le> MAX_LEFT_LEN then CORD_len left else 0))"
| "cord_ok (Function h n fn) = (n > 0 \<and> fn_ok h n fn)"
| "fn_ok h n (Client f) = (h = FN_HDR)"
| "fn_ok h n (CORD_index_access_fn c i) =
     (h = SUBSTR_HDR \<and> CORD_IS_STRING c \<and> i + n \<le> CORD_len c \<and> cord_ok c)"
| "fn_ok h n (CORD_apply_access_fn c i) =
     (h = SUBSTR_HDR \<and> IS_FUNCTION c \<and> i + n \<le> CORD_len c \<and> cord_ok c)"

definition cord_wf :: "cord \<Rightarrow> bool" where
  "cord_wf x \<longleftrightarrow> x = CORD_EMPTY \<or> cord_ok x"

named_theorems cord_simps \<open>selectors and lengths of cords\<close>

lemma CORD_len_simps [simp, cord_simps]:
  "CORD_len CORD_EMPTY = 0"
  "CORD_len (C_string s) = length s"
  "CORD_len (Concatenation d ll n left right) = n"
  "CORD_len (Function h n fn) = n"
  by (simp_all add: CORD_len_def)

lemma cord_wf_simps [simp]: "cord_wf CORD_EMPTY" "cord_ok x \<Longrightarrow> cord_wf x"
  by (simp_all add: cord_wf_def)

lemma length_chars [simp]: "cord_wf x \<Longrightarrow> length (chars x) = CORD_len x"
proof -
  have "cord_ok x \<Longrightarrow> length (chars x) = CORD_len x"
    by (induction x rule: chars.induct) simp_all
  then show "cord_wf x \<Longrightarrow> length (chars x) = CORD_len x"
    by (auto simp: cord_wf_def)
qed

lemma cord_ok_len: "cord_ok x \<Longrightarrow> 0 < CORD_len x"
  by (induction x rule: chars.induct) simp_all

lemma cord_ok_nonempty: "cord_ok x \<Longrightarrow> x \<noteq> CORD_EMPTY"
  by auto

lemma LEN_eq: "\<not> CORD_IS_STRING x \<Longrightarrow> LEN x = CORD_len x"
  by (cases x) simp_all

lemma GEN_LEN_eq: "GEN_LEN x = CORD_len x"
  by (cases x) simp_all

lemma DEPTH_string: "CORD_IS_STRING x \<Longrightarrow> DEPTH x = 0"
  by (cases x) simp_all

lemma CORD_IS_STRING_E: "CORD_IS_STRING x \<Longrightarrow> (\<And>s. x = C_string s \<Longrightarrow> P) \<Longrightarrow> P"
  by (cases x) simp_all

lemma IS_FUNCTION_E: "IS_FUNCTION x \<Longrightarrow> (\<And>h n fn. x = Function h n fn \<Longrightarrow> P) \<Longrightarrow> P"
  by (cases x) simp_all

lemma LEFT_LEN_eq [simp]:
  assumes "cord_ok (Concatenation d ll n left right)"
  shows "LEFT_LEN ll n left right = CORD_len left"
  using assms by (auto simp: LEFT_LEN_def GEN_LEN_eq LEN_eq split: if_splits)

section \<open>Concatenation keeps the invariant and appends\<close>

lemma cat_node_eq:
  "cat_node balance depth lenx n x y =
     (let z = Concatenation depth (if lenx \<le> MAX_LEFT_LEN then lenx else 0) n x y in
      if MAX_DEPTH \<le> DEPTH z then balance z else Inr z)"
  by (simp add: cat_node_def Let_def)

definition catenated :: "cord \<Rightarrow> cord \<Rightarrow> cord \<Rightarrow> bool" where
  "catenated x y z \<longleftrightarrow> cord_ok z \<and> chars z = chars x @ chars y \<and>
     DEPTH z \<le> 1 + max (DEPTH x) (DEPTH y)"

lemma catenated_node:
  assumes "cord_ok x" "cord_ok y"
  shows "catenated x y (Concatenation (1 + max (DEPTH x) (DEPTH y))
    (if CORD_len x \<le> MAX_LEFT_LEN then CORD_len x else 0) (CORD_len x + CORD_len y) x y)"
  using assms by (simp add: catenated_def)

lemma cat_node_cat:
  assumes "cord_ok x" "cord_ok y" "depth = 1 + max (DEPTH x) (DEPTH y)" "lenx = CORD_len x"
    "n = CORD_len x + CORD_len y"
  shows "\<exists>z. catenated x y z \<and> cat_node balance depth lenx n x y =
    (if MAX_DEPTH \<le> DEPTH z then balance z else Inr z)"
  using catenated_node [OF assms(1,2)]
  by (intro exI [where x = "Concatenation depth (if lenx \<le> MAX_LEFT_LEN then lenx else 0) n x y"])
    (auto simp: cat_node_eq Let_def assms(3,4,5))

text \<open>
  What merging leaves to be concatenated: either nothing changed, or the right part went from \<open>x\<close>
  to \<open>y\<close>.
\<close>

lemma merge_right_cases:
  assumes "cord_ok x" "\<not> CORD_IS_STRING x" "cord_ok (C_string y)"
  obtains "merge_right x y (length y) = (x, CORD_len x, y, length y)"
  | left right where "merge_right x y (length y) =
      (left, CORD_len left, right @ y, length right + length y)"
      "cord_ok left" "cord_ok (C_string (right @ y))" "chars x = chars left @ right"
      "DEPTH left < DEPTH x"
proof (cases "\<exists>d ll n left right. x = Concatenation d ll n left (C_string right)")
  case False
  then have "merge_right x y (length y) = (x, CORD_len x, y, length y)"
    using assms(2)
    by (induction x y "length y" rule: merge_right.induct) (simp_all add: LEN_eq)
  then show ?thesis
    by (rule that)
next
  case True
  then obtain d ll n left right where x: "x = Concatenation d ll n left (C_string right)"
    by blast
  define right_len where "right_len = (if \<not> CORD_IS_STRING left then n - LEN left
    else if ll \<noteq> 0 then n - ll else length right)"
  have n: "n = CORD_len left + length right" and left: "cord_ok left"
    and ll: "ll = (if CORD_len left \<le> MAX_LEFT_LEN then CORD_len left else 0)"
    and right: "right \<noteq> []" "NUL \<notin> set right"
    using assms(1) by (simp_all add: x)
  have right_len: "right_len = length right"
    using ll by (auto simp: right_len_def n LEN_eq)
  have take: "take right_len right @ take (length y) y = right @ y"
    by (simp add: right_len)
  have "chars x = chars left @ right"
    by (simp add: x)
  moreover have "DEPTH left < DEPTH x"
    using assms(1) by (simp add: x)
  moreover have "cord_ok (C_string (right @ y))"
    using right assms(3) by simp
  moreover have "merge_right x y (length y) =
      (if length y \<le> SHORT_LIMIT div 2 \<and> right_len + length y \<le> SHORT_LIMIT
       then (left, n - right_len, take right_len right @ take (length y) y, right_len + length y)
       else (x, n, y, length y))"
    by (simp add: x right_len_def Let_def)
  ultimately show ?thesis
    using that left n right_len take
    by (cases "length y \<le> SHORT_LIMIT div 2 \<and> right_len + length y \<le> SHORT_LIMIT")
      (simp_all only: if_True if_False CORD_len_simps x, simp_all)
qed

lemma cat_char_star_cat:
  assumes x: "cord_ok x" and y: "cord_ok (C_string y)"
  shows "\<exists>z. catenated x (C_string y) z \<and> cat_char_star_with balance x y (length y) =
    (if MAX_DEPTH \<le> DEPTH z then balance z else Inr z)"
proof (cases "CORD_IS_STRING x")
  case True
  then obtain s where s: "x = C_string s"
    by (rule CORD_IS_STRING_E)
  show ?thesis
  proof (cases "length s + length y \<le> SHORT_LIMIT")
    case True
    then show ?thesis
      using x y by (intro exI [where x = "C_string (s @ y)"])
        (simp add: s cat_char_star_with_def Let_def catenated_def MAX_DEPTH_def)
  next
    case False
    then show ?thesis
      using x y cat_node_cat [of x "C_string y" 1 "length s" "length s + length y" balance]
      by (simp add: s cat_char_star_with_def Let_def)
  qed
next
  case False
  have eq: "cat_char_star_with balance x y (length y) =
      (let (x', lenx', y', leny') = merge_right x y (length y) in
       cat_node balance (if CORD_IS_STRING x' then 1 else DEPTH x' + 1) lenx' (lenx' + leny')
         x' (C_string y'))"
    using x y False by (cases x) (simp_all add: cat_char_star_with_def Let_def split: prod.splits)
  show ?thesis
  proof (rule merge_right_cases [OF x False y])
    assume "merge_right x y (length y) = (x, CORD_len x, y, length y)"
    then show ?thesis
      using False cat_node_cat [OF x y, of "DEPTH x + 1" "CORD_len x" "CORD_len x + length y" balance]
      by (simp add: eq)
  next
    fix left right
    assume m: "merge_right x y (length y) =
        (left, CORD_len left, right @ y, length right + length y)"
      and left: "cord_ok left" and right: "cord_ok (C_string (right @ y))"
      and chars: "chars x = chars left @ right" and depth: "DEPTH left < DEPTH x"
    have "\<exists>z. catenated left (C_string (right @ y)) z \<and>
        cat_node balance (if CORD_IS_STRING left then 1 else DEPTH left + 1) (CORD_len left)
          (CORD_len left + (length right + length y)) left (C_string (right @ y)) =
        (if MAX_DEPTH \<le> DEPTH z then balance z else Inr z)"
      by (rule cat_node_cat [OF left right]) (simp_all add: DEPTH_string)
    then show ?thesis
      using chars depth by (auto simp: eq m catenated_def)
  qed
qed

theorem cat_with_cat:
  assumes x: "cord_ok x" and y: "cord_ok y"
  shows "\<exists>z. catenated x y z \<and> cat_with balance x y =
    (if MAX_DEPTH \<le> DEPTH z then balance z else Inr z)"
proof (cases "CORD_IS_STRING y")
  case True
  then obtain t where t: "y = C_string t"
    by (rule CORD_IS_STRING_E)
  have "cat_with balance x y = cat_char_star_with balance x t (length t)"
    using x by (cases x) (simp_all add: cat_with_def t)
  then show ?thesis
    using cat_char_star_cat [OF x y [unfolded t]] by (simp add: t)
next
  case False
  have "x \<noteq> CORD_EMPTY" "y \<noteq> CORD_EMPTY"
    using x y by auto
  then have "cat_with balance x y = cat_node balance (if CORD_IS_STRING x then DEPTH y + 1
      else if DEPTH y \<ge> DEPTH x + 1 then DEPTH y + 1 else DEPTH x + 1) (CORD_len x)
      (CORD_len x + CORD_len y) x y"
    using False by (cases x; cases y) (simp_all add: cat_with_def Let_def)
  moreover have "(if CORD_IS_STRING x then DEPTH y + 1
      else if DEPTH y \<ge> DEPTH x + 1 then DEPTH y + 1 else DEPTH x + 1) =
      1 + max (DEPTH x) (DEPTH y)"
    by (simp add: DEPTH_string)
  ultimately show ?thesis
    using cat_node_cat [OF x y] by simp
qed

text \<open>Below the depth limit no balancing takes place.\<close>

lemma cat_shallow:
  assumes "cord_wf x" "cord_wf y" "DEPTH x < MAX_DEPTH" "DEPTH y < MAX_DEPTH"
    and "x = CORD_EMPTY \<or> y = CORD_EMPTY \<or> 1 + max (DEPTH x) (DEPTH y) < MAX_DEPTH"
  obtains z where "cat_with balance x y = Inr z" "cord_wf z" "chars z = chars x @ chars y"
    "DEPTH z \<le> (if x = CORD_EMPTY then DEPTH y else if y = CORD_EMPTY then DEPTH x
      else 1 + max (DEPTH x) (DEPTH y))"
proof (cases "x = CORD_EMPTY \<or> y = CORD_EMPTY")
  case True
  then have "cat_with balance x y = Inr (if x = CORD_EMPTY then y else x)"
    by (cases x; cases y) (simp_all add: cat_with_def)
  then show ?thesis
    using True assms by (intro that [of "if x = CORD_EMPTY then y else x"]) auto
next
  case False
  then have ok: "cord_ok x" "cord_ok y"
    using assms by (auto simp: cord_wf_def)
  obtain z where "catenated x y z" "cat_with balance x y = (if MAX_DEPTH \<le> DEPTH z then balance z else Inr z)"
    using cat_with_cat [OF ok] by blast
  then show ?thesis
    using False assms(5) by (intro that [of z]) (auto simp: catenated_def)
qed

end
