(* ===== verification/CordBalance.thy ===== *)
theory CordBalance
  imports Cord
begin

text \<open>
  Balancing (\<open>CORD_balance\<close> and its parts in \<open>cord/cordbscs.c\<close>): the leaves of a cord, from left to
  right, are inserted into a forest of trees of exponentially growing length, which is concatenated
  at the end. Entry \<open>i\<close> of the forest holds trees of at least \<open>min_len[i]\<close> characters, a Fibonacci
  number.

  \<open>CORD_balance\<close> concatenates, and a concatenation that gets too deep balances. The first argument
  of \<open>CORD_balance\<close> and \<open>CORD_cat\<close> is the number of nested calls of \<open>CORD_balance\<close> allowed for. One
  is enough for every cord shorter than \<open>min_len[46]\<close> (4807526976 characters): there no intermediate
  tree reaches the depth limit.
\<close>

section \<open>The code\<close>

text \<open>
  \<open>CORD_init_min_len\<close>: the table and \<open>CORD_max_len\<close>, which is an \<open>int\<close>. The table is a constant
  once it is initialised, and \<open>CORD_balance\<close> initialises it before its first use.
\<close>

fun init_min_len_loop :: "nat \<Rightarrow> nat \<Rightarrow> nat \<Rightarrow> nat list \<times> nat" where
  "init_min_len_loop 0 previous lst = ([], lst)"
| "init_min_len_loop (Suc k) previous lst =
     (let current = (lst + previous) mod 2 ^ 64;
          current = (if current < lst then lst else current);
          (rest, lst') = init_min_len_loop k lst current in
      (current # rest, lst'))"

definition CORD_init_min_len :: "nat list \<times> int" where
  "CORD_init_min_len =
     (let (rest, lst) = init_min_len_loop (MAX_DEPTH - 2) 1 2 in
      (1 # 2 # rest, to_int (lst - 1)))"

definition min_len :: "nat list" where
  "min_len = fst CORD_init_min_len"

definition CORD_max_len :: int where
  "CORD_max_len = snd CORD_init_min_len"

definition min_len_at :: "nat \<Rightarrow> stop + nat" where
  "min_len_at i = (if i < MAX_DEPTH then Inr (min_len ! i)
     else Inl (Undefined ''index of min_len''))"

record ForestElement =
  fe_c :: cord
  fe_len :: nat

text \<open>An element of the local array is \<open>None\<close> until it is written.\<close>

type_synonym Forest = "ForestElement option list"

definition forest_at :: "Forest \<Rightarrow> nat \<Rightarrow> stop + ForestElement" where
  "forest_at forest i = (if i < length forest
     then (case forest ! i of Some e \<Rightarrow> Inr e | None \<Rightarrow> Inl (Undefined ''uninitialised forest''))
     else Inl (Undefined ''index of forest''))"

text \<open>\<open>CORD_init_forest\<close> leaves the lengths unset; they are read only where the cord is set.\<close>

fun init_forest_loop :: "nat \<Rightarrow> nat \<Rightarrow> nat \<Rightarrow> Forest \<Rightarrow> stop + Forest" where
  "init_forest_loop 0 i max_len forest = Inl (Abort ''Cord too long'')"
| "init_forest_loop (Suc k) i max_len forest =
     (let forest' = forest[i := Some \<lparr>fe_c = CORD_EMPTY, fe_len = 0\<rparr>] in
      if min_len ! i > max_len then Inr forest'
      else init_forest_loop k (i + 1) max_len forest')"

definition CORD_init_forest :: "nat \<Rightarrow> stop + Forest" where
  "CORD_init_forest max_len = init_forest_loop MAX_DEPTH 0 max_len (replicate MAX_DEPTH None)"

text \<open>Prepend a non-empty element to the sum, and clear an element.\<close>

definition add_entry ::
  "(cord \<Rightarrow> cord \<Rightarrow> stop + cord) \<Rightarrow> ForestElement \<Rightarrow> cord \<Rightarrow> nat \<Rightarrow> stop + cord \<times> nat" where
  "add_entry cat e sum_c sum_len = (case fe_c e of
      CORD_EMPTY \<Rightarrow> Inr (sum_c, sum_len)
    | c \<Rightarrow> sbind (cat c sum_c) (\<lambda>sum_c'. Inr (sum_c', sum_len + fe_len e)))"

definition clear_entry :: "Forest \<Rightarrow> nat \<Rightarrow> ForestElement \<Rightarrow> Forest" where
  "clear_entry forest i e = forest[i := Some (e\<lparr>fe_c := CORD_EMPTY\<rparr>)]"

text \<open>The two loops of \<open>CORD_add_forest\<close>.\<close>

function lower_loop ::
  "(cord \<Rightarrow> cord \<Rightarrow> stop + cord) \<Rightarrow> nat \<Rightarrow> nat \<Rightarrow> Forest \<Rightarrow> cord \<Rightarrow> nat \<Rightarrow>
   stop + nat \<times> Forest \<times> cord \<times> nat" where
  "lower_loop cat len i forest sum_c sum_len =
     sbind (min_len_at (i + 1)) (\<lambda>m.
       if len > m then
         sbind (forest_at forest i) (\<lambda>e.
         sbind (add_entry cat e sum_c sum_len) (\<lambda>r.
           lower_loop cat len (i + 1) (clear_entry forest i e) (fst r) (snd r)))
       else Inr (i, forest, sum_c, sum_len))"
  by pat_completeness auto
termination
  by (relation "measure (\<lambda>(_, _, i, _). MAX_DEPTH - i)") (auto simp: min_len_at_def split: if_splits)

function upper_loop ::
  "(cord \<Rightarrow> cord \<Rightarrow> stop + cord) \<Rightarrow> nat \<Rightarrow> Forest \<Rightarrow> cord \<Rightarrow> nat \<Rightarrow>
   stop + nat \<times> Forest \<times> cord \<times> nat" where
  "upper_loop cat i forest sum_c sum_len =
     sbind (min_len_at i) (\<lambda>m.
       if sum_len \<ge> m then
         sbind (forest_at forest i) (\<lambda>e.
         sbind (add_entry cat e sum_c sum_len) (\<lambda>r.
           upper_loop cat (i + 1) (clear_entry forest i e) (fst r) (snd r)))
       else Inr (i, forest, sum_c, sum_len))"
  by pat_completeness auto
termination
  by (relation "measure (\<lambda>(_, i, _). MAX_DEPTH - i)") (auto simp: min_len_at_def split: if_splits)

definition CORD_add_forest ::
  "(cord \<Rightarrow> cord \<Rightarrow> stop + cord) \<Rightarrow> Forest \<Rightarrow> cord \<Rightarrow> nat \<Rightarrow> stop + Forest" where
  "CORD_add_forest cat forest x len =
     sbind (lower_loop cat len 0 forest CORD_EMPTY 0) (\<lambda>(i, forest, sum_c, sum_len).
     sbind (cat sum_c x) (\<lambda>sum_c.
     sbind (upper_loop cat i forest sum_c (sum_len + len)) (\<lambda>(i, forest, sum_c, sum_len).
       if i = 0 then Inl (Undefined ''index of forest'')
       else Inr (forest[i - 1 := Some \<lparr>fe_c = sum_c, fe_len = sum_len\<rparr>]))))"

function concat_loop ::
  "(cord \<Rightarrow> cord \<Rightarrow> stop + cord) \<Rightarrow> Forest \<Rightarrow> nat \<Rightarrow> nat \<Rightarrow> cord \<Rightarrow> nat \<Rightarrow> stop + cord" where
  "concat_loop cat forest expected_len i sum_c sum_len =
     (if sum_len \<noteq> expected_len then
        sbind (forest_at forest i) (\<lambda>e.
        sbind (add_entry cat e sum_c sum_len) (\<lambda>r.
          concat_loop cat forest expected_len (i + 1) (fst r) (snd r)))
      else Inr sum_c)"
  by pat_completeness auto
termination
  by (relation "measure (\<lambda>(_, forest, _, i, _). length forest - i)")
    (auto simp: forest_at_def split: if_splits)

definition CORD_concat_forest ::
  "(cord \<Rightarrow> cord \<Rightarrow> stop + cord) \<Rightarrow> Forest \<Rightarrow> nat \<Rightarrow> stop + cord" where
  "CORD_concat_forest cat forest expected_len = concat_loop cat forest expected_len 0 CORD_EMPTY 0"

fun CORD_balance_insert ::
  "(cord \<Rightarrow> cord \<Rightarrow> stop + cord) \<Rightarrow> cord \<Rightarrow> nat \<Rightarrow> Forest \<Rightarrow> stop + Forest" where
  "CORD_balance_insert cat CORD_EMPTY len forest = Inl (Undefined ''null cord'')"
| "CORD_balance_insert cat (C_string s) len forest = CORD_add_forest cat forest (C_string s) len"
| "CORD_balance_insert cat (Concatenation depth ll n left right) len forest =
     (if depth \<ge> MAX_DEPTH \<or> len < min_len ! depth then
        (let left_len = LEFT_LEN ll n left right in
         sbind (CORD_balance_insert cat left left_len forest) (\<lambda>forest.
           CORD_balance_insert cat right (len - left_len) forest))
      else CORD_add_forest cat forest (Concatenation depth ll n left right) len)"
| "CORD_balance_insert cat (Function h n fn) len forest =
     CORD_add_forest cat forest (Function h n fn) len"

fun CORD_balance :: "nat \<Rightarrow> cord \<Rightarrow> stop + cord" where
  "CORD_balance 0 x = Inl No_Fuel"
| "CORD_balance (Suc k) x = (case x of
      CORD_EMPTY \<Rightarrow> Inr CORD_EMPTY
    | C_string s \<Rightarrow> Inr x
    | _ \<Rightarrow>
        let len = LEN x; cat = cat_with (CORD_balance k) in
        sbind (CORD_init_forest len) (\<lambda>forest.
        sbind (CORD_balance_insert cat x len forest) (\<lambda>forest.
          CORD_concat_forest cat forest len)))"

definition CORD_cat :: "nat \<Rightarrow> cord \<Rightarrow> cord \<Rightarrow> stop + cord" where
  "CORD_cat k = cat_with (CORD_balance k)"

definition CORD_cat_char_star :: "nat \<Rightarrow> cord \<Rightarrow> string \<Rightarrow> nat \<Rightarrow> stop + cord" where
  "CORD_cat_char_star k = cat_char_star_with (CORD_balance k)"

declare lower_loop.simps [simp del] upper_loop.simps [simp del] concat_loop.simps [simp del]

section \<open>The table of minimal lengths\<close>

fun minl :: "nat \<Rightarrow> nat" where
  "minl 0 = 1"
| "minl (Suc 0) = 2"
| "minl (Suc (Suc n)) = minl (Suc n) + minl n"

lemma minl_pos [simp]: "0 < minl n"
  by (induction n rule: minl.induct) simp_all

lemma minl_less_Suc: "minl n < minl (Suc n)"
  by (induction n rule: minl.induct) simp_all

lemma minl_mono: "i \<le> j \<Longrightarrow> minl i \<le> minl j"
  by (rule lift_Suc_mono_le [of minl]) (simp_all add: less_imp_le minl_less_Suc)

lemma minl_less_iff: "minl i < minl j \<longleftrightarrow> i < j"
  using lift_Suc_mono_less_iff [of minl] minl_less_Suc by simp

lemma minl_le_iff: "minl i \<le> minl j \<longleftrightarrow> i \<le> j"
  by (metis minl_less_iff not_less)

lemma minl_double: "minl (Suc n) \<le> 2 * minl n"
  by (induction n rule: minl.induct) simp_all

lemma minl_le_power: "minl n \<le> 2 ^ n"
proof (induction n)
  case (Suc n)
  then show ?case
    using minl_double [of n] by simp
qed simp

text \<open>The addition formula of the Fibonacci numbers, to evaluate large entries.\<close>

lemma minl_add: "minl (Suc m + Suc n + 1) = minl (Suc m) * minl (Suc n) + minl m * minl n"
  by (induction n rule: minl.induct) (simp_all add: algebra_simps)

lemma minl_47: "minl 47 = 7778742049"
proof -
  have small: "minl 8 = 55" "minl 9 = 89" "minl 10 = 144" "minl 11 = 233"
    by (simp_all add: numeral_eq_Suc)
  have "minl 23 = 233 * 233 + 144 * 144" "minl 22 = 144 * 233 + 89 * 144"
    using minl_add [of 10 10] minl_add [of 9 10] by (simp_all add: small del: minl.simps)
  then show ?thesis
    using minl_add [of 22 22] by (simp del: minl.simps)
qed

lemma init_min_len_loop_eq:
  "minl (i + 1 + k) < 2 ^ 64 \<Longrightarrow>
   init_min_len_loop k (minl i) (minl (i + 1)) = (map minl [i + 2..<i + 2 + k], minl (i + 1 + k))"
proof (induction k arbitrary: i)
  case (Suc k)
  have step: "minl (Suc i) + minl i = minl (Suc (Suc i))"
    by simp
  have "minl (i + 2) \<le> minl (i + 1 + Suc k)"
    by (rule minl_mono) simp
  then have "minl (Suc i + 1) < 2 ^ 64"
    using Suc.prems by simp
  moreover have "\<not> minl (Suc i + 1) < minl (i + 1)"
    by (simp add: minl_less_iff)
  moreover have "init_min_len_loop k (minl (Suc i)) (minl (Suc i + 1)) =
      (map minl [Suc i + 2..<Suc i + 2 + k], minl (Suc i + 1 + k))"
    by (rule Suc.IH) (use Suc.prems in simp)
  moreover have "[i + 2..<i + 2 + Suc k] = (i + 2) # [Suc i + 2..<Suc i + 2 + k]"
    by (simp add: upt_conv_Cons)
  ultimately show ?case
    by (simp add: step Let_def del: minl.simps upt_Suc)
qed simp

lemma CORD_init_min_len_eq: "CORD_init_min_len = (map minl [0..<MAX_DEPTH], to_int (minl 47 - 1))"
proof -
  have "init_min_len_loop 46 (minl 0) (minl (0 + 1)) = (map minl [0 + 2..<0 + 2 + 46], minl (0 + 1 + 46))"
    by (rule init_min_len_loop_eq) (simp add: minl_47)
  then have loop: "init_min_len_loop 46 1 2 = (map minl [Suc (Suc 0)..<48], minl 47)"
    by (simp del: upt_rec_numeral)
  have range: "[0..<48] = 0 # Suc 0 # [Suc (Suc 0)..<48]"
    by (simp add: upt_rec)
  have "CORD_init_min_len = (1 # 2 # map minl [Suc (Suc 0)..<48], to_int (minl 47 - 1))"
    using loop by (simp add: CORD_init_min_len_def MAX_DEPTH_def del: upt_rec_numeral minl.simps(3))
  then show ?thesis
    by (simp only: MAX_DEPTH_def range list.map minl.simps(1,2))
qed

lemma min_len_eq: "min_len = map minl [0..<MAX_DEPTH]"
  by (simp add: min_len_def CORD_init_min_len_eq)

lemma min_len_nth [simp]: "i < MAX_DEPTH \<Longrightarrow> min_len ! i = minl i"
  by (simp add: min_len_eq)

lemma min_len_at_eq: "min_len_at i = (if i < MAX_DEPTH then Inr (minl i)
    else Inl (Undefined ''index of min_len''))"
  by (simp add: min_len_at_def)

section \<open>The forest\<close>

text \<open>
  The invariant of the comment in the source, with the bound on the depth that the code really keeps:
  entry \<open>i\<close> has at least \<open>min_len[i]\<close> characters and depth at most \<open>i + 1\<close>. The entries up to \<open>m\<close>
  are initialised.
\<close>

definition entry_ok :: "nat \<Rightarrow> ForestElement \<Rightarrow> bool" where
  "entry_ok i e \<longleftrightarrow> fe_c e = CORD_EMPTY \<or>
     cord_ok (fe_c e) \<and> fe_len e = CORD_len (fe_c e) \<and> minl i \<le> fe_len e \<and> DEPTH (fe_c e) \<le> i + 1"

definition forest_ok :: "nat \<Rightarrow> Forest \<Rightarrow> bool" where
  "forest_ok m forest \<longleftrightarrow> length forest = MAX_DEPTH \<and> m < MAX_DEPTH \<and>
     (\<forall>i\<le>m. \<exists>e. forest ! i = Some e \<and> entry_ok i e) \<and>
     (\<forall>i. m < i \<longrightarrow> i < MAX_DEPTH \<longrightarrow> forest ! i = None)"

definition entry_chars :: "ForestElement option \<Rightarrow> string" where
  "entry_chars x = (case x of None \<Rightarrow> [] | Some e \<Rightarrow> chars (fe_c e))"

text \<open>The characters of the entries from \<open>i\<close> on, in decreasing order of the index.\<close>

definition upper_chars :: "Forest \<Rightarrow> nat \<Rightarrow> string" where
  "upper_chars forest i = concat (map entry_chars (rev (drop i forest)))"

definition forest_chars :: "Forest \<Rightarrow> string" where
  "forest_chars forest = upper_chars forest 0"

definition lower_empty :: "Forest \<Rightarrow> nat \<Rightarrow> bool" where
  "lower_empty forest i \<longleftrightarrow> (\<forall>j<i. entry_chars (forest ! j) = [])"

lemma upper_chars_Suc:
  "i < length forest \<Longrightarrow> upper_chars forest i = upper_chars forest (Suc i) @ entry_chars (forest ! i)"
  by (simp add: upper_chars_def flip: Cons_nth_drop_Suc)

lemma upper_chars_update [simp]: "j < i \<Longrightarrow> upper_chars (forest[j := e]) i = upper_chars forest i"
  by (simp add: upper_chars_def)

lemma forest_chars_lower_empty:
  "lower_empty forest i \<Longrightarrow> i \<le> length forest \<Longrightarrow> forest_chars forest = upper_chars forest i"
proof (induction i)
  case (Suc i)
  then have "forest_chars forest = upper_chars forest i" "entry_chars (forest ! i) = []"
    by (simp_all add: lower_empty_def)
  then show ?case
    using Suc.prems upper_chars_Suc [of i forest] by simp
qed (simp add: forest_chars_def)

lemma forest_okD:
  assumes "forest_ok m forest" "i \<le> m"
  obtains e where "forest ! i = Some e" "entry_ok i e" "forest_at forest i = Inr e"
    "i < length forest"
proof -
  obtain e where "forest ! i = Some e" "entry_ok i e"
    using assms by (auto simp: forest_ok_def)
  moreover have "i < length forest"
    using assms by (simp add: forest_ok_def)
  ultimately show ?thesis
    using that by (simp add: forest_at_def)
qed

lemma forest_ok_update:
  "forest_ok m forest \<Longrightarrow> entry_ok i e \<Longrightarrow> i \<le> m \<Longrightarrow> forest_ok m (forest[i := Some e])"
  by (auto simp: forest_ok_def nth_list_update)

lemma forest_ok_clear:
  "forest_ok m forest \<Longrightarrow> i \<le> m \<Longrightarrow> forest_ok m (clear_entry forest i e)"
  unfolding clear_entry_def by (rule forest_ok_update) (simp_all add: entry_ok_def)

lemma lower_empty_clear:
  "lower_empty forest i \<Longrightarrow> i < length forest \<Longrightarrow> lower_empty (clear_entry forest i e) (Suc i)"
  by (auto simp: lower_empty_def clear_entry_def nth_list_update entry_chars_def less_Suc_eq)

text \<open>
  What a loop over the forest does with one entry: the sum is extended at the front. The side
  conditions keep the concatenation below the depth limit.
\<close>

lemma add_entry_ok:
  assumes "entry_ok i e" "cord_wf sum_c" "sum_len = CORD_len sum_c" "DEPTH sum_c \<le> d" "i + 1 \<le> d"
    and "d + 1 < MAX_DEPTH \<or> fe_c e = CORD_EMPTY \<and> d < MAX_DEPTH"
  obtains sum' where "add_entry (cat_with balance) e sum_c sum_len = Inr (sum', CORD_len sum')"
    "cord_wf sum'" "chars sum' = entry_chars (Some e) @ chars sum_c"
    "DEPTH sum' \<le> d + 1" "fe_c e = CORD_EMPTY \<Longrightarrow> sum' = sum_c"
    "fe_c e \<noteq> CORD_EMPTY \<Longrightarrow> CORD_len sum' = fe_len e + CORD_len sum_c \<and> minl i \<le> fe_len e"
    "sum_c = CORD_EMPTY \<Longrightarrow> DEPTH sum' \<le> i + 1"
proof (cases "fe_c e = CORD_EMPTY")
  case True
  then show ?thesis
    using assms by (intro that [of sum_c]) (simp_all add: add_entry_def entry_chars_def)
next
  case False
  then have e: "cord_ok (fe_c e)" "fe_len e = CORD_len (fe_c e)" "minl i \<le> fe_len e"
    "DEPTH (fe_c e) \<le> i + 1" and d: "d + 1 < MAX_DEPTH"
    using assms(1,6) by (auto simp: entry_ok_def)
  obtain z where z: "cat_with balance (fe_c e) sum_c = Inr z" "cord_wf z"
      "chars z = chars (fe_c e) @ chars sum_c"
    and depth: "DEPTH z \<le> (if fe_c e = CORD_EMPTY then DEPTH sum_c
      else if sum_c = CORD_EMPTY then DEPTH (fe_c e) else 1 + max (DEPTH (fe_c e)) (DEPTH sum_c))"
    by (rule cat_shallow [of "fe_c e" sum_c balance]) (use e d assms in auto)
  have "CORD_len z = length (chars z)"
    using z(2) by simp
  also have "\<dots> = CORD_len (fe_c e) + CORD_len sum_c"
    using e(1) assms(2) by (simp add: z(3))
  finally have len: "CORD_len z = CORD_len (fe_c e) + CORD_len sum_c" .
  have "add_entry (cat_with balance) e sum_c sum_len = Inr (z, CORD_len z)"
    using False z(1) by (cases "fe_c e") (simp_all add: add_entry_def len e(2) assms(3))
  moreover have "DEPTH z \<le> d + 1"
    using depth False e(4) assms(4,5) by (auto split: if_splits)
  moreover have "sum_c = CORD_EMPTY \<Longrightarrow> DEPTH z \<le> i + 1"
    using depth False e(4) by simp
  ultimately show ?thesis
    using z e False by (intro that [of z]) (simp_all add: entry_chars_def len)
qed

lemma entry_chars_empty: "fe_c e = CORD_EMPTY \<Longrightarrow> entry_chars (Some e) = []"
  by (simp add: entry_chars_def)

text \<open>
  The first loop of \<open>CORD_add_forest\<close>: it collects the entries below the level of the new piece.
\<close>

lemma lower_loop_ok:
  assumes "forest_ok m forest" "lower_empty forest i" "cord_wf sum_c" "sum_len = CORD_len sum_c"
    and "i = 0 \<or> minl i < len" "len < minl 46" "len < minl m"
    and "sum_c = CORD_EMPTY \<or> DEPTH sum_c \<le> i + 1 \<and> (DEPTH sum_c = i + 1 \<longrightarrow> 0 < i \<and> minl (i - 1) \<le> sum_len)"
  shows "\<exists>i' forest' sum'.
    lower_loop (cat_with balance) len i forest sum_c sum_len = Inr (i', forest', sum', CORD_len sum') \<and>
    forest_ok m forest' \<and> lower_empty forest' i' \<and> cord_wf sum' \<and>
    (i' = 0 \<or> minl i' < len) \<and> len \<le> minl (i' + 1) \<and> i' \<le> m \<and>
    forest_chars forest' @ chars sum' = forest_chars forest @ chars sum_c \<and>
    (sum' = CORD_EMPTY \<or> DEPTH sum' \<le> i' + 1 \<and>
       (DEPTH sum' = i' + 1 \<longrightarrow> 0 < i' \<and> minl (i' - 1) \<le> CORD_len sum'))"
  using assms
proof (induction "MAX_DEPTH - i" arbitrary: i forest sum_c sum_len rule: less_induct)
  case less
  have "m < MAX_DEPTH" and len_forest: "length forest = MAX_DEPTH"
    using less.prems(1) by (simp_all add: forest_ok_def)
  have "i < 46" "i \<le> m"
    using less.prems(5,6,7) minl_less_iff [of i 46] minl_less_iff [of i m]
    by (auto dest: less_trans)
  then have m_at: "min_len_at (i + 1) = Inr (minl (i + 1))"
    by (simp add: min_len_at_eq MAX_DEPTH_def)
  show ?case
  proof (cases "len > minl (i + 1)")
    case False
    then show ?thesis
      using less.prems m_at \<open>i \<le> m\<close>
      by (subst lower_loop.simps) (simp del: minl.simps)
  next
    case True
    then have "minl (i + 1) < minl 46" "minl (i + 1) < minl m"
      using less.prems(6,7) by simp_all
    then have i: "i + 1 < 46" "i + 1 < m"
      by (simp_all only: minl_less_iff)
    obtain e where e: "forest ! i = Some e" "entry_ok i e" "forest_at forest i = Inr e"
      using less.prems(1) \<open>i \<le> m\<close> by (rule forest_okD)
    have depth: "DEPTH sum_c \<le> i + 1"
      using less.prems(8) by auto
    obtain sum' where s: "add_entry (cat_with balance) e sum_c sum_len = Inr (sum', CORD_len sum')"
      "cord_wf sum'" "chars sum' = entry_chars (Some e) @ chars sum_c"
      "DEPTH sum' \<le> i + 1 + 1" "fe_c e = CORD_EMPTY \<Longrightarrow> sum' = sum_c"
      "fe_c e \<noteq> CORD_EMPTY \<Longrightarrow> CORD_len sum' = fe_len e + CORD_len sum_c \<and> minl i \<le> fe_len e"
      "sum_c = CORD_EMPTY \<Longrightarrow> DEPTH sum' \<le> i + 1"
      by (rule add_entry_ok [OF e(2) less.prems(3,4) depth, of balance])
        (use i in \<open>auto simp: MAX_DEPTH_def\<close>)
    let ?forest = "clear_entry forest i e"
    have step: "lower_loop (cat_with balance) len i forest sum_c sum_len =
        lower_loop (cat_with balance) len (i + 1) ?forest sum' (CORD_len sum')"
      using True by (subst lower_loop.simps) (simp add: m_at [simplified] e(3) s(1) del: minl.simps)
    have ok: "forest_ok m ?forest" "lower_empty ?forest (i + 1)"
      using forest_ok_clear [OF less.prems(1) \<open>i \<le> m\<close>] lower_empty_clear [OF less.prems(2)] i
      by (simp_all add: len_forest MAX_DEPTH_def)
    have "forest_chars forest @ chars sum_c = upper_chars forest (Suc i) @ entry_chars (Some e) @ chars sum_c"
      using forest_chars_lower_empty [OF less.prems(2)] upper_chars_Suc [of i forest] i
      by (simp add: len_forest MAX_DEPTH_def e(1))
    moreover have "forest_chars ?forest = upper_chars ?forest (Suc i)"
      using forest_chars_lower_empty [OF ok(2)] ok(1) i by (simp add: forest_ok_def MAX_DEPTH_def)
    ultimately have chars: "forest_chars ?forest @ chars sum' = forest_chars forest @ chars sum_c"
      by (simp add: s(3) clear_entry_def)
    have "sum' = CORD_EMPTY \<or> DEPTH sum' \<le> (i + 1) + 1 \<and>
        (DEPTH sum' = (i + 1) + 1 \<longrightarrow> 0 < i + 1 \<and> minl (i + 1 - 1) \<le> CORD_len sum')"
      using s(4-7) depth by (cases "fe_c e = CORD_EMPTY") auto
    then show ?thesis
      using less.hyps [of "i + 1" ?forest sum' "CORD_len sum'"] ok s(2) True less.prems(6,7) i
      by (simp only: step chars) (simp add: MAX_DEPTH_def del: minl.simps)
  qed
qed

text \<open>
  The second loop: it climbs to the level of the sum. The depth may exceed the level by two only if
  the sum is long enough to climb further.
\<close>

definition climbing :: "nat \<Rightarrow> cord \<Rightarrow> bool" where
  "climbing i x \<longleftrightarrow> DEPTH x \<le> i + 2 \<and> (DEPTH x = i + 2 \<longrightarrow> minl (i + 1) \<le> CORD_len x) \<and>
     (DEPTH x = i + 1 \<longrightarrow> minl i \<le> CORD_len x)"

lemma climbing_step:
  assumes "climbing i x" "minl i \<le> CORD_len x"
    and "z = x \<or> minl i + CORD_len x \<le> CORD_len z \<and> DEPTH z \<le> max (i + 1) (DEPTH x) + 1"
  shows "climbing (i + 1) z"
proof (cases "z = x")
  case True
  then show ?thesis
    using assms(1) by (auto simp: climbing_def)
next
  case False
  then have len: "minl i + CORD_len x \<le> CORD_len z" and depth: "DEPTH z \<le> max (i + 1) (DEPTH x) + 1"
    using assms(3) by auto
  have "minl (i + 1) \<le> CORD_len z"
    using minl_double [of i] assms(2) len by simp
  moreover have "minl (i + 2) \<le> CORD_len z" if "DEPTH z = i + 3"
  proof -
    have "DEPTH x = i + 2"
      using that depth assms(1) by (auto simp: climbing_def)
    then have "minl (i + 1) \<le> CORD_len x"
      using assms(1) by (simp add: climbing_def)
    then show ?thesis
      using len by simp
  qed
  ultimately show ?thesis
    using depth assms(1) by (auto simp: climbing_def numeral_3_eq_3)
qed

lemma upper_loop_ok:
  assumes "forest_ok m forest" "lower_empty forest i" "cord_ok sum_c" "sum_len = CORD_len sum_c"
    and "i = 0 \<or> minl (i - 1) \<le> sum_len" "climbing i sum_c"
    and "length (forest_chars forest) + sum_len \<le> tot" "tot < minl 46" "tot < minl m"
  shows "\<exists>i' forest' sum'.
    upper_loop (cat_with balance) i forest sum_c sum_len = Inr (i', forest', sum', CORD_len sum') \<and>
    forest_ok m forest' \<and> lower_empty forest' i' \<and> cord_ok sum' \<and>
    0 < i' \<and> i' - 1 \<le> m \<and> minl (i' - 1) \<le> CORD_len sum' \<and> DEPTH sum' \<le> i' \<and>
    forest_chars forest' @ chars sum' = forest_chars forest @ chars sum_c"
  using assms
proof (induction "MAX_DEPTH - i" arbitrary: i forest sum_c sum_len rule: less_induct)
  case less
  have len_forest: "length forest = MAX_DEPTH"
    using less.prems(1) by (simp add: forest_ok_def)
  have sum_len: "sum_len < minl 46" "sum_len < minl m"
    using less.prems(7,8,9) by simp_all
  have low: "i = 0 \<or> i - 1 < 46 \<and> i - 1 < m"
    using less.prems(5) sum_len minl_less_iff [of "i - 1" 46] minl_less_iff [of "i - 1" m]
    by (auto dest: le_less_trans)
  then have m_at: "min_len_at i = Inr (minl i)"
    by (auto simp: min_len_at_eq MAX_DEPTH_def)
  show ?case
  proof (cases "minl i \<le> sum_len")
    case False
    then have "0 < i"
      using less.prems(3,4) cord_ok_len [of sum_c] by (cases i) auto
    moreover have "DEPTH sum_c \<le> i"
    proof -
      have "\<not> minl i \<le> CORD_len sum_c" "\<not> minl (i + 1) \<le> CORD_len sum_c"
        using False less.prems(4) minl_less_Suc [of i] by simp_all
      then show ?thesis
        using less.prems(6) by (auto simp: climbing_def simp del: minl.simps)
    qed
    ultimately show ?thesis
      using False less.prems(1-5) m_at low
      by (subst upper_loop.simps) (auto simp del: minl.simps)
  next
    case True
    then have "minl i < minl 46" "minl i < minl m"
      using sum_len by simp_all
    then have i: "i < 46" "i < m"
      by (simp_all only: minl_less_iff)
    obtain e where e: "forest ! i = Some e" "entry_ok i e" "forest_at forest i = Inr e"
      using less.prems(1) less_imp_le [OF i(2)] by (rule forest_okD)
    have "minl (i + 1) < minl 46" if "DEPTH sum_c = i + 2"
      using less.prems(4,6) that sum_len(1) by (simp add: climbing_def del: minl.simps)
    then have top: "DEPTH sum_c = i + 2 \<Longrightarrow> i + 1 < 46"
      by (simp only: minl_less_iff)
    define d where "d = max (i + 1) (DEPTH sum_c)"
    have d: "DEPTH sum_c \<le> d" "i + 1 \<le> d" "d + 1 < MAX_DEPTH"
      using less.prems(6) i top
      by (cases "DEPTH sum_c = i + 2"; auto simp: d_def climbing_def MAX_DEPTH_def)+
    obtain sum' where s: "add_entry (cat_with balance) e sum_c sum_len = Inr (sum', CORD_len sum')"
      "cord_wf sum'" "chars sum' = entry_chars (Some e) @ chars sum_c"
      "DEPTH sum' \<le> d + 1" "fe_c e = CORD_EMPTY \<Longrightarrow> sum' = sum_c"
      "fe_c e \<noteq> CORD_EMPTY \<Longrightarrow> CORD_len sum' = fe_len e + CORD_len sum_c \<and> minl i \<le> fe_len e"
      by (rule add_entry_ok [OF e(2) _ less.prems(4) d(1,2), of balance])
        (use d(3) less.prems(3) in auto)
    have "0 < CORD_len sum_c"
      using less.prems(3) by (rule cord_ok_len)
    moreover have "CORD_len sum' \<ge> CORD_len sum_c"
      using s(5,6) by (cases "fe_c e = CORD_EMPTY") auto
    ultimately have ok': "cord_ok sum'"
      using s(2) by (auto simp: cord_wf_def)
    let ?forest = "clear_entry forest i e"
    have step: "upper_loop (cat_with balance) i forest sum_c sum_len =
        upper_loop (cat_with balance) (i + 1) ?forest sum' (CORD_len sum')"
      using True by (subst upper_loop.simps) (simp add: m_at e(3) s(1) del: minl.simps)
    have ok: "forest_ok m ?forest" "lower_empty ?forest (i + 1)"
      using forest_ok_clear [OF less.prems(1) less_imp_le [OF i(2)]]
        lower_empty_clear [OF less.prems(2)] i
      by (simp_all add: len_forest MAX_DEPTH_def)
    have "forest_chars forest = upper_chars forest (Suc i) @ entry_chars (Some e)"
      using forest_chars_lower_empty [OF less.prems(2)] upper_chars_Suc [of i forest] i
      by (simp add: len_forest MAX_DEPTH_def e(1))
    moreover have "forest_chars ?forest = upper_chars ?forest (Suc i)"
      using forest_chars_lower_empty [OF ok(2)] ok(1) i by (simp add: forest_ok_def MAX_DEPTH_def)
    ultimately have chars: "forest_chars ?forest @ chars sum' = forest_chars forest @ chars sum_c"
      by (simp add: s(3) clear_entry_def)
    then have "length (forest_chars ?forest @ chars sum') = length (forest_chars forest @ chars sum_c)"
      by simp
    then have len: "length (forest_chars ?forest) + CORD_len sum' \<le> tot"
      using less.prems(3,4,7) s(2) by simp
    have "minl i \<le> CORD_len sum_c"
      using True less.prems(4) by simp
    moreover have "sum' = sum_c \<or> minl i + CORD_len sum_c \<le> CORD_len sum' \<and>
        DEPTH sum' \<le> max (i + 1) (DEPTH sum_c) + 1"
    proof (cases "fe_c e = CORD_EMPTY")
      case False
      then show ?thesis
        using s(4) s(6) by (simp add: d_def)
    qed (simp add: s(5))
    ultimately have climb: "climbing (i + 1) sum'"
      by (rule climbing_step [OF less.prems(6)])
    have start: "i + 1 = 0 \<or> minl (i + 1 - 1) \<le> CORD_len sum'"
      using True less.prems(4) \<open>CORD_len sum_c \<le> CORD_len sum'\<close> by simp
    have "MAX_DEPTH - (i + 1) < MAX_DEPTH - i"
      using i by (simp add: MAX_DEPTH_def)
    from less.hyps [OF this ok ok' refl start climb len less.prems(8,9)] show ?thesis
      by (simp only: step chars)
  qed
qed

section \<open>Insertion, concatenation of the forest, balancing\<close>

text \<open>What \<open>CORD_balance_insert\<close> treats as a leaf.\<close>

definition balanced_leaf :: "cord \<Rightarrow> bool" where
  "balanced_leaf x \<longleftrightarrow> DEPTH x = 0 \<or> DEPTH x < MAX_DEPTH \<and> minl (DEPTH x) \<le> CORD_len x"

lemma CORD_add_forest_ok:
  assumes f: "forest_ok m forest" and x: "cord_ok x" "balanced_leaf x"
    and tot: "length (forest_chars forest) + CORD_len x \<le> tot" "tot < minl 46" "tot < minl m"
  shows "\<exists>forest'. CORD_add_forest (cat_with balance) forest x (CORD_len x) = Inr forest' \<and>
    forest_ok m forest' \<and> forest_chars forest' = forest_chars forest @ chars x"
proof -
  let ?cat = "cat_with balance"
  obtain i f1 s1 where low: "lower_loop ?cat (CORD_len x) 0 forest CORD_EMPTY 0 =
        Inr (i, f1, s1, CORD_len s1)"
    and f1: "forest_ok m f1" "lower_empty f1 i" "cord_wf s1"
    and i: "i = 0 \<or> minl i < CORD_len x" "CORD_len x \<le> minl (i + 1)" "i \<le> m"
    and chars1: "forest_chars f1 @ chars s1 = forest_chars forest @ chars CORD_EMPTY"
    and s1: "s1 = CORD_EMPTY \<or> DEPTH s1 \<le> i + 1 \<and>
      (DEPTH s1 = i + 1 \<longrightarrow> 0 < i \<and> minl (i - 1) \<le> CORD_len s1)"
    using lower_loop_ok [OF f, of 0 CORD_EMPTY 0 "CORD_len x" balance] tot
    by (auto simp: lower_empty_def)
  have minl_i: "minl i \<le> CORD_len x"
    using i(1) cord_ok_len [OF x(1)] by auto
  then have "minl i < minl 46"
    using tot by simp
  then have i46: "i < 46"
    by (simp only: minl_less_iff)
  have x_depth: "DEPTH x \<le> i + 1"
  proof (cases "DEPTH x = 0")
    case False
    then have "minl (DEPTH x) \<le> minl (i + 1)"
      using x(2) i(2) by (simp add: balanced_leaf_def)
    then show ?thesis
      by (simp only: minl_le_iff)
  qed simp
  have x_top: "DEPTH x = i + 1 \<Longrightarrow> minl (i + 1) \<le> CORD_len x"
    using x(2) by (simp add: balanced_leaf_def)
  have s1_top: "DEPTH s1 = i + 1 \<Longrightarrow> 0 < i \<and> minl (i - 1) \<le> CORD_len s1"
    using s1 by auto
  have s1_depth: "DEPTH s1 \<le> i + 1"
    using s1 by auto
  have small: "DEPTH s1 = i + 1 \<or> DEPTH x = i + 1 \<Longrightarrow> i < 45"
  proof -
    assume "DEPTH s1 = i + 1 \<or> DEPTH x = i + 1"
    then have "minl (i + 1) < minl 46"
    proof
      assume "DEPTH s1 = i + 1"
      then have "0 < i" "minl (i - 1) + minl i \<le> CORD_len s1 + CORD_len x"
        using s1_top minl_i by simp_all
      moreover have "length (forest_chars f1 @ chars s1) = length (forest_chars forest)"
        by (simp only: chars1) simp
      ultimately show ?thesis
        using tot f1(3) by (cases i) simp_all
    next
      assume "DEPTH x = i + 1"
      then show ?thesis
        using x_top tot by (simp del: minl.simps)
    qed
    then have "i + 1 < 46"
      by (simp only: minl_less_iff)
    then show "i < 45"
      by simp
  qed
  obtain s2 where s2: "cat_with balance s1 x = Inr s2" "cord_wf s2" "chars s2 = chars s1 @ chars x"
    and s2_depth: "DEPTH s2 \<le> (if s1 = CORD_EMPTY then DEPTH x else if x = CORD_EMPTY then DEPTH s1
      else 1 + max (DEPTH s1) (DEPTH x))"
    by (rule cat_shallow [of s1 x balance])
      (use f1(3) x s1_depth x_depth i46 small in \<open>auto simp: MAX_DEPTH_def\<close>)
  have "CORD_len s2 = length (chars s2)"
    using s2(2) by simp
  also have "\<dots> = CORD_len s1 + CORD_len x"
    using f1(3) x(1) by (simp add: s2(3))
  finally have s2_len: "CORD_len s2 = CORD_len s1 + CORD_len x" .
  have s2_ok: "cord_ok s2"
    using s2(2) s2_len cord_ok_len [OF x(1)] by (auto simp: cord_wf_def)
  have "minl (i + 1) \<le> CORD_len s2" if "DEPTH s2 = i + 2"
  proof -
    have "DEPTH s1 = i + 1 \<or> DEPTH x = i + 1"
      using that s2_depth x_depth s1_depth by (auto split: if_splits)
    then show ?thesis
      using s1_top x_top minl_i s2_len by (cases i) auto
  qed
  then have climb: "climbing i s2"
    using s2_depth s1_depth x_depth minl_i s2_len
    by (auto simp: climbing_def simp del: minl.simps split: if_splits)
  have len1: "length (forest_chars f1) + CORD_len s2 \<le> tot"
  proof -
    have "length (forest_chars f1 @ chars s1) = length (forest_chars forest)"
      by (simp only: chars1) simp
    then show ?thesis
      using f1(3) tot(1) by (simp add: s2_len)
  qed
  have start: "i = 0 \<or> minl (i - 1) \<le> CORD_len s2"
    using minl_mono [of "i - 1" i] minl_i s2_len by simp
  obtain i' f3 s3 where up: "upper_loop ?cat i f1 s2 (CORD_len s2) = Inr (i', f3, s3, CORD_len s3)"
    and f3: "forest_ok m f3" "lower_empty f3 i'" "cord_ok s3"
    and i': "0 < i'" "i' - 1 \<le> m" "minl (i' - 1) \<le> CORD_len s3" "DEPTH s3 \<le> i'"
    and chars3: "forest_chars f3 @ chars s3 = forest_chars f1 @ chars s2"
    using upper_loop_ok [OF f1(1,2) s2_ok refl start climb len1 tot(2,3), of balance] by blast
  let ?e = "\<lparr>fe_c = s3, fe_len = CORD_len s3\<rparr>"
  let ?f = "f3[i' - 1 := Some ?e]"
  have len3: "length f3 = MAX_DEPTH" "i' - 1 < MAX_DEPTH"
    using f3(1) i'(2) by (simp_all add: forest_ok_def)
  have "forest_ok m ?f"
    by (rule forest_ok_update [OF f3(1) _ i'(2)])
      (use f3(3) i' in \<open>simp add: entry_ok_def\<close>)
  moreover have "forest_chars ?f = forest_chars f3 @ chars s3"
  proof -
    have empty: "lower_empty f3 (i' - 1)" "lower_empty ?f (i' - 1)" "entry_chars (f3 ! (i' - 1)) = []"
      using f3(2) i'(1) by (auto simp: lower_empty_def)
    have "forest_chars ?f = upper_chars ?f (Suc (i' - 1)) @ chars s3"
      using forest_chars_lower_empty [OF empty(2)] upper_chars_Suc [of "i' - 1" ?f] len3
      by (simp add: entry_chars_def)
    moreover have "forest_chars f3 = upper_chars f3 (Suc (i' - 1))"
      using forest_chars_lower_empty [OF empty(1)] upper_chars_Suc [of "i' - 1" f3] len3 empty(3)
      by simp
    ultimately show ?thesis
      by simp
  qed
  moreover have "CORD_add_forest ?cat forest x (CORD_len x) = Inr ?f"
    using i'(1) by (simp add: CORD_add_forest_def low s2(1) up flip: s2_len)
  ultimately show ?thesis
    using chars1 chars3 s2(3) by (metis append.assoc append_Nil2 chars.simps(1))
qed

lemma balance_insert_ok:
  assumes "forest_ok m forest" "cord_ok x"
    and "length (forest_chars forest) + CORD_len x \<le> tot" "tot < minl 46" "tot < minl m"
  shows "\<exists>forest'. CORD_balance_insert (cat_with balance) x (CORD_len x) forest = Inr forest' \<and>
    forest_ok m forest' \<and> forest_chars forest' = forest_chars forest @ chars x"
  using assms
proof (induction x arbitrary: forest rule: chars.induct)
  case 1
  then show ?case
    by simp
next
  case (2 s)
  then show ?case
    using CORD_add_forest_ok [of m forest "C_string s" tot balance] by (simp add: balanced_leaf_def)
next
  case (3 d ll n left right)
  let ?x = "Concatenation d ll n left right"
  show ?case
  proof (cases "d \<ge> MAX_DEPTH \<or> n < min_len ! d")
    case True
    have ok: "cord_ok left" "cord_ok right" "n = CORD_len left + CORD_len right"
      using "3.prems"(2) by simp_all
    have left: "LEFT_LEN ll n left right = CORD_len left"
      using "3.prems"(2) by (rule LEFT_LEN_eq)
    obtain f1 where f1: "CORD_balance_insert (cat_with balance) left (CORD_len left) forest = Inr f1"
      "forest_ok m f1" "forest_chars f1 = forest_chars forest @ chars left"
      using "3.IH"(1) [OF "3.prems"(1) ok(1)] "3.prems"(3-5) ok(3) by auto
    obtain f2 where "CORD_balance_insert (cat_with balance) right (CORD_len right) f1 = Inr f2"
      "forest_ok m f2" "forest_chars f2 = forest_chars f1 @ chars right"
      using "3.IH"(2) [OF f1(2) ok(2)] "3.prems"(3-5) ok f1(3) by auto
    then show ?thesis
      using True f1 ok(3) by (simp add: left [unfolded ok(3)] Let_def)
  next
    case False
    then have d: "d < MAX_DEPTH" "minl d \<le> n"
      by (cases "d < MAX_DEPTH"; simp)+
    then have "balanced_leaf ?x"
      by (simp add: balanced_leaf_def)
    then show ?thesis
      using CORD_add_forest_ok [OF "3.prems"(1,2) _ "3.prems"(3-5), of balance] d by simp
  qed
next
  case (4 h n fn)
  then show ?case
    using CORD_add_forest_ok [of m forest "Function h n fn" tot balance]
    by (simp add: balanced_leaf_def)
qed

lemma concat_loop_ok:
  assumes "forest_ok m forest" "cord_wf sum_c" "sum_len = CORD_len sum_c"
    and "length (upper_chars forest i) + sum_len = expected" "expected < minl 46" "i \<le> MAX_DEPTH"
    and "DEPTH sum_c \<le> i + 1"
    and "DEPTH sum_c \<le> 1 \<or> minl (DEPTH sum_c - 2) \<le> sum_len"
  shows "\<exists>z. concat_loop (cat_with balance) forest expected i sum_c sum_len = Inr z \<and> cord_wf z \<and>
    chars z = upper_chars forest i @ chars sum_c \<and>
    (DEPTH z \<le> 1 \<or> minl (DEPTH z - 2) \<le> CORD_len z)"
  using assms
proof (induction "MAX_DEPTH - i" arbitrary: i sum_c sum_len rule: less_induct)
  case less
  have len_forest: "length forest = MAX_DEPTH"
    using less.prems(1) by (simp add: forest_ok_def)
  show ?case
  proof (cases "sum_len = expected")
    case True
    then have "upper_chars forest i = []"
      using less.prems(4) by simp
    then show ?thesis
      using True less.prems by (subst concat_loop.simps) simp
  next
    case False
    then have "upper_chars forest i \<noteq> []"
      using less.prems(4) by auto
    have i: "i < MAX_DEPTH"
      using \<open>upper_chars forest i \<noteq> []\<close> len_forest by (cases "i < MAX_DEPTH") (simp_all add: upper_chars_def)
    have "i \<le> m"
    proof (rule ccontr)
      assume "\<not> i \<le> m"
      then have "\<forall>x\<in>set (drop i forest). x = None"
        using less.prems(1) by (auto simp: forest_ok_def in_set_conv_nth)
      then have "upper_chars forest i = []"
        by (auto simp: upper_chars_def entry_chars_def)
      then show False
        using \<open>upper_chars forest i \<noteq> []\<close> by contradiction
    qed
    with less.prems(1) obtain e where e: "forest ! i = Some e" "entry_ok i e" "forest_at forest i = Inr e"
      by (rule forest_okD)
    have upper: "upper_chars forest i = upper_chars forest (Suc i) @ entry_chars (Some e)"
      using upper_chars_Suc [of i forest] i by (simp add: len_forest e(1))
    have i46: "fe_c e \<noteq> CORD_EMPTY \<Longrightarrow> i < 46"
    proof -
      assume "fe_c e \<noteq> CORD_EMPTY"
      then have "minl i \<le> length (entry_chars (Some e))"
        using e(2) by (simp add: entry_ok_def entry_chars_def)
      then have "minl i < minl 46"
        using less.prems(4,5) upper by simp
      then show "i < 46"
        by (simp only: minl_less_iff)
    qed
    obtain sum' where s: "add_entry (cat_with balance) e sum_c sum_len = Inr (sum', CORD_len sum')"
      "cord_wf sum'" "chars sum' = entry_chars (Some e) @ chars sum_c"
      "DEPTH sum' \<le> i + 1 + 1" "fe_c e = CORD_EMPTY \<Longrightarrow> sum' = sum_c"
      "fe_c e \<noteq> CORD_EMPTY \<Longrightarrow> CORD_len sum' = fe_len e + CORD_len sum_c \<and> minl i \<le> fe_len e"
    proof (cases "fe_c e = CORD_EMPTY")
      case True
      then show ?thesis
        using that [of sum_c] less.prems(2,3,7) by (simp add: add_entry_def entry_chars_def)
    next
      case False
      have side: "i + 1 + 1 < MAX_DEPTH \<or> fe_c e = CORD_EMPTY \<and> i + 1 < MAX_DEPTH"
        using i46 [OF False] by (simp add: MAX_DEPTH_def)
      obtain z where z: "add_entry (cat_with balance) e sum_c sum_len = Inr (z, CORD_len z)"
        "cord_wf z" "chars z = entry_chars (Some e) @ chars sum_c" "DEPTH z \<le> i + 1 + 1"
        and len: "fe_c e \<noteq> CORD_EMPTY \<Longrightarrow> CORD_len z = fe_len e + CORD_len sum_c \<and> minl i \<le> fe_len e"
        using add_entry_ok [OF e(2) less.prems(2,3,7) order_refl side, of balance] by blast
      show ?thesis
        by (rule that [OF z]) (use False len in simp_all)
    qed
    have step: "concat_loop (cat_with balance) forest expected i sum_c sum_len =
        concat_loop (cat_with balance) forest expected (i + 1) sum' (CORD_len sum')"
      using False by (subst concat_loop.simps) (simp add: e(3) s(1))
    have len: "CORD_len sum' = length (entry_chars (Some e)) + sum_len"
    proof -
      have "CORD_len sum' = length (chars sum')"
        using s(2) by simp
      then show ?thesis
        using less.prems(2,3) by (simp add: s(3))
    qed
    then have rest: "length (upper_chars forest (i + 1)) + CORD_len sum' = expected"
      using less.prems(4) by (simp add: upper)
    have bound: "DEPTH sum' \<le> 1 \<or> minl (DEPTH sum' - 2) \<le> CORD_len sum'"
    proof (cases "fe_c e = CORD_EMPTY")
      case True
      then show ?thesis
        using s(5) less.prems(3,8) by simp
    next
      case False
      then have "minl i \<le> CORD_len sum'"
        using s(6) by simp
      moreover have "minl (DEPTH sum' - 2) \<le> minl i"
        by (rule minl_mono) (use s(4) in simp)
      ultimately show ?thesis
        by simp
    qed
    have "MAX_DEPTH - (i + 1) < MAX_DEPTH - i" "i + 1 \<le> MAX_DEPTH"
      using i by simp_all
    from less.hyps [OF this(1) less.prems(1) s(2) refl rest less.prems(5) this(2) s(4) bound]
    show ?thesis
      by (simp add: step upper s(3))
  qed
qed

lemma init_forest_loop_ok:
  assumes "i + k = MAX_DEPTH" "\<exists>j\<ge>i. j < MAX_DEPTH \<and> n < minl j"
    and "length forest = MAX_DEPTH" "\<forall>j<i. forest ! j = Some \<lparr>fe_c = CORD_EMPTY, fe_len = 0\<rparr>"
      "\<forall>j\<ge>i. j < MAX_DEPTH \<longrightarrow> forest ! j = None"
  shows "\<exists>m f. init_forest_loop k i n forest = Inr f \<and> n < minl m \<and> forest_ok m f \<and> forest_chars f = []"
  using assms
proof (induction k arbitrary: i forest)
  case 0
  then show ?case
    by auto
next
  case (Suc k)
  let ?f = "forest[i := Some \<lparr>fe_c = CORD_EMPTY, fe_len = 0\<rparr>]"
  have i: "i < MAX_DEPTH"
    using Suc.prems(1) by simp
  have low: "\<forall>j<i + 1. ?f ! j = Some \<lparr>fe_c = CORD_EMPTY, fe_len = 0\<rparr>"
    using Suc.prems(3,4) i by (auto simp: nth_list_update less_Suc_eq)
  have high: "\<forall>j\<ge>i + 1. j < MAX_DEPTH \<longrightarrow> ?f ! j = None"
    using Suc.prems(5) by auto
  show ?case
  proof (cases "n < minl i")
    case True
    have "forest_ok i ?f"
      using low high i Suc.prems(3) by (simp add: forest_ok_def entry_ok_def Suc_le_eq less_Suc_eq_le)
    moreover have "forest_chars ?f = []"
    proof -
      have "\<forall>x\<in>set ?f. entry_chars x = []"
      proof
        fix x
        assume "x \<in> set ?f"
        then obtain j where "j < MAX_DEPTH" "x = ?f ! j"
          using Suc.prems(3) by (auto simp: in_set_conv_nth)
        then show "entry_chars x = []"
          using low high by (cases "j < i + 1") (auto simp: entry_chars_def)
      qed
      then show ?thesis
        by (simp add: forest_chars_def upper_chars_def)
    qed
    ultimately show ?thesis
      using True i by auto
  next
    case False
    then have "\<exists>j\<ge>i + 1. j < MAX_DEPTH \<and> n < minl j"
      using Suc.prems(2) by (metis Suc_eq_plus1 le_neq_implies_less Suc_leI)
    then show ?thesis
      using Suc.IH [of "i + 1" ?f] low high False i Suc.prems(1,3) by simp
  qed
qed

lemma CORD_init_forest_ok:
  assumes "n < minl 47"
  obtains m f where "CORD_init_forest n = Inr f" "n < minl m" "forest_ok m f" "forest_chars f = []"
proof -
  have "\<exists>j\<ge>0. j < MAX_DEPTH \<and> n < minl j"
    using assms by (intro exI [of _ 47]) (simp add: MAX_DEPTH_def)
  then show ?thesis
    using init_forest_loop_ok [of 0 MAX_DEPTH n "replicate MAX_DEPTH None"] that
    by (auto simp: CORD_init_forest_def)
qed

lemma init_forest_too_long:
  "minl 47 \<le> n \<Longrightarrow> i + k = MAX_DEPTH \<Longrightarrow> init_forest_loop k i n forest = Inl (Abort ''Cord too long'')"
proof (induction k arbitrary: i forest)
  case (Suc k)
  then have "minl i \<le> minl 47"
    by (intro minl_mono) (simp add: MAX_DEPTH_def)
  then show ?case
    using Suc by (simp add: Let_def)
qed simp

lemma CORD_balance_ok:
  assumes "cord_wf x" "CORD_len x < minl 46"
  shows "\<exists>z. CORD_balance (Suc k) x = Inr z \<and> cord_wf z \<and> chars z = chars x \<and>
    (DEPTH z \<le> 1 \<or> minl (DEPTH z - 2) \<le> CORD_len z)"
proof (cases "x = CORD_EMPTY \<or> CORD_IS_STRING x")
  case True
  then show ?thesis
    using assms(1) by (cases x) simp_all
next
  case False
  let ?cat = "cat_with (CORD_balance k)"
  have x: "cord_ok x" "LEN x = CORD_len x"
    using False assms(1) by (simp_all add: cord_wf_def LEN_eq)
  have eq: "CORD_balance (Suc k) x =
      sbind (CORD_init_forest (CORD_len x)) (\<lambda>forest.
      sbind (CORD_balance_insert ?cat x (CORD_len x) forest) (\<lambda>forest.
        CORD_concat_forest ?cat forest (CORD_len x)))"
    using False x by (cases x) (simp_all add: Let_def)
  have "CORD_len x < minl 47"
    using assms(2) minl_mono [of 46 47] by simp
  then obtain m f where f: "CORD_init_forest (CORD_len x) = Inr f" "CORD_len x < minl m"
    "forest_ok m f" "forest_chars f = []"
    by (rule CORD_init_forest_ok)
  obtain f' where f': "CORD_balance_insert ?cat x (CORD_len x) f = Inr f'" "forest_ok m f'"
    "forest_chars f' = chars x"
    using balance_insert_ok [OF f(3) x(1) _ assms(2) f(2), of "CORD_balance k"] f(4) by auto
  have "length (upper_chars f' 0) + CORD_len CORD_EMPTY = CORD_len x"
    using f'(3) assms(1) by (simp add: forest_chars_def)
  then obtain z where "CORD_concat_forest ?cat f' (CORD_len x) = Inr z" "cord_wf z"
    "chars z = chars x" "DEPTH z \<le> 1 \<or> minl (DEPTH z - 2) \<le> CORD_len z"
    using concat_loop_ok [OF f'(2) cord_wf_simps(1) refl _ assms(2), of 0 "CORD_balance k"] f'(3)
    by (auto simp: CORD_concat_forest_def forest_chars_def)
  then show ?thesis
    using f(1) f'(1) by (simp add: eq del: CORD_balance.simps)
qed

lemma balance_depth:
  assumes "DEPTH z \<le> 1 \<or> minl (DEPTH z - 2) \<le> CORD_len z" "CORD_len z < minl 46"
  shows "DEPTH z < MAX_DEPTH"
proof (cases "DEPTH z \<le> 1")
  case False
  then have "minl (DEPTH z - 2) < minl 46"
    using assms by simp
  then have "DEPTH z - 2 < 46"
    by (simp only: minl_less_iff)
  then show ?thesis
    using False by (simp add: MAX_DEPTH_def)
qed (simp add: MAX_DEPTH_def)

section \<open>Concatenation\<close>

text \<open>The cords that the operations build: well formed and below the depth limit.\<close>

definition cord_inv :: "cord \<Rightarrow> bool" where
  "cord_inv x \<longleftrightarrow> cord_wf x \<and> DEPTH x < MAX_DEPTH"

lemma cord_inv_empty [simp]: "cord_inv CORD_EMPTY"
  by (simp add: cord_inv_def MAX_DEPTH_def)

lemma cord_inv_string [simp]: "cord_inv (C_string s) \<longleftrightarrow> s \<noteq> [] \<and> NUL \<notin> set s"
  by (simp add: cord_inv_def cord_wf_def MAX_DEPTH_def)

lemma cord_inv_wf: "cord_inv x \<Longrightarrow> cord_wf x"
  by (simp add: cord_inv_def)

lemma cat_or_balance:
  assumes "catenated x y z" "r = (if MAX_DEPTH \<le> DEPTH z then CORD_balance (Suc k) z else Inr z)"
    and "length (chars x) + length (chars y) < minl 46"
  shows "\<exists>z. r = Inr z \<and> cord_inv z \<and> chars z = chars x @ chars y"
proof -
  have z: "cord_wf z" "chars z = chars x @ chars y"
    using assms(1) by (simp_all add: catenated_def)
  then have len: "CORD_len z < minl 46"
    using assms(3) length_chars [OF z(1)] by simp
  show ?thesis
  proof (cases "MAX_DEPTH \<le> DEPTH z")
    case True
    obtain z' where z': "CORD_balance (Suc k) z = Inr z'" "cord_wf z'" "chars z' = chars z"
      "DEPTH z' \<le> 1 \<or> minl (DEPTH z' - 2) \<le> CORD_len z'"
      using CORD_balance_ok [OF z(1) len, of k] by blast
    moreover have "CORD_len z' < minl 46"
      using z' z(1) len length_chars by metis
    ultimately show ?thesis
      using True assms(2) z(2) balance_depth [of z'] by (simp add: cord_inv_def)
  next
    case False
    then show ?thesis
      using assms(2) z by (simp add: cord_inv_def)
  qed
qed

lemma CORD_cat_ok:
  assumes "cord_inv x" "cord_inv y" "length (chars x) + length (chars y) < minl 46"
  shows "\<exists>z. CORD_cat (Suc k) x y = Inr z \<and> cord_inv z \<and> chars z = chars x @ chars y"
proof (cases "x = CORD_EMPTY \<or> y = CORD_EMPTY")
  case True
  then have "CORD_cat (Suc k) x y = Inr (if x = CORD_EMPTY then y else x)"
    by (cases x; cases y) (simp_all add: CORD_cat_def cat_with_def)
  then show ?thesis
    using True assms(1,2) by auto
next
  case False
  then have "cord_ok x" "cord_ok y"
    using assms(1,2) by (simp_all add: cord_inv_def cord_wf_def)
  from cat_with_cat [OF this, of "CORD_balance (Suc k)"] show ?thesis
    using cat_or_balance [OF _ _ assms(3)] unfolding CORD_cat_def by blast
qed

lemma CORD_cat_char_star_ok:
  assumes "cord_inv x" "y \<noteq> []" "NUL \<notin> set y" "length (chars x) + length y < minl 46"
  shows "\<exists>z. CORD_cat_char_star (Suc k) x y (length y) = Inr z \<and> cord_inv z \<and>
    chars z = chars x @ y"
proof (cases "x = CORD_EMPTY")
  case True
  then show ?thesis
    using assms by (simp add: CORD_cat_char_star_def cat_char_star_with_def)
next
  case False
  then have "cord_ok x" "cord_ok (C_string y)"
    using assms by (simp_all add: cord_inv_def cord_wf_def)
  from cat_char_star_cat [OF this, of "CORD_balance (Suc k)"] show ?thesis
    using cat_or_balance [of x "C_string y"] assms(4) unfolding CORD_cat_char_star_def by auto
qed

section \<open>Properties\<close>

text \<open>A cord of depth three with unbalanced left spine, for the witnesses.\<close>

definition spine_cord :: cord where
  "spine_cord = Concatenation 3 5 6 (Concatenation 2 4 5 (Concatenation 1 2 4 (C_string ''ab'')
     (C_string ''cd'')) (C_string ''e'')) (C_string ''f'')"

lemma spine_cord_ok: "cord_ok spine_cord"
  by (simp add: spine_cord_def NUL_def MAX_LEFT_LEN_def)

lemma spine_cord_len: "CORD_len spine_cord = 6" "chars spine_cord = ''abcdef''" "DEPTH spine_cord = 3"
  by (simp_all add: spine_cord_def)

lemma minl_46_large: "100 < minl 46"
proof -
  have "(100::nat) < minl 11"
    by (simp add: numeral_eq_Suc)
  also have "minl 11 \<le> minl 46"
    by (rule minl_mono) simp
  finally show ?thesis .
qed

lemma min_len_46: "min_len ! 46 = minl 46" "min_len ! 47 = minl 47"
  by (simp_all add: MAX_DEPTH_def)

text \<open>C17: balancing a well-formed cord shorter than \<open>min_len[46]\<close> returns, without a nested call of
  itself, a well-formed cord for the same string. The result is balanced: its depth is at most 1, or
  a cord of depth \<open>d\<close> has at least \<open>min_len[d - 2]\<close> characters, so it is below the depth limit. No
  element of the tables is read out of bounds or before it is set.\<close>

theorem balance_correct:
  assumes "cord_wf x" "CORD_len x < min_len ! 46"
  shows "\<exists>z. CORD_balance (Suc k) x = Inr z \<and> cord_wf z \<and> chars z = chars x \<and>
    DEPTH z < MAX_DEPTH \<and> (DEPTH z \<le> 1 \<or> min_len ! (DEPTH z - 2) \<le> CORD_len z)"
proof -
  have len: "CORD_len x < minl 46"
    using assms(2) by (simp only: min_len_46)
  obtain z where z: "CORD_balance (Suc k) x = Inr z" "cord_wf z" "chars z = chars x"
      "DEPTH z \<le> 1 \<or> minl (DEPTH z - 2) \<le> CORD_len z"
    using CORD_balance_ok [OF assms(1) len, of k] by blast
  moreover have "DEPTH z < MAX_DEPTH"
    using z assms(1) len length_chars by (metis balance_depth)
  ultimately show ?thesis
    by auto
qed

theorem balance_correct_witness:
  "\<exists>z. CORD_balance 1 spine_cord = Inr z \<and> cord_wf z \<and> chars z = ''abcdef'' \<and> DEPTH z < MAX_DEPTH"
proof -
  have "cord_wf spine_cord" "CORD_len spine_cord < min_len ! 46"
    using minl_46_large by (simp_all add: spine_cord_ok spine_cord_len min_len_46)
  from balance_correct [OF this, of 0] show ?thesis
    by (auto simp: spine_cord_len simp del: CORD_balance.simps)
qed

text \<open>C18: \<open>CORD_cat\<close> of two cords below the depth limit, whose lengths sum to less than
  \<open>min_len[46]\<close>, returns a well-formed cord below the depth limit that stands for the appended
  strings; whichever of the merging of short strings, the sharing of the arguments, the new node and
  the balancing happens. \<open>CORD_cat_char_star\<close> does the same with a non-empty C string.\<close>

theorem cat_correct:
  assumes "cord_inv x" "length (chars x) + length (chars y) < min_len ! 46"
  shows "(cord_inv y \<longrightarrow> (\<exists>z. CORD_cat (Suc k) x y = Inr z \<and> cord_inv z \<and> chars z = chars x @ chars y)) \<and>
    (\<forall>s. y = C_string s \<and> cord_inv y \<longrightarrow> (\<exists>z. CORD_cat_char_star (Suc k) x s (length s) = Inr z \<and>
      cord_inv z \<and> chars z = chars x @ s))"
proof -
  have "length (chars x) + length (chars y) < minl 46"
    using assms(2) by (simp only: min_len_46)
  then show ?thesis
    using CORD_cat_ok [OF assms(1), of y k] CORD_cat_char_star_ok [OF assms(1), of _ k] by auto
qed

theorem cat_correct_witness:
  "\<exists>z. CORD_cat 1 spine_cord (C_string ''gh'') = Inr z \<and> cord_inv z \<and> chars z = ''abcdefgh''"
proof -
  have x: "cord_inv spine_cord"
    by (simp add: cord_inv_def spine_cord_ok spine_cord_len MAX_DEPTH_def)
  have "length (chars spine_cord) + length (chars (C_string ''gh'')) < min_len ! 46"
    using minl_46_large by (simp add: spine_cord_len min_len_46)
  from cat_correct [OF x this, of 0] show ?thesis
    by (simp add: spine_cord_len NUL_def)
qed

text \<open>Cords of \<open>min_len[47]\<close> characters and more cannot be balanced: \<open>CORD_balance\<close> aborts with
  "Cord too long", and so does a concatenation that reaches the depth limit with that length. The
  exported limit \<open>CORD_max_len\<close> does not tell: stored in an \<open>int\<close> it is negative.\<close>

theorem balance_too_long:
  assumes "\<not> CORD_IS_STRING x" "x \<noteq> CORD_EMPTY" "min_len ! 47 \<le> CORD_len x"
  shows "CORD_balance (Suc k) x = Inl (Abort ''Cord too long'') \<and> CORD_max_len < 0"
proof -
  have "minl 47 \<le> CORD_len x"
    using assms(3) by (simp only: min_len_46)
  then have "CORD_init_forest (CORD_len x) = Inl (Abort ''Cord too long'')"
    unfolding CORD_init_forest_def by (rule init_forest_too_long) simp
  then have "CORD_balance (Suc k) x = Inl (Abort ''Cord too long'')"
    using assms(1,2) by (cases x) simp_all
  then show ?thesis
    by (simp del: CORD_balance.simps add: CORD_max_len_def CORD_init_min_len_eq minl_47 to_int_def)
qed

theorem balance_too_long_witness:
  "CORD_balance 1 (Function FN_HDR (10 ^ 10) (Client (\<lambda>_. CHR ''x''))) = Inl (Abort ''Cord too long'')"
proof -
  have "min_len ! 47 \<le> CORD_len (Function FN_HDR (10 ^ 10) (Client (\<lambda>_. CHR ''x'')))"
    by (simp add: min_len_46 minl_47)
  then show ?thesis
    using balance_too_long [of "Function FN_HDR (10 ^ 10) (Client (\<lambda>_. CHR ''x''))" 0] by simp
qed

end
