(* ===== verification/CordSubstr.thy ===== *)
theory CordSubstr
  imports CordBalance
begin

text \<open>
  Cords given by a function and substrings (\<open>CORD_from_fn\<close>, \<open>CORD_substr\<close> and its parts in
  \<open>cord/cordbscs.c\<close>).

  A substring of a long string or of a function is a function node that refers to the original;
  otherwise a substring is copied or shares the structure of the original. The functions take the
  balancing routine of the concatenation as an argument. It is not called on cords below the depth
  limit, since a substring is no deeper than the original.
\<close>

section \<open>Cords given by a function\<close>

text \<open>
  The loop that evaluates a function on the indices \<open>i, i + 1, ...\<close> (\<open>k\<close> of them) into a buffer;
  \<open>None\<close> when a NUL turns up.
\<close>

fun read_chars :: "(nat \<Rightarrow> char) \<Rightarrow> nat \<Rightarrow> nat \<Rightarrow> string option" where
  "read_chars f i 0 = Some []"
| "read_chars f i (Suc k) =
     (let c = f i in if c = NUL then None else map_option ((#) c) (read_chars f (Suc i) k))"

definition CORD_from_fn :: "cord_fn \<Rightarrow> nat \<Rightarrow> cord" where
  "CORD_from_fn fn len =
     (if len = 0 then CORD_EMPTY
      else if len \<le> SHORT_LIMIT then
        (case read_chars (apply_fn fn) 0 len of
           Some buf \<Rightarrow> C_string buf
         | None \<Rightarrow> Function FN_HDR len fn)
      else Function FN_HDR len fn)"

section \<open>Substrings\<close>

text \<open>
  \<open>CORD_substr_closure\<close> stores \<open>SUBSTR_HDR\<close> in the header of what \<open>CORD_from_fn\<close> returned. Were that
  a C string, the store would overwrite one of its characters; the model stops there.
\<close>

definition CORD_substr_closure :: "cord \<Rightarrow> nat \<Rightarrow> nat \<Rightarrow> (cord \<Rightarrow> nat \<Rightarrow> cord_fn) \<Rightarrow> stop + cord" where
  "CORD_substr_closure x i n f =
     (case CORD_from_fn (f x i) n of
        CORD_EMPTY \<Rightarrow> Inr CORD_EMPTY
      | Function _ len fn \<Rightarrow> Inr (Function SUBSTR_HDR len fn)
      | _ \<Rightarrow> Inl (Undefined ''header stored in a string''))"

text \<open>
  The loop of the function case: \<open>j\<close> runs from \<open>i\<close> to \<open>i + n\<close> as an \<open>int\<close>. When the \<open>int\<close>s are that
  far apart the buffer gets \<open>n\<close> characters; otherwise part of the copy is uninitialised.
\<close>

definition substr_fn_chars :: "(nat \<Rightarrow> char) \<Rightarrow> nat \<Rightarrow> nat \<Rightarrow> stop + string option" where
  "substr_fn_chars f i n =
     (let j = to_int i; lim = to_int (i + n) in
      if lim - j < int n then Inl (Undefined ''uninitialised buffer'')
      else Inr (read_chars (\<lambda>k. f (to_size (j + int k))) 0 n))"

fun substr_checked_with ::
  "(cord \<Rightarrow> stop + cord) \<Rightarrow> cord \<Rightarrow> nat \<Rightarrow> nat \<Rightarrow> stop + cord" where
  "substr_checked_with balance CORD_EMPTY i n = Inl (Undefined ''null cord'')"
| "substr_checked_with balance (C_string s) i n =
     (if n > SUBSTR_LIMIT then CORD_substr_closure (C_string s) i n CORD_index_access_fn
      else Inr (C_string (take n (drop i s))))"
| "substr_checked_with balance (Concatenation d ll len left right) i n =
     (let left_len = LEFT_LEN ll len left right; right_len = len - left_len in
      if i \<ge> left_len then
        (if n = right_len then Inr right
         else substr_checked_with balance right (i - left_len) n)
      else if i + n \<le> left_len then
        (if n = left_len then Inr left else substr_checked_with balance left i n)
      else
        (let left_part_len = left_len - i in
         sbind (if i = 0 then Inr left else substr_checked_with balance left i left_part_len)
           (\<lambda>left_part.
         sbind (if i + n = right_len + left_len then Inr right
                else substr_checked_with balance right 0 (n - left_part_len))
           (\<lambda>right_part. cat_with balance left_part right_part))))"
| "substr_checked_with balance (Function h len fn) i n =
     (if n > SUBSTR_LIMIT then
        (case (h, fn) of
           (SUBSTR_HDR, CORD_index_access_fn sa_cord sa_index) \<Rightarrow>
             CORD_substr_closure sa_cord (i + sa_index) n CORD_index_access_fn
         | (SUBSTR_HDR, CORD_apply_access_fn sa_cord sa_index) \<Rightarrow>
             CORD_substr_closure sa_cord (i + sa_index) n CORD_apply_access_fn
         | _ \<Rightarrow> CORD_substr_closure (Function h len fn) i n CORD_apply_access_fn)
      else
        sbind (substr_fn_chars (apply_fn fn) i n) (\<lambda>buf.
          case buf of
            None \<Rightarrow> CORD_substr_closure (Function h len fn) i n CORD_apply_access_fn
          | Some s \<Rightarrow> Inr (C_string s)))"

text \<open>The sum \<open>i + n\<close> of the bounds test is a \<open>size_t\<close>.\<close>

definition substr_with :: "(cord \<Rightarrow> stop + cord) \<Rightarrow> cord \<Rightarrow> nat \<Rightarrow> nat \<Rightarrow> stop + cord" where
  "substr_with balance x i n =
     (let len = CORD_len x in
      if i \<ge> len \<or> n = 0 then Inr CORD_EMPTY
      else
        let n' = (if (i + n) mod 2 ^ 64 > len then len - i else n) in
        substr_checked_with balance x i n')"

definition CORD_substr :: "nat \<Rightarrow> cord \<Rightarrow> nat \<Rightarrow> nat \<Rightarrow> stop + cord" where
  "CORD_substr k = substr_with (CORD_balance k)"

section \<open>Functions\<close>

lemma read_chars_eq:
  "read_chars f i k = (if NUL \<in> f ` {i..<i + k} then None else Some (map f [i..<i + k]))"
proof (induction k arbitrary: i)
  case (Suc k)
  have "{i..<i + Suc k} = insert i {Suc i..<Suc i + k}"
    by auto
  moreover have "[i..<i + Suc k] = i # [Suc i..<Suc i + k]"
    by (simp add: upt_conv_Cons)
  ultimately show ?case
    by (auto simp: Suc Let_def simp del: upt_Suc)
qed simp

lemma map_upt_shift: "map (\<lambda>k. f (k + i)) [0..<n] = map f [i..<i + n]"
  by (rule nth_equalityI) (simp_all add: add.commute)

lemma image_upt_shift: "(\<lambda>k. f (k + i)) ` {0..<n} = f ` {i..<i + n}" for n :: nat
proof -
  have "(\<lambda>k. f (k + i)) ` {0..<n} = f ` ((\<lambda>k. k + i) ` {0..<n})"
    by (simp only: image_image)
  also have "(\<lambda>k. k + i) ` {0..<n} = {i..<i + n}"
    by (simp only: image_add_atLeastLessThan') (simp add: add.commute)
  finally show ?thesis .
qed

lemma take_drop_map_upt: "i + n \<le> m \<Longrightarrow> take n (drop i (map f [0..<m])) = map f [i..<i + n]"
  by (simp add: take_map drop_map)

lemma map_c_char: "i + n \<le> length s \<Longrightarrow> map (c_char s) [i..<i + n] = take n (drop i s)"
  by (rule nth_equalityI) (simp_all add: c_char_def nth_append)

lemma CORD_from_fn_cases:
  assumes "0 < n"
  obtains "CORD_from_fn fn n = Function FN_HDR n fn"
  | "CORD_from_fn fn n = C_string (map (apply_fn fn) [0..<n])" "n \<le> SHORT_LIMIT"
    "NUL \<notin> apply_fn fn ` {0..<n}"
  using assms that
  by (cases "n \<le> SHORT_LIMIT"; cases "NUL \<in> apply_fn fn ` {0..<n}")
    (simp_all add: CORD_from_fn_def read_chars_eq del: upt_Suc)

text \<open>A client's function makes a cord of the characters it returns.\<close>

lemma CORD_from_fn_ok:
  "cord_inv (CORD_from_fn (Client f) n)" "chars (CORD_from_fn (Client f) n) = map f [0..<n]"
proof -
  have "cord_inv (CORD_from_fn (Client f) n) \<and> chars (CORD_from_fn (Client f) n) = map f [0..<n]"
  proof (cases "n = 0")
    case False
    then have "0 < n"
      by simp
    then show ?thesis
      by (rule CORD_from_fn_cases [where fn = "Client f"])
        (use \<open>0 < n\<close> in \<open>auto simp: cord_inv_def cord_wf_def MAX_DEPTH_def\<close>)
  qed (simp add: CORD_from_fn_def)
  then show "cord_inv (CORD_from_fn (Client f) n)" "chars (CORD_from_fn (Client f) n) = map f [0..<n]"
    by simp_all
qed

section \<open>Substrings\<close>

text \<open>
  A closure is made only where \<open>CORD_from_fn\<close> returns a function node, so that the store of the
  header goes to the new node.
\<close>

lemma CORD_substr_closure_node:
  assumes "0 < n" "SHORT_LIMIT < n \<or> NUL \<in> apply_fn (f x i) ` {0..<n}"
  shows "CORD_substr_closure x i n f = Inr (Function SUBSTR_HDR n (f x i))"
  by (rule CORD_from_fn_cases [OF assms(1), of "f x i"])
    (use assms(2) in \<open>auto simp: CORD_substr_closure_def\<close>)

definition substr_of :: "cord \<Rightarrow> nat \<Rightarrow> nat \<Rightarrow> cord \<Rightarrow> bool" where
  "substr_of x i n z \<longleftrightarrow> cord_ok z \<and> chars z = take n (drop i (chars x)) \<and> DEPTH z \<le> DEPTH x"

lemma closure_index:
  assumes "cord_ok (C_string s)" "i + n \<le> length s" "SUBSTR_LIMIT < n"
  shows "CORD_substr_closure (C_string s) i n CORD_index_access_fn =
      Inr (Function SUBSTR_HDR n (CORD_index_access_fn (C_string s) i))"
    "cord_ok (Function SUBSTR_HDR n (CORD_index_access_fn (C_string s) i))"
    "chars (Function SUBSTR_HDR n (CORD_index_access_fn (C_string s) i)) = take n (drop i s)"
proof -
  have "map (apply_fn (CORD_index_access_fn (C_string s) i)) [0..<n] = map (\<lambda>k. c_char s (k + i)) [0..<n]"
    by (rule map_cong) simp_all
  then show "chars (Function SUBSTR_HDR n (CORD_index_access_fn (C_string s) i)) = take n (drop i s)"
    using assms(2) by (simp add: map_upt_shift map_c_char)
qed (use assms CORD_substr_closure_node [of n CORD_index_access_fn "C_string s" i] in
    \<open>simp_all add: SUBSTR_LIMIT_def SHORT_LIMIT_def\<close>)

lemma closure_apply:
  assumes "cord_ok (Function h m fn)" "i + n \<le> m" "0 < n"
    and "SHORT_LIMIT < n \<or> NUL \<in> apply_fn fn ` {i..<i + n}"
  shows "CORD_substr_closure (Function h m fn) i n CORD_apply_access_fn =
      Inr (Function SUBSTR_HDR n (CORD_apply_access_fn (Function h m fn) i))"
    "cord_ok (Function SUBSTR_HDR n (CORD_apply_access_fn (Function h m fn) i))"
    "chars (Function SUBSTR_HDR n (CORD_apply_access_fn (Function h m fn) i)) =
       map (apply_fn fn) [i..<i + n]"
proof -
  have "apply_fn (CORD_apply_access_fn (Function h m fn) i) ` {0..<n} = (\<lambda>k. apply_fn fn (k + i)) ` {0..<n}"
    by (rule image_cong) simp_all
  also have "\<dots> = apply_fn fn ` {i..<i + n}"
    by (rule image_upt_shift)
  finally have "SHORT_LIMIT < n \<or>
      NUL \<in> apply_fn (CORD_apply_access_fn (Function h m fn) i) ` {0..<n}"
    using assms(4) by simp
  from CORD_substr_closure_node [where f = CORD_apply_access_fn, OF assms(3) this]
  show "CORD_substr_closure (Function h m fn) i n CORD_apply_access_fn =
      Inr (Function SUBSTR_HDR n (CORD_apply_access_fn (Function h m fn) i))" .
  show "cord_ok (Function SUBSTR_HDR n (CORD_apply_access_fn (Function h m fn) i))"
    using assms by simp
  show "chars (Function SUBSTR_HDR n (CORD_apply_access_fn (Function h m fn) i)) =
       map (apply_fn fn) [i..<i + n]"
    by (rule nth_equalityI) (simp_all add: add.commute)
qed

lemma to_int_small [simp]: "n < 2 ^ 31 \<Longrightarrow> to_int n = int n"
  by (simp add: to_int_def)

lemma substr_fn_chars_eq:
  assumes "i + n < 2 ^ 31"
  shows "substr_fn_chars f i n =
    Inr (if NUL \<in> f ` {i..<i + n} then None else Some (map f [i..<i + n]))"
proof -
  have size: "to_size (int i + int k) = k + i" if "k < n" for k
    using that assms by (simp add: to_size_def nat_add_distrib)
  have "map (\<lambda>k. f (to_size (int i + int k))) [0..<0 + n] = map (\<lambda>k. f (k + i)) [0..<n]"
    by (simp add: size)
  moreover have "(\<lambda>k. f (to_size (int i + int k))) ` {0..<0 + n} = f ` {i..<i + n}"
  proof -
    have "(\<lambda>k. f (to_size (int i + int k))) ` {0..<0 + n} = (\<lambda>k. f (k + i)) ` {0..<n}"
      by (rule image_cong) (simp_all add: size)
    also have "\<dots> = f ` {i..<i + n}"
      by (rule image_upt_shift)
    finally show ?thesis .
  qed
  ultimately show ?thesis
    using assms by (simp add: substr_fn_chars_def read_chars_eq map_upt_shift Let_def del: upt_Suc)
qed

lemma substr_function:
  assumes x: "cord_ok (Function h m fn)" and n: "0 < n" "i + n \<le> m" "m < 2 ^ 31"
  shows "\<exists>z. substr_checked_with balance (Function h m fn) i n = Inr z \<and>
    substr_of (Function h m fn) i n z"
proof -
  let ?x = "Function h m fn"
  have chars: "take n (drop i (chars ?x)) = map (apply_fn fn) [i..<i + n]"
    using n(2) by (simp add: take_drop_map_upt)
  have sub: "substr_of ?x i n z"
    if "cord_ok z" "chars z = map (apply_fn fn) [i..<i + n]" "DEPTH z = 0" for z
    using that by (simp only: substr_of_def chars) simp
  have generic: "substr_of ?x i n (Function SUBSTR_HDR n (CORD_apply_access_fn ?x i))"
    if "SHORT_LIMIT < n \<or> NUL \<in> apply_fn fn ` {i..<i + n}"
    by (rule sub [OF closure_apply(2,3) [OF x n(2,1) that]]) simp
  show ?thesis
  proof (cases "n > SUBSTR_LIMIT")
    case True
    then have long: "SHORT_LIMIT < n"
      by (simp add: SUBSTR_LIMIT_def)
    show ?thesis
    proof (cases fn)
      case (Client f)
      then show ?thesis
        using True long generic closure_apply(1) [OF x n(2,1)]
        by (cases h) (simp_all del: upt_Suc)
    next
      case (CORD_index_access_fn c j)
      then have h: "h = SUBSTR_HDR" and c: "CORD_IS_STRING c" "cord_ok c" "j + m \<le> CORD_len c"
        using x by simp_all
      from c(1) obtain s where s: "c = C_string s"
        by (rule CORD_IS_STRING_E)
      have len: "(i + j) + n \<le> length s"
        using c(3) n(2) by (simp add: s)
      have "map (apply_fn fn) [i..<i + n] = map (\<lambda>k. c_char s (k + (i + j))) [0..<n]"
        by (rule nth_equalityI) (simp_all add: CORD_index_access_fn s add_ac)
      also have "\<dots> = take n (drop (i + j) s)"
        using len by (simp add: map_upt_shift map_c_char)
      finally have "substr_of ?x i n (Function SUBSTR_HDR n (CORD_index_access_fn (C_string s) (i + j)))"
        by (intro sub closure_index(2) [OF c(2) [unfolded s] len True])
          (simp_all only: closure_index(3) [OF c(2) [unfolded s] len True] DEPTH.simps)
      then show ?thesis
        using True closure_index(1) [OF c(2) [unfolded s] len True] h
        by (simp add: CORD_index_access_fn s)
    next
      case (CORD_apply_access_fn c j)
      then have h: "h = SUBSTR_HDR" and c: "IS_FUNCTION c" "cord_ok c" "j + m \<le> CORD_len c"
        using x by simp_all
      from c(1) obtain h' m' f' where c': "c = Function h' m' f'"
        by (rule IS_FUNCTION_E)
      have len: "(i + j) + n \<le> m'"
        using c(3) n(2) by (simp add: c')
      have "map (apply_fn fn) [i..<i + n] = map (\<lambda>k. apply_fn f' (k + (i + j))) [0..<n]"
        by (rule nth_equalityI) (simp_all add: CORD_apply_access_fn c' add_ac)
      also have "\<dots> = map (apply_fn f') [i + j..<i + j + n]"
        by (rule map_upt_shift)
      finally have "substr_of ?x i n (Function SUBSTR_HDR n (CORD_apply_access_fn c (i + j)))"
        by (intro sub)
          (use closure_apply(2,3) [OF c(2) [unfolded c'] len n(1)] long in
            \<open>simp_all only: c' DEPTH.simps simp_thms\<close>)
      then show ?thesis
        using True closure_apply(1) [OF c(2) [unfolded c'] len n(1)] long h
        by (simp add: CORD_apply_access_fn c')
    qed
  next
    case False
    have read: "substr_fn_chars (apply_fn fn) i n = Inr (if NUL \<in> apply_fn fn ` {i..<i + n} then None
        else Some (map (apply_fn fn) [i..<i + n]))"
      by (rule substr_fn_chars_eq) (use n in simp)
    show ?thesis
    proof (cases "NUL \<in> apply_fn fn ` {i..<i + n}")
      case True
      then show ?thesis
        using False read generic closure_apply(1) [OF x n(2,1)] by simp
    next
      case no_nul: False
      have "substr_of ?x i n (C_string (map (apply_fn fn) [i..<i + n]))"
        by (rule sub) (use no_nul n(1) in auto)
      then show ?thesis
        using False read no_nul by simp
    qed
  qed
qed

declare substr_checked_with.simps(3) [simp del]

lemma substr_checked_ok:
  assumes "cord_ok x" "0 < n" "i + n \<le> CORD_len x" "CORD_len x < 2 ^ 31" "DEPTH x < MAX_DEPTH"
  shows "\<exists>z. substr_checked_with balance x i n = Inr z \<and> substr_of x i n z"
  using assms
proof (induction x arbitrary: i n rule: chars.induct)
  case 1
  then show ?case
    by simp
next
  case (2 s)
  show ?case
  proof (cases "SUBSTR_LIMIT < n")
    case True
    have len: "i + n \<le> length s"
      using "2.prems"(3) by simp
    have "substr_of (C_string s) i n (Function SUBSTR_HDR n (CORD_index_access_fn (C_string s) i))"
      using closure_index(2,3) [OF "2.prems"(1) len True] by (simp only: substr_of_def) simp
    then show ?thesis
      using True closure_index(1) [OF "2.prems"(1) len True] by simp
  next
    case False
    have "set (take n (drop i s)) \<subseteq> set s"
      by (meson set_drop_subset set_take_subset subset_trans)
    then have "substr_of (C_string s) i n (C_string (take n (drop i s)))"
      using "2.prems"(1-3) by (auto simp: substr_of_def)
    then show ?thesis
      using False by simp
  qed
next
  case (3 d ll m left right)
  let ?x = "Concatenation d ll m left right"
  have ok: "cord_ok left" "cord_ok right" "m = CORD_len left + CORD_len right"
    and depth: "d = 1 + max (DEPTH left) (DEPTH right)"
    using "3.prems"(1) by simp_all
  have left: "LEFT_LEN ll m left right = CORD_len left"
    using "3.prems"(1) by (rule LEFT_LEN_eq)
  have eq: "substr_checked_with balance ?x i n =
      (if CORD_len left \<le> i then
         (if n = CORD_len right then Inr right
          else substr_checked_with balance right (i - CORD_len left) n)
       else if i + n \<le> CORD_len left then
         (if n = CORD_len left then Inr left else substr_checked_with balance left i n)
       else
         sbind (if i = 0 then Inr left else substr_checked_with balance left i (CORD_len left - i)) (\<lambda>l.
         sbind (if i + n = CORD_len left + CORD_len right then Inr right
                else substr_checked_with balance right 0 (n - (CORD_len left - i))) (\<lambda>r.
           cat_with balance l r)))"
    by (simp only: substr_checked_with.simps left Let_def) (simp add: ok(3) add.commute)
  have len: "length (chars left) = CORD_len left" "length (chars right) = CORD_len right"
    using ok by simp_all
  have dl: "DEPTH left < MAX_DEPTH" "DEPTH right < MAX_DEPTH" "DEPTH left < d" "DEPTH right < d"
    and ll: "CORD_len left < 2 ^ 31" "CORD_len right < 2 ^ 31"
    using "3.prems"(4,5) depth ok(3) by auto
  note IHl = "3.IH"(1) [OF ok(1) _ _ ll(1) dl(1)] and IHr = "3.IH"(2) [OF ok(2) _ _ ll(2) dl(2)]
  have up_left: "substr_of ?x i n z" if "substr_of left i n z" "i + n \<le> CORD_len left" for z
    using that dl(3) len by (simp add: substr_of_def)
  have up_right: "substr_of ?x i n z"
    if "substr_of right (i - CORD_len left) n z" "CORD_len left \<le> i" for z
    using that dl(4) len by (simp add: substr_of_def)
  have whole_left: "substr_of left 0 (CORD_len left) left" and
    whole_right: "substr_of right 0 (CORD_len right) right"
    using ok len by (simp_all add: substr_of_def)
  have n: "0 < n" "i + n \<le> CORD_len left + CORD_len right"
    using "3.prems"(2,3) ok(3) by simp_all
  consider (right) "CORD_len left \<le> i" | (left) "i + n \<le> CORD_len left"
    | (both) "i < CORD_len left" "CORD_len left < i + n"
    by linarith
  then show ?case
  proof cases
    case right
    obtain z where z: "substr_checked_with balance ?x i n = Inr z" "substr_of right (i - CORD_len left) n z"
    proof (cases "n = CORD_len right")
      case True
      have "i - CORD_len left = 0"
        using right n True by simp
      have "substr_checked_with balance ?x i n = Inr right"
        unfolding eq using right True by simp
      then show ?thesis
        using \<open>i - CORD_len left = 0\<close> True whole_right by (intro that) simp_all
    next
      case False
      have "(i - CORD_len left) + n \<le> CORD_len right"
        using right n(2) by simp
      from IHr [OF n(1) this] show ?thesis
        using that right False by (auto simp: eq)
    qed
    then show ?thesis
      using up_right right by blast
  next
    case left': left
    obtain z where z: "substr_checked_with balance ?x i n = Inr z" "substr_of left i n z"
    proof (cases "n = CORD_len left")
      case True
      have "substr_checked_with balance ?x i n = Inr left"
        unfolding eq using left' n True by simp
      moreover have "i = 0"
        using left' True by simp
      ultimately show ?thesis
        using True whole_left by (intro that) simp_all
    next
      case False
      from IHl [OF n(1) left'] show ?thesis
        using that left' n False by (auto simp: eq)
    qed
    then show ?thesis
      using up_left left' by blast
  next
    case both
    let ?k = "CORD_len left - i"
    obtain zl where zl: "(if i = 0 then Inr left else substr_checked_with balance left i ?k) = Inr zl"
      "substr_of left i ?k zl"
      using whole_left IHl [of ?k i] both by (cases "i = 0") auto
    obtain zr where zr: "(if i + n = CORD_len left + CORD_len right then Inr right
        else substr_checked_with balance right 0 (n - ?k)) = Inr zr" "substr_of right 0 (n - ?k) zr"
    proof (cases "i + n = CORD_len left + CORD_len right")
      case True
      then have "n - ?k = CORD_len right"
        using both by simp
      then show ?thesis
        using that [of right] True whole_right by simp
    next
      case False
      have "0 < n - ?k" "0 + (n - ?k) \<le> CORD_len right"
        using both n by simp_all
      from IHr [OF this] show ?thesis
        using that False by auto
    qed
    have parts: "cord_ok zl" "cord_ok zr" "DEPTH zl \<le> DEPTH left" "DEPTH zr \<le> DEPTH right"
      using zl(2) zr(2) by (simp_all add: substr_of_def)
    have shallow: "1 + max (DEPTH zl) (DEPTH zr) < MAX_DEPTH" "DEPTH zl < MAX_DEPTH" "DEPTH zr < MAX_DEPTH"
      using parts(3,4) depth "3.prems"(5) by auto
    obtain z where z: "cat_with balance zl zr = Inr z" "cord_wf z" "chars z = chars zl @ chars zr"
      and dz: "DEPTH z \<le> (if zl = CORD_EMPTY then DEPTH zr else if zr = CORD_EMPTY then DEPTH zl
        else 1 + max (DEPTH zl) (DEPTH zr))"
      by (rule cat_shallow [of zl zr balance]) (use parts shallow in auto)
    have "chars z = take n (drop i (chars ?x))"
      using zl(2) zr(2) both len by (simp add: z(3) substr_of_def)
    moreover have "z \<noteq> CORD_EMPTY"
      using z(3) parts(1) cord_ok_len [OF parts(1)] length_chars [of zl] by fastforce
    moreover have "DEPTH z \<le> d"
      using dz parts depth by (auto split: if_splits)
    ultimately have "substr_of ?x i n z"
      using z(2) by (simp add: substr_of_def cord_wf_def)
    moreover have "substr_checked_with balance ?x i n = Inr z"
      using both zl(1) zr(1) z(1) by (simp add: eq)
    ultimately show ?thesis
      by blast
  qed
next
  case (4 h m fn)
  then show ?case
    using substr_function [of h m fn n i balance] by simp
qed

lemma CORD_substr_ok:
  assumes "cord_inv x" "CORD_len x < 2 ^ 31" "i + n < 2 ^ 64"
  shows "\<exists>z. CORD_substr k x i n = Inr z \<and> cord_inv z \<and> chars z = take n (drop i (chars x))"
proof (cases "CORD_len x \<le> i \<or> n = 0")
  case True
  then show ?thesis
    using assms(1) by (auto simp: CORD_substr_def substr_with_def cord_inv_def)
next
  case False
  define n' where "n' = (if (i + n) mod 2 ^ 64 > CORD_len x then CORD_len x - i else n)"
  have x: "cord_ok x" "DEPTH x < MAX_DEPTH"
    using assms(1) False by (auto simp: cord_inv_def cord_wf_def)
  have n': "0 < n'" "i + n' \<le> CORD_len x" "take n' (drop i (chars x)) = take n (drop i (chars x))"
    using False assms(1,3) by (auto simp: n'_def cord_inv_def)
  obtain z where "substr_checked_with (CORD_balance k) x i n' = Inr z" "substr_of x i n' z"
    using substr_checked_ok [OF x(1) n'(1,2) assms(2) x(2)] by blast
  moreover have "CORD_substr k x i n = substr_checked_with (CORD_balance k) x i n'"
    using False by (simp add: CORD_substr_def substr_with_def n'_def Let_def)
  ultimately show ?thesis
    using n'(3) x(2) by (auto simp: substr_of_def cord_inv_def)
qed

section \<open>Properties\<close>

text \<open>C19: \<open>CORD_substr\<close> of a cord below the depth limit returns a well-formed cord below the depth
  limit for the characters that C indices \<open>i, \<dots>, i + n - 1\<close> select, cut off at the end of the
  cord; on strings, on the three cases of concatenations, on functions with and without NULs and on
  substrings of substrings. It never stores a header into a string. The lengths have to fit the
  \<open>int\<close>s of the loop over functions and the sum \<open>i + n\<close> a \<open>size_t\<close>.\<close>

theorem substr_correct:
  assumes "cord_inv x" "CORD_len x < 2 ^ 31" "i + n < 2 ^ 64"
  shows "\<exists>z. CORD_substr k x i n = Inr z \<and> cord_inv z \<and> chars z = take n (drop i (chars x))"
  using assms by (rule CORD_substr_ok)

theorem substr_correct_witness:
  "\<exists>z. CORD_substr 0 spine_cord 1 3 = Inr z \<and> cord_inv z \<and> chars z = ''bcd''"
proof -
  have "cord_inv spine_cord"
    by (simp add: cord_inv_def spine_cord_ok spine_cord_len MAX_DEPTH_def)
  then show ?thesis
    using substr_correct [of spine_cord 1 3 0] by (simp add: spine_cord_len)
qed

text \<open>C26: beyond those bounds the code goes wrong. When \<open>i + n\<close> wraps around, the test that cuts \<open>n\<close>
  off does not fire, and the result is a substring node that claims \<open>n\<close> characters and reads past the
  end of the string. When a short substring of a function reaches index \<open>2 ^ 31\<close>, the loop over \<open>int\<close>s
  is not entered and the uninitialised buffer is copied.\<close>

theorem substr_overflow:
  assumes "0 < i" "i < CORD_len x" "i + n = m"
  shows "(\<forall>s. x = C_string s \<and> m = 2 ^ 64 \<and> length s < 2 ^ 32 \<longrightarrow>
      CORD_substr k x i n = Inr (Function SUBSTR_HDR n (CORD_index_access_fn x i)) \<and>
      length s < CORD_len (Function SUBSTR_HDR n (CORD_index_access_fn x i))) \<and>
    (IS_FUNCTION x \<and> i < 2 ^ 31 \<and> 2 ^ 31 \<le> m \<and> m \<le> CORD_len x \<and> 0 < n \<and> n \<le> SUBSTR_LIMIT \<and>
      CORD_len x < 2 ^ 32 \<longrightarrow>
      CORD_substr k x i n = Inl (Undefined ''uninitialised buffer''))"
proof (intro conjI allI impI)
  fix s
  assume s: "x = C_string s \<and> m = 2 ^ 64 \<and> length s < 2 ^ 32"
  then have n: "length s < n" "SUBSTR_LIMIT < n"
    using assms by (simp_all add: SUBSTR_LIMIT_def SHORT_LIMIT_def)
  have "CORD_substr_closure x i n CORD_index_access_fn =
      Inr (Function SUBSTR_HDR n (CORD_index_access_fn x i))"
    by (rule CORD_substr_closure_node) (use n in \<open>simp_all add: SUBSTR_LIMIT_def\<close>)
  then show "CORD_substr k x i n = Inr (Function SUBSTR_HDR n (CORD_index_access_fn x i))"
    using s n assms by (simp add: CORD_substr_def substr_with_def Let_def)
  show "length s < CORD_len (Function SUBSTR_HDR n (CORD_index_access_fn x i))"
    using n by simp
next
  assume x: "IS_FUNCTION x \<and> i < 2 ^ 31 \<and> 2 ^ 31 \<le> m \<and> m \<le> CORD_len x \<and> 0 < n \<and>
    n \<le> SUBSTR_LIMIT \<and> CORD_len x < 2 ^ 32"
  then obtain h l fn where f: "x = Function h l fn"
    by (auto elim: IS_FUNCTION_E)
  have "to_int m < 0"
    using x by (simp add: to_int_def f)
  then have "substr_fn_chars (apply_fn fn) i n = Inl (Undefined ''uninitialised buffer'')"
    using x assms(3) by (simp add: substr_fn_chars_def)
  then show "CORD_substr k x i n = Inl (Undefined ''uninitialised buffer'')"
    using x assms by (auto simp: f CORD_substr_def substr_with_def Let_def)
qed

theorem substr_overflow_witness:
  "CORD_substr 0 (C_string ''ab'') 1 (2 ^ 64 - 1) =
     Inr (Function SUBSTR_HDR (2 ^ 64 - 1) (CORD_index_access_fn (C_string ''ab'') 1)) \<and>
   CORD_substr 0 (Function FN_HDR (2 ^ 31 + 1) (Client (\<lambda>_. CHR ''x''))) (2 ^ 31 - 1) 2 =
     Inl (Undefined ''uninitialised buffer'')"
  using substr_overflow [of 1 "C_string ''ab''" "2 ^ 64 - 1" "2 ^ 64" 0]
    substr_overflow [of "2 ^ 31 - 1" "Function FN_HDR (2 ^ 31 + 1) (Client (\<lambda>_. CHR ''x''))" 2
      "2 ^ 31 + 1" 0]
  by (simp add: SUBSTR_LIMIT_def SHORT_LIMIT_def)

end
