(* ===== verification/CordIter.thy ===== *)
theory CordIter
  imports CordSubstr
begin

text \<open>
  Iteration over cords (\<open>CORD_iter5\<close>, \<open>CORD_riter4\<close> in \<open>cord/cordbscs.c\<close>) and the functions of
  \<open>cord/cordxtra.c\<close> that are calls of it: filling a buffer, conversion to a C string, output to a
  file and the search for a character.

  A callback gets a character, or for the batched one a C string, and the client data; it returns
  whether to stop, and the new client data. It may stop the program.
\<close>

section \<open>Iteration\<close>

type_synonym 'd iter_fn = "char \<Rightarrow> 'd \<Rightarrow> stop + bool \<times> 'd"
type_synonym 'd batched_fn = "string \<Rightarrow> 'd \<Rightarrow> stop + bool \<times> 'd"

fun iter_chars :: "'d iter_fn \<Rightarrow> string \<Rightarrow> 'd \<Rightarrow> stop + bool \<times> 'd" where
  "iter_chars f1 [] d = Inr (False, d)"
| "iter_chars f1 (c # cs) d =
     sbind (f1 c d) (\<lambda>(b, d'). if b then Inr (True, d') else iter_chars f1 cs d')"

text \<open>
  The start index \<open>i\<close> is checked against the NUL of the string; past the NUL the check reads memory
  that is not part of the string.
\<close>

fun CORD_iter5 ::
  "cord \<Rightarrow> nat \<Rightarrow> 'd iter_fn \<Rightarrow> 'd batched_fn option \<Rightarrow> 'd \<Rightarrow> stop + bool \<times> 'd" where
  "CORD_iter5 CORD_EMPTY i f1 f2 d = Inr (False, d)"
| "CORD_iter5 (C_string s) i f1 f2 d =
     (if i = length s then Inl (Abort ''2nd arg to CORD_iter5 too big'')
      else if i > length s then Inl (Undefined ''read past a string'')
      else (case f2 of
          Some g \<Rightarrow> g (drop i s) d
        | None \<Rightarrow> iter_chars f1 (drop i s) d))"
| "CORD_iter5 (Concatenation dp ll len left right) i f1 f2 d =
     (let left_len = LEFT_LEN ll len left right in
      if i > 0 \<and> i \<ge> left_len then CORD_iter5 right (i - left_len) f1 f2 d
      else sbind (CORD_iter5 left i f1 f2 d) (\<lambda>(b, d').
        if b then Inr (True, d') else CORD_iter5 right 0 f1 f2 d'))"
| "CORD_iter5 (Function h lim fn) i f1 f2 d = iter_chars f1 (map (apply_fn fn) [i..<lim]) d"

definition CORD_iter :: "cord \<Rightarrow> 'd iter_fn \<Rightarrow> 'd \<Rightarrow> stop + bool \<times> 'd" where
  "CORD_iter x f1 d = CORD_iter5 x 0 f1 None d"

fun CORD_riter4 :: "cord \<Rightarrow> nat \<Rightarrow> 'd iter_fn \<Rightarrow> 'd \<Rightarrow> stop + bool \<times> 'd" where
  "CORD_riter4 CORD_EMPTY i f1 d = Inr (False, d)"
| "CORD_riter4 (C_string s) i f1 d =
     (if i = length s then Inl (Abort ''2nd arg to CORD_riter4 too big'')
      else if i > length s then Inl (Undefined ''read past a string'')
      else iter_chars f1 (rev (take (Suc i) s)) d)"
| "CORD_riter4 (Concatenation dp ll len left right) i f1 d =
     (let left_len = LEFT_LEN ll len left right in
      if i \<ge> left_len then
        sbind (CORD_riter4 right (i - left_len) f1 d) (\<lambda>(b, d').
          if b then Inr (True, d') else CORD_riter4 left (left_len - 1) f1 d')
      else CORD_riter4 left i f1 d)"
| "CORD_riter4 (Function h len fn) i f1 d = iter_chars f1 (rev (map (apply_fn fn) [0..<Suc i])) d"

definition CORD_riter :: "cord \<Rightarrow> 'd iter_fn \<Rightarrow> 'd \<Rightarrow> stop + bool \<times> 'd" where
  "CORD_riter x f1 d =
     (let len = CORD_len x in if len = 0 then Inr (False, d) else CORD_riter4 x (len - 1) f1 d)"

section \<open>Filling a buffer\<close>

record CORD_fill_data =
  fd_len :: nat
  fd_count :: nat
  fd_buf :: "char list"

text \<open>A store into the buffer; past its end it is undefined.\<close>

definition store_char :: "char list \<Rightarrow> nat \<Rightarrow> char \<Rightarrow> stop + char list" where
  "store_char buf i c = (if i < length buf then Inr (buf[i := c])
     else Inl (Undefined ''store past the buffer''))"

definition CORD_fill_proc :: "CORD_fill_data iter_fn" where
  "CORD_fill_proc c d =
     sbind (store_char (fd_buf d) (fd_count d) c) (\<lambda>buf.
       let count = fd_count d + 1; d' = d\<lparr>fd_buf := buf, fd_count := count\<rparr> in
       Inr (count \<ge> fd_len d, d'))"

text \<open>
  The batched version copies up to and including the NUL of the string, or until the buffer is full.
\<close>

fun batched_fill_loop :: "string \<Rightarrow> nat \<Rightarrow> nat \<Rightarrow> char list \<Rightarrow> stop + bool \<times> nat \<times> char list" where
  "batched_fill_loop [] count max_len buf =
     sbind (store_char buf count NUL) (\<lambda>buf. Inr (False, count, buf))"
| "batched_fill_loop (c # t) count max_len buf =
     sbind (store_char buf count c) (\<lambda>buf.
       if count + 1 \<ge> max_len then Inr (True, count + 1, buf)
       else batched_fill_loop t (count + 1) max_len buf)"

definition CORD_batched_fill_proc :: "CORD_fill_data batched_fn" where
  "CORD_batched_fill_proc s d =
     sbind (batched_fill_loop s (fd_count d) (fd_len d) (fd_buf d)) (\<lambda>(b, count, buf).
       Inr (b, d\<lparr>fd_count := count, fd_buf := buf\<rparr>))"

definition CORD_fill_buf :: "cord \<Rightarrow> nat \<Rightarrow> nat \<Rightarrow> char list \<Rightarrow> stop + char list" where
  "CORD_fill_buf x i len buf =
     sbind (CORD_iter5 x i CORD_fill_proc (Some CORD_batched_fill_proc)
       \<lparr>fd_len = len, fd_count = 0, fd_buf = buf\<rparr>) (\<lambda>(_, d). Inr (fd_buf d))"

text \<open>
  The block of \<open>len + 1\<close> bytes that the allocator returns has arbitrary contents \<open>block\<close>.
\<close>

definition CORD_to_char_star :: "cord \<Rightarrow> char list \<Rightarrow> stop + char list" where
  "CORD_to_char_star x block =
     (let len = CORD_len x in
      sbind (CORD_fill_buf x 0 len block) (\<lambda>result. store_char result len NUL))"

definition CORD_from_char_star :: "string \<Rightarrow> cord" where
  "CORD_from_char_star s = (let len = length s in
     if len = 0 then CORD_EMPTY else C_string (take len s))"

text \<open>The C string that a block holds: what is before its first NUL.\<close>

definition c_string_of :: "char list \<Rightarrow> string" where
  "c_string_of block = takeWhile (\<lambda>c. c \<noteq> NUL) block"

definition CORD_to_const_char_star :: "cord \<Rightarrow> char list \<Rightarrow> stop + char list" where
  "CORD_to_const_char_star x block = (case x of
      CORD_EMPTY \<Rightarrow> Inr [NUL]
    | C_string s \<Rightarrow> Inr (s @ [NUL])
    | _ \<Rightarrow> CORD_to_char_star x block)"

section \<open>Output\<close>

text \<open>
  A file that is written: what it holds, and how many more characters it takes before writing fails.
\<close>

record out_file =
  out_chars :: string
  out_room :: nat

definition CORD_put_proc :: "out_file iter_fn" where
  "CORD_put_proc c f = (if out_room f = 0 then Inr (True, f)
     else Inr (False, f\<lparr>out_chars := out_chars f @ [c], out_room := out_room f - 1\<rparr>))"

definition CORD_batched_put_proc :: "out_file batched_fn" where
  "CORD_batched_put_proc s f = Inr (out_room f < length s,
     f\<lparr>out_chars := out_chars f @ take (out_room f) s, out_room := out_room f - length s\<rparr>)"

definition EOF :: int where
  "EOF = - 1"

definition CORD_put :: "cord \<Rightarrow> out_file \<Rightarrow> stop + int \<times> out_file" where
  "CORD_put x f =
     sbind (CORD_iter5 x 0 CORD_put_proc (Some CORD_batched_put_proc) f) (\<lambda>(b, f').
       Inr (if b then EOF else 1, f'))"

section \<open>Search for a character\<close>

record chr_data =
  chr_pos :: nat
  chr_target :: char

text \<open>The position is a \<open>size_t\<close>: below 0 it wraps around.\<close>

definition CORD_chr_proc :: "chr_data iter_fn" where
  "CORD_chr_proc c d = (if c = chr_target d then Inr (True, d)
     else Inr (False, d\<lparr>chr_pos := chr_pos d + 1\<rparr>))"

definition CORD_rchr_proc :: "chr_data iter_fn" where
  "CORD_rchr_proc c d = (if c = chr_target d then Inr (True, d)
     else Inr (False, d\<lparr>chr_pos := (if chr_pos d = 0 then 2 ^ 64 - 1 else chr_pos d - 1)\<rparr>))"

text \<open>\<open>strchr\<close> as an offset; the NUL that ends the string counts as part of it.\<close>

definition strchr_off :: "string \<Rightarrow> char \<Rightarrow> nat option" where
  "strchr_off s c = (let n = length (takeWhile (\<lambda>x. x \<noteq> c) (s @ [NUL])) in
     if n \<le> length s then Some n else None)"

definition CORD_batched_chr_proc :: "chr_data batched_fn" where
  "CORD_batched_chr_proc s d = (case strchr_off s (chr_target d) of
      None \<Rightarrow> Inr (False, d\<lparr>chr_pos := chr_pos d + length s\<rparr>)
    | Some occ \<Rightarrow> Inr (True, d\<lparr>chr_pos := chr_pos d + occ\<rparr>))"

definition CORD_NOT_FOUND :: nat where
  "CORD_NOT_FOUND = 2 ^ 64 - 1"

definition CORD_chr :: "cord \<Rightarrow> nat \<Rightarrow> char \<Rightarrow> stop + nat" where
  "CORD_chr x i c =
     sbind (CORD_iter5 x i CORD_chr_proc (Some CORD_batched_chr_proc)
       \<lparr>chr_pos = i, chr_target = c\<rparr>) (\<lambda>(b, d). Inr (if b then chr_pos d else CORD_NOT_FOUND))"

definition CORD_rchr :: "cord \<Rightarrow> nat \<Rightarrow> char \<Rightarrow> stop + nat" where
  "CORD_rchr x i c =
     sbind (CORD_riter4 x i CORD_rchr_proc \<lparr>chr_pos = i, chr_target = c\<rparr>) (\<lambda>(b, d).
       Inr (if b then chr_pos d else CORD_NOT_FOUND))"

section \<open>Iteration visits the characters in order\<close>

lemma iter_chars_append:
  "iter_chars f1 (xs @ ys) d =
     sbind (iter_chars f1 xs d) (\<lambda>(b, d'). if b then Inr (True, d') else iter_chars f1 ys d')"
proof (induction xs arbitrary: d)
  case (Cons c cs)
  show ?case
  proof (cases "f1 c d")
    case (Inr r)
    then show ?thesis
      by (cases r) (simp add: Cons.IH)
  qed simp
qed simp

text \<open>
  A batched callback may leave other data behind than the calls for the single characters (the copy
  into a buffer leaves a NUL behind the string, for example). The data are related by \<open>R\<close> while the
  iteration goes on and by \<open>Q\<close> when it has been stopped.
\<close>

definition rel_res ::
  "('d \<Rightarrow> 'd \<Rightarrow> bool) \<Rightarrow> ('d \<Rightarrow> 'd \<Rightarrow> bool) \<Rightarrow> stop + bool \<times> 'd \<Rightarrow> stop + bool \<times> 'd \<Rightarrow> bool" where
  "rel_res R Q r r' = (case (r, r') of
      (Inl e, Inl e') \<Rightarrow> e = e'
    | (Inr (b, d), Inr (b', d')) \<Rightarrow> b = b' \<and> (if b then Q d d' else R d d')
    | _ \<Rightarrow> False)"

lemma rel_res_simps [simp]:
  "rel_res R Q (Inl e) (Inl e') \<longleftrightarrow> e = e'"
  "rel_res R Q (Inr (b, d)) (Inr (b', d')) \<longleftrightarrow> b = b' \<and> (if b then Q d d' else R d d')"
  "\<not> rel_res R Q (Inl e) (Inr s)" "\<not> rel_res R Q (Inr s) (Inl e)"
  by (simp_all add: rel_res_def split: prod.splits)

lemma rel_resE:
  assumes "rel_res R Q r r'"
  obtains e where "r = Inl e" "r' = Inl e"
  | d d' where "r = Inr (True, d)" "r' = Inr (True, d')" "Q d d'"
  | d d' where "r = Inr (False, d)" "r' = Inr (False, d')" "R d d'"
  using assms that by (cases r; cases r') (auto split: if_splits)

lemma rel_res_bind:
  assumes "rel_res R Q r r'" "\<And>d d'. R d d' \<Longrightarrow> rel_res R Q (k d) (k' d')"
  shows "rel_res R Q (sbind r (\<lambda>(b, d). if b then Inr (True, d) else k d))
    (sbind r' (\<lambda>(b, d). if b then Inr (True, d) else k' d))"
  using assms by (auto elim!: rel_resE)

lemma rel_iter_chars:
  assumes "\<forall>c d e. R d e \<longrightarrow> rel_res R Q (f1 c d) (f1 c e)" "R d e"
  shows "rel_res R Q (iter_chars f1 cs d) (iter_chars f1 cs e)"
  using assms(2)
proof (induction cs arbitrary: d e)
  case (Cons c cs)
  show ?case
    by (simp only: iter_chars.simps) (rule rel_res_bind, use assms(1) Cons in auto)
qed simp

lemma CORD_iter5_sim:
  assumes "cord_ok x" "i < CORD_len x"
    and "\<forall>c d e. R d e \<longrightarrow> rel_res R Q (f1 c d) (f1 c e)"
    and "\<forall>g s d e. f2 = Some g \<longrightarrow> s \<noteq> [] \<longrightarrow> NUL \<notin> set s \<longrightarrow> R d e \<longrightarrow>
      rel_res R Q (g s d) (iter_chars f1 s e)"
    and "R d e"
  shows "rel_res R Q (CORD_iter5 x i f1 f2 d) (iter_chars f1 (drop i (chars x)) e)"
  using assms
proof (induction x arbitrary: i d e rule: chars.induct)
  case (2 s)
  have "NUL \<notin> set (drop i s)"
    using "2.prems"(1) by (auto dest: in_set_dropD)
  then show ?case
    using "2.prems" rel_iter_chars [OF "2.prems"(3,5)] by (cases f2) simp_all
next
  case (3 dp ll n left right)
  have ok: "cord_ok left" "cord_ok right" "n = CORD_len left + CORD_len right"
    using "3.prems"(1) by simp_all
  have len: "length (chars left) = CORD_len left" "0 < CORD_len left" "0 < CORD_len right"
    using ok(1,2) by (simp_all add: cord_ok_len)
  have left: "LEFT_LEN ll n left right = CORD_len left"
    using "3.prems"(1) by (rule LEFT_LEN_eq)
  show ?case
  proof (cases "CORD_len left \<le> i")
    case True
    then show ?thesis
      using "3.IH"(2) [OF ok(2) _ "3.prems"(3,4), of "i - CORD_len left" d e] "3.prems"(2,5) ok(3)
        len left by simp
  next
    case False
    have "rel_res R Q (CORD_iter5 left i f1 f2 d) (iter_chars f1 (drop i (chars left)) e)"
      using "3.IH"(1) [OF ok(1) _ "3.prems"(3,4), of i d e] False "3.prems"(5) by simp
    moreover have "rel_res R Q (CORD_iter5 right 0 f1 f2 d') (iter_chars f1 (chars right) e')"
      if "R d' e'" for d' e'
      using "3.IH"(2) [OF ok(2) _ "3.prems"(3,4), of 0 d' e'] len that by simp
    ultimately have "rel_res R Q
        (sbind (CORD_iter5 left i f1 f2 d) (\<lambda>(b, d). if b then Inr (True, d)
           else CORD_iter5 right 0 f1 f2 d))
        (sbind (iter_chars f1 (drop i (chars left)) e) (\<lambda>(b, d). if b then Inr (True, d)
           else iter_chars f1 (chars right) d))"
      by (rule rel_res_bind)
    then show ?thesis
      using False len left by (simp add: iter_chars_append Let_def)
  qed
next
  case (4 h n fn)
  then show ?case
    using rel_iter_chars [OF "4.prems"(3,5)] by (simp add: drop_map)
qed simp

text \<open>The case of callbacks that agree.\<close>

lemma CORD_iter5_ok:
  assumes "cord_ok x" "i < CORD_len x"
    and "\<forall>g s d. f2 = Some g \<longrightarrow> s \<noteq> [] \<longrightarrow> NUL \<notin> set s \<longrightarrow> I d \<longrightarrow> g s d = iter_chars f1 s d"
    and "\<forall>c d d'. I d \<longrightarrow> f1 c d = Inr (False, d') \<longrightarrow> I d'" "I d"
  shows "CORD_iter5 x i f1 f2 d = iter_chars f1 (drop i (chars x)) d"
proof -
  let ?R = "\<lambda>d e. d = e \<and> I d"
  have refl: "rel_res ?R (=) r r" if "\<forall>d'. r = Inr (False, d') \<longrightarrow> I d'" for r
    using that by (cases r) (auto simp: rel_res_def)
  have keep: "I d'" if "iter_chars f1 cs d = Inr (False, d')" "I d" for cs d d'
    using that
  proof (induction cs arbitrary: d)
    case (Cons c cs)
    then show ?case
      using assms(4) by (auto simp: sbind_eq_Inr split: if_splits)
  qed simp
  have "rel_res ?R (=) (CORD_iter5 x i f1 f2 d) (iter_chars f1 (drop i (chars x)) d)"
    using assms by (intro CORD_iter5_sim) (auto intro!: refl intro: keep)
  then show ?thesis
    by (auto elim!: rel_resE)
qed

lemma CORD_riter4_ok:
  assumes "cord_ok x" "i < CORD_len x"
  shows "CORD_riter4 x i f1 d = iter_chars f1 (rev (take (Suc i) (chars x))) d"
  using assms
proof (induction x arbitrary: i d rule: chars.induct)
  case (3 dp ll n left right)
  have ok: "cord_ok left" "cord_ok right" "n = CORD_len left + CORD_len right"
    using "3.prems"(1) by simp_all
  have len: "length (chars left) = CORD_len left" "0 < CORD_len left" "0 < CORD_len right"
    using ok(1,2) by (simp_all add: cord_ok_len)
  have left: "LEFT_LEN ll n left right = CORD_len left"
    using "3.prems"(1) by (rule LEFT_LEN_eq)
  show ?case
  proof (cases "CORD_len left \<le> i")
    case True
    have "CORD_riter4 left (CORD_len left - 1) f1 d' = iter_chars f1 (rev (chars left)) d'" for d'
      using "3.IH"(1) [OF ok(1), of "CORD_len left - 1" d'] len by simp
    moreover have "CORD_riter4 right (i - CORD_len left) f1 d =
        iter_chars f1 (rev (take (Suc i - CORD_len left) (chars right))) d"
      using "3.IH"(2) [OF ok(2), of "i - CORD_len left" d] "3.prems"(2) ok(3) True
      by (simp add: Suc_diff_le)
    ultimately show ?thesis
      using True len left
      by (simp add: iter_chars_append Let_def case_prod_unfold del: One_nat_def cong: if_cong)
  next
    case False
    then show ?thesis
      using "3.IH"(1) [OF ok(1), of i d] len left by simp
  qed
next
  case (4 h n fn)
  then show ?case
    by (simp add: take_map del: upt_Suc)
qed simp_all

section \<open>Filling a buffer\<close>

definition filled :: "CORD_fill_data \<Rightarrow> CORD_fill_data \<Rightarrow> bool" where
  "filled d e \<longleftrightarrow> fd_len d = fd_len e \<and> fd_count d = fd_count e \<and> length (fd_buf d) = length (fd_buf e) \<and>
     take (fd_count d) (fd_buf d) = take (fd_count e) (fd_buf e) \<and> fd_len d \<le> length (fd_buf d)"

abbreviation filling :: "CORD_fill_data \<Rightarrow> CORD_fill_data \<Rightarrow> bool" where
  "filling d e \<equiv> filled d e \<and> fd_count d < fd_len d"

abbreviation full :: "CORD_fill_data \<Rightarrow> CORD_fill_data \<Rightarrow> bool" where
  "full d e \<equiv> filled d e \<and> fd_count d = fd_len d"

lemma store_char_ok [simp]: "i < length buf \<Longrightarrow> store_char buf i c = Inr (buf[i := c])"
  by (simp add: store_char_def)

lemma take_Suc_update: "k < length xs \<Longrightarrow> take (Suc k) (xs[k := c]) = take k xs @ [c]"
  by (simp add: take_Suc_conv_app_nth)

lemma fill_proc_sim: "filling d e \<Longrightarrow> rel_res filling full (CORD_fill_proc c d) (CORD_fill_proc c e)"
  by (auto simp: filled_def CORD_fill_proc_def Let_def take_Suc_update)

lemma batched_fill_sim:
  "filling d e \<Longrightarrow> rel_res filling full (CORD_batched_fill_proc s d) (iter_chars CORD_fill_proc s e)"
proof (induction s arbitrary: d e)
  case Nil
  then show ?case
    by (clarsimp simp: CORD_batched_fill_proc_def filled_def)
next
  case (Cons c s)
  let ?d = "d\<lparr>fd_buf := (fd_buf d)[fd_count d := c], fd_count := fd_count d + 1\<rparr>"
  let ?e = "e\<lparr>fd_buf := (fd_buf e)[fd_count e := c], fd_count := fd_count e + 1\<rparr>"
  have small: "fd_count d < length (fd_buf d)" "fd_count e < length (fd_buf e)"
    using Cons.prems by (auto simp: filled_def)
  have filled: "filled ?d ?e"
    using Cons.prems small by (clarsimp simp: filled_def take_Suc_update)
  have e: "CORD_fill_proc c e = Inr (fd_count e + 1 \<ge> fd_len e, ?e)"
    using small by (simp add: CORD_fill_proc_def Let_def)
  show ?case
  proof (cases "fd_count d + 1 \<ge> fd_len d")
    case True
    then have "CORD_batched_fill_proc (c # s) d = Inr (True, ?d)"
      using small by (simp add: CORD_batched_fill_proc_def)
    moreover have "fd_count d + 1 = fd_len d" "fd_count e + 1 \<ge> fd_len e"
      using True Cons.prems by (auto simp: filled_def)
    ultimately show ?thesis
      using filled by (simp add: e)
  next
    case False
    then have "CORD_batched_fill_proc (c # s) d = CORD_batched_fill_proc s ?d"
      using small by (simp add: CORD_batched_fill_proc_def)
    moreover have "\<not> fd_count e + 1 \<ge> fd_len e"
      using False Cons.prems by (auto simp: filled_def)
    ultimately show ?thesis
      using Cons.IH [of ?d ?e] filled False by (simp add: e)
  qed
qed

lemma iter_fill:
  assumes "fd_count d < fd_len d" "fd_len d \<le> length (fd_buf d)"
  shows "iter_chars CORD_fill_proc cs d =
    (if fd_len d \<le> fd_count d + length cs
     then Inr (True, d\<lparr>fd_count := fd_len d, fd_buf := take (fd_count d) (fd_buf d) @
       take (fd_len d - fd_count d) cs @ drop (fd_len d) (fd_buf d)\<rparr>)
     else Inr (False, d\<lparr>fd_count := fd_count d + length cs, fd_buf := take (fd_count d) (fd_buf d) @
       cs @ drop (fd_count d + length cs) (fd_buf d)\<rparr>))"
  using assms
proof (induction cs arbitrary: d)
  case Nil
  then show ?case
    by simp
next
  case (Cons c cs)
  let ?d = "d\<lparr>fd_buf := (fd_buf d)[fd_count d := c], fd_count := fd_count d + 1\<rparr>"
  have small: "fd_count d < length (fd_buf d)"
    using Cons.prems by simp
  have step: "CORD_fill_proc c d = Inr (fd_count d + 1 \<ge> fd_len d, ?d)"
    using small by (simp add: CORD_fill_proc_def Let_def)
  show ?case
  proof (cases "fd_count d + 1 \<ge> fd_len d")
    case True
    then have "fd_len d = Suc (fd_count d)"
      using Cons.prems(1) by simp
    then show ?thesis
      using True small by (simp add: step upd_conv_take_nth_drop)
  next
    case False
    then have "fd_len d - fd_count d = Suc (fd_len d - Suc (fd_count d))"
      by simp
    then show ?thesis
      using Cons.IH [of ?d] Cons.prems small False by (simp add: step take_Suc_update)
  qed
qed

lemma CORD_fill_buf_ok:
  assumes "cord_ok x" "i < CORD_len x" "0 < len" "i + len \<le> CORD_len x" "len \<le> length buf"
  shows "\<exists>buf'. CORD_fill_buf x i len buf = Inr buf' \<and> length buf' = length buf \<and>
    take len buf' = take len (drop i (chars x))"
proof -
  let ?d = "\<lparr>fd_len = len, fd_count = 0, fd_buf = buf\<rparr>"
  let ?cs = "drop i (chars x)"
  have len_x: "length (chars x) = CORD_len x"
    using assms(1) by simp
  have "rel_res filling full (CORD_iter5 x i CORD_fill_proc (Some CORD_batched_fill_proc) ?d)
      (iter_chars CORD_fill_proc ?cs ?d)"
    by (rule CORD_iter5_sim [OF assms(1,2)])
      (use assms in \<open>auto simp: fill_proc_sim batched_fill_sim filled_def [of ?d]\<close>)
  moreover have "iter_chars CORD_fill_proc ?cs ?d = Inr (True, \<lparr>fd_len = len, fd_count = len,
      fd_buf = take len ?cs @ drop len buf\<rparr>)"
    using iter_fill [of ?d ?cs] assms(3-5) len_x by simp
  ultimately show ?thesis
    using assms(5) len_x assms(4) by (auto simp: CORD_fill_buf_def filled_def elim!: rel_resE)
qed

lemma CORD_to_char_star_ok:
  assumes "cord_wf x" "length block = CORD_len x + 1"
  shows "CORD_to_char_star x block = Inr (chars x @ [NUL])"
proof (cases "x = CORD_EMPTY")
  case True
  then show ?thesis
    using assms(2) by (cases block) (simp_all add: CORD_to_char_star_def CORD_fill_buf_def)
next
  case False
  then have x: "cord_ok x"
    using assms(1) by (simp add: cord_wf_def)
  have len: "0 < CORD_len x" "length (chars x) = CORD_len x"
    using x by (simp_all add: cord_ok_len)
  obtain buf where buf: "CORD_fill_buf x 0 (CORD_len x) block = Inr buf" "length buf = CORD_len x + 1"
    "take (CORD_len x) buf = chars x"
    using CORD_fill_buf_ok [OF x len(1) len(1), of block] assms(2) len(2) by auto
  then have "buf[CORD_len x := NUL] = chars x @ [NUL]"
    by (simp add: upd_conv_take_nth_drop)
  then show ?thesis
    using buf(1,2) by (simp add: CORD_to_char_star_def)
qed

section \<open>Output and search\<close>

lemma iter_put:
  "iter_chars CORD_put_proc cs f = CORD_batched_put_proc cs f"
proof (induction cs arbitrary: f)
  case (Cons c cs)
  show ?case
  proof (cases "out_room f")
    case 0
    then show ?thesis
      by (simp add: CORD_put_proc_def CORD_batched_put_proc_def)
  next
    case (Suc r)
    let ?f = "f\<lparr>out_chars := out_chars f @ [c], out_room := r\<rparr>"
    have "CORD_put_proc c f = Inr (False, ?f)"
      using Suc by (simp add: CORD_put_proc_def)
    then have "iter_chars CORD_put_proc (c # cs) f = CORD_batched_put_proc cs ?f"
      by (simp add: Cons.IH)
    then show ?thesis
      using Suc by (simp add: CORD_batched_put_proc_def)
  qed
qed (simp add: CORD_batched_put_proc_def)

text \<open>\<open>CORD_put\<close> writes the characters, or as many as the file takes and reports \<open>EOF\<close>.\<close>

lemma CORD_put_ok:
  assumes "cord_wf x"
  shows "CORD_put x f = Inr (if out_room f < CORD_len x then EOF else 1,
    f\<lparr>out_chars := out_chars f @ take (out_room f) (chars x), out_room := out_room f - CORD_len x\<rparr>)"
proof (cases "x = CORD_EMPTY")
  case True
  then show ?thesis
    by (simp add: CORD_put_def)
next
  case False
  then have x: "cord_ok x" "0 < CORD_len x"
    using assms by (auto simp: cord_wf_def cord_ok_len)
  have "CORD_iter5 x 0 CORD_put_proc (Some CORD_batched_put_proc) f = CORD_batched_put_proc (chars x) f"
    using CORD_iter5_ok [OF x, of "Some CORD_batched_put_proc" "\<lambda>_. True" CORD_put_proc f]
    by (simp add: iter_put)
  then show ?thesis
    using assms by (simp add: CORD_put_def CORD_batched_put_proc_def)
qed

lemma iter_chr:
  "iter_chars CORD_chr_proc cs d =
    (let n = length (takeWhile (\<lambda>c. c \<noteq> chr_target d) cs) in
     Inr (n < length cs, d\<lparr>chr_pos := chr_pos d + n\<rparr>))"
proof (induction cs arbitrary: d)
  case (Cons c cs)
  then show ?case
    by (auto simp: CORD_chr_proc_def Let_def)
qed (simp add: Let_def)

lemma strchr_off_eq:
  "c \<noteq> NUL \<Longrightarrow> strchr_off s c =
    (let n = length (takeWhile (\<lambda>x. x \<noteq> c) s) in if n < length s then Some n else None)"
  by (cases "c \<in> set s")
    (simp_all add: strchr_off_def Let_def takeWhile_neq_append length_takeWhile_neq less_imp_le
      takeWhile_neq_all)

lemma batched_chr:
  assumes "chr_target d \<noteq> NUL"
  shows "CORD_batched_chr_proc s d = iter_chars CORD_chr_proc s d"
proof (cases "chr_target d \<in> set s")
  case True
  then show ?thesis
    using assms
    by (simp add: CORD_batched_chr_proc_def iter_chr strchr_off_eq Let_def length_takeWhile_neq)
next
  case False
  then show ?thesis
    using assms
    by (simp add: CORD_batched_chr_proc_def iter_chr strchr_off_eq Let_def length_takeWhile_neq
      takeWhile_neq_all)
qed

lemma CORD_chr_ok:
  assumes "cord_wf x" "i < CORD_len x" "c \<noteq> NUL"
  shows "CORD_chr x i c = Inr (let n = length (takeWhile (\<lambda>a. a \<noteq> c) (drop i (chars x))) in
    if i + n < CORD_len x then i + n else CORD_NOT_FOUND)"
proof -
  have x: "cord_ok x"
    using assms(1,2) by (auto simp: cord_wf_def)
  let ?I = "\<lambda>d. chr_target d = c"
  have "CORD_iter5 x i CORD_chr_proc (Some CORD_batched_chr_proc) \<lparr>chr_pos = i, chr_target = c\<rparr> =
      iter_chars CORD_chr_proc (drop i (chars x)) \<lparr>chr_pos = i, chr_target = c\<rparr>"
    by (rule CORD_iter5_ok [OF x assms(2), where I = ?I])
      (use assms(3) in \<open>auto simp: batched_chr CORD_chr_proc_def\<close>)
  then show ?thesis
    using assms(1,2) by (auto simp: CORD_chr_def iter_chr Let_def)
qed

lemma iter_rchr:
  "length cs \<le> chr_pos d + 1 \<Longrightarrow>
    \<exists>d'. iter_chars CORD_rchr_proc cs d =
      Inr (chr_target d \<in> set cs, d') \<and>
      (chr_target d \<in> set cs \<longrightarrow> chr_pos d' = chr_pos d - length (takeWhile (\<lambda>c. c \<noteq> chr_target d) cs))"
proof (induction cs arbitrary: d)
  case (Cons c cs)
  let ?d = "d\<lparr>chr_pos := (if chr_pos d = 0 then 2 ^ 64 - 1 else chr_pos d - 1)\<rparr>"
  show ?case
  proof (cases "c = chr_target d")
    case False
    have "cs = [] \<or> chr_pos d \<noteq> 0"
      using Cons.prems by auto
    then show ?thesis
      using Cons.IH [of ?d] Cons.prems False by (auto simp: CORD_rchr_proc_def)
  qed (simp add: CORD_rchr_proc_def)
qed simp

lemma CORD_rchr_ok:
  assumes "cord_wf x" "i < CORD_len x"
  shows "CORD_rchr x i c = Inr (let n = length (takeWhile (\<lambda>a. a \<noteq> c) (rev (take (Suc i) (chars x)))) in
    if n \<le> i then i - n else CORD_NOT_FOUND)"
proof -
  have x: "cord_ok x" and len: "length (chars x) = CORD_len x"
    using assms(1,2) by (auto simp: cord_wf_def)
  let ?cs = "rev (take (Suc i) (chars x))"
  have lcs: "length ?cs = Suc i"
    using assms(2) len by simp
  obtain d' where d': "iter_chars CORD_rchr_proc ?cs \<lparr>chr_pos = i, chr_target = c\<rparr> =
      Inr (c \<in> set ?cs, d')" "c \<in> set ?cs \<longrightarrow> chr_pos d' = i - length (takeWhile (\<lambda>a. a \<noteq> c) ?cs)"
    using iter_rchr [of ?cs "\<lparr>chr_pos = i, chr_target = c\<rparr>"] lcs by auto
  have "c \<in> set ?cs \<longleftrightarrow> length (takeWhile (\<lambda>a. a \<noteq> c) ?cs) \<le> i"
    by (simp only: length_takeWhile_neq [symmetric] lcs less_Suc_eq_le)
  then show ?thesis
    using d' CORD_riter4_ok [OF x assms(2), of CORD_rchr_proc] by (simp add: CORD_rchr_def Let_def)
qed

section \<open>Properties\<close>

text \<open>A cord that ends with a function node whose last character is NUL, for the witnesses.\<close>

definition nul_cord :: cord where
  "nul_cord = Concatenation 1 2 5 (C_string ''ab'')
     (Function FN_HDR 3 (Client (\<lambda>i. if i = 2 then NUL else CHR ''c'')))"

lemma nul_cord_ok: "cord_ok nul_cord" "CORD_len nul_cord = 5"
    "chars nul_cord = [CHR ''a'', CHR ''b'', CHR ''c'', CHR ''c'', NUL]"
  by (simp_all add: nul_cord_def NUL_def MAX_LEFT_LEN_def numeral_3_eq_3)

text \<open>C24: the conversion of a cord to a C string fills the new block with the characters of the cord,
  NULs included, and a final NUL, whatever the block held; it never stores past the block although the
  batched copy also stores the NULs of the pieces. Converting a string without NULs back gives a cord
  for the same string, and writing the cord to a file writes these characters or reports \<open>EOF\<close>.\<close>

theorem to_char_star_correct:
  assumes "cord_wf x" "length block = CORD_len x + 1"
  shows "CORD_to_char_star x block = Inr (chars x @ [NUL]) \<and>
    (NUL \<notin> set (chars x) \<longrightarrow> cord_inv (CORD_from_char_star (c_string_of (chars x @ [NUL]))) \<and>
      chars (CORD_from_char_star (c_string_of (chars x @ [NUL]))) = chars x) \<and>
    CORD_put x f = Inr (if out_room f < CORD_len x then EOF else 1,
      f\<lparr>out_chars := out_chars f @ take (out_room f) (chars x), out_room := out_room f - CORD_len x\<rparr>)"
proof -
  have "c_string_of (chars x @ [NUL]) = chars x" if "NUL \<notin> set (chars x)"
    using that by (simp add: c_string_of_def takeWhile_neq_append)
  then show ?thesis
    using CORD_to_char_star_ok [OF assms] CORD_put_ok [OF assms(1), of f]
    by (simp add: CORD_from_char_star_def Let_def)
qed

theorem to_char_star_correct_witness:
  "CORD_to_char_star nul_cord ''??????'' = Inr [CHR ''a'', CHR ''b'', CHR ''c'', CHR ''c'', NUL, NUL] \<and>
   CORD_put nul_cord \<lparr>out_chars = [], out_room = 3\<rparr> = Inr (EOF, \<lparr>out_chars = ''abc'', out_room = 0\<rparr>)"
  using to_char_star_correct [of nul_cord "''??????''" "\<lparr>out_chars = [], out_room = 3\<rparr>"]
  by (simp add: nul_cord_ok)

text \<open>\<open>CORD_chr\<close> and \<open>CORD_rchr\<close> return the first index from \<open>i\<close> on, the last index down from \<open>i\<close>,
  at which the cord has the character, or \<open>CORD_NOT_FOUND\<close>. For the NUL character \<open>CORD_chr\<close> is
  wrong: on a C string, which has none, it reports the index behind the last character.\<close>

theorem chr_correct:
  assumes "cord_wf x" "i < CORD_len x" "CORD_len x < CORD_NOT_FOUND"
  shows "(c \<noteq> NUL \<longrightarrow> (\<exists>p. CORD_chr x i c = Inr p \<and>
      (p = CORD_NOT_FOUND \<and> c \<notin> set (drop i (chars x)) \<or>
       i \<le> p \<and> p < CORD_len x \<and> chars x ! p = c \<and> c \<notin> set (drop i (take p (chars x)))))) \<and>
    (\<exists>p. CORD_rchr x i c = Inr p \<and>
      (p = CORD_NOT_FOUND \<and> c \<notin> set (take (Suc i) (chars x)) \<or>
       p \<le> i \<and> chars x ! p = c \<and> c \<notin> set (drop (Suc p) (take (Suc i) (chars x))))) \<and>
    (\<forall>s. x = C_string s \<longrightarrow> CORD_chr x i NUL = Inr (length s))"
proof (intro conjI impI allI)
  have len: "length (chars x) = CORD_len x"
    using assms(1) by simp
  {
    assume c: "c \<noteq> NUL"
    let ?n = "length (takeWhile (\<lambda>a. a \<noteq> c) (drop i (chars x)))"
    have chr: "CORD_chr x i c = Inr (if i + ?n < CORD_len x then i + ?n else CORD_NOT_FOUND)"
      using CORD_chr_ok [OF assms(1,2) c] by (simp add: Let_def)
    have mem: "c \<in> set (drop i (chars x)) \<longleftrightarrow> i + ?n < CORD_len x"
      using assms(2) len by (simp add: length_takeWhile_neq [symmetric] less_diff_conv add.commute)
    show "\<exists>p. CORD_chr x i c = Inr p \<and>
      (p = CORD_NOT_FOUND \<and> c \<notin> set (drop i (chars x)) \<or>
       i \<le> p \<and> p < CORD_len x \<and> chars x ! p = c \<and> c \<notin> set (drop i (take p (chars x))))"
    proof (cases "c \<in> set (drop i (chars x))")
      case True
      then have n: "?n < length (drop i (chars x))"
        by (simp only: length_takeWhile_neq)
      then have "chars x ! (i + ?n) = c"
        using nth_length_takeWhile [of "\<lambda>a. a \<noteq> c" "drop i (chars x)"] by simp
      moreover have "c \<notin> set (drop i (take (i + ?n) (chars x)))"
        using takeWhile_neq_take [of c "drop i (chars x)"] by (simp add: drop_take)
      ultimately show ?thesis
        using True mem chr by auto
    next
      case False
      then show ?thesis
        using mem chr by auto
    qed
  }
  let ?r = "rev (take (Suc i) (chars x))"
  let ?n = "length (takeWhile (\<lambda>a. a \<noteq> c) ?r)"
  have rchr: "CORD_rchr x i c = Inr (if ?n \<le> i then i - ?n else CORD_NOT_FOUND)"
    using CORD_rchr_ok [OF assms(1,2)] by (simp add: Let_def)
  have lr: "length ?r = Suc i"
    using assms(2) len by simp
  have mem: "c \<in> set ?r \<longleftrightarrow> ?n \<le> i"
    by (simp only: length_takeWhile_neq [symmetric] lr less_Suc_eq_le)
  show "\<exists>p. CORD_rchr x i c = Inr p \<and>
      (p = CORD_NOT_FOUND \<and> c \<notin> set (take (Suc i) (chars x)) \<or>
       p \<le> i \<and> chars x ! p = c \<and> c \<notin> set (drop (Suc p) (take (Suc i) (chars x))))"
  proof (cases "c \<in> set ?r")
    case True
    then have n: "?n \<le> i"
      using mem by simp
    then have "?r ! ?n = c"
      using nth_length_takeWhile [of "\<lambda>a. a \<noteq> c" ?r] lr by simp
    then have "chars x ! (i - ?n) = c"
      using n assms(2) len by (simp add: rev_nth)
    moreover have "c \<notin> set (take ?n ?r)"
      by (rule takeWhile_neq_take)
    then have "c \<notin> set (drop (Suc (i - ?n)) (take (Suc i) (chars x)))"
      using n assms(2) len by (simp add: take_rev Suc_diff_le)
    ultimately show ?thesis
      using rchr n by auto
  next
    case False
    then show ?thesis
      using mem rchr by auto
  qed
next
  fix s
  assume s: "x = C_string s"
  then have "NUL \<notin> set (drop i s)"
    using assms(1,2) by (auto simp: cord_wf_def dest: in_set_dropD)
  then show "CORD_chr x i NUL = Inr (length s)"
    using assms(2) by (simp add: s CORD_chr_def CORD_batched_chr_proc_def strchr_off_def
      takeWhile_neq_append takeWhile_neq_all Let_def)
qed

theorem chr_correct_witness:
  "\<exists>p. CORD_chr nul_cord 1 (CHR ''c'') = Inr p \<and> (p = 2 \<or> p = 3 \<or> p = CORD_NOT_FOUND) \<and>
    CORD_chr (C_string ''abc'') 1 NUL = Inr 3"
proof -
  have small: "CORD_len nul_cord < CORD_NOT_FOUND" "CORD_len (C_string ''abc'') < CORD_NOT_FOUND"
    by (simp_all add: CORD_NOT_FOUND_def nul_cord_ok)
  have wf: "cord_wf nul_cord" "cord_wf (C_string ''abc'')"
    by (simp_all add: nul_cord_ok NUL_def cord_wf_def)
  have c: "CHR ''c'' \<noteq> NUL"
    by (simp add: NUL_def)
  have "CORD_chr (C_string ''abc'') 1 NUL = Inr 3"
    using chr_correct [OF wf(2) _ small(2), of 1 NUL] by simp
  moreover obtain p where p: "CORD_chr nul_cord 1 (CHR ''c'') = Inr p"
      "p = CORD_NOT_FOUND \<or> 1 \<le> p \<and> p < 5 \<and> chars nul_cord ! p = CHR ''c''"
    using chr_correct [OF wf(1) _ small(1), of 1 "CHR ''c''"] c by (auto simp: nul_cord_ok(2))
  moreover have "p = 2 \<or> p = 3 \<or> p = CORD_NOT_FOUND"
  proof -
    have "p = 1 \<or> p = 2 \<or> p = 3 \<or> p = 4" if "1 \<le> p" "p < 5"
      using that by linarith
    then show ?thesis
      using p(2) c by (auto simp: nul_cord_ok(3))
  qed
  ultimately show ?thesis
    by blast
qed

end
