(* ===== verification/CordPos.thy ===== *)
theory CordPos
  imports CordIter
begin

text \<open>
  Positions in cords (\<open>include/cord_pos.h\<close> and the second half of \<open>cord/cordbscs.c\<close>).

  A position holds the path from the cord to the leaf with the current character, and a cache: the
  leaf if it is a string, or the next few characters of a function in \<open>function_buf\<close>. Positions are
  modified in place; here every operation returns the new position. The macros \<open>CORD_pos_fetch\<close>,
  \<open>CORD_next\<close> and \<open>CORD_prev\<close> of the header, which hide the functions of the same names from all
  clients that do not undefine them, are the definitions with the plain names; the functions have
  the suffix \<open>_fn\<close>.
\<close>

section \<open>The code\<close>

datatype leaf_ptr =
    Leaf_string string   \<comment> \<open>the start of a C string\<close>
  | Function_buf         \<comment> \<open>\<open>function_buf\<close> of the same position\<close>

record CORD_pos =
  cur_pos :: nat
  path_len :: nat
  cur_leaf :: leaf_ptr
  cur_start :: nat
  cur_end :: nat
  path :: "(cord \<times> nat) list"   \<comment> \<open>\<open>pe_cord\<close>, \<open>pe_start_pos\<close>; \<open>MAX_DEPTH + 1\<close> entries\<close>
  function_buf :: "char list"

definition CORD_POS_INVALID :: nat where
  "CORD_POS_INVALID = 0x55555555"

definition FUNCTION_BUF_SZ :: nat where
  "FUNCTION_BUF_SZ = 8"

text \<open>An entry of the path, and the step to the next entry, within the array.\<close>

definition path_at :: "CORD_pos \<Rightarrow> nat \<Rightarrow> stop + cord \<times> nat" where
  "path_at p k = (if k < length (path p) then Inr (path p ! k) else Inl (Undefined ''index of path''))"

definition push_entry :: "cord \<Rightarrow> nat \<Rightarrow> CORD_pos \<Rightarrow> stop + CORD_pos" where
  "push_entry c s p = (if path_len p + 1 < length (path p)
     then Inr (p\<lparr>path := (path p)[path_len p + 1 := (c, s)], path_len := path_len p + 1\<rparr>)
     else Inl (Undefined ''index of path''))"

text \<open>The loop of \<open>CORD__extend_path\<close>: the leaf, its start and its length, and the new position.\<close>

fun extend_loop ::
  "cord \<Rightarrow> nat \<Rightarrow> nat \<Rightarrow> CORD_pos \<Rightarrow> stop + cord \<times> nat \<times> nat \<times> CORD_pos" where
  "extend_loop (Concatenation d ll n left right) top_pos top_len p =
     (let left_len = LEFT_LEN ll n left right in
      if cur_pos p \<ge> top_pos + left_len then
        sbind (push_entry right (top_pos + left_len) p) (\<lambda>p.
          extend_loop right (top_pos + left_len) (top_len - left_len) p)
      else
        sbind (push_entry left top_pos p) (\<lambda>p. extend_loop left top_pos left_len p))"
| "extend_loop tp top_pos top_len p = Inr (tp, top_pos, top_len, p)"

definition CORD_extend_path :: "CORD_pos \<Rightarrow> stop + CORD_pos" where
  "CORD_extend_path p =
     sbind (path_at p (path_len p)) (\<lambda>(tp, top_pos).
     sbind (extend_loop tp top_pos (GEN_LEN tp) p) (\<lambda>(tp, top_pos, top_len, p).
       let p = (case tp of
             C_string s \<Rightarrow> p\<lparr>cur_leaf := Leaf_string s, cur_start := top_pos, cur_end := top_pos + top_len\<rparr>
           | _ \<Rightarrow> p\<lparr>cur_end := 0\<rparr>) in
       Inr (if cur_pos p \<ge> top_pos + top_len then p\<lparr>path_len := CORD_POS_INVALID\<rparr> else p)))"

definition CORD__pos_fetch :: "CORD_pos \<Rightarrow> stop + char" where
  "CORD__pos_fetch p =
     sbind (path_at p (path_len p)) (\<lambda>(leaf, start). case leaf of
         Function h n fn \<Rightarrow> Inr (apply_fn fn (cur_pos p - start))
       | _ \<Rightarrow> Inl (Abort ''CORD_pos_fetch: bad leaf''))"

text \<open>
  Popping the stack: \<open>CORD__next\<close> looks for an entry that starts where its parent starts,
  \<open>CORD__prev\<close> for one that does not.
\<close>

fun pop_path :: "bool \<Rightarrow> CORD_pos \<Rightarrow> nat \<Rightarrow> nat" where
  "pop_path same p 0 = 0"
| "pop_path same p (Suc k) =
     (if (snd (path p ! Suc k) = snd (path p ! k)) = same then Suc k else pop_path same p k)"

definition CORD__next :: "CORD_pos \<Rightarrow> stop + CORD_pos" where
  "CORD__next p =
     (let cur = cur_pos p + 1 in
      sbind (path_at p (path_len p)) (\<lambda>(leaf, start_pos).
        let p = p\<lparr>cur_pos := cur\<rparr>;
            pop = (let k = pop_path True p (path_len p) in
              if k = 0 then Inr (p\<lparr>path_len := CORD_POS_INVALID\<rparr>)
              else CORD_extend_path (p\<lparr>path_len := k - 1\<rparr>)) in
        case leaf of
          Function h n fn \<Rightarrow>
            let end_pos = start_pos + n in
            if cur < end_pos then
              let limit = min (cur + FUNCTION_BUF_SZ) end_pos;
                  chs = map (\<lambda>i. apply_fn fn (i - start_pos)) [cur..<limit] in
              Inr (p\<lparr>function_buf := chs @ drop (limit - cur) (function_buf p), cur_start := cur,
                cur_leaf := Function_buf, cur_end := limit\<rparr>)
            else pop
        | _ \<Rightarrow> pop))"

definition CORD__prev :: "CORD_pos \<Rightarrow> stop + CORD_pos" where
  "CORD__prev p =
     (if cur_pos p = 0 then Inr (p\<lparr>path_len := CORD_POS_INVALID\<rparr>)
      else
        let p = p\<lparr>cur_pos := cur_pos p - 1\<rparr> in
        sbind (path_at p (path_len p)) (\<lambda>(leaf, start_pos).
          if cur_pos p \<ge> start_pos then Inr p
          else
            let k = pop_path False p (path_len p) in
            if k = 0 then Inl (Undefined ''index of path'')
            else CORD_extend_path (p\<lparr>path_len := k - 1\<rparr>)))"

text \<open>Reading the cache at an offset, which is a difference of \<open>size_t\<close>s.\<close>

definition cache_char :: "CORD_pos \<Rightarrow> stop + char" where
  "cache_char p =
     (if cur_pos p < cur_start p then Inl (Undefined ''read before the cache'')
      else let k = cur_pos p - cur_start p in
      case cur_leaf p of
        Leaf_string s \<Rightarrow> if k \<le> length s then Inr (c_char s k)
          else Inl (Undefined ''read past the cache'')
      | Function_buf \<Rightarrow> if k < length (function_buf p) then Inr (function_buf p ! k)
          else Inl (Undefined ''read past the cache''))"

definition CORD_pos_fetch_fn :: "CORD_pos \<Rightarrow> stop + char" where
  "CORD_pos_fetch_fn p =
     (if cur_start p \<le> cur_pos p \<and> cur_pos p < cur_end p then cache_char p else CORD__pos_fetch p)"

text \<open>\<open>cur_end - 1\<close> is a \<open>size_t\<close> and wraps around when there is no cache.\<close>

definition CORD_next_fn :: "CORD_pos \<Rightarrow> stop + CORD_pos" where
  "CORD_next_fn p =
     (if cur_pos p < (if cur_end p = 0 then 2 ^ 64 - 1 else cur_end p - 1)
      then Inr (p\<lparr>cur_pos := cur_pos p + 1\<rparr>) else CORD__next p)"

definition CORD_prev_fn :: "CORD_pos \<Rightarrow> stop + CORD_pos" where
  "CORD_prev_fn p =
     (if cur_end p \<noteq> 0 \<and> cur_pos p > cur_start p then Inr (p\<lparr>cur_pos := cur_pos p - 1\<rparr>)
      else CORD__prev p)"

definition CORD_pos_fetch :: "CORD_pos \<Rightarrow> stop + char" where
  "CORD_pos_fetch p = (if cur_end p \<noteq> 0 then cache_char p else CORD__pos_fetch p)"

definition CORD_next :: "CORD_pos \<Rightarrow> stop + CORD_pos" where
  "CORD_next p =
     (if cur_pos p + 1 < cur_end p then Inr (p\<lparr>cur_pos := cur_pos p + 1\<rparr>) else CORD__next p)"

definition CORD_prev :: "CORD_pos \<Rightarrow> stop + CORD_pos" where
  "CORD_prev p =
     (if cur_end p \<noteq> 0 \<and> cur_pos p > cur_start p then Inr (p\<lparr>cur_pos := cur_pos p - 1\<rparr>)
      else CORD__prev p)"

definition CORD_pos_to_index :: "CORD_pos \<Rightarrow> nat" where
  "CORD_pos_to_index p = cur_pos p"

definition CORD_pos_to_cord :: "CORD_pos \<Rightarrow> cord" where
  "CORD_pos_to_cord p = fst (path p ! 0)"

definition CORD_pos_valid :: "CORD_pos \<Rightarrow> bool" where
  "CORD_pos_valid p \<longleftrightarrow> path_len p \<noteq> CORD_POS_INVALID"

text \<open>The position whose memory \<open>CORD_set_pos\<close> fills has arbitrary contents \<open>p\<close>.\<close>

definition CORD_set_pos :: "CORD_pos \<Rightarrow> cord \<Rightarrow> nat \<Rightarrow> stop + CORD_pos" where
  "CORD_set_pos p x i =
     (if (case x of CORD_EMPTY \<Rightarrow> True | _ \<Rightarrow> False) then Inr (p\<lparr>path_len := CORD_POS_INVALID\<rparr>)
      else CORD_extend_path (p\<lparr>path := (path p)[0 := (x, 0)], path_len := 0, cur_pos := i\<rparr>))"

text \<open>\<open>CORD_pos_chars_left\<close> and \<open>CORD_pos_advance\<close>.\<close>

definition CORD_pos_chars_left :: "CORD_pos \<Rightarrow> int" where
  "CORD_pos_chars_left p = int (cur_end p) - int (cur_pos p)"

definition CORD_pos_advance :: "CORD_pos \<Rightarrow> nat \<Rightarrow> stop + CORD_pos" where
  "CORD_pos_advance p n = CORD_next (p\<lparr>cur_pos := cur_pos p + n - 1\<rparr>)"

definition CORD_fetch :: "CORD_pos \<Rightarrow> cord \<Rightarrow> nat \<Rightarrow> stop + char" where
  "CORD_fetch p x i =
     sbind (CORD_set_pos p x i) (\<lambda>p.
       if \<not> CORD_pos_valid p then Inl (Abort ''bad index?'') else CORD_pos_fetch p)"

section \<open>Paths\<close>

fun child :: "cord \<times> nat \<Rightarrow> cord \<times> nat \<Rightarrow> bool" where
  "child (Concatenation d ll n left right, s) e = (e = (left, s) \<or> e = (right, s + CORD_len left))"
| "child _ e = False"

definition path_to :: "(cord \<times> nat) list \<Rightarrow> cord \<Rightarrow> nat \<Rightarrow> bool" where
  "path_to pa x k \<longleftrightarrow> length pa = MAX_DEPTH + 1 \<and> cord_ok x \<and> DEPTH x < MAX_DEPTH \<and>
     pa ! 0 = (x, 0) \<and> k \<le> DEPTH x \<and> (\<forall>j<k. child (pa ! j) (pa ! Suc j))"

text \<open>An entry of a path stands for the segment of the cord that begins at its start.\<close>

definition segment :: "cord \<Rightarrow> cord \<Rightarrow> nat \<Rightarrow> bool" where
  "segment x c s \<longleftrightarrow> cord_ok c \<and> s + CORD_len c \<le> CORD_len x \<and>
     take (CORD_len c) (drop s (chars x)) = chars c"

lemma segment_nth: "segment x c s \<Longrightarrow> cord_ok x \<Longrightarrow> i < CORD_len c \<Longrightarrow> chars c ! i = chars x ! (s + i)"
  unfolding segment_def by (metis add_leD1 cord_wf_simps(2) length_chars nth_drop nth_take)

lemma segment_child:
  assumes "segment x c s" "child (c, s) (c', s')"
  shows "segment x c' s'" "DEPTH c' < DEPTH c"
    "s' = s \<longleftrightarrow> (\<exists>d ll n r. c = Concatenation d ll n c' r \<and> s' = s)"
    "s \<le> s'" "s' + CORD_len c' \<le> s + CORD_len c"
    "s' \<noteq> s \<Longrightarrow> s' + CORD_len c' = s + CORD_len c"
proof -
  obtain d ll n l r where c: "c = Concatenation d ll n l r" and
    e: "(c', s') = (l, s) \<or> (c', s') = (r, s + CORD_len l)"
    using assms(2) by (cases c) auto
  have ok: "cord_ok l" "cord_ok r" "n = CORD_len l + CORD_len r" "d = 1 + max (DEPTH l) (DEPTH r)"
    and len: "s + n \<le> CORD_len x" and take: "take n (drop s (chars x)) = chars l @ chars r"
    using assms(1) by (auto simp: segment_def c)
  have ll: "length (chars l) = CORD_len l" "length (chars r) = CORD_len r" "0 < CORD_len l"
    using ok(1,2) by (simp_all add: cord_ok_len)
  have "take (CORD_len l) (drop s (chars x)) = chars l"
    using arg_cong [OF take, of "take (CORD_len l)"] ok(3) ll by simp
  moreover have "take (CORD_len r) (drop (s + CORD_len l) (chars x)) = chars r"
    using arg_cong [OF take, of "drop (CORD_len l)"] ok(3) ll
    by (simp add: drop_take add.commute)
  ultimately show "segment x c' s'"
    using e ok len by (auto simp: segment_def)
  show "DEPTH c' < DEPTH c" "s \<le> s'" "s' + CORD_len c' \<le> s + CORD_len c"
    "s' \<noteq> s \<Longrightarrow> s' + CORD_len c' = s + CORD_len c"
    using e ok by (auto simp: c)
  show "s' = s \<longleftrightarrow> (\<exists>d ll n r. c = Concatenation d ll n c' r \<and> s' = s)"
    using e ll(3) by (auto simp: c)
qed

lemma path_to_segment:
  assumes "path_to pa x k" "j \<le> k"
  shows "segment x (fst (pa ! j)) (snd (pa ! j)) \<and> DEPTH (fst (pa ! j)) + j \<le> DEPTH x"
  using assms(2)
proof (induction j)
  case 0
  have "length (chars x) = CORD_len x"
    using assms(1) by (simp add: path_to_def)
  then show ?case
    using assms(1) by (simp add: path_to_def segment_def)
next
  case (Suc j)
  then have seg: "segment x (fst (pa ! j)) (snd (pa ! j))" and depth: "DEPTH (fst (pa ! j)) + j \<le> DEPTH x"
    by simp_all
  have "child (fst (pa ! j), snd (pa ! j)) (fst (pa ! Suc j), snd (pa ! Suc j))"
    using assms(1) Suc.prems by (simp add: path_to_def)
  from segment_child [OF seg this] show ?case
    using depth by simp
qed

lemma path_to_prefix: "path_to pa x k \<Longrightarrow> j \<le> k \<Longrightarrow> path_to pa x j"
  by (simp add: path_to_def)

lemma path_to_bound: "path_to pa x k \<Longrightarrow> k < MAX_DEPTH"
  by (simp add: path_to_def)

lemma path_to_push:
  assumes "path_to pa x k" "child (pa ! k) e"
  shows "path_to (pa[Suc k := e]) x (Suc k)"
proof -
  have seg: "segment x (fst (pa ! k)) (snd (pa ! k))" "DEPTH (fst (pa ! k)) + k \<le> DEPTH x"
    using path_to_segment [OF assms(1), of k] by simp_all
  have "child (fst (pa ! k), snd (pa ! k)) (fst e, snd e)"
    using assms(2) by simp
  from segment_child(2) [OF seg(1) this] have "Suc k \<le> DEPTH x"
    using seg(2) by simp
  then show ?thesis
    using assms by (auto simp: path_to_def nth_list_update less_Suc_eq)
qed

lemma path_to_len: "path_to pa x k \<Longrightarrow> k < length pa"
  by (simp add: path_to_def)

section \<open>Positions that denote an index\<close>

definition cache_ok :: "CORD_pos \<Rightarrow> cord \<Rightarrow> nat \<Rightarrow> bool" where
  "cache_ok p leaf s = (case leaf of
      C_string t \<Rightarrow> cur_leaf p = Leaf_string t \<and> cur_start p = s \<and> cur_end p = s + length t
    | Function h n fn \<Rightarrow> cur_end p = 0 \<or>
        cur_leaf p = Function_buf \<and> s \<le> cur_start p \<and> cur_start p < cur_end p \<and> cur_end p \<le> s + n \<and>
        cur_end p - cur_start p \<le> FUNCTION_BUF_SZ \<and>
        (\<forall>j<cur_end p - cur_start p. function_buf p ! j = apply_fn fn (cur_start p - s + j))
    | _ \<Rightarrow> False)"

text \<open>
  \<open>pos_at p x i\<close>: a valid position of \<open>x\<close> at index \<open>i\<close>. \<open>cached p\<close> is what the comment of the field
  \<open>cur_leaf\<close> promises: a cache that is not invalid contains the current character.
\<close>

definition pos_at :: "CORD_pos \<Rightarrow> cord \<Rightarrow> nat \<Rightarrow> bool" where
  "pos_at p x i \<longleftrightarrow> path_to (path p) x (path_len p) \<and> length (function_buf p) = FUNCTION_BUF_SZ \<and>
     cur_pos p = i \<and>
     (let (leaf, s) = path p ! path_len p in
      s \<le> i \<and> i < s + CORD_len leaf \<and> cache_ok p leaf s)"

definition cached :: "CORD_pos \<Rightarrow> bool" where
  "cached p \<longleftrightarrow> (cur_end p \<noteq> 0 \<longrightarrow> cur_start p \<le> cur_pos p \<and> cur_pos p < cur_end p)"

text \<open>The memory of a position, whatever it holds.\<close>

definition pos_mem :: "CORD_pos \<Rightarrow> bool" where
  "pos_mem p \<longleftrightarrow> length (path p) = MAX_DEPTH + 1 \<and> length (function_buf p) = FUNCTION_BUF_SZ"

lemma pos_at_valid: "pos_at p x i \<Longrightarrow> CORD_pos_valid p"
  by (auto simp: pos_at_def CORD_pos_valid_def CORD_POS_INVALID_def MAX_DEPTH_def dest: path_to_bound)

lemma pos_at_mem: "pos_at p x i \<Longrightarrow> pos_mem p"
  by (simp add: pos_at_def pos_mem_def path_to_def)

lemma pos_at_leaf:
  assumes "pos_at p x i"
  obtains leaf s where "path p ! path_len p = (leaf, s)" "path_at p (path_len p) = Inr (leaf, s)"
    "segment x leaf s" "s \<le> i" "i < s + CORD_len leaf" "cache_ok p leaf s" "cord_ok x"
    "path_to (path p) x (path_len p)" "cur_pos p = i"
proof -
  obtain leaf s where e: "path p ! path_len p = (leaf, s)"
    by (cases "path p ! path_len p")
  have "path_to (path p) x (path_len p)"
    using assms by (simp add: pos_at_def)
  then show ?thesis
    using that [OF e] assms path_to_segment [of "path p" x "path_len p" "path_len p"] e
    by (simp add: pos_at_def path_at_def path_to_len path_to_def)
qed

lemma extend_loop_ok:
  assumes "path_to (path p) x (path_len p)" "path p ! path_len p = (tp, tp_pos)" "tp_pos \<le> cur_pos p"
  shows "\<exists>leaf s pa k. extend_loop tp tp_pos (CORD_len tp) p =
      Inr (leaf, s, CORD_len leaf, p\<lparr>path := pa, path_len := k\<rparr>) \<and>
    path_to pa x k \<and> pa ! k = (leaf, s) \<and> \<not> IS_CONCATENATION leaf \<and> cord_ok leaf \<and> s \<le> cur_pos p \<and>
    (cur_pos p < tp_pos + CORD_len tp \<longleftrightarrow> cur_pos p < s + CORD_len leaf)"
  using assms
proof (induction tp arbitrary: tp_pos p rule: chars.induct)
  case 1
  then show ?case
    using path_to_segment [of "path p" x "path_len p" "path_len p"] by (simp add: segment_def)
next
  case (2 t)
  then show ?case
    using path_to_segment [of "path p" x "path_len p" "path_len p"]
    by (intro exI [of _ "C_string t"] exI [of _ tp_pos] exI [of _ "path p"] exI [of _ "path_len p"])
      (simp add: segment_def)
next
  case (3 d ll n left right)
  have seg: "segment x (Concatenation d ll n left right) tp_pos"
    using path_to_segment [OF "3.prems"(1), of "path_len p"] "3.prems"(2) by simp
  then have ok: "cord_ok (Concatenation d ll n left right)" "n = CORD_len left + CORD_len right"
    by (simp_all add: segment_def)
  have left: "LEFT_LEN ll n left right = CORD_len left"
    using ok(1) by (rule LEFT_LEN_eq)
  have eq: "extend_loop (Concatenation d ll n left right) tp_pos n p =
      (if cur_pos p \<ge> tp_pos + CORD_len left then
         sbind (push_entry right (tp_pos + CORD_len left) p)
           (extend_loop right (tp_pos + CORD_len left) (CORD_len right))
       else sbind (push_entry left tp_pos p) (extend_loop left tp_pos (CORD_len left)))"
    by (simp only: extend_loop.simps left Let_def) (simp add: ok(2))
  have room: "path_len p + 1 < length (path p)"
    using path_to_bound [OF "3.prems"(1)] "3.prems"(1) by (simp add: path_to_def)
  define e where "e = (if cur_pos p \<ge> tp_pos + CORD_len left then (right, tp_pos + CORD_len left)
    else (left, tp_pos))"
  define q where "q = p\<lparr>path := (path p)[path_len p + 1 := e], path_len := path_len p + 1\<rparr>"
  have push: "push_entry (fst e) (snd e) p = Inr q"
    using room by (simp add: push_entry_def q_def)
  have q: "cur_pos q = cur_pos p" "q\<lparr>path := pa, path_len := k\<rparr> = p\<lparr>path := pa, path_len := k\<rparr>" for pa k
    by (simp_all add: q_def)
  have "child (path p ! path_len p) e"
    by (simp add: "3.prems"(2) e_def)
  then have path: "path_to (path q) x (path_len q)" "path q ! path_len q = e"
    using path_to_push [OF "3.prems"(1), of e] room by (simp_all add: q_def)
  show ?case
  proof (cases "cur_pos p \<ge> tp_pos + CORD_len left")
    case True
    then have e: "e = (right, tp_pos + CORD_len left)"
      by (simp add: e_def)
    have "extend_loop (Concatenation d ll n left right) tp_pos n p =
        extend_loop right (tp_pos + CORD_len left) (CORD_len right) q"
      unfolding eq using push True by (simp add: e)
    then show ?thesis
      using "3.IH"(2) [OF path(1) path(2) [unfolded e]] True by (simp add: q ok(2) add.assoc)
  next
    case False
    then have e: "e = (left, tp_pos)"
      by (simp add: e_def)
    have "extend_loop (Concatenation d ll n left right) tp_pos n p =
        extend_loop left tp_pos (CORD_len left) q"
      unfolding eq using push False by (simp add: e)
    moreover have "cur_pos p < tp_pos + n" "cur_pos p < tp_pos + CORD_len left"
      using False by (simp_all add: ok(2))
    ultimately show ?thesis
      using "3.IH"(1) [OF path(1) path(2) [unfolded e]] "3.prems"(3) by (simp add: q)
  qed
next
  case (4 h n fn)
  then show ?case
    using path_to_segment [of "path p" x "path_len p" "path_len p"]
    by (intro exI [of _ "Function h n fn"] exI [of _ tp_pos] exI [of _ "path p"] exI [of _ "path_len p"])
      (simp add: segment_def)
qed

lemma extend_path_ok:
  assumes "path_to (path p) x (path_len p)" "path p ! path_len p = (tp, tp_pos)" "tp_pos \<le> cur_pos p"
    and "length (function_buf p) = FUNCTION_BUF_SZ" "cur_pos p = i"
  shows "\<exists>p'. CORD_extend_path p = Inr p' \<and> pos_mem p' \<and>
    (if i < tp_pos + CORD_len tp then pos_at p' x i \<and> cached p' else \<not> CORD_pos_valid p')"
proof -
  obtain leaf s pa k where ext: "extend_loop tp tp_pos (CORD_len tp) p =
        Inr (leaf, s, CORD_len leaf, p\<lparr>path := pa, path_len := k\<rparr>)"
    and k: "path_to pa x k" "pa ! k = (leaf, s)" and leaf: "\<not> IS_CONCATENATION leaf" "cord_ok leaf"
    and s: "s \<le> cur_pos p" "cur_pos p < tp_pos + CORD_len tp \<longleftrightarrow> cur_pos p < s + CORD_len leaf"
    using extend_loop_ok [OF assms(1-3)] by blast
  let ?p = "case leaf of
      C_string t \<Rightarrow> p\<lparr>path := pa, path_len := k, cur_leaf := Leaf_string t, cur_start := s,
        cur_end := s + CORD_len leaf\<rparr>
    | _ \<Rightarrow> p\<lparr>path := pa, path_len := k, cur_end := 0\<rparr>"
  have p: "path ?p = pa" "path_len ?p = k" "cur_pos ?p = cur_pos p" "function_buf ?p = function_buf p"
    by (simp_all split: cord.splits)
  have eq: "CORD_extend_path p =
      Inr (if cur_pos p \<ge> s + CORD_len leaf then ?p\<lparr>path_len := CORD_POS_INVALID\<rparr> else ?p)"
    using path_to_len [OF assms(1)]
    by (cases leaf) (simp_all add: CORD_extend_path_def path_at_def assms(2) GEN_LEN_eq ext Let_def)
  show ?thesis
  proof (cases "cur_pos p < s + CORD_len leaf")
    case True
    have "cache_ok ?p leaf s"
      using leaf by (cases leaf) (simp_all add: cache_ok_def)
    moreover have "cached ?p"
      using leaf s(1) True by (cases leaf) (simp_all add: cached_def)
    ultimately have "pos_at ?p x (cur_pos p)" "cached ?p"
      using k True s(1) p assms(4) by (simp_all add: pos_at_def)
    then show ?thesis
      using eq True s(2) pos_at_mem assms(5) by auto
  next
    case False
    then show ?thesis
      using eq s(2) p k(1) assms(4,5)
      by (simp add: CORD_pos_valid_def pos_mem_def path_to_def)
  qed
qed

section \<open>Setting a position and fetching\<close>

lemma CORD_set_pos_ok:
  assumes "pos_mem p" "cord_inv x"
  shows "\<exists>p'. CORD_set_pos p x i = Inr p' \<and> pos_mem p' \<and>
    (if i < CORD_len x then pos_at p' x i \<and> cached p' else \<not> CORD_pos_valid p')"
proof (cases "x = CORD_EMPTY")
  case True
  then show ?thesis
    using assms(1) by (simp add: CORD_set_pos_def CORD_pos_valid_def pos_mem_def)
next
  case False
  then have x: "cord_ok x" "DEPTH x < MAX_DEPTH"
    using assms(2) by (simp_all add: cord_inv_def cord_wf_def)
  let ?p = "p\<lparr>path := (path p)[0 := (x, 0)], path_len := 0, cur_pos := i\<rparr>"
  have "path_to (path ?p) x (path_len ?p)"
    using assms(1) x by (simp add: path_to_def pos_mem_def)
  moreover have "path ?p ! path_len ?p = (x, 0)"
    using assms(1) by (simp add: pos_mem_def)
  moreover have "CORD_set_pos p x i = CORD_extend_path ?p"
    using False by (cases x) (simp_all add: CORD_set_pos_def)
  moreover have "length (function_buf ?p) = FUNCTION_BUF_SZ" "cur_pos ?p = i" "0 \<le> cur_pos ?p"
    using assms(1) by (simp_all add: pos_mem_def)
  ultimately show ?thesis
    using extend_path_ok [of ?p x x 0 i] by simp
qed

lemma CORD__pos_fetch_ok:
  assumes "pos_at p x i" "cur_end p = 0"
  shows "CORD__pos_fetch p = Inr (chars x ! i)"
  using assms(1)
proof (rule pos_at_leaf)
  fix leaf s
  assume at: "path_at p (path_len p) = Inr (leaf, s)" and seg: "segment x leaf s" "cord_ok x"
    and i: "s \<le> i" "i < s + CORD_len leaf" and cache: "cache_ok p leaf s" and cur: "cur_pos p = i"
  from cache assms(2) seg(1) obtain h n fn where leaf: "leaf = Function h n fn"
    by (cases leaf) (auto simp: cache_ok_def segment_def)
  have "chars x ! i = apply_fn fn (i - s)"
    using segment_nth [OF seg, of "i - s"] i by (simp add: leaf)
  then show ?thesis
    by (simp add: CORD__pos_fetch_def at leaf cur)
qed

lemma cache_char_ok:
  assumes "pos_at p x i" "cur_start p \<le> i" "i < cur_end p"
  shows "cache_char p = Inr (chars x ! i)"
  using assms(1)
proof (rule pos_at_leaf)
  fix leaf s
  assume seg: "segment x leaf s" "cord_ok x"
    and i: "s \<le> i" "i < s + CORD_len leaf" and cache: "cache_ok p leaf s" and cur: "cur_pos p = i"
  have nth: "chars leaf ! (i - s) = chars x ! i"
    using segment_nth [OF seg, of "i - s"] i by simp
  have buf: "length (function_buf p) = FUNCTION_BUF_SZ"
    using assms(1) by (simp add: pos_at_def)
  show ?thesis
  proof (cases leaf)
    case (C_string t)
    then show ?thesis
      using cache nth i cur by (auto simp: cache_ok_def cache_char_def c_char_def nth_append Let_def)
  next
    case (Function h n fn)
    then have c: "cur_leaf p = Function_buf" "s \<le> cur_start p" "cur_end p \<le> s + n"
        "cur_end p - cur_start p \<le> FUNCTION_BUF_SZ"
      "\<forall>j<cur_end p - cur_start p. function_buf p ! j = apply_fn fn (cur_start p - s + j)"
      using cache assms(3) by (auto simp: cache_ok_def)
    have "i - cur_start p < cur_end p - cur_start p"
      using assms(2,3) by simp
    then have "function_buf p ! (i - cur_start p) = apply_fn fn (i - s)"
      using c(2,5) assms(2) by simp
    moreover have "i - cur_start p < FUNCTION_BUF_SZ"
      using c(4) assms(2,3) by simp
    ultimately show ?thesis
      using nth i c(1) cur assms(2) buf by (simp add: cache_char_def Function)
  qed (use cache in \<open>simp_all add: cache_ok_def\<close>)
qed

lemma CORD_pos_fetch_ok: "pos_at p x i \<Longrightarrow> cached p \<Longrightarrow> CORD_pos_fetch p = Inr (chars x ! i)"
  using CORD__pos_fetch_ok cache_char_ok
  by (auto simp: CORD_pos_fetch_def cached_def pos_at_def)

lemma CORD_pos_fetch_fn_ok:
  assumes "pos_at p x i"
  shows "CORD_pos_fetch_fn p = Inr (chars x ! i)"
proof (cases "cur_start p \<le> cur_pos p \<and> cur_pos p < cur_end p")
  case True
  then show ?thesis
    using assms cache_char_ok [OF assms] by (simp add: CORD_pos_fetch_fn_def pos_at_def)
next
  case False
  from assms show ?thesis
  proof (rule pos_at_leaf)
    fix leaf s
    assume at: "path_at p (path_len p) = Inr (leaf, s)" and seg: "segment x leaf s" "cord_ok x"
      and i: "s \<le> i" "i < s + CORD_len leaf" and cache: "cache_ok p leaf s" and cur: "cur_pos p = i"
    from cache False seg(1) i cur obtain h n fn where leaf: "leaf = Function h n fn"
      by (cases leaf) (auto simp: cache_ok_def segment_def)
    have "chars x ! i = apply_fn fn (i - s)"
      using segment_nth [OF seg, of "i - s"] i by (simp add: leaf)
    then show ?thesis
      using False by (auto simp: CORD_pos_fetch_fn_def CORD__pos_fetch_def at leaf cur)
  qed
qed

section \<open>Moving\<close>

lemma pop_path_le: "pop_path same p k \<le> k"
  by (induction k) simp_all

lemma pop_path_stop:
  "0 < pop_path same p k \<Longrightarrow>
    (snd (path p ! pop_path same p k) = snd (path p ! (pop_path same p k - 1))) = same"
  by (induction k) auto

lemma pop_path_skipped:
  "pop_path same p k < j \<Longrightarrow> j \<le> k \<Longrightarrow> (snd (path p ! j) = snd (path p ! (j - 1))) = (\<not> same)"
proof (induction k)
  case (Suc k)
  then show ?case
    by (cases "j = Suc k") (auto split: if_splits)
qed simp

text \<open>Going up through right children keeps the end, through left children the start.\<close>

lemma path_end_const:
  assumes "path_to pa x k" "m \<le> k" "\<forall>j. m < j \<longrightarrow> j \<le> k \<longrightarrow> snd (pa ! j) \<noteq> snd (pa ! (j - 1))"
  shows "snd (pa ! k) + CORD_len (fst (pa ! k)) = snd (pa ! m) + CORD_len (fst (pa ! m))"
  using assms
proof (induction k)
  case (Suc k)
  show ?case
  proof (cases "m = Suc k")
    case False
    have seg: "segment x (fst (pa ! k)) (snd (pa ! k))"
      using path_to_segment [OF Suc.prems(1), of k] by simp
    have "child (fst (pa ! k), snd (pa ! k)) (fst (pa ! Suc k), snd (pa ! Suc k))"
      using Suc.prems(1) by (simp add: path_to_def)
    moreover have "snd (pa ! Suc k) \<noteq> snd (pa ! k)"
    proof -
      have "m < Suc k"
        using Suc.prems(2) False by simp
      then have "snd (pa ! Suc k) \<noteq> snd (pa ! (Suc k - 1))"
        using Suc.prems(3) by blast
      then show ?thesis
        by simp
    qed
    ultimately have "snd (pa ! Suc k) + CORD_len (fst (pa ! Suc k)) = snd (pa ! k) + CORD_len (fst (pa ! k))"
      using segment_child(6) [OF seg] by blast
    then show ?thesis
      using Suc.IH [OF path_to_prefix [OF Suc.prems(1)]] Suc.prems(2,3) False by simp
  qed simp
qed simp

lemma path_start_const:
  assumes "m \<le> k" "\<forall>j. m < j \<longrightarrow> j \<le> k \<longrightarrow> snd (pa ! j) = snd (pa ! (j - 1))"
  shows "snd (pa ! k) = snd (pa ! m)"
  using assms
proof (induction k)
  case (Suc k)
  show ?case
  proof (cases "m = Suc k")
    case False
    then have m: "m \<le> k" "m < Suc k"
      using Suc.prems(1) by simp_all
    have "snd (pa ! Suc k) = snd (pa ! (Suc k - 1))"
      using Suc.prems(2) m(2) by blast
    also have "\<dots> = snd (pa ! k)"
      by simp
    also have "\<dots> = snd (pa ! m)"
    proof (rule Suc.IH [OF m(1)], intro allI impI)
      fix j
      assume "m < j" "j \<le> k"
      then show "snd (pa ! j) = snd (pa ! (j - 1))"
        by (intro Suc.prems(2) [rule_format]) simp_all
    qed
    finally show ?thesis .
  qed simp
qed simp

text \<open>Leaving a leaf to the right, and to the left.\<close>

lemma pop_next_ok:
  assumes "path_to (path p) x (path_len p)" "length (function_buf p) = FUNCTION_BUF_SZ"
    and "path p ! path_len p = (leaf, s)" "cur_pos p = s + CORD_len leaf" "cur_pos p = i"
  shows "\<exists>p'. (let k = pop_path True p (path_len p) in
      if k = 0 then Inr (p\<lparr>path_len := CORD_POS_INVALID\<rparr>)
      else CORD_extend_path (p\<lparr>path_len := k - 1\<rparr>)) = Inr p' \<and>
    (if i < CORD_len x then pos_at p' x i \<and> cached p' else \<not> CORD_pos_valid p')"
proof -
  define k where "k = pop_path True p (path_len p)"
  have k: "k \<le> path_len p"
    by (simp add: k_def pop_path_le)
  have "\<forall>j. k < j \<longrightarrow> j \<le> path_len p \<longrightarrow> snd (path p ! j) \<noteq> snd (path p ! (j - 1))"
    using pop_path_skipped [of True p "path_len p"] by (simp add: k_def)
  from path_end_const [OF assms(1) k this]
  have cur: "cur_pos p = snd (path p ! k) + CORD_len (fst (path p ! k))"
    by (simp add: assms(3,4))
  show ?thesis
  proof (cases k)
    case 0
    then have "cur_pos p = CORD_len x"
      using cur assms(1) by (simp add: path_to_def)
    then show ?thesis
      using 0 assms(5) by (simp add: k_def [symmetric] CORD_pos_valid_def)
  next
    case (Suc m)
    let ?p = "p\<lparr>path_len := m\<rparr>"
    have path: "path_to (path p) x m" "child (path p ! m) (path p ! Suc m)"
      using path_to_prefix [OF assms(1), of m] assms(1) k Suc by (simp_all add: path_to_def)
    obtain tp t where tp: "path p ! m = (tp, t)"
      by (cases "path p ! m")
    obtain c u where c: "path p ! Suc m = (c, u)"
      by (cases "path p ! Suc m")
    have seg: "segment x tp t"
      using path_to_segment [OF path(1), of m] tp by simp
    have same: "u = t"
      using pop_path_stop [of True p "path_len p"] Suc by (simp add: k_def [symmetric] tp c)
    note child = segment_child [OF seg path(2) [unfolded tp c]]
    obtain d ll n r where tp_eq: "tp = Concatenation d ll n c r"
      using child(3) same by blast
    have "cur_pos p = t + CORD_len c"
      using cur Suc c same by simp
    moreover have "CORD_len c < CORD_len tp" "t + CORD_len tp \<le> CORD_len x"
      using seg by (auto simp: segment_def tp_eq cord_ok_len)
    ultimately have "cur_pos p < t + CORD_len tp" "t \<le> cur_pos p" "cur_pos p < CORD_len x"
      by simp_all
    then show ?thesis
      using extend_path_ok [of ?p x tp t i] path(1) tp assms(2,5) Suc
      by (auto simp: k_def [symmetric])
  qed
qed

lemma pop_prev_ok:
  assumes "path_to (path p) x (path_len p)" "length (function_buf p) = FUNCTION_BUF_SZ"
    and "path p ! path_len p = (leaf, s)" "cur_pos p + 1 = s"
  shows "\<exists>p'. (let k = pop_path False p (path_len p) in
      if k = 0 then Inl (Undefined ''index of path'')
      else CORD_extend_path (p\<lparr>path_len := k - 1\<rparr>)) = Inr p' \<and> pos_at p' x (cur_pos p) \<and> cached p'"
proof -
  define k where "k = pop_path False p (path_len p)"
  have k: "k \<le> path_len p"
    by (simp add: k_def pop_path_le)
  have "\<forall>j. k < j \<longrightarrow> j \<le> path_len p \<longrightarrow> snd (path p ! j) = snd (path p ! (j - 1))"
    using pop_path_skipped [of False p "path_len p"] by (simp add: k_def)
  from path_start_const [OF k this] have cur: "cur_pos p + 1 = snd (path p ! k)"
    using assms(3,4) by simp
  show ?thesis
  proof (cases k)
    case 0
    then show ?thesis
      using cur assms(1) by (simp add: path_to_def)
  next
    case (Suc m)
    let ?p = "p\<lparr>path_len := m\<rparr>"
    have path: "path_to (path p) x m" "child (path p ! m) (path p ! Suc m)"
      using path_to_prefix [OF assms(1), of m] assms(1) k Suc by (simp_all add: path_to_def)
    obtain tp t where tp: "path p ! m = (tp, t)"
      by (cases "path p ! m")
    obtain c u where c: "path p ! Suc m = (c, u)"
      by (cases "path p ! Suc m")
    have seg: "segment x tp t"
      using path_to_segment [OF path(1), of m] tp by simp
    have "u \<noteq> t"
      using pop_path_stop [of False p "path_len p"] Suc by (simp add: k_def [symmetric] tp c)
    moreover note child = segment_child [OF seg path(2) [unfolded tp c]]
    ultimately have "t < u" "u \<le> t + CORD_len tp"
      using child(4,5) by simp_all
    then have "cur_pos p < t + CORD_len tp" "t \<le> cur_pos p"
      using cur Suc c by simp_all
    then show ?thesis
      using extend_path_ok [of ?p x tp t "cur_pos p"] path(1) tp assms(2) Suc
      by (auto simp: k_def [symmetric])
  qed
qed

lemma CORD_next_ok:
  assumes "pos_at p x i"
  shows "\<exists>p'. CORD_next p = Inr p' \<and>
    (if i + 1 < CORD_len x then pos_at p' x (i + 1) \<and> (cached p \<longrightarrow> cached p') else \<not> CORD_pos_valid p')"
  using assms
proof (rule pos_at_leaf)
  fix leaf s
  assume e: "path p ! path_len p = (leaf, s)" and at: "path_at p (path_len p) = Inr (leaf, s)"
    and seg: "segment x leaf s" and i: "s \<le> i" "i < s + CORD_len leaf"
    and cache: "cache_ok p leaf s" and path: "path_to (path p) x (path_len p)" and cur: "cur_pos p = i"
  have buf: "length (function_buf p) = FUNCTION_BUF_SZ"
    using assms by (simp add: pos_at_def)
  have leaf_end: "s + CORD_len leaf \<le> CORD_len x"
    using seg by (simp add: segment_def)
  have cache_end: "cur_end p \<le> s + CORD_len leaf"
    using cache by (auto simp: cache_ok_def split: cord.splits)
  show ?thesis
  proof (cases "i + 1 < cur_end p")
    case True
    let ?p = "p\<lparr>cur_pos := i + 1\<rparr>"
    have "cache_ok ?p leaf s"
      using cache by (simp add: cache_ok_def split: cord.splits)
    then have "pos_at ?p x (i + 1)"
      using path buf e i True cache_end by (simp add: pos_at_def)
    moreover have "cached p \<longrightarrow> cached ?p"
      using True cur by (simp add: cached_def)
    ultimately show ?thesis
      using True cur cache_end leaf_end by (simp add: CORD_next_def)
  next
    case no_cache: False
    let ?p = "p\<lparr>cur_pos := i + 1\<rparr>"
    have next_eq: "CORD_next p = CORD__next p"
      using no_cache cur by (simp add: CORD_next_def)
    show ?thesis
    proof (cases "IS_FUNCTION leaf \<and> i + 1 < s + CORD_len leaf")
      case True
      then obtain h n fn where leaf: "leaf = Function h n fn" and n: "i + 1 < s + n"
        by (cases leaf) auto
      define limit where "limit = min (i + 1 + FUNCTION_BUF_SZ) (s + n)"
      let ?chs = "map (\<lambda>j. apply_fn fn (j - s)) [i + 1..<limit]"
      let ?q = "?p\<lparr>function_buf := ?chs @ drop (limit - (i + 1)) (function_buf p), cur_start := i + 1,
        cur_leaf := Function_buf, cur_end := limit\<rparr>"
      have limit: "i + 1 < limit" "limit \<le> s + n" "limit - (i + 1) \<le> FUNCTION_BUF_SZ"
        using n by (auto simp: limit_def FUNCTION_BUF_SZ_def)
      have "CORD__next p = Inr ?q"
        using n by (simp add: CORD__next_def at leaf cur limit_def Let_def del: upt_Suc)
      moreover have "cache_ok ?q leaf s"
        using limit i(1) by (auto simp: cache_ok_def leaf nth_append simp del: upt_Suc)
      moreover have "length (function_buf ?q) = FUNCTION_BUF_SZ"
        using limit buf by (simp del: upt_Suc)
      ultimately have "CORD__next p = Inr ?q" "pos_at ?q x (i + 1)" "cached ?q"
        using path e i n leaf limit by (simp_all add: pos_at_def cached_def del: upt_Suc)
      then show ?thesis
        using next_eq n leaf_end leaf by auto
    next
      case False
      have end_leaf: "i + 1 = s + CORD_len leaf"
      proof (cases leaf)
        case (C_string t)
        then show ?thesis
          using cache no_cache i by (simp add: cache_ok_def)
      qed (use False i cache in \<open>simp_all add: cache_ok_def\<close>)
      have "CORD__next p = (let k = pop_path True ?p (path_len ?p) in
          if k = 0 then Inr (?p\<lparr>path_len := CORD_POS_INVALID\<rparr>)
          else CORD_extend_path (?p\<lparr>path_len := k - 1\<rparr>))"
        using end_leaf cur by (cases leaf) (simp_all add: CORD__next_def at Let_def)
      moreover have "path_to (path ?p) x (path_len ?p)" "length (function_buf ?p) = FUNCTION_BUF_SZ"
        "path ?p ! path_len ?p = (leaf, s)" "cur_pos ?p = s + CORD_len leaf"
        "cur_pos ?p = i + 1"
        using path buf e end_leaf by simp_all
      from pop_next_ok [OF this] obtain p' where "(let k = pop_path True ?p (path_len ?p) in
          if k = 0 then Inr (?p\<lparr>path_len := CORD_POS_INVALID\<rparr>)
          else CORD_extend_path (?p\<lparr>path_len := k - 1\<rparr>)) = Inr p'"
        "if i + 1 < CORD_len x then pos_at p' x (i + 1) \<and> cached p' else \<not> CORD_pos_valid p'"
        by blast
      ultimately show ?thesis
        using next_eq by auto
    qed
  qed
qed

lemma CORD_prev_ok:
  assumes "pos_at p x i"
  shows "\<exists>p'. CORD_prev p = Inr p' \<and>
    (if 0 < i then pos_at p' x (i - 1) else \<not> CORD_pos_valid p')"
  using assms
proof (rule pos_at_leaf)
  fix leaf s
  assume e: "path p ! path_len p = (leaf, s)" and at: "path_at p (path_len p) = Inr (leaf, s)"
    and i: "s \<le> i" "i < s + CORD_len leaf"
    and cache: "cache_ok p leaf s" and path: "path_to (path p) x (path_len p)" and cur: "cur_pos p = i"
  have buf: "length (function_buf p) = FUNCTION_BUF_SZ"
    using assms by (simp add: pos_at_def)
  let ?p = "p\<lparr>cur_pos := i - 1\<rparr>"
  have stay: "pos_at ?p x (i - 1)" if "s \<le> i - 1" "0 < i"
    using that path buf e i cache by (simp add: pos_at_def cache_ok_def split: cord.splits)
  have start: "cur_end p \<noteq> 0 \<Longrightarrow> s \<le> cur_start p"
    using cache by (auto simp: cache_ok_def split: cord.splits)
  show ?thesis
  proof (cases "cur_end p \<noteq> 0 \<and> cur_pos p > cur_start p")
    case True
    then show ?thesis
      using stay start cur by (auto simp: CORD_prev_def)
  next
    case no_cache: False
    have prev_eq: "CORD_prev p = CORD__prev p"
      using no_cache by (auto simp: CORD_prev_def)
    show ?thesis
    proof (cases "i = 0")
      case True
      then show ?thesis
        by (simp add: prev_eq CORD__prev_def cur CORD_pos_valid_def)
    next
      case pos: False
      show ?thesis
      proof (cases "s \<le> i - 1")
        case True
        have "path_at ?p (path_len ?p) = path_at p (path_len p)"
          by (simp add: path_at_def)
        then have "path_at ?p (path_len ?p) = Inr (leaf, s)"
          by (simp only: at)
        then have "CORD__prev p = Inr ?p"
          using True pos by (simp add: CORD__prev_def cur Let_def)
        then show ?thesis
          using stay True pos by (simp add: prev_eq)
      next
        case False
        then have "path_to (path ?p) x (path_len ?p)" "length (function_buf ?p) = FUNCTION_BUF_SZ"
          "path ?p ! path_len ?p = (leaf, s)" "cur_pos ?p + 1 = s"
          using path buf e i pos by simp_all
        from pop_prev_ok [OF this] obtain p' where p': "(let k = pop_path False ?p (path_len ?p) in
            if k = 0 then Inl (Undefined ''index of path'')
            else CORD_extend_path (?p\<lparr>path_len := k - 1\<rparr>)) = Inr p'" "pos_at p' x (i - 1)"
          by auto
        have "path_at ?p (path_len ?p) = path_at p (path_len p)"
          by (simp add: path_at_def)
        then have "path_at ?p (path_len ?p) = Inr (leaf, s)"
          by (simp only: at)
        then have "CORD__prev p = Inr p'"
          using p'(1) pos False by (auto simp: CORD__prev_def cur Let_def split: if_splits)
        then show ?thesis
          using p'(2) pos prev_eq by simp
      qed
    qed
  qed
qed

lemma CORD_fetch_ok:
  assumes "pos_mem p" "cord_inv x"
  shows "CORD_fetch p x i = (if i < CORD_len x then Inr (chars x ! i) else Inl (Abort ''bad index?''))"
proof -
  obtain q where q: "CORD_set_pos p x i = Inr q"
    "if i < CORD_len x then pos_at q x i \<and> cached q else \<not> CORD_pos_valid q"
    using CORD_set_pos_ok [OF assms, of i] by blast
  show ?thesis
  proof (cases "i < CORD_len x")
    case True
    then have "pos_at q x i" "cached q"
      using q(2) by simp_all
    then show ?thesis
      using q(1) True pos_at_valid CORD_pos_fetch_ok by (simp add: CORD_fetch_def)
  next
    case False
    then show ?thesis
      using q by (simp add: CORD_fetch_def)
  qed
qed

section \<open>Properties\<close>

text \<open>The memory of a new position, for the witnesses.\<close>

definition new_pos :: CORD_pos where
  "new_pos = \<lparr>cur_pos = 7, path_len = 7, cur_leaf = Function_buf, cur_start = 7, cur_end = 7,
     path = replicate 49 (CORD_EMPTY, 7), function_buf = ''????????''\<rparr>"

lemma new_pos_mem: "pos_mem new_pos"
  by (simp add: new_pos_def pos_mem_def FUNCTION_BUF_SZ_def MAX_DEPTH_def)

lemma nul_cord_inv: "cord_inv nul_cord"
  by (simp add: cord_inv_def nul_cord_ok) (simp add: nul_cord_def MAX_DEPTH_def)

text \<open>Setting a position of a cord below the depth limit and fetching gives the character of the
  cord at that index, whatever the memory of the position held, and \<open>CORD_fetch\<close> aborts exactly when
  the index is not smaller than the length. The path never leaves its array.\<close>

theorem fetch_correct:
  assumes "pos_mem p" "cord_inv x"
  shows "CORD_fetch p x i = (if i < CORD_len x then Inr (chars x ! i) else Inl (Abort ''bad index?''))"
  using assms by (rule CORD_fetch_ok)

theorem fetch_correct_witness:
  "CORD_fetch new_pos nul_cord 3 = Inr (CHR ''c'') \<and>
   CORD_fetch new_pos nul_cord 5 = Inl (Abort ''bad index?'')"
  using fetch_correct [OF new_pos_mem nul_cord_inv, of 3] fetch_correct [OF new_pos_mem nul_cord_inv, of 5]
  by (simp add: nul_cord_ok)

text \<open>C20: a position refines the pair of a cord and an index. From a position that denotes index \<open>i\<close>
  (the path leads to the leaf, a cache has the right characters), \<open>CORD_next\<close> and \<open>CORD_prev\<close> give a
  position that denotes \<open>i + 1\<close> or \<open>i - 1\<close>, or an invalid one past the end or the beginning; the
  function \<open>CORD_pos_fetch\<close> gives the character, and so does the macro when the cache contains the
  current index, which \<open>CORD_next\<close> maintains.\<close>

theorem pos_correct:
  assumes "pos_at p x i"
  shows "CORD_pos_valid p \<and> CORD_pos_to_index p = i \<and> CORD_pos_to_cord p = x \<and>
    CORD_pos_fetch_fn p = Inr (chars x ! i) \<and> (cached p \<longrightarrow> CORD_pos_fetch p = Inr (chars x ! i)) \<and>
    (\<exists>q. CORD_next p = Inr q \<and> (if i + 1 < CORD_len x
       then pos_at q x (i + 1) \<and> (cached p \<longrightarrow> cached q) else \<not> CORD_pos_valid q)) \<and>
    (\<exists>q. CORD_prev p = Inr q \<and> (if 0 < i then pos_at q x (i - 1) else \<not> CORD_pos_valid q))"
proof -
  have "CORD_pos_to_index p = i" "CORD_pos_to_cord p = x"
    using assms by (simp_all add: pos_at_def CORD_pos_to_index_def CORD_pos_to_cord_def path_to_def)
  then show ?thesis
    using pos_at_valid [OF assms] CORD_pos_fetch_fn_ok [OF assms] CORD_pos_fetch_ok [OF assms]
      CORD_next_ok [OF assms] CORD_prev_ok [OF assms] by blast
qed

theorem pos_correct_witness:
  "\<exists>p q. CORD_set_pos new_pos nul_cord 1 = Inr p \<and> CORD_next p = Inr q \<and> CORD_pos_to_index q = 2 \<and>
    CORD_pos_fetch q = Inr (CHR ''c'')"
proof -
  obtain p where p: "CORD_set_pos new_pos nul_cord 1 = Inr p" "pos_at p nul_cord 1" "cached p"
    using CORD_set_pos_ok [OF new_pos_mem nul_cord_inv, of 1] by (auto simp: nul_cord_ok)
  obtain q where q: "CORD_next p = Inr q" "pos_at q nul_cord 2" "cached q"
    using pos_correct [OF p(2)] p(3) by (auto simp: nul_cord_ok simp flip: numeral_2_eq_2)
  then show ?thesis
    using pos_correct [OF q(2)] p(1) by (auto simp: nul_cord_ok)
qed

text \<open>C27: on a cord that is a function node the two versions of the position operations fail where the
  other works. Going one character forward and back with the macros leaves a cache that begins behind
  the current character, and the macro \<open>CORD_pos_fetch\<close> reads before it. The function \<open>CORD_next\<close>
  computes \<open>cur_end - 1\<close> although there is no cache, never leaves the leaf and goes past the end of
  the cord with a position that counts as valid; a fetch then calls the client's function with an
  index out of range.\<close>

theorem pos_defects:
  assumes "pos_mem p" "2 \<le> n" "n < 2 ^ 64"
  shows "(\<exists>q r t. CORD_set_pos p (Function FN_HDR n (Client f)) 0 = Inr q \<and> CORD_next q = Inr r \<and>
      CORD_prev r = Inr t \<and> CORD_pos_to_index t = 0 \<and> CORD_pos_valid t \<and>
      CORD_pos_fetch t = Inl (Undefined ''read before the cache'')) \<and>
    (\<exists>q r. CORD_set_pos p (Function FN_HDR n (Client f)) (n - 1) = Inr q \<and> CORD_next_fn q = Inr r \<and>
      CORD_pos_to_index r = n \<and> CORD_pos_valid r \<and> CORD_pos_fetch_fn r = Inr (f n))"
proof -
  let ?x = "Function FN_HDR n (Client f)"
  let ?q = "\<lambda>i. p\<lparr>path := (path p)[0 := (?x, 0)], path_len := 0, cur_pos := i, cur_end := 0\<rparr>"
  have set_pos: "CORD_set_pos p ?x i = Inr (?q i)" if "i < n" for i
    using that assms(1)
    by (simp add: CORD_set_pos_def CORD_extend_path_def path_at_def pos_mem_def)
  define limit where "limit = min 9 n"
  define r where "r = (?q 1)\<lparr>function_buf := map f [1..<limit] @ drop (limit - 1) (function_buf p),
    cur_start := 1, cur_leaf := Function_buf, cur_end := limit\<rparr>"
  have "CORD_next (?q 0) = Inr r"
    using assms by (simp add: CORD_next_def CORD__next_def path_at_def pos_mem_def r_def limit_def
      FUNCTION_BUF_SZ_def Let_def)
  moreover have "CORD_prev r = Inr (r\<lparr>cur_pos := 0\<rparr>)"
    using assms(1) by (simp add: CORD_prev_def CORD__prev_def r_def path_at_def pos_mem_def)
  moreover have "CORD_pos_fetch (r\<lparr>cur_pos := 0\<rparr>) = Inl (Undefined ''read before the cache'')"
    using assms(2) by (simp add: CORD_pos_fetch_def cache_char_def r_def limit_def)
  moreover have "CORD_pos_to_index (r\<lparr>cur_pos := 0\<rparr>) = 0" "CORD_pos_valid (r\<lparr>cur_pos := 0\<rparr>)"
    by (simp_all add: CORD_pos_to_index_def CORD_pos_valid_def r_def CORD_POS_INVALID_def)
  moreover have "CORD_next_fn (?q (n - 1)) = Inr (?q n)"
  proof -
    have "n - 1 < 2 ^ 64 - 1"
      using assms(2,3) by linarith
    then show ?thesis
      using assms(2) by (simp add: CORD_next_fn_def)
  qed
  moreover have "CORD_pos_to_index (?q n) = n" "CORD_pos_valid (?q n)"
    by (simp_all add: CORD_pos_to_index_def CORD_pos_valid_def CORD_POS_INVALID_def)
  moreover have "CORD_pos_fetch_fn (?q n) = Inr (f n)"
    using assms(1) by (simp add: CORD_pos_fetch_fn_def CORD__pos_fetch_def path_at_def pos_mem_def)
  ultimately show ?thesis
    using set_pos [of 0] set_pos [of "n - 1"] assms(2) by auto
qed

theorem pos_defects_witness:
  "\<exists>q r. CORD_set_pos new_pos (Function FN_HDR 3 (Client (\<lambda>_. NUL))) 2 = Inr q \<and>
    CORD_next_fn q = Inr r \<and> CORD_pos_to_index r = 3 \<and> CORD_pos_valid r"
  using pos_defects [OF new_pos_mem, of 3 "\<lambda>_. NUL"] by auto

end
