(* ===== verification/CordCmp.thy ===== *)
theory CordCmp
  imports CordPos "HOL-Library.Word"
begin

unbundle bit_operations_syntax

text \<open>
  Comparison of cords and search for a cord in a cord (\<open>CORD_cmp\<close>, \<open>CORD_ncmp\<close>, \<open>CORD_str\<close> in
  \<open>cord/cordxtra.c\<close>). They walk through the cords with positions and compare the cached pieces with
  \<open>strncmp\<close>. The positions are local variables; their memory is an argument, of arbitrary contents.
\<close>

section \<open>The code\<close>

definition uchar :: "char \<Rightarrow> int" where
  "uchar c = of_char c"

text \<open>The value of a \<open>char\<close>, which is signed.\<close>

definition schar :: "char \<Rightarrow> int" where
  "schar c = (if uchar c < 128 then uchar c else uchar c - 256)"

text \<open>
  \<open>strncmp\<close> on two blocks of memory: the sign of the first difference, compared as \<open>unsigned char\<close>;
  it ends at a NUL.
\<close>

fun strncmp :: "nat \<Rightarrow> char list \<Rightarrow> char list \<Rightarrow> stop + int" where
  "strncmp 0 a b = Inr 0"
| "strncmp (Suc n) (c # a) (d # b) =
     (if c \<noteq> d then Inr (sgn (uchar c - uchar d)) else if c = NUL then Inr 0 else strncmp n a b)"
| "strncmp (Suc n) _ _ = Inl (Undefined ''read past a block'')"

definition strcmp :: "string \<Rightarrow> string \<Rightarrow> stop + int" where
  "strcmp s t = strncmp (Suc (length s + length t)) (s @ [NUL]) (t @ [NUL])"

text \<open>\<open>CORD_pos_cur_char_addr\<close>: the memory from the current character in the cache on.\<close>

definition CORD_pos_cur_char_addr :: "CORD_pos \<Rightarrow> stop + char list" where
  "CORD_pos_cur_char_addr p =
     (if cur_pos p < cur_start p then Inl (Undefined ''read before the cache'')
      else let k = cur_pos p - cur_start p; block = (case cur_leaf p of
             Leaf_string s \<Rightarrow> s @ [NUL] | Function_buf \<Rightarrow> function_buf p) in
        if k \<le> length block then Inr (drop k block) else Inl (Undefined ''read past the cache''))"

text \<open>
  The loop of \<open>CORD_cmp\<close>, at most \<open>n\<close> rounds. \<open>avail\<close> and \<open>yavail\<close> are \<open>size_t\<close> there.
\<close>

fun cmp_loop :: "nat \<Rightarrow> CORD_pos \<Rightarrow> CORD_pos \<Rightarrow> stop + int" where
  "cmp_loop 0 xpos ypos = Inl No_Fuel"
| "cmp_loop (Suc n) xpos ypos =
     (if \<not> CORD_pos_valid xpos then Inr (if CORD_pos_valid ypos then - 1 else 0)
      else if \<not> CORD_pos_valid ypos then Inr 1
      else
        let avail = to_size (CORD_pos_chars_left xpos); yavail = to_size (CORD_pos_chars_left ypos) in
        if avail \<le> 0 \<or> yavail \<le> 0 then
          sbind (CORD_pos_fetch xpos) (\<lambda>xcurrent.
          sbind (CORD_pos_fetch ypos) (\<lambda>ycurrent.
            if xcurrent \<noteq> ycurrent then Inr (schar xcurrent - schar ycurrent)
            else
              sbind (CORD_next xpos) (\<lambda>xpos.
              sbind (CORD_next ypos) (\<lambda>ypos. cmp_loop n xpos ypos))))
        else
          let avail = (if avail > yavail then yavail else avail) in
          sbind (CORD_pos_cur_char_addr xpos) (\<lambda>a.
          sbind (CORD_pos_cur_char_addr ypos) (\<lambda>b.
          sbind (strncmp avail a b) (\<lambda>result.
            if result \<noteq> 0 then Inr result
            else
              sbind (CORD_pos_advance xpos avail) (\<lambda>xpos.
              sbind (CORD_pos_advance ypos avail) (\<lambda>ypos. cmp_loop n xpos ypos))))))"

definition CORD_cmp :: "nat \<Rightarrow> CORD_pos \<Rightarrow> CORD_pos \<Rightarrow> cord \<Rightarrow> cord \<Rightarrow> stop + int" where
  "CORD_cmp n xpos ypos x y =
     (case (x, y) of
        (CORD_EMPTY, CORD_EMPTY) \<Rightarrow> Inr 0
      | (_, CORD_EMPTY) \<Rightarrow> Inr 1
      | (CORD_EMPTY, _) \<Rightarrow> Inr (- 1)
      | (C_string s, C_string t) \<Rightarrow> strcmp s t
      | _ \<Rightarrow>
          sbind (CORD_set_pos xpos x 0) (\<lambda>xpos.
          sbind (CORD_set_pos ypos y 0) (\<lambda>ypos. cmp_loop n xpos ypos)))"

text \<open>The loop of \<open>CORD_ncmp\<close>, where \<open>avail\<close> and \<open>yavail\<close> are \<open>long\<close>.\<close>

function ncmp_loop :: "nat \<Rightarrow> CORD_pos \<Rightarrow> CORD_pos \<Rightarrow> nat \<Rightarrow> stop + int" where
  "ncmp_loop len xpos ypos count =
     (if \<not> count < len then Inr 0
      else if \<not> CORD_pos_valid xpos then Inr (if CORD_pos_valid ypos then - 1 else 0)
      else if \<not> CORD_pos_valid ypos then Inr 1
      else
        let avail = CORD_pos_chars_left xpos; yavail = CORD_pos_chars_left ypos in
        if avail \<le> 0 \<or> yavail \<le> 0 then
          sbind (CORD_pos_fetch xpos) (\<lambda>xcurrent.
          sbind (CORD_pos_fetch ypos) (\<lambda>ycurrent.
            if xcurrent \<noteq> ycurrent then Inr (schar xcurrent - schar ycurrent)
            else
              sbind (CORD_next xpos) (\<lambda>xpos.
              sbind (CORD_next ypos) (\<lambda>ypos. ncmp_loop len xpos ypos (count + 1)))))
        else
          let avail = nat (if avail > yavail then yavail else avail);
              count' = count + avail;
              avail' = (if count' > len then avail - (count' - len) else avail) in
          sbind (CORD_pos_cur_char_addr xpos) (\<lambda>a.
          sbind (CORD_pos_cur_char_addr ypos) (\<lambda>b.
          sbind (strncmp avail' a b) (\<lambda>result.
            if result \<noteq> 0 then Inr result
            else
              sbind (CORD_pos_advance xpos avail') (\<lambda>xpos.
              sbind (CORD_pos_advance ypos avail') (\<lambda>ypos. ncmp_loop len xpos ypos count'))))))"
  by pat_completeness auto
termination
  by (relation "measure (\<lambda>(len, _, _, count). len - count)") (auto split: if_splits)

definition CORD_ncmp ::
  "CORD_pos \<Rightarrow> CORD_pos \<Rightarrow> cord \<Rightarrow> nat \<Rightarrow> cord \<Rightarrow> nat \<Rightarrow> nat \<Rightarrow> stop + int" where
  "CORD_ncmp xpos ypos x x_start y y_start len =
     sbind (CORD_set_pos xpos x x_start) (\<lambda>xpos.
     sbind (CORD_set_pos ypos y y_start) (\<lambda>ypos. ncmp_loop len xpos ypos 0))"

declare ncmp_loop.simps [simp del]

text \<open>
  \<open>CORD_str\<close>: the first eight characters of the pattern and the same number of characters of \<open>x\<close> are
  kept in 64-bit words; when they agree, \<open>CORD_ncmp\<close> compares the rest. First the loop that fills the
  words with \<open>k\<close> characters from index \<open>i\<close> on.
\<close>

definition byte :: "char \<Rightarrow> 64 word" where
  "byte c = word_of_nat (of_char c)"

fun str_fill ::
  "nat \<Rightarrow> nat \<Rightarrow> char list \<Rightarrow> 64 word \<Rightarrow> 64 word \<Rightarrow> 64 word \<Rightarrow> CORD_pos \<Rightarrow>
   stop + 64 word \<times> 64 word \<times> 64 word \<times> CORD_pos" where
  "str_fill 0 i s_start m s_buf x_buf xpos = Inr (m, s_buf, x_buf, xpos)"
| "str_fill (Suc k) i s_start m s_buf x_buf xpos =
     sbind (if i < length s_start then Inr (s_start ! i) else Inl (Undefined ''read past a block'')) (\<lambda>sc.
     sbind (CORD_pos_fetch xpos) (\<lambda>xc.
     sbind (CORD_next xpos) (\<lambda>xpos.
       str_fill k (i + 1) s_start (push_bit 8 m OR 0xff) (push_bit 8 s_buf OR byte sc)
         (push_bit 8 x_buf OR byte xc) xpos)))"

text \<open>
  The search from \<open>match_pos\<close> on, at most \<open>n\<close> rounds; \<open>ncmp pos\<close> is the comparison of the rest of the
  pattern with the cord at \<open>pos\<close>.
\<close>

fun str_loop ::
  "nat \<Rightarrow> (nat \<Rightarrow> stop + int) \<Rightarrow> nat \<Rightarrow> nat \<Rightarrow> nat \<Rightarrow> 64 word \<Rightarrow> 64 word \<Rightarrow> 64 word \<Rightarrow> CORD_pos \<Rightarrow> nat \<Rightarrow>
   stop + nat" where
  "str_loop 0 ncmp xlen slen start_len m s_buf x_buf xpos match_pos = Inl No_Fuel"
| "str_loop (Suc n) ncmp xlen slen start_len m s_buf x_buf xpos match_pos =
     sbind (if (x_buf AND m) = s_buf then
              (if slen = start_len then Inr True
               else sbind (ncmp (match_pos + start_len)) (\<lambda>r. Inr (r = 0)))
            else Inr False) (\<lambda>found.
       if found then Inr match_pos
       else if match_pos = xlen - slen then Inr CORD_NOT_FOUND
       else
         sbind (CORD_pos_fetch xpos) (\<lambda>c.
         sbind (CORD_next xpos) (\<lambda>xpos.
           str_loop n ncmp xlen slen start_len m s_buf (push_bit 8 x_buf OR byte c) xpos
             (match_pos + 1))))"

text \<open>
  The search for the pattern \<open>s\<close> of \<open>slen\<close> characters, whose first characters are at \<open>s_start\<close>. \<open>p\<close>,
  \<open>q\<close>, \<open>r\<close> are the memory of the positions, \<open>block\<close> that of the C string for the beginning of \<open>s\<close>.
\<close>

definition str_search ::
  "CORD_pos \<Rightarrow> CORD_pos \<Rightarrow> CORD_pos \<Rightarrow> cord \<Rightarrow> nat \<Rightarrow> cord \<Rightarrow> char list \<Rightarrow> nat \<Rightarrow> stop + nat" where
  "str_search p q r x start s s_start slen =
     (let xlen = CORD_len x in
      if xlen < start \<or> xlen - start < slen then Inr CORD_NOT_FOUND
      else
        let start_len = (if slen > 8 then 8 else slen) in
        sbind (CORD_set_pos p x start) (\<lambda>xpos.
        sbind (str_fill start_len 0 s_start 0 0 0 xpos) (\<lambda>(m, s_buf, x_buf, xpos).
          str_loop (xlen - slen - start + 1)
            (\<lambda>pos. CORD_ncmp q r x pos s start_len (slen - start_len))
            xlen slen start_len m s_buf x_buf xpos start)))"

definition CORD_str ::
  "nat \<Rightarrow> CORD_pos \<Rightarrow> CORD_pos \<Rightarrow> CORD_pos \<Rightarrow> char list \<Rightarrow> cord \<Rightarrow> nat \<Rightarrow> cord \<Rightarrow> stop + nat" where
  "CORD_str k p q r block x start s =
     (case s of
        CORD_EMPTY \<Rightarrow> Inr start
      | C_string t \<Rightarrow> str_search p q r x start s (t @ [NUL]) (length t)
      | _ \<Rightarrow>
          sbind (CORD_substr k s 0 8) (\<lambda>c.
          sbind (CORD_to_char_star c block) (\<lambda>s_start. str_search p q r x start s s_start (CORD_len s))))"

section \<open>Positions inside or past the end of a cord\<close>

definition pos_in :: "CORD_pos \<Rightarrow> cord \<Rightarrow> nat \<Rightarrow> bool" where
  "pos_in p x i \<longleftrightarrow> (if i < CORD_len x then pos_at p x i \<and> cached p else \<not> CORD_pos_valid p)"

lemma pos_in_valid: "pos_in p x i \<Longrightarrow> CORD_pos_valid p \<longleftrightarrow> i < CORD_len x"
  using pos_at_valid by (auto simp: pos_in_def split: if_splits)

lemma set_pos_in:
  assumes "pos_mem p" "cord_inv x"
  obtains q where "CORD_set_pos p x i = Inr q" "pos_in q x i"
  using CORD_set_pos_ok [OF assms, of i] by (auto simp: pos_in_def)

lemma fetch_in: "pos_in p x i \<Longrightarrow> i < CORD_len x \<Longrightarrow> CORD_pos_fetch p = Inr (chars x ! i)"
  using CORD_pos_fetch_ok by (simp add: pos_in_def)

lemma next_in:
  assumes "pos_in p x i" "i < CORD_len x"
  obtains q where "CORD_next p = Inr q" "pos_in q x (i + 1)"
proof -
  have "pos_at p x i" "cached p"
    using assms by (simp_all add: pos_in_def)
  then obtain q where "CORD_next p = Inr q"
    "if i + 1 < CORD_len x then pos_at q x (i + 1) \<and> (cached p \<longrightarrow> cached q) else \<not> CORD_pos_valid q"
    using CORD_next_ok by blast
  then show ?thesis
    using that [of q] \<open>cached p\<close> by (auto simp: pos_in_def split: if_splits)
qed

text \<open>A cache with characters left is a piece of the cord.\<close>

lemma cache_end_le: "pos_at p x i \<Longrightarrow> cur_end p \<le> CORD_len x"
  by (erule pos_at_leaf) (auto simp: cache_ok_def segment_def split: cord.splits)

lemma shift_at:
  assumes "pos_at p x i" "i \<le> j" "j < cur_end p"
  shows "pos_at (p\<lparr>cur_pos := j\<rparr>) x j"
  using assms(1)
proof (rule pos_at_leaf)
  fix leaf s
  assume e: "path p ! path_len p = (leaf, s)" and i: "s \<le> i" and cache: "cache_ok p leaf s"
    and path: "path_to (path p) x (path_len p)"
  have "cur_end p \<le> s + CORD_len leaf"
    using cache by (auto simp: cache_ok_def split: cord.splits)
  moreover have "cache_ok (p\<lparr>cur_pos := j\<rparr>) leaf s"
    using cache by (simp add: cache_ok_def split: cord.splits)
  moreover have "length (function_buf p) = FUNCTION_BUF_SZ"
    using assms(1) by (simp add: pos_at_def)
  ultimately show ?thesis
    using path e i assms(2,3) by (simp add: pos_at_def)
qed

lemma advance_in:
  assumes "pos_in p x i" "i < CORD_len x" "0 < n" "int n \<le> CORD_pos_chars_left p"
  obtains q where "CORD_pos_advance p n = Inr q" "pos_in q x (i + n)" "i + n \<le> CORD_len x"
proof -
  have p: "pos_at p x i" "cached p"
    using assms(1,2) by (simp_all add: pos_in_def)
  then have cur: "cur_pos p = i"
    by (simp add: pos_at_def)
  have n: "i + n \<le> cur_end p"
    using assms(4) by (simp add: CORD_pos_chars_left_def cur)
  then have len: "i + n \<le> CORD_len x"
    using cache_end_le [OF p(1)] by simp
  have "pos_at (p\<lparr>cur_pos := i + n - 1\<rparr>) x (i + n - 1)"
    by (rule shift_at [OF p(1)]) (use n assms(3) in simp_all)
  moreover have "cached (p\<lparr>cur_pos := i + n - 1\<rparr>)"
    using p(2) n assms(3) cur by (auto simp: cached_def)
  moreover have "i + n - 1 < CORD_len x"
    using len assms(3) by linarith
  ultimately have "pos_in (p\<lparr>cur_pos := i + n - 1\<rparr>) x (i + n - 1)"
    by (simp add: pos_in_def)
  then obtain q where "CORD_next (p\<lparr>cur_pos := i + n - 1\<rparr>) = Inr q" "pos_in q x (i + n - 1 + 1)"
    by (rule next_in) (use len assms(3) in simp)
  then show ?thesis
    using that [of q] len assms(3) by (simp add: CORD_pos_advance_def cur)
qed

lemma cache_block:
  assumes "pos_in p x i" "i < CORD_len x" "int n \<le> CORD_pos_chars_left p" "0 < n"
  obtains a where "CORD_pos_cur_char_addr p = Inr a" "n \<le> length a" "take n a = take n (drop i (chars x))"
proof -
  have p: "pos_at p x i" "cached p"
    using assms(1,2) by (simp_all add: pos_in_def)
  then have cur: "cur_pos p = i"
    by (simp add: pos_at_def)
  have n: "i + n \<le> cur_end p"
    using assms(3) by (simp add: CORD_pos_chars_left_def cur)
  then have start: "cur_start p \<le> i"
    using p(2) assms(4) by (simp add: cached_def cur)
  have len_x: "length (chars x) = CORD_len x"
    using p(1) by (simp add: pos_at_def path_to_def)
  define block where "block = (case cur_leaf p of Leaf_string s \<Rightarrow> s @ [NUL] | Function_buf \<Rightarrow> function_buf p)"
  have block: "cur_end p - cur_start p \<le> length block"
    using p(1)
  proof (rule pos_at_leaf)
    fix leaf s
    assume "cache_ok p leaf s"
    then show ?thesis
      using n assms(4) p(1) by (auto simp: cache_ok_def block_def pos_at_def split: cord.splits)
  qed
  have nth: "block ! (j - cur_start p) = chars x ! j" if "i \<le> j" "j < cur_end p" for j
  proof -
    have "cache_char (p\<lparr>cur_pos := j\<rparr>) = Inr (chars x ! j)"
      by (rule cache_char_ok [OF shift_at [OF p(1) that]]) (use that start in simp_all)
    then show ?thesis
      using that start by (auto simp: cache_char_def block_def c_char_def Let_def
        split: leaf_ptr.splits if_splits)
  qed
  have "CORD_pos_cur_char_addr p = Inr (drop (i - cur_start p) block)"
    using start block n by (simp add: CORD_pos_cur_char_addr_def cur block_def [symmetric] Let_def)
  moreover have "n \<le> length (drop (i - cur_start p) block)"
    using block n start by simp
  moreover have "take n (drop (i - cur_start p) block) = take n (drop i (chars x))"
  proof (rule nth_equalityI)
    show "length (take n (drop (i - cur_start p) block)) = length (take n (drop i (chars x)))"
      using block n start cache_end_le [OF p(1)] len_x by simp
  next
    fix j
    assume "j < length (take n (drop (i - cur_start p) block))"
    then have j: "j < n"
      by simp
    then have "block ! (i + j - cur_start p) = chars x ! (i + j)"
      using nth [of "i + j"] n by simp
    then show "take n (drop (i - cur_start p) block) ! j = take n (drop i (chars x)) ! j"
      using j start block n cache_end_le [OF p(1)] len_x by simp
  qed
  ultimately show ?thesis
    by (rule that)
qed

section \<open>Comparison of strings\<close>

fun lex_cmp :: "string \<Rightarrow> string \<Rightarrow> int" where
  "lex_cmp [] [] = 0"
| "lex_cmp [] (d # b) = - 1"
| "lex_cmp (c # a) [] = 1"
| "lex_cmp (c # a) (d # b) = (if c \<noteq> d then sgn (uchar c - uchar d) else lex_cmp a b)"

lemma uchar_eq [simp]: "uchar c = uchar d \<longleftrightarrow> c = d"
  by (simp add: uchar_def)

lemma uchar_range: "0 \<le> uchar c" "uchar c < 256"
proof -
  have "uchar c = int (of_char c)"
    by (simp only: uchar_def of_nat_of_char)
  moreover have "(of_char c :: nat) < 256"
    by (rule nat_of_char_less_256)
  ultimately show "0 \<le> uchar c" "uchar c < 256"
    by simp_all
qed

lemma lex_cmp_0: "lex_cmp a b = 0 \<longleftrightarrow> a = b"
  by (induction a b rule: lex_cmp.induct) (auto simp: sgn_if)

lemma lex_cmp_append:
  "length a = length b \<Longrightarrow> lex_cmp (a @ c) (b @ d) = (if a = b then lex_cmp c d else lex_cmp a b)"
  by (induction a b rule: list_induct2) auto

lemma strncmp_lex:
  "n \<le> length a \<Longrightarrow> n \<le> length b \<Longrightarrow> NUL \<notin> set (take n a) \<Longrightarrow>
    strncmp n a b = Inr (lex_cmp (take n a) (take n b))"
  by (induction n a b rule: strncmp.induct) auto

definition ascii :: "string \<Rightarrow> bool" where
  "ascii s \<longleftrightarrow> (\<forall>c\<in>set s. uchar c < 128)"

definition compares :: "int \<Rightarrow> string \<Rightarrow> string \<Rightarrow> bool" where
  "compares r a b \<longleftrightarrow> (r = 0 \<longleftrightarrow> a = b) \<and> (ascii a \<and> ascii b \<longrightarrow> sgn r = lex_cmp a b)"

lemma lex_cmp_sgn: "sgn (lex_cmp a b) = lex_cmp a b"
  by (induction a b rule: lex_cmp.induct) simp_all

lemma schar_eq [simp]: "schar c = schar d \<longleftrightarrow> c = d"
proof -
  have "0 \<le> uchar c" "uchar c < 256" "0 \<le> uchar d" "uchar d < 256"
    by (simp_all add: uchar_range)
  then show ?thesis
    using uchar_eq [of c d] by (auto simp: schar_def simp del: uchar_eq split: if_splits)
qed

lemma compares_append:
  assumes "length a = length b"
  shows "a = b \<Longrightarrow> compares r c d \<Longrightarrow> compares r (a @ c) (b @ d)"
    "a \<noteq> b \<Longrightarrow> r = lex_cmp a b \<Longrightarrow> compares r (a @ c) (b @ d)"
  using assms by (simp_all add: compares_def ascii_def lex_cmp_append lex_cmp_0 lex_cmp_sgn)

lemma compares_char:
  assumes "c \<noteq> d"
  shows "compares (schar c - schar d) (c # a) (d # b)"
  using assms schar_eq [of c d] by (auto simp: compares_def ascii_def schar_def)

lemma take_drop_split: "n \<le> m \<Longrightarrow> take m (drop i xs) = take n (drop i xs) @ take (m - n) (drop (i + n) xs)"
  by (metis add.commute drop_drop le_add_diff_inverse take_add)

lemma ncmp_loop_ok:
  assumes "pos_in xp x i" "pos_in yp y j" "cord_wf x" "cord_wf y"
    and "NUL \<notin> set (take (len - count) (drop i (chars x)))"
  shows "\<exists>r. ncmp_loop len xp yp count = Inr r \<and>
    compares r (take (len - count) (drop i (chars x))) (take (len - count) (drop j (chars y)))"
  using assms
proof (induction "len - count" arbitrary: xp yp i j count rule: less_induct)
  case less
  note x = length_chars [OF less.prems(3)] and y = length_chars [OF less.prems(4)]
  note valid = pos_in_valid [OF less.prems(1)] pos_in_valid [OF less.prems(2)]
  let ?m = "len - count"
  consider (finished) "\<not> count < len" | (x_end) "count < len" "\<not> i < CORD_len x"
    | (y_end) "count < len" "i < CORD_len x" "\<not> j < CORD_len y"
    | (char) "count < len" "i < CORD_len x" "j < CORD_len y"
        "CORD_pos_chars_left xp \<le> 0 \<or> CORD_pos_chars_left yp \<le> 0"
    | (block) "count < len" "i < CORD_len x" "j < CORD_len y"
        "0 < CORD_pos_chars_left xp" "0 < CORD_pos_chars_left yp"
    by linarith
  then show ?case
  proof cases
    case finished
    then show ?thesis
      by (subst ncmp_loop.simps) (simp add: compares_def)
  next
    case x_end
    then have "take ?m (drop i (chars x)) = []"
      using x by simp
    moreover have "take ?m (drop j (chars y)) = [] \<longleftrightarrow> \<not> j < CORD_len y"
      using x_end(1) y by auto
    ultimately show ?thesis
      using x_end valid
      by (subst ncmp_loop.simps)
        (cases "take ?m (drop j (chars y))"; simp add: compares_def)
  next
    case y_end
    then have "take ?m (drop j (chars y)) = []" "take ?m (drop i (chars x)) \<noteq> []"
      using x y by simp_all
    then show ?thesis
      using y_end valid
      by (subst ncmp_loop.simps)
        (cases "take ?m (drop i (chars x))"; simp add: compares_def)
  next
    case char
    obtain xq where xq: "CORD_next xp = Inr xq" "pos_in xq x (i + 1)"
      using less.prems(1) char(2) by (rule next_in)
    obtain yq where yq: "CORD_next yp = Inr yq" "pos_in yq y (j + 1)"
      using less.prems(2) char(3) by (rule next_in)
    let ?c = "chars x ! i" and ?d = "chars y ! j"
    have split: "take ?m (drop i (chars x)) = ?c # take (len - (count + 1)) (drop (i + 1) (chars x))"
      "take ?m (drop j (chars y)) = ?d # take (len - (count + 1)) (drop (j + 1) (chars y))"
      using char(1-3) x y by (simp_all add: take_Cons' Suc_diff_Suc flip: Cons_nth_drop_Suc)
    have step: "ncmp_loop len xp yp count =
        (if ?c \<noteq> ?d then Inr (schar ?c - schar ?d) else ncmp_loop len xq yq (count + 1))"
      using char valid fetch_in [OF less.prems(1) char(2)] fetch_in [OF less.prems(2) char(3)] xq(1) yq(1)
      by (subst ncmp_loop.simps) (simp add: Let_def del: not_less)
    show ?thesis
    proof (cases "?c = ?d")
      case True
      have "\<exists>r. ncmp_loop len xq yq (count + 1) = Inr r \<and>
          compares r (take (len - (count + 1)) (drop (i + 1) (chars x)))
            (take (len - (count + 1)) (drop (j + 1) (chars y)))"
        by (rule less.hyps [OF _ xq(2) yq(2) less.prems(3,4)])
          (use char(1) less.prems(5) split(1) in simp_all)
      then show ?thesis
        using True compares_append(1) [of "[?c]" "[?d]"] by (auto simp: step split)
    next
      case False
      then show ?thesis
        using compares_char [OF False] by (simp add: step split)
    qed
  next
    case block
    define n where "n = (let avail = nat (min (CORD_pos_chars_left xp) (CORD_pos_chars_left yp)) in
      if count + avail > len then avail - (count + avail - len) else avail)"
    have n: "0 < n" "n \<le> ?m" "int n \<le> CORD_pos_chars_left xp" "int n \<le> CORD_pos_chars_left yp"
      using block by (auto simp: n_def Let_def)
    obtain xq where xq: "CORD_pos_advance xp n = Inr xq" "pos_in xq x (i + n)" "i + n \<le> CORD_len x"
      using less.prems(1) block(2) n(1,3) by (rule advance_in)
    obtain yq where yq: "CORD_pos_advance yp n = Inr yq" "pos_in yq y (j + n)" "j + n \<le> CORD_len y"
      using less.prems(2) block(3) n(1,4) by (rule advance_in)
    obtain a where a: "CORD_pos_cur_char_addr xp = Inr a" "n \<le> length a"
        "take n a = take n (drop i (chars x))"
      using less.prems(1) block(2) n(3,1) by (rule cache_block)
    obtain b where b: "CORD_pos_cur_char_addr yp = Inr b" "n \<le> length b"
        "take n b = take n (drop j (chars y))"
      using less.prems(2) block(3) n(4,1) by (rule cache_block)
    note split = take_drop_split [OF n(2), of i "chars x"] take_drop_split [OF n(2), of j "chars y"]
    have "NUL \<notin> set (take n a)"
      using less.prems(5) by (simp add: a(3) split)
    then have cmp: "strncmp n a b = Inr (lex_cmp (take n (drop i (chars x))) (take n (drop j (chars y))))"
      using strncmp_lex [OF a(2) b(2)] by (simp add: a(3) b(3))
    have len: "length (take n (drop i (chars x))) = length (take n (drop j (chars y)))"
      using xq(3) yq(3) x y by simp
    let ?avail = "nat (min (CORD_pos_chars_left xp) (CORD_pos_chars_left yp))"
    have step: "ncmp_loop len xp yp count =
        (if take n (drop i (chars x)) \<noteq> take n (drop j (chars y))
         then Inr (lex_cmp (take n (drop i (chars x))) (take n (drop j (chars y))))
         else ncmp_loop len xq yq (count + ?avail))"
    proof -
      have "(if CORD_pos_chars_left yp < CORD_pos_chars_left xp then CORD_pos_chars_left yp
          else CORD_pos_chars_left xp) = min (CORD_pos_chars_left xp) (CORD_pos_chars_left yp)"
        by simp
      moreover have "(if len < count + ?avail then ?avail - (count + ?avail - len) else ?avail) = n"
        by (simp add: n_def Let_def)
      ultimately show ?thesis
        using block valid by (subst ncmp_loop.simps)
          (simp only: Let_def, simp add: a(1) b(1) cmp xq(1) yq(1) lex_cmp_0)
    qed
    have "len - (count + ?avail) = ?m - n"
      by (auto simp: n_def Let_def)
    moreover have "\<exists>r. ncmp_loop len xq yq (count + ?avail) = Inr r \<and>
        compares r (take (len - (count + ?avail)) (drop (i + n) (chars x)))
          (take (len - (count + ?avail)) (drop (j + n) (chars y)))"
      by (rule less.hyps [OF _ xq(2) yq(2) less.prems(3,4)])
        (use calculation n less.prems(5) split(1) in simp_all)
    ultimately show ?thesis
      using compares_append [OF len] by (auto simp: step split)
  qed
qed

lemma CORD_ncmp_ok:
  assumes "pos_mem p" "pos_mem q" "cord_inv x" "cord_inv y" "NUL \<notin> set (take len (drop i (chars x)))"
  shows "\<exists>r. CORD_ncmp p q x i y j len = Inr r \<and>
    compares r (take len (drop i (chars x))) (take len (drop j (chars y)))"
proof -
  obtain xp where xp: "CORD_set_pos p x i = Inr xp" "pos_in xp x i"
    using assms(1,3) by (rule set_pos_in)
  obtain yp where yp: "CORD_set_pos q y j = Inr yp" "pos_in yp y j"
    using assms(2,4) by (rule set_pos_in)
  show ?thesis
    using ncmp_loop_ok [OF xp(2) yp(2), of len 0] assms(3-5) xp(1) yp(1)
    by (simp add: CORD_ncmp_def cord_inv_wf)
qed

section \<open>The words of the search\<close>

definition wbytes :: "string \<Rightarrow> 64 word" where
  "wbytes cs = foldl (\<lambda>w c. push_bit 8 w OR byte c) 0 cs"

lemma wbytes_simps [simp]:
  "wbytes [] = 0" "wbytes (cs @ [c]) = push_bit 8 (wbytes cs) OR byte c"
  by (simp_all add: wbytes_def)

lemma bit_byte: "bit (byte c) n \<longleftrightarrow> n < 8 \<and> bit (of_char c :: nat) n"
proof -
  have "take_bit 8 (of_char c :: nat) = of_char c"
    by (simp add: take_bit_nat_eq_self)
  then have "bit (of_char c :: nat) n \<Longrightarrow> n < 8"
    by (metis bit_take_bit_iff)
  then show ?thesis
    by (auto simp: byte_def bit_of_nat_iff)
qed

lemma byte_eq: "(\<forall>n<8. bit (byte c) n = bit (byte d) n) \<longleftrightarrow> c = d"
proof
  assume *: "\<forall>n<8. bit (byte c) n = bit (byte d) n"
  have "byte c = byte d"
    by (rule bit_word_eqI) (use * bit_byte in blast)
  then have "unat (byte c) = unat (byte d)"
    by simp
  moreover have "unat (byte a) = of_char a" for a
  proof -
    have "(of_char a :: nat) < 256"
      by (rule nat_of_char_less_256)
    also have "(256 :: nat) < 2 ^ 64"
      by simp
    finally have "(of_char a :: nat) < 2 ^ 64" .
    then show ?thesis
      by (simp add: byte_def unsigned_of_nat take_bit_nat_eq_self)
  qed
  ultimately have "(of_char c :: nat) = of_char d"
    by (simp only:)
  then show "c = d"
    by (simp only: of_char_eq_iff)
qed simp

lemma bit_wbytes:
  "n < 64 \<Longrightarrow> bit (wbytes cs) n \<longleftrightarrow> n div 8 < length cs \<and> bit (byte (rev cs ! (n div 8))) (n mod 8)"
proof (induction cs arbitrary: n rule: rev_induct)
  case (snoc c cs)
  show ?case
  proof (cases "n < 8")
    case True
    then show ?thesis
      by (simp add: bit_or_iff bit_push_bit_iff)
  next
    case False
    then have n: "n div 8 = Suc ((n - 8) div 8)" "(n - 8) mod 8 = n mod 8"
      by (simp_all add: le_div_geq le_mod_geq)
    have "bit (wbytes (cs @ [c])) n \<longleftrightarrow> bit (wbytes cs) (n - 8)"
      using False snoc.prems by (auto simp: bit_or_iff bit_push_bit_iff bit_byte possible_bit_word)
    also have "\<dots> \<longleftrightarrow> (n - 8) div 8 < length cs \<and> bit (byte (rev cs ! ((n - 8) div 8))) ((n - 8) mod 8)"
      by (rule snoc.IH) (use snoc.prems in simp)
    finally show ?thesis
      using n by simp
  qed
qed simp

lemma push_mask: "k < 8 \<Longrightarrow> push_bit 8 (mask (8 * k)) OR 0xff = (mask (8 * Suc k) :: 64 word)"
proof -
  have ff: "(0xff :: 64 word) = mask 8"
    by (simp add: mask_eq_exp_minus_1)
  show ?thesis
    unfolding ff by (rule bit_word_eqI) (auto simp: bit_or_iff bit_push_bit_iff bit_mask_iff)
qed

lemma wbytes_match:
  assumes "length ds = k" "k \<le> 8" "k \<le> length cs"
  shows "(wbytes cs AND mask (8 * k)) = wbytes ds \<longleftrightarrow> drop (length cs - k) cs = ds"
proof -
  have eq: "bit (wbytes cs AND mask (8 * k)) (8 * j + m) = bit (wbytes ds) (8 * j + m) \<longleftrightarrow>
      bit (byte (rev cs ! j)) m = bit (byte (rev ds ! j)) m" if "j < k" "m < 8" for j m
  proof -
    have "8 * j + m < 64" "8 * j + m < 8 * k" "(8 * j + m) div 8 = j" "(8 * j + m) mod 8 = m"
      using that assms(2) by simp_all
    then show ?thesis
      using that assms by (simp add: bit_and_iff bit_mask_iff bit_wbytes)
  qed
  have outside: "\<not> bit (wbytes cs AND mask (8 * k)) n \<and> \<not> bit (wbytes ds) n" if "8 * k \<le> n" for n
  proof (cases "n < 64")
    case True
    have "\<not> n div 8 < k"
      using that by simp
    then show ?thesis
      using True that assms(1) by (simp add: bit_and_iff bit_mask_iff bit_wbytes)
  next
    case False
    then show ?thesis
      by (auto dest: bit_imp_le_length)
  qed
  have "(wbytes cs AND mask (8 * k)) = wbytes ds \<longleftrightarrow> (\<forall>j<k. rev cs ! j = rev ds ! j)"
  proof
    assume "(wbytes cs AND mask (8 * k)) = wbytes ds"
    then show "\<forall>j<k. rev cs ! j = rev ds ! j"
      using eq byte_eq by metis
  next
    assume *: "\<forall>j<k. rev cs ! j = rev ds ! j"
    show "(wbytes cs AND mask (8 * k)) = wbytes ds"
    proof (rule bit_word_eqI)
      fix n
      show "bit (wbytes cs AND mask (8 * k)) n = bit (wbytes ds) n"
      proof (cases "n < 8 * k")
        case True
        then have "n div 8 < k" "n mod 8 < 8" "n = 8 * (n div 8) + n mod 8"
          by auto
        then show ?thesis
          using eq [of "n div 8" "n mod 8"] * by simp
      qed (use outside in simp)
    qed
  qed
  also have "\<dots> \<longleftrightarrow> take k (rev cs) = rev ds"
    using assms by (auto simp: list_eq_iff_nth_eq)
  also have "\<dots> \<longleftrightarrow> drop (length cs - k) cs = ds"
    by (simp add: take_rev)
  finally show ?thesis .
qed

section \<open>The search\<close>

lemma str_fill_ok:
  assumes "pos_in xpos x (start + i)" "start + i + k \<le> CORD_len x" "cord_wf x" "i + k \<le> length s_start"
    and "i + k \<le> 8"
  shows "\<exists>xpos'. str_fill k i s_start (mask (8 * i)) (wbytes (take i s_start))
      (wbytes (take i (drop start (chars x)))) xpos =
    Inr (mask (8 * (i + k)), wbytes (take (i + k) s_start),
      wbytes (take (i + k) (drop start (chars x))), xpos') \<and> pos_in xpos' x (start + (i + k))"
  using assms
proof (induction k arbitrary: i xpos)
  case (Suc k)
  have len: "start + i < CORD_len x"
    using Suc.prems(2) by simp
  obtain q where q: "CORD_next xpos = Inr q" "pos_in q x (start + i + 1)"
    using Suc.prems(1) len by (rule next_in)
  have fetch: "CORD_pos_fetch xpos = Inr (drop start (chars x) ! i)"
    using fetch_in [OF Suc.prems(1) len] len length_chars [OF Suc.prems(3)] by simp
  have "take (Suc i) s_start = take i s_start @ [s_start ! i]"
    using Suc.prems(4) by (simp add: take_Suc_conv_app_nth)
  moreover have "take (Suc i) (drop start (chars x)) = take i (drop start (chars x)) @ [drop start (chars x) ! i]"
    using len length_chars [OF Suc.prems(3)] by (simp add: take_Suc_conv_app_nth)
  ultimately have w: "wbytes (take (Suc i) s_start) = push_bit 8 (wbytes (take i s_start)) OR byte (s_start ! i)"
    "wbytes (take (Suc i) (drop start (chars x))) =
       push_bit 8 (wbytes (take i (drop start (chars x)))) OR byte (drop start (chars x) ! i)"
    by simp_all
  have m: "push_bit 8 (mask (8 * i)) OR 0xff = (mask (8 * Suc i) :: 64 word)"
    by (rule push_mask) (use Suc.prems(5) in simp)
  have "str_fill (Suc k) i s_start (mask (8 * i)) (wbytes (take i s_start))
      (wbytes (take i (drop start (chars x)))) xpos =
    str_fill k (Suc i) s_start (mask (8 * Suc i)) (wbytes (take (Suc i) s_start))
      (wbytes (take (Suc i) (drop start (chars x)))) q"
    using Suc.prems(4) by (simp only: str_fill.simps fetch q(1) w m) simp
  moreover have "pos_in q x (start + Suc i)"
    using q(2) by simp
  ultimately show ?case
    using Suc.IH [of q "Suc i"] Suc.prems(2-5) by (simp only: add_Suc_right add_Suc add.assoc)
qed simp

definition occurs_at :: "string \<Rightarrow> string \<Rightarrow> nat \<Rightarrow> bool" where
  "occurs_at a b i \<longleftrightarrow> take (length b) (drop i a) = b"

lemma str_loop_ok:
  assumes "pos_in xpos x (mp + k)" "cord_wf x" "length b = slen" "k = min slen 8" "0 < slen"
    and "mp + slen \<le> CORD_len x" "start \<le> mp" "CORD_len x - slen - mp < n"
    and ncmp: "\<forall>pos. pos \<le> CORD_len x \<longrightarrow> k < slen \<longrightarrow> (\<exists>r. ncmp pos = Inr r \<and>
      (r = 0 \<longleftrightarrow> take (slen - k) (drop pos (chars x)) = drop k b))"
  shows "\<exists>r. str_loop n ncmp (CORD_len x) slen k (mask (8 * k)) (wbytes (take k b))
      (wbytes (take (mp + k - start) (drop start (chars x)))) xpos mp = Inr r \<and>
    (if \<exists>m\<ge>mp. m + slen \<le> CORD_len x \<and> occurs_at (chars x) b m
     then mp \<le> r \<and> r + slen \<le> CORD_len x \<and> occurs_at (chars x) b r \<and>
       (\<forall>m. mp \<le> m \<longrightarrow> m < r \<longrightarrow> \<not> occurs_at (chars x) b m)
     else r = CORD_NOT_FOUND)"
  using assms(1,6,7,8)
proof (induction n arbitrary: xpos mp)
  case (Suc n)
  let ?x = "chars x" and ?xbuf = "wbytes (take (mp + k - start) (drop start (chars x)))"
  have len: "length ?x = CORD_len x"
    using assms(2) by simp
  have k: "k \<le> slen" "k \<le> 8" "0 < k"
    using assms(4,5) by simp_all
  have window: "drop (mp - start) (take (mp + k - start) (drop start ?x)) = take k (drop mp ?x)"
    using Suc.prems(3) by (simp add: drop_take)
  have buf: "(?xbuf AND mask (8 * k)) = wbytes (take k b) \<longleftrightarrow> take k (drop mp ?x) = take k b"
  proof -
    have l: "length (take (mp + k - start) (drop start ?x)) = mp + k - start"
      using Suc.prems(2,3) k(1) len by simp
    have "(?xbuf AND mask (8 * k)) = wbytes (take k b) \<longleftrightarrow>
        drop (length (take (mp + k - start) (drop start ?x)) - k)
          (take (mp + k - start) (drop start ?x)) = take k b"
      by (rule wbytes_match) (use k assms(3) l Suc.prems(3) in simp_all)
    moreover have "mp + k - start - k = mp - start"
      using Suc.prems(3) by simp
    ultimately show ?thesis
      by (simp only: l window)
  qed
  have occ: "occurs_at ?x b mp \<longleftrightarrow> take k (drop mp ?x) = take k b \<and>
      take (slen - k) (drop (mp + k) ?x) = drop k b"
  proof -
    have "take slen (drop mp ?x) = take k (drop mp ?x) @ take (slen - k) (drop (mp + k) ?x)"
      by (rule take_drop_split [OF k(1)])
    moreover have "b = take k b @ drop k b"
      by simp
    moreover have "length (take k (drop mp ?x)) = length (take k b)"
      using Suc.prems(2) k(1) len assms(3) by simp
    ultimately show ?thesis
      unfolding occurs_at_def assms(3) by (metis append_eq_append_conv)
  qed
  have found: "(if (?xbuf AND mask (8 * k)) = wbytes (take k b) then
      (if slen = k then Inr True else sbind (ncmp (mp + k)) (\<lambda>r. Inr (r = 0))) else Inr False) =
    (Inr (occurs_at ?x b mp) :: stop + bool)"
  proof (cases "slen = k")
    case True
    have "take (slen - k) (drop (mp + k) ?x) = drop k b"
      using True assms(3) by simp
    then show ?thesis
      using True by (simp only: buf occ) simp
  next
    case False
    then have "k < slen" "mp + k \<le> CORD_len x"
      using k(1) Suc.prems(2) by simp_all
    then obtain r where "ncmp (mp + k) = Inr r" "r = 0 \<longleftrightarrow> take (slen - k) (drop (mp + k) ?x) = drop k b"
      using ncmp by blast
    then show ?thesis
      using False by (simp add: buf occ)
  qed
  have eq: "str_loop (Suc n) ncmp (CORD_len x) slen k (mask (8 * k)) (wbytes (take k b)) ?xbuf xpos mp =
      (if occurs_at ?x b mp then Inr mp
       else if mp = CORD_len x - slen then Inr CORD_NOT_FOUND
       else sbind (CORD_pos_fetch xpos) (\<lambda>c. sbind (CORD_next xpos) (\<lambda>xpos.
         str_loop n ncmp (CORD_len x) slen k (mask (8 * k)) (wbytes (take k b))
           (push_bit 8 ?xbuf OR byte c) xpos (mp + 1))))"
    by (simp only: str_loop.simps found sbind_Inr)
  consider (here) "occurs_at ?x b mp" | (last) "\<not> occurs_at ?x b mp" "mp = CORD_len x - slen"
    | (more) "\<not> occurs_at ?x b mp" "mp \<noteq> CORD_len x - slen"
    by blast
  then show ?case
  proof cases
    case here
    then show ?thesis
      unfolding eq using Suc.prems(2) by auto
  next
    case last
    have "\<not> (\<exists>m\<ge>mp. m + slen \<le> CORD_len x \<and> occurs_at ?x b m)"
    proof
      assume "\<exists>m\<ge>mp. m + slen \<le> CORD_len x \<and> occurs_at ?x b m"
      then obtain m where "mp \<le> m" "m + slen \<le> CORD_len x" "occurs_at ?x b m"
        by blast
      moreover from this have "m = mp"
        using last(2) by simp
      ultimately show False
        using last(1) by simp
    qed
    then show ?thesis
      unfolding eq using last by (simp only: if_False if_True) simp
  next
    case more
    have pos: "mp + k < CORD_len x" "mp + 1 + slen \<le> CORD_len x"
      using more(2) Suc.prems(2) k(1) by simp_all
    obtain q where q: "CORD_next xpos = Inr q" "pos_in q x (mp + k + 1)"
      using Suc.prems(1) pos(1) by (rule next_in)
    have "mp + 1 + k - start = Suc (mp + k - start)"
      using Suc.prems(3) by simp
    moreover have "drop start ?x ! (mp + k - start) = ?x ! (mp + k)"
      using Suc.prems(3) pos(1) len by simp
    ultimately have "take (mp + 1 + k - start) (drop start ?x) =
        take (mp + k - start) (drop start ?x) @ [?x ! (mp + k)]"
      using Suc.prems(3) pos(1) len by (simp add: take_Suc_conv_app_nth)
    then have w: "push_bit 8 ?xbuf OR byte (?x ! (mp + k)) =
        wbytes (take (mp + 1 + k - start) (drop start ?x))"
      by simp
    have step: "str_loop (Suc n) ncmp (CORD_len x) slen k (mask (8 * k)) (wbytes (take k b)) ?xbuf xpos mp =
        str_loop n ncmp (CORD_len x) slen k (mask (8 * k)) (wbytes (take k b))
          (wbytes (take (mp + 1 + k - start) (drop start ?x))) q (mp + 1)"
      unfolding eq using more fetch_in [OF Suc.prems(1) pos(1)] q(1)
      by (simp only: if_False sbind_Inr w)
    have "pos_in q x (mp + 1 + k)" "CORD_len x - slen - (mp + 1) < n"
      using q(2) Suc.prems(4) pos(2) by (simp_all add: add.commute add.left_commute)
    then obtain r where r: "str_loop n ncmp (CORD_len x) slen k (mask (8 * k)) (wbytes (take k b))
          (wbytes (take (mp + 1 + k - start) (drop start ?x))) q (mp + 1) = Inr r"
      "if \<exists>m\<ge>mp + 1. m + slen \<le> CORD_len x \<and> occurs_at ?x b m
       then mp + 1 \<le> r \<and> r + slen \<le> CORD_len x \<and> occurs_at ?x b r \<and>
         (\<forall>m. mp + 1 \<le> m \<longrightarrow> m < r \<longrightarrow> \<not> occurs_at ?x b m)
       else r = CORD_NOT_FOUND"
      using Suc.IH [of q "mp + 1"] pos(2) Suc.prems(3) by auto
    have "(\<exists>m\<ge>mp. m + slen \<le> CORD_len x \<and> occurs_at ?x b m) \<longleftrightarrow>
        (\<exists>m\<ge>mp + 1. m + slen \<le> CORD_len x \<and> occurs_at ?x b m)"
      using more(1) by (metis Suc_eq_plus1 Suc_leD le_antisym not_less_eq_eq)
    moreover have "\<not> occurs_at ?x b m" if "mp \<le> m" "m < r"
        "\<forall>m. mp + 1 \<le> m \<longrightarrow> m < r \<longrightarrow> \<not> occurs_at ?x b m" for m
      using that more(1) by (cases "m = mp") auto
    ultimately show ?thesis
      unfolding step r(1) using r(2) by (auto split: if_splits)
  qed
qed simp

definition first_match :: "string \<Rightarrow> string \<Rightarrow> nat \<Rightarrow> nat \<Rightarrow> bool" where
  "first_match a b start r \<longleftrightarrow>
     (if \<exists>m\<ge>start. m + length b \<le> length a \<and> occurs_at a b m
      then start \<le> r \<and> r + length b \<le> length a \<and> occurs_at a b r \<and>
        (\<forall>m. start \<le> m \<longrightarrow> m < r \<longrightarrow> \<not> occurs_at a b m)
      else r = CORD_NOT_FOUND)"

lemma CORD_str_ok:
  assumes mem: "pos_mem p" "pos_mem q" "pos_mem r" and x: "cord_inv x" "NUL \<notin> set (chars x)"
    and s: "cord_inv s" "s \<noteq> CORD_EMPTY" "CORD_len s < 2 ^ 31"
    and block: "length block = min (CORD_len s) 8 + 1"
  shows "\<exists>n. CORD_str k p q r block x start s = Inr n \<and> first_match (chars x) (chars s) start n"
proof -
  let ?b = "chars s"
  define slen where "slen = CORD_len s"
  define n where "n = min slen 8"
  have ok: "cord_ok s" and wf: "cord_wf x"
    using s(1,2) x(1) by (simp_all add: cord_inv_def cord_wf_def)
  have len: "length ?b = slen" "0 < slen" "length (chars x) = CORD_len x"
    using ok wf cord_ok_len [OF ok] by (simp_all add: slen_def)
  let ?rest = "\<lambda>s_start. str_search p q r x start s s_start slen"
  have rest: "\<exists>m. ?rest s_start = Inr m \<and> first_match (chars x) ?b start m"
    if start: "take n s_start = take n ?b" "n \<le> length s_start" for s_start
  proof (cases "CORD_len x < start \<or> CORD_len x - start < slen")
    case True
    then have "\<not> (\<exists>m\<ge>start. m + length ?b \<le> length (chars x) \<and> occurs_at (chars x) ?b m)"
      using len by auto
    then have "first_match (chars x) ?b start CORD_NOT_FOUND"
      unfolding first_match_def by (simp only: if_False)
    then show ?thesis
      using True by (simp add: str_search_def)
  next
    case False
    then have room: "start + slen \<le> CORD_len x"
      by linarith
    have n: "(if slen > 8 then 8 else slen) = n" "n \<le> slen" "n \<le> 8"
      by (simp_all add: n_def)
    obtain xpos where xpos: "CORD_set_pos p x start = Inr xpos" "pos_in xpos x start"
      using mem(1) x(1) by (rule set_pos_in)
    obtain xpos' where fill: "str_fill n 0 s_start 0 0 0 xpos = Inr (mask (8 * n), wbytes (take n ?b),
        wbytes (take n (drop start (chars x))), xpos')" "pos_in xpos' x (start + n)"
      using str_fill_ok [of xpos x start 0 n s_start] xpos(2) wf start n room by auto
    have ncmp: "\<forall>pos. pos \<le> CORD_len x \<longrightarrow> n < slen \<longrightarrow>
        (\<exists>c. CORD_ncmp q r x pos s n (slen - n) = Inr c \<and>
          (c = 0 \<longleftrightarrow> take (slen - n) (drop pos (chars x)) = drop n ?b))"
    proof (intro allI impI)
      fix pos
      have "NUL \<notin> set (take (slen - n) (drop pos (chars x)))"
        using x(2) by (meson in_set_dropD in_set_takeD)
      then obtain c where "CORD_ncmp q r x pos s n (slen - n) = Inr c"
        "compares c (take (slen - n) (drop pos (chars x))) (take (slen - n) (drop n ?b))"
        using CORD_ncmp_ok [OF mem(2,3) x(1) s(1)] by blast
      then show "\<exists>c. CORD_ncmp q r x pos s n (slen - n) = Inr c \<and>
          (c = 0 \<longleftrightarrow> take (slen - n) (drop pos (chars x)) = drop n ?b)"
        using len(1) by (auto simp: compares_def)
    qed
    obtain m where m: "str_loop (CORD_len x - slen - start + 1)
          (\<lambda>pos. CORD_ncmp q r x pos s n (slen - n)) (CORD_len x) slen n (mask (8 * n))
          (wbytes (take n ?b)) (wbytes (take (start + n - start) (drop start (chars x)))) xpos' start = Inr m"
      "if \<exists>m\<ge>start. m + slen \<le> CORD_len x \<and> occurs_at (chars x) ?b m
       then start \<le> m \<and> m + slen \<le> CORD_len x \<and> occurs_at (chars x) ?b m \<and>
         (\<forall>j. start \<le> j \<longrightarrow> j < m \<longrightarrow> \<not> occurs_at (chars x) ?b j)
       else m = CORD_NOT_FOUND"
      using str_loop_ok [OF fill(2) wf len(1) n_def len(2) room order_refl _ ncmp,
          of "CORD_len x - slen - start + 1"] by auto
    have "?rest s_start = Inr m"
      using False xpos(1) fill(1) m(1) by (simp only: str_search_def n(1) Let_def if_False sbind_Inr) simp
    then show ?thesis
      using m(2) len by (auto simp: first_match_def)
  qed
  show ?thesis
  proof (cases "CORD_IS_STRING s")
    case True
    then obtain t where t: "s = C_string t"
      by (rule CORD_IS_STRING_E)
    have "CORD_str k p q r block x start s = ?rest (t @ [NUL])"
      by (simp add: CORD_str_def t slen_def)
    then show ?thesis
      using rest [of "t @ [NUL]"] by (simp add: t slen_def n_def)
  next
    case False
    obtain c where c: "CORD_substr k s 0 8 = Inr c" "cord_inv c" "chars c = take 8 ?b"
      using CORD_substr_ok [OF s(1,3), of 0 8 k] by auto
    have "CORD_len c = length (chars c)"
      using c(2) by (simp add: cord_inv_wf)
    then have "length block = CORD_len c + 1"
      using block len(1) by (simp add: c(3) slen_def min.commute)
    then have star: "CORD_to_char_star c block = Inr (take 8 ?b @ [NUL])"
      using CORD_to_char_star_ok [OF cord_inv_wf [OF c(2)]] c(3) by simp
    have "CORD_str k p q r block x start s = sbind (CORD_substr k s 0 8) (\<lambda>c.
        sbind (CORD_to_char_star c block) (\<lambda>s_start. str_search p q r x start s s_start (CORD_len s)))"
      using False s(2) by (cases s) (simp_all add: CORD_str_def)
    then have "CORD_str k p q r block x start s = ?rest (take 8 ?b @ [NUL])"
      by (simp only: c(1) star sbind_Inr slen_def)
    then show ?thesis
      using rest [of "take 8 ?b @ [NUL]"] len(1) by (simp add: n_def min.commute)
  qed
qed

section \<open>Properties\<close>

text \<open>C22: \<open>CORD_ncmp\<close> returns; its result is 0 exactly when the two pieces of at most \<open>len\<close> characters
  that begin at the given indices are equal, and for ASCII characters its sign is that of the
  lexicographic comparison of the pieces. The first piece may not contain NULs.\<close>

theorem ncmp_correct:
  assumes "pos_mem p" "pos_mem q" "cord_inv x" "cord_inv y" "NUL \<notin> set (take len (drop i (chars x)))"
  shows "\<exists>r. CORD_ncmp p q x i y j len = Inr r \<and>
    (r = 0 \<longleftrightarrow> take len (drop i (chars x)) = take len (drop j (chars y))) \<and>
    (ascii (take len (drop i (chars x))) \<and> ascii (take len (drop j (chars y))) \<longrightarrow>
      sgn r = lex_cmp (take len (drop i (chars x))) (take len (drop j (chars y))))"
  using CORD_ncmp_ok [OF assms] by (simp add: compares_def)

theorem ncmp_correct_witness:
  "\<exists>r. CORD_ncmp new_pos new_pos nul_cord 1 (C_string ''bc'') 0 2 = Inr r \<and> r = 0"
proof -
  have "NUL \<notin> set (take 2 (drop 1 (chars nul_cord)))" "cord_inv (C_string ''bc'')"
    by (simp_all add: nul_cord_ok NUL_def)
  from ncmp_correct [OF new_pos_mem new_pos_mem nul_cord_inv this(2,1), of 0] show ?thesis
    by (simp add: nul_cord_ok)
qed

text \<open>C21: \<open>CORD_str\<close> returns the first index from \<open>start\<close> on at which the pattern occurs, or
  \<open>CORD_NOT_FOUND\<close>: the comparison of the masked words and the comparison of the rest together decide
  the match, for patterns shorter and longer than a word. The text may not contain NULs.\<close>

theorem str_correct:
  assumes "pos_mem p" "pos_mem q" "pos_mem r" "cord_inv x" "NUL \<notin> set (chars x)"
    and "cord_inv s" "s \<noteq> CORD_EMPTY" "CORD_len s < 2 ^ 31" "length block = min (CORD_len s) 8 + 1"
  shows "\<exists>n. CORD_str k p q r block x start s = Inr n \<and> first_match (chars x) (chars s) start n"
  using assms by (rule CORD_str_ok)

theorem str_correct_witness:
  "\<exists>n. CORD_str 0 new_pos new_pos new_pos ''???'' spine_cord 1 (C_string ''de'') = Inr n \<and>
    first_match ''abcdef'' ''de'' 1 n"
proof -
  have "cord_inv spine_cord" "NUL \<notin> set (chars spine_cord)" "cord_inv (C_string ''de'')"
    by (simp_all add: cord_inv_def spine_cord_ok spine_cord_len MAX_DEPTH_def NUL_def)
  then show ?thesis
    using str_correct [OF new_pos_mem new_pos_mem new_pos_mem, of spine_cord "C_string ''de''" "''???''" 0 1]
    by (simp add: spine_cord_len)
qed

text \<open>A cord with a function leaf behind a string leaf.\<close>

definition abccc :: cord where
  "abccc = Concatenation 1 2 5 (C_string ''ab'') (Function FN_HDR 3 (Client (\<lambda>_. CHR ''c'')))"

lemma abccc_facts: "chars abccc = ''abccc''" "cord_inv abccc" "cord_inv (C_string ''abccc'')"
  by (simp_all add: abccc_def cord_inv_def MAX_DEPTH_def NUL_def MAX_LEFT_LEN_def numeral_3_eq_3)

lemma cmp_abccc:
  assumes "pos_mem p" "pos_mem q"
  shows "CORD_cmp 2 p q abccc (C_string ''abccc'') = Inr (- 1)"
proof -
  let ?fn = "Function FN_HDR 3 (Client (\<lambda>_. CHR ''c''))"
  define y where "y i = q\<lparr>path := (path q)[0 := (C_string ''abccc'', 0)], path_len := 0, cur_pos := i,
    cur_leaf := Leaf_string ''abccc'', cur_start := 0, cur_end := 5\<rparr>" for i
  define x where "x = p\<lparr>path := (path p)[0 := (abccc, 0), 1 := (C_string ''ab'', 0)], path_len := 1,
    cur_pos := 0, cur_leaf := Leaf_string ''ab'', cur_start := 0, cur_end := 2\<rparr>"
  define x' where "x' = x\<lparr>path := (path p)[0 := (abccc, 0), 1 := (?fn, 2)], cur_pos := 2, cur_end := 0\<rparr>"
  have len: "length (path p) = 49" "length (path q) = 49"
    using assms by (simp_all add: pos_mem_def MAX_DEPTH_def)
  have set_x: "CORD_set_pos p abccc 0 = Inr x"
    by (simp add: CORD_set_pos_def CORD_extend_path_def path_at_def abccc_def push_entry_def
      LEFT_LEN_def len nth_list_update x_def)
  have set_y: "CORD_set_pos q (C_string ''abccc'') 0 = Inr (y 0)"
    by (simp add: CORD_set_pos_def CORD_extend_path_def path_at_def len y_def)
  have adv_x: "CORD_pos_advance x 2 = Inr x'"
    by (simp add: CORD_pos_advance_def CORD_next_def CORD__next_def CORD_extend_path_def path_at_def
      push_entry_def LEFT_LEN_def abccc_def len nth_list_update Let_def numeral_2_eq_2 x_def x'_def)
  have adv_y: "CORD_pos_advance (y 0) 2 = Inr (y 2)"
    by (simp add: CORD_pos_advance_def CORD_next_def y_def)
  have valid: "CORD_pos_valid x" "CORD_pos_valid x'" "CORD_pos_valid (y i)" for i
    by (simp_all add: CORD_pos_valid_def CORD_POS_INVALID_def x_def x'_def y_def)
  have left: "to_size (CORD_pos_chars_left x) = 2" "to_size (CORD_pos_chars_left x') = 2 ^ 64 - 2"
    "to_size (CORD_pos_chars_left (y 0)) = 5" "to_size (CORD_pos_chars_left (y 2)) = 3"
    by (simp_all add: CORD_pos_chars_left_def to_size_def x_def x'_def y_def)
  have addr: "CORD_pos_cur_char_addr x = Inr [CHR ''a'', CHR ''b'', NUL]"
    "CORD_pos_cur_char_addr x' = Inr [NUL]"
    "CORD_pos_cur_char_addr (y 0) = Inr (''abccc'' @ [NUL])"
    "CORD_pos_cur_char_addr (y 2) = Inr (''ccc'' @ [NUL])"
    by (simp_all add: CORD_pos_cur_char_addr_def Let_def x_def x'_def y_def)
  have cmp: "strncmp 2 [CHR ''a'', CHR ''b'', NUL] (''abccc'' @ [NUL]) = Inr 0"
    "strncmp 3 [NUL] (''ccc'' @ [NUL]) = Inr (- 1)"
    by (simp_all add: numeral_2_eq_2 numeral_3_eq_3 NUL_def uchar_def)
  have second: "cmp_loop (Suc 0) x' (y 2) = Inr (- 1)"
    unfolding cmp_loop.simps Let_def left addr sbind_Inr
    by (simp add: valid cmp [simplified] del: strncmp.simps)
  have first: "cmp_loop (Suc (Suc 0)) x (y 0) = cmp_loop (Suc 0) x' (y 2)"
    unfolding cmp_loop.simps(2) [of "Suc 0"] Let_def left addr sbind_Inr
    by (simp add: valid cmp [simplified] adv_x adv_y del: strncmp.simps cmp_loop.simps)
  have "CORD_cmp 2 p q abccc (C_string ''abccc'') =
      sbind (CORD_set_pos p abccc 0) (\<lambda>xpos. sbind (CORD_set_pos q (C_string ''abccc'') 0)
        (\<lambda>ypos. cmp_loop 2 xpos ypos))"
    by (simp add: CORD_cmp_def abccc_def del: cmp_loop.simps)
  then show ?thesis
    using first second by (simp only: set_x set_y sbind_Inr numeral_2_eq_2)
qed

text \<open>C28: \<open>CORD_cmp\<close> stores the number of cached characters, which is negative or 0 when there is no
  cache, in a \<open>size_t\<close>. On a cord whose function leaf follows a string leaf the test for an empty cache
  fails, the stale cache is compared, and cords with the same characters compare as different, although
  \<open>CORD_ncmp\<close> finds them equal.\<close>

theorem cmp_defect:
  "chars abccc = chars (C_string ''abccc'') \<and>
   CORD_cmp 2 new_pos new_pos abccc (C_string ''abccc'') = Inr (- 1) \<and>
   CORD_ncmp new_pos new_pos abccc 0 (C_string ''abccc'') 0 5 = Inr 0"
proof (intro conjI)
  show "chars abccc = chars (C_string ''abccc'')"
    by (simp add: abccc_facts)
  show "CORD_cmp 2 new_pos new_pos abccc (C_string ''abccc'') = Inr (- 1)"
    by (rule cmp_abccc [OF new_pos_mem new_pos_mem])
  show "CORD_ncmp new_pos new_pos abccc 0 (C_string ''abccc'') 0 5 = Inr 0"
    using CORD_ncmp_ok [OF new_pos_mem new_pos_mem abccc_facts(2,3), of 5 0 0]
    by (auto simp: abccc_facts compares_def NUL_def)
qed

end
