(* ===== verification/CordExtra.thy ===== *)
theory CordExtra
  imports CordCmp
begin

text \<open>
  Functions of \<open>cord/cordxtra.c\<close> that build cords by appending: single characters, several cords,
  extensible cords (\<open>include/ec.h\<close>), and reading a file into a cord, at once or on demand.

  These functions do not look at the representation of cords. The locale \<open>cord_builder\<close> states what
  they need of the primitives (a bound on the total length below which appending succeeds), and is
  interpreted on \<open>CORD_cat\<close> and \<open>CORD_cat_char_star\<close>.
\<close>

lemma dropWhile_Cons_length: "dropWhile P f = d # f' \<Longrightarrow> length f' < length f"
  using length_dropWhile_le [of P f] by simp

section \<open>The code\<close>

definition CORD_nul_func :: "char \<Rightarrow> nat \<Rightarrow> char" where
  "CORD_nul_func c i = c"

definition CORD_chars :: "char \<Rightarrow> nat \<Rightarrow> cord" where
  "CORD_chars c i = CORD_from_fn (Client (CORD_nul_func c)) i"

definition CORD_nul :: "nat \<Rightarrow> cord" where
  "CORD_nul i = CORD_chars NUL i"

definition CORD_cat_char :: "nat \<Rightarrow> cord \<Rightarrow> char \<Rightarrow> stop + cord" where
  "CORD_cat_char k x c =
     (if c = NUL then CORD_cat k x (CORD_nul 1) else CORD_cat_char_star k x [c] 1)"

fun catn_loop :: "('c \<Rightarrow> 'c \<Rightarrow> stop + 'c) \<Rightarrow> 'c \<Rightarrow> 'c list \<Rightarrow> stop + 'c" where
  "catn_loop cat result [] = Inr result"
| "catn_loop cat result (next # args) = sbind (cat result next) (\<lambda>result. catn_loop cat result args)"

definition CORD_catn :: "nat \<Rightarrow> cord list \<Rightarrow> stop + cord" where
  "CORD_catn k args = catn_loop (CORD_cat k) CORD_EMPTY args"

definition CORD_BUFSZ :: nat where
  "CORD_BUFSZ = 128"

record CORD_ec =
  ec_cord :: cord
  ec_bufptr :: nat          \<comment> \<open>as an index into \<open>ec_buf\<close>\<close>
  ec_buf :: "char list"     \<comment> \<open>\<open>CORD_BUFSZ + 1\<close> characters\<close>

definition CORD_ec_flush_buf :: "nat \<Rightarrow> CORD_ec \<Rightarrow> stop + CORD_ec" where
  "CORD_ec_flush_buf k x =
     (let len = ec_bufptr x in
      if len = 0 then Inr x
      else
        let s = take len (ec_buf x) in
        sbind (CORD_cat_char_star k (ec_cord x) s len) (\<lambda>c.
          Inr (x\<lparr>ec_cord := c, ec_bufptr := 0\<rparr>)))"

definition CORD_ec_append_cord :: "nat \<Rightarrow> CORD_ec \<Rightarrow> cord \<Rightarrow> stop + CORD_ec" where
  "CORD_ec_append_cord k x s =
     sbind (CORD_ec_flush_buf k x) (\<lambda>x.
     sbind (CORD_cat k (ec_cord x) s) (\<lambda>c. Inr (x\<lparr>ec_cord := c\<rparr>)))"

definition CORD_ec_to_cord :: "nat \<Rightarrow> CORD_ec \<Rightarrow> stop + cord" where
  "CORD_ec_to_cord k x = sbind (CORD_ec_flush_buf k x) (\<lambda>x. Inr (ec_cord x))"

definition CORD_ec_init :: "CORD_ec \<Rightarrow> CORD_ec" where
  "CORD_ec_init x = x\<lparr>ec_cord := CORD_EMPTY, ec_bufptr := 0\<rparr>"

definition CORD_ec_append :: "nat \<Rightarrow> CORD_ec \<Rightarrow> char \<Rightarrow> stop + CORD_ec" where
  "CORD_ec_append k x c =
     sbind (if ec_bufptr x = CORD_BUFSZ then CORD_ec_flush_buf k x else Inr x) (\<lambda>x.
     sbind (store_char (ec_buf x) (ec_bufptr x) c) (\<lambda>buf.
       Inr (x\<lparr>ec_buf := buf, ec_bufptr := ec_bufptr x + 1\<rparr>)))"

text \<open>
  The loop of \<open>CORD_from_file_eager\<close> on the characters that \<open>getc\<close> still returns before \<open>EOF\<close>. A run
  of NULs becomes one function node.
\<close>

function eager_loop :: "nat \<Rightarrow> CORD_ec \<Rightarrow> char list \<Rightarrow> stop + CORD_ec" where
  "eager_loop k ecord [] = Inr ecord"
| "eager_loop k ecord (c # f) =
     (if c = NUL then
        let count = 1 + length (takeWhile (\<lambda>c. c = NUL) f);
            rest = dropWhile (\<lambda>c. c = NUL) f in
        sbind (CORD_ec_flush_buf k ecord) (\<lambda>ecord.
        sbind (CORD_cat k (ec_cord ecord) (CORD_nul count)) (\<lambda>x.
          let ecord = ecord\<lparr>ec_cord := x\<rparr> in
          case rest of
            [] \<Rightarrow> Inr ecord
          | d # f' \<Rightarrow> sbind (CORD_ec_append k ecord d) (\<lambda>ecord. eager_loop k ecord f')))
      else sbind (CORD_ec_append k ecord c) (\<lambda>ecord. eager_loop k ecord f))"
  by pat_completeness auto
termination
  by (relation "measure (\<lambda>(_, _, f). length f)")
    (auto dest: dropWhile_Cons_length dropWhile_Cons_length [OF sym] split: if_splits)

text \<open>\<open>mem\<close> is the memory of the local extensible cord.\<close>

definition CORD_from_file_eager :: "nat \<Rightarrow> CORD_ec \<Rightarrow> char list \<Rightarrow> stop + cord" where
  "CORD_from_file_eager k mem f =
     sbind (eager_loop k (CORD_ec_init mem) f) (\<lambda>ecord.
     sbind (CORD_ec_to_cord k ecord) (\<lambda>x. CORD_balance k x))"

section \<open>What appending needs of the primitives\<close>

locale cord_builder =
  fixes cat :: "'c \<Rightarrow> 'c \<Rightarrow> stop + 'c" and no_chars :: 'c and str_of :: "'c \<Rightarrow> string"
    and inv_c :: "'c \<Rightarrow> bool" and limit :: nat
  assumes no_chars: "inv_c no_chars" "str_of no_chars = []"
    and cat: "inv_c x \<Longrightarrow> inv_c y \<Longrightarrow> length (str_of x) + length (str_of y) < limit \<Longrightarrow>
      \<exists>z. cat x y = Inr z \<and> inv_c z \<and> str_of z = str_of x @ str_of y"
begin

lemma catn:
  assumes "inv_c x" "\<forall>y\<in>set ys. inv_c y" "length (str_of x) + length (concat (map str_of ys)) < limit"
  shows "\<exists>z. catn_loop cat x ys = Inr z \<and> inv_c z \<and> str_of z = str_of x @ concat (map str_of ys)"
  using assms
proof (induction ys arbitrary: x)
  case (Cons y ys)
  have "length (str_of x) + length (str_of y) < limit"
    using Cons.prems(3) by simp
  then obtain z where z: "cat x y = Inr z" "inv_c z" "str_of z = str_of x @ str_of y"
    using cat Cons.prems(1,2) by (metis list.set_intros(1))
  then show ?case
    using Cons.IH [of z] Cons.prems by (simp add: add.assoc)
qed simp

lemma catn_all:
  "\<forall>y\<in>set ys. inv_c y \<Longrightarrow> length (concat (map str_of ys)) < limit \<Longrightarrow>
    \<exists>z. catn_loop cat no_chars ys = Inr z \<and> inv_c z \<and> str_of z = concat (map str_of ys)"
  using catn [OF no_chars(1)] by (simp add: no_chars(2))

end

text \<open>Appending C strings as well, with their length.\<close>

locale string_builder = cord_builder cat no_chars str_of inv_c limit
  for cat :: "'c \<Rightarrow> 'c \<Rightarrow> stop + 'c" and no_chars :: 'c and str_of :: "'c \<Rightarrow> string"
    and inv_c :: "'c \<Rightarrow> bool" and limit :: nat +
  fixes cat_str :: "'c \<Rightarrow> string \<Rightarrow> nat \<Rightarrow> stop + 'c"
  assumes cat_str: "inv_c x \<Longrightarrow> s \<noteq> [] \<Longrightarrow> NUL \<notin> set s \<Longrightarrow> length (str_of x) + length s < limit \<Longrightarrow>
      \<exists>z. cat_str x s (length s) = Inr z \<and> inv_c z \<and> str_of z = str_of x @ s"
begin

lemma cat_str_take:
  assumes "inv_c x" "0 < n" "n \<le> length s" "NUL \<notin> set (take n s)" "length (str_of x) + n < limit"
  shows "\<exists>z. cat_str x (take n s) n = Inr z \<and> inv_c z \<and> str_of z = str_of x @ take n s"
proof -
  have "length (take n s) = n" "take n s \<noteq> []"
    using assms(2,3) by auto
  then show ?thesis
    using cat_str [OF assms(1) _ assms(4)] assms(5) by simp
qed

end

interpretation cb: string_builder "CORD_cat (Suc k)" CORD_EMPTY chars cord_inv "minl 46"
    "CORD_cat_char_star (Suc k)" for k
  by unfold_locales (simp_all add: CORD_cat_ok CORD_cat_char_star_ok)

section \<open>Runs of a character, characters, extensible cords\<close>

lemma CORD_chars_ok: "cord_inv (CORD_chars c n)" "chars (CORD_chars c n) = replicate n c"
proof -
  have "map (CORD_nul_func c) [0..<n] = replicate n c"
    by (rule nth_equalityI) (simp_all add: CORD_nul_func_def)
  then show "cord_inv (CORD_chars c n)" "chars (CORD_chars c n) = replicate n c"
    using CORD_from_fn_ok [of "CORD_nul_func c" n] by (simp_all add: CORD_chars_def)
qed

lemma CORD_cat_char_ok:
  assumes "cord_inv x" "length (chars x) + 1 < minl 46"
  shows "\<exists>z. CORD_cat_char (Suc k) x c = Inr z \<and> cord_inv z \<and> chars z = chars x @ [c]"
proof (cases "c = NUL")
  case True
  then show ?thesis
    using cb.cat [OF assms(1) CORD_chars_ok(1) [of NUL 1], of k] assms(2)
    by (simp add: CORD_cat_char_def CORD_nul_def CORD_chars_ok(2))
next
  case False
  then show ?thesis
    using cb.cat_str [OF assms(1), of "[c]" k] assms(2) by (simp add: CORD_cat_char_def)
qed

definition ec_inv :: "CORD_ec \<Rightarrow> bool" where
  "ec_inv x \<longleftrightarrow> cord_inv (ec_cord x) \<and> length (ec_buf x) = CORD_BUFSZ + 1 \<and> ec_bufptr x \<le> CORD_BUFSZ \<and>
     NUL \<notin> set (take (ec_bufptr x) (ec_buf x))"

text \<open>"This structure represents the concatenation of \<open>ec_cord\<close> with \<open>ec_buf\<close>."\<close>

definition ec_chars :: "CORD_ec \<Rightarrow> string" where
  "ec_chars x = chars (ec_cord x) @ take (ec_bufptr x) (ec_buf x)"

lemma CORD_ec_flush_ok:
  assumes "ec_inv x" "length (ec_chars x) < minl 46"
  shows "\<exists>x'. CORD_ec_flush_buf (Suc k) x = Inr x' \<and> ec_inv x' \<and> ec_bufptr x' = 0 \<and>
    chars (ec_cord x') = ec_chars x"
proof (cases "ec_bufptr x = 0")
  case True
  then show ?thesis
    using assms(1) by (simp add: CORD_ec_flush_buf_def ec_chars_def)
next
  case False
  have "\<exists>z. CORD_cat_char_star (Suc k) (ec_cord x) (take (ec_bufptr x) (ec_buf x)) (ec_bufptr x) = Inr z \<and>
      cord_inv z \<and> chars z = chars (ec_cord x) @ take (ec_bufptr x) (ec_buf x)"
    by (rule cb.cat_str_take) (use assms False in \<open>auto simp: ec_inv_def ec_chars_def\<close>)
  then show ?thesis
    using False assms(1) by (auto simp: CORD_ec_flush_buf_def ec_inv_def ec_chars_def)
qed

lemma CORD_ec_append_ok:
  assumes "ec_inv x" "length (ec_chars x) < minl 46" "c \<noteq> NUL"
  shows "\<exists>x'. CORD_ec_append (Suc k) x c = Inr x' \<and> ec_inv x' \<and> ec_chars x' = ec_chars x @ [c]"
proof -
  obtain y where y: "(if ec_bufptr x = CORD_BUFSZ then CORD_ec_flush_buf (Suc k) x else Inr x) = Inr y"
    "ec_inv y" "ec_bufptr y < CORD_BUFSZ" "ec_chars y = ec_chars x"
  proof (cases "ec_bufptr x = CORD_BUFSZ")
    case True
    then show ?thesis
      using that CORD_ec_flush_ok [OF assms(1,2), of k] by (auto simp: ec_chars_def CORD_BUFSZ_def)
  next
    case False
    then show ?thesis
      using that [of x] assms(1) by (simp add: ec_inv_def)
  qed
  have len: "ec_bufptr y < length (ec_buf y)"
    using y(2,3) by (simp add: ec_inv_def)
  let ?x' = "y\<lparr>ec_buf := (ec_buf y)[ec_bufptr y := c], ec_bufptr := ec_bufptr y + 1\<rparr>"
  have "CORD_ec_append (Suc k) x c = Inr ?x'"
    using len by (simp add: CORD_ec_append_def y(1))
  moreover have "ec_inv ?x'"
    using y(2,3) len assms(3) by (simp add: ec_inv_def take_Suc_update)
  moreover have "ec_chars ?x' = ec_chars x @ [c]"
    using len y(4) by (simp add: ec_chars_def take_Suc_update)
  ultimately show ?thesis
    by blast
qed

lemma CORD_ec_append_cord_ok:
  assumes "ec_inv x" "cord_inv s" "length (ec_chars x) + length (chars s) < minl 46"
  shows "\<exists>x'. CORD_ec_append_cord (Suc k) x s = Inr x' \<and> ec_inv x' \<and> ec_chars x' = ec_chars x @ chars s"
proof -
  have "length (ec_chars x) < minl 46"
    using assms(3) by simp
  then obtain y where y: "CORD_ec_flush_buf (Suc k) x = Inr y" "ec_inv y" "ec_bufptr y = 0"
    "chars (ec_cord y) = ec_chars x"
    using CORD_ec_flush_ok [OF assms(1)] by blast
  obtain z where "CORD_cat (Suc k) (ec_cord y) s = Inr z" "cord_inv z" "chars z = ec_chars x @ chars s"
    using cb.cat [of "ec_cord y" s k] y assms(2,3) by (auto simp: ec_inv_def)
  then show ?thesis
    using y by (simp add: CORD_ec_append_cord_def ec_inv_def ec_chars_def)
qed

lemma CORD_ec_init_ok:
  "length (ec_buf x) = CORD_BUFSZ + 1 \<Longrightarrow> ec_inv (CORD_ec_init x) \<and> ec_chars (CORD_ec_init x) = []"
  by (simp add: ec_inv_def ec_chars_def CORD_ec_init_def)

lemma takeWhile_eq_replicate: "takeWhile (\<lambda>c. c = a) f = replicate (length (takeWhile (\<lambda>c. c = a) f)) a"
  by (induction f) auto

lemma eager_loop_ok:
  assumes "ec_inv e" "length (ec_chars e) + length f < minl 46"
  shows "\<exists>e'. eager_loop (Suc k) e f = Inr e' \<and> ec_inv e' \<and> ec_chars e' = ec_chars e @ f"
  using assms
proof (induction f arbitrary: e rule: length_induct)
  case (1 f)
  show ?case
  proof (cases f)
    case Nil
    then show ?thesis
      using 1 by simp
  next
    case (Cons c g)
    show ?thesis
    proof (cases "c = NUL")
      case False
      have "length (ec_chars e) < minl 46"
        using "1.prems"(2) by simp
      then obtain e' where e': "CORD_ec_append (Suc k) e c = Inr e'" "ec_inv e'" "ec_chars e' = ec_chars e @ [c]"
        using CORD_ec_append_ok [OF "1.prems"(1) _ False] by blast
      have "\<exists>e''. eager_loop (Suc k) e' g = Inr e'' \<and> ec_inv e'' \<and> ec_chars e'' = ec_chars e' @ g"
      proof -
        have "length g < length f" "length (ec_chars e') + length g < minl 46"
          using "1.prems"(2) by (simp_all add: Cons e'(3))
        then show ?thesis
          using "1.IH" e'(2) by blast
      qed
      then show ?thesis
        using False e' by (auto simp: Cons)
    next
      case True
      define n where "n = 1 + length (takeWhile (\<lambda>c. c = NUL) g)"
      define rest where "rest = dropWhile (\<lambda>c. c = NUL) g"
      have g: "NUL # g = replicate n NUL @ rest"
        using takeWhile_eq_replicate [of NUL g] takeWhile_dropWhile_id [of "\<lambda>c. c = NUL" g]
        by (simp add: n_def rest_def)
      then have lens: "Suc (length g) = n + length rest"
        by (metis length_Cons length_append length_replicate)
      have "length (ec_chars e) < minl 46"
        using "1.prems"(2) by simp
      then obtain y where y: "CORD_ec_flush_buf (Suc k) e = Inr y" "ec_inv y" "ec_bufptr y = 0"
        "chars (ec_cord y) = ec_chars e"
        using CORD_ec_flush_ok [OF "1.prems"(1)] by blast
      obtain z where z: "CORD_cat (Suc k) (ec_cord y) (CORD_nul n) = Inr z" "cord_inv z"
        "chars z = ec_chars e @ replicate n NUL"
        using cb.cat [of "ec_cord y" "CORD_nul n" k] y "1.prems"(2) lens CORD_chars_ok [of NUL n]
        by (auto simp: ec_inv_def CORD_nul_def Cons)
      let ?y = "y\<lparr>ec_cord := z\<rparr>"
      have y': "ec_inv ?y" "ec_chars ?y = ec_chars e @ replicate n NUL"
        using y z by (simp_all add: ec_inv_def ec_chars_def)
      have step: "eager_loop (Suc k) e f = (case rest of [] \<Rightarrow> Inr ?y
          | d # f' \<Rightarrow> sbind (CORD_ec_append (Suc k) ?y d) (\<lambda>ecord. eager_loop (Suc k) ecord f'))"
        using y(1) z(1) by (simp add: Cons True n_def rest_def Let_def)
      show ?thesis
      proof (cases rest)
        case Nil
        then show ?thesis
          using step y' g by (simp add: Cons True)
      next
        case rest_Cons: (Cons d f')
        have "d \<noteq> NUL"
          using rest_Cons unfolding rest_def by (simp add: dropWhile_eq_Cons_conv)
        moreover have "length (ec_chars ?y) < minl 46"
          using "1.prems"(2) lens by (simp add: y'(2) Cons rest_Cons)
        ultimately obtain e' where e': "CORD_ec_append (Suc k) ?y d = Inr e'" "ec_inv e'"
          "ec_chars e' = ec_chars ?y @ [d]"
          using CORD_ec_append_ok [OF y'(1)] by blast
        have "length f' < length f" "length (ec_chars e') + length f' < minl 46"
          using "1.prems"(2) lens by (simp_all add: e'(3) y'(2) Cons rest_Cons)
        then obtain e'' where "eager_loop (Suc k) e' f' = Inr e''" "ec_inv e''" "ec_chars e'' = ec_chars e' @ f'"
          using "1.IH" e'(2) by blast
        then show ?thesis
          using step e' y' g by (simp add: Cons True rest_Cons)
      qed
    qed
  qed
qed

lemma CORD_from_file_eager_ok:
  assumes "length (ec_buf mem) = CORD_BUFSZ + 1" "length f < minl 46"
  shows "\<exists>z. CORD_from_file_eager (Suc k) mem f = Inr z \<and> cord_inv z \<and> chars z = f"
proof -
  obtain e where e: "eager_loop (Suc k) (CORD_ec_init mem) f = Inr e" "ec_inv e" "ec_chars e = f"
    using eager_loop_ok [of "CORD_ec_init mem" f k] CORD_ec_init_ok [OF assms(1)] assms(2) by auto
  then obtain x where x: "CORD_ec_flush_buf (Suc k) e = Inr x" "cord_inv (ec_cord x)" "chars (ec_cord x) = f"
    using CORD_ec_flush_ok [of e k] assms(2) by (auto simp: ec_inv_def)
  have "CORD_len (ec_cord x) < minl 46"
    using x(2,3) assms(2) length_chars [OF cord_inv_wf [OF x(2)]] by simp
  then obtain z where z: "CORD_balance (Suc k) (ec_cord x) = Inr z" "cord_wf z" "chars z = f"
      "DEPTH z \<le> 1 \<or> minl (DEPTH z - 2) \<le> CORD_len z"
    using CORD_balance_ok [OF cord_inv_wf [OF x(2)], of k] x(3) by auto
  have "CORD_len z < minl 46"
    using z(2,3) assms(2) length_chars [OF z(2)] by simp
  then have "cord_inv z"
    using z(2) balance_depth [OF z(4)] by (simp add: cord_inv_def)
  then show ?thesis
    using e(1) x(1) z by (simp add: CORD_from_file_eager_def CORD_ec_to_cord_def del: CORD_balance.simps)
qed

section \<open>Properties\<close>

text \<open>The memory of a new extensible cord, for the witnesses.\<close>

definition new_ec :: CORD_ec where
  "new_ec = \<lparr>ec_cord = CORD_EMPTY, ec_bufptr = 3, ec_buf = replicate 129 NUL\<rparr>"

lemma new_ec_mem: "length (ec_buf new_ec) = CORD_BUFSZ + 1"
  by (simp add: new_ec_def CORD_BUFSZ_def)

text \<open>\<open>CORD_from_file_eager\<close> on a file of less than \<open>min_len[46]\<close> characters returns a well-formed
  cord below the depth limit for exactly the contents of the file, runs of NULs and characters across
  the 128-character buffer included; the stores into the buffer stay in bounds.\<close>

theorem from_file_eager_correct:
  assumes "length (ec_buf mem) = CORD_BUFSZ + 1" "length f < min_len ! 46"
  shows "\<exists>z. CORD_from_file_eager (Suc k) mem f = Inr z \<and> cord_inv z \<and> chars z = f"
  using assms(1)
proof (rule CORD_from_file_eager_ok)
  show "length f < minl 46"
    using assms(2) by (simp only: min_len_46)
qed

theorem from_file_eager_correct_witness:
  "\<exists>z. CORD_from_file_eager 1 new_ec [CHR ''a'', NUL, NUL, CHR ''b''] = Inr z \<and>
    chars z = [CHR ''a'', NUL, NUL, CHR ''b'']"
proof -
  have "length [CHR ''a'', NUL, NUL, CHR ''b''] < min_len ! 46"
    using minl_46_large by (simp add: min_len_46)
  from from_file_eager_correct [OF new_ec_mem this, of 0] show ?thesis
    by auto
qed

text \<open>C25: the operations on extensible cords refine appending to a string. From an extensible cord
  that satisfies its invariant, appending a character other than NUL, appending a cord and conversion
  to a cord append to, or return, the string it stands for; and \<open>CORD_cat_char\<close>, \<open>CORD_catn\<close> do the same
  for cords, NUL included.\<close>

theorem append_correct:
  assumes "ec_inv x" "cord_inv y" "length (ec_chars x) + length (chars y) + 1 < min_len ! 46"
    and "\<forall>a\<in>set args. cord_inv a" "length (concat (map chars args)) < min_len ! 46"
  shows "(c \<noteq> NUL \<longrightarrow> (\<exists>x'. CORD_ec_append (Suc k) x c = Inr x' \<and> ec_inv x' \<and> ec_chars x' = ec_chars x @ [c])) \<and>
    (\<exists>x'. CORD_ec_append_cord (Suc k) x y = Inr x' \<and> ec_inv x' \<and> ec_chars x' = ec_chars x @ chars y) \<and>
    (\<exists>z. CORD_ec_to_cord (Suc k) x = Inr z \<and> cord_inv z \<and> chars z = ec_chars x) \<and>
    (\<exists>z. CORD_cat_char (Suc k) y c = Inr z \<and> cord_inv z \<and> chars z = chars y @ [c]) \<and>
    (\<exists>z. CORD_catn (Suc k) args = Inr z \<and> cord_inv z \<and> chars z = concat (map chars args))"
proof -
  have len: "length (ec_chars x) + length (chars y) + 1 < minl 46" "length (concat (map chars args)) < minl 46"
    using assms(3,5) by (simp_all only: min_len_46)
  have "\<exists>z. CORD_ec_to_cord (Suc k) x = Inr z \<and> cord_inv z \<and> chars z = ec_chars x"
    using CORD_ec_flush_ok [OF assms(1), of k] len(1) by (auto simp: CORD_ec_to_cord_def ec_inv_def)
  then show ?thesis
    using CORD_ec_append_ok [OF assms(1), of c k] CORD_ec_append_cord_ok [OF assms(1,2), of k]
      CORD_cat_char_ok [OF assms(2), of k c] cb.catn_all [OF assms(4) len(2), of k] len(1)
    by (simp add: CORD_catn_def)
qed

theorem append_correct_witness:
  "\<exists>x'. CORD_ec_append 1 (CORD_ec_init new_ec) (CHR ''a'') = Inr x' \<and> ec_chars x' = ''a''"
proof -
  have "ec_inv (CORD_ec_init new_ec)" "ec_chars (CORD_ec_init new_ec) = []"
    using CORD_ec_init_ok [OF new_ec_mem] by simp_all
  then show ?thesis
    using append_correct [of "CORD_ec_init new_ec" "C_string ''b''" "[]" "CHR ''a''" 0] minl_46_large
    by (auto simp: NUL_def min_len_46)
qed

end
