(* ===== verification/CordFile.thy ===== *)
theory CordFile
  imports CordExtra
begin

text \<open>
  Cords that read a file on demand (\<open>CORD_from_file_lazy\<close> and its parts in \<open>cord/cordxtra.c\<close>). The
  function of such a cord keeps a direct-mapped cache of 32 lines of 512 characters; a line is replaced
  as a whole, never modified. The state of the stream is its position; \<open>cur\<close> is what the code
  believes the position to be.
\<close>

section \<open>The code\<close>

definition LOG_CACHE_SZ :: nat where "LOG_CACHE_SZ = 14"
definition CACHE_SZ :: nat where "CACHE_SZ = 2 ^ LOG_CACHE_SZ"
definition LOG_LINE_SZ :: nat where "LOG_LINE_SZ = 9"
definition LINE_SZ :: nat where "LINE_SZ = 2 ^ LOG_LINE_SZ"

definition MOD_CACHE_SZ :: "nat \<Rightarrow> nat" where "MOD_CACHE_SZ n = n AND (CACHE_SZ - 1)"
definition MOD_LINE_SZ :: "nat \<Rightarrow> nat" where "MOD_LINE_SZ n = n AND (LINE_SZ - 1)"
definition DIV_LINE_SZ :: "nat \<Rightarrow> nat" where "DIV_LINE_SZ n = drop_bit LOG_LINE_SZ n"

text \<open>\<open>n & ~(LINE_SZ - 1)\<close>: the low bits are cleared.\<close>

definition LINE_START :: "nat \<Rightarrow> nat" where
  "LINE_START n = push_bit LOG_LINE_SZ (drop_bit LOG_LINE_SZ n)"

record cache_line =
  tag :: nat
  line_data :: "char list"

record lf_state =
  lf_file :: "char list"                \<comment> \<open>the contents of the file\<close>
  lf_fpos :: nat                        \<comment> \<open>the position of the stream\<close>
  lf_current :: nat
  lf_cache :: "cache_line option list"

text \<open>
  \<open>refill_cache\<close> with a new line whose memory is \<open>mem\<close>. \<open>fread\<close> stores what is left of the file, at
  most a line, and moves the stream.
\<close>

definition refill_cache :: "char list \<Rightarrow> lf_state \<Rightarrow> nat \<Rightarrow> stop + char \<times> lf_state" where
  "refill_cache mem state file_pos =
     (let line_start = LINE_START file_pos;
          line_no = DIV_LINE_SZ (MOD_CACHE_SZ file_pos);
          pos = (if line_start \<noteq> lf_current state then line_start else lf_fpos state);
          read = take LINE_SZ (drop pos (lf_file state)) in
      if length read \<le> file_pos - line_start then Inl (Abort ''fread failed'')
      else
        let new_cache = \<lparr>tag = DIV_LINE_SZ file_pos, line_data = read @ drop (length read) mem\<rparr>;
            state = state\<lparr>lf_fpos := pos + length read, lf_cache := (lf_cache state)[line_no := Some new_cache],
              lf_current := line_start + LINE_SZ\<rparr> in
        Inr (line_data new_cache ! MOD_LINE_SZ file_pos, state))"

definition CORD_lf_func :: "char list \<Rightarrow> lf_state \<Rightarrow> nat \<Rightarrow> stop + char \<times> lf_state" where
  "CORD_lf_func mem state i =
     (let cl_no = DIV_LINE_SZ (MOD_CACHE_SZ i) in
      case lf_cache state ! cl_no of
        None \<Rightarrow> refill_cache mem state i
      | Some cl \<Rightarrow>
          if tag cl \<noteq> DIV_LINE_SZ i then refill_cache mem state i
          else Inr (line_data cl ! MOD_LINE_SZ i, state))"

text \<open>The initial state: a file at its beginning and an empty cache.\<close>

definition lazy_state :: "char list \<Rightarrow> lf_state" where
  "lazy_state f = \<lparr>lf_file = f, lf_fpos = 0, lf_current = 0,
     lf_cache = replicate (CACHE_SZ div LINE_SZ) None\<rparr>"

text \<open>
  The cord of a file. Its function returns the characters of the file whatever has been read before;
  this is what the lemmas on \<open>CORD_lf_func\<close> below show, so that it can stand for a function of the
  index.
\<close>

definition CORD_from_file_lazy_inner :: "char list \<Rightarrow> nat \<Rightarrow> cord" where
  "CORD_from_file_lazy_inner f len = CORD_from_fn (Client (\<lambda>i. f ! i)) len"

definition CORD_from_file_lazy :: "char list \<Rightarrow> cord" where
  "CORD_from_file_lazy f = CORD_from_file_lazy_inner f (length f)"

definition LAZY_THRESHOLD :: nat where
  "LAZY_THRESHOLD = 128 * 1024 + 1"

definition CORD_from_file :: "nat \<Rightarrow> CORD_ec \<Rightarrow> char list \<Rightarrow> stop + cord" where
  "CORD_from_file k mem f =
     (let len = length f in
      if len < LAZY_THRESHOLD then CORD_from_file_eager k mem f
      else Inr (CORD_from_file_lazy_inner f len))"

section \<open>The cache\<close>

lemma div_mod_eqs:
  "MOD_CACHE_SZ n = n mod 16384" "MOD_LINE_SZ n = n mod 512" "DIV_LINE_SZ n = n div 512"
  "LINE_START n = 512 * (n div 512)" "LINE_SZ = 512" "CACHE_SZ = 16384"
proof -
  have "n AND 16383 = take_bit 14 n" "n AND 511 = take_bit 9 n" for n :: nat
    using take_bit_eq_mask [of 14 n] take_bit_eq_mask [of 9 n] by (simp_all add: mask_eq_exp_minus_1)
  then show "MOD_CACHE_SZ n = n mod 16384" "MOD_LINE_SZ n = n mod 512" "DIV_LINE_SZ n = n div 512"
    "LINE_START n = 512 * (n div 512)" "LINE_SZ = 512" "CACHE_SZ = 16384"
    by (simp_all add: MOD_CACHE_SZ_def MOD_LINE_SZ_def DIV_LINE_SZ_def LINE_START_def LINE_SZ_def
      CACHE_SZ_def LOG_CACHE_SZ_def LOG_LINE_SZ_def take_bit_eq_mod drop_bit_eq_div push_bit_eq_mult)
qed

text \<open>
  The invariant: a line in the cache is at the index of its tag and holds the characters of the file
  there; the stream is where the code believes it to be unless that is past the end.
\<close>

definition lf_ok :: "lf_state \<Rightarrow> bool" where
  "lf_ok st \<longleftrightarrow> length (lf_cache st) = 32 \<and> lf_fpos st = min (lf_current st) (length (lf_file st)) \<and>
     (\<forall>l<32. \<forall>cl. lf_cache st ! l = Some cl \<longrightarrow> tag cl mod 32 = l \<and>
       (\<forall>j<512. 512 * tag cl + j < length (lf_file st) \<longrightarrow>
         line_data cl ! j = lf_file st ! (512 * tag cl + j)))"

lemma lazy_state_ok: "lf_ok (lazy_state f)"
  by (simp add: lf_ok_def lazy_state_def div_mod_eqs)

lemma line_index: "n mod 16384 div 512 = n div 512 mod 32" for n :: nat
proof -
  have "n mod (512 * 32) = 512 * (n div 512 mod 32) + n mod 512"
    by (rule mod_mult2_eq)
  then show ?thesis
    by simp
qed

lemma refill_ok:
  assumes "lf_ok st" "i < length (lf_file st)"
  shows "\<exists>st'. refill_cache mem st i = Inr (lf_file st ! i, st') \<and> lf_ok st' \<and> lf_file st' = lf_file st"
proof -
  let ?f = "lf_file st" and ?s = "512 * (i div 512)"
  have i: "i = ?s + i mod 512" "i mod 512 < 512"
    by simp_all
  have s: "?s \<le> i" "?s < length ?f"
    using assms(2) i(1) by linarith+
  define read where "read = take 512 (drop ?s ?f)"
  have pos: "(if ?s \<noteq> lf_current st then ?s else lf_fpos st) = ?s"
    using assms(1) s(2) by (simp add: lf_ok_def)
  have len: "length read = min 512 (length ?f - ?s)"
    by (simp add: read_def)
  have nth: "(read @ drop (length read) mem) ! j = ?f ! (?s + j)" if "j < 512" "?s + j < length ?f" for j
  proof -
    have "j < length ?f - ?s"
      using that(2) by linarith
    then show ?thesis
      using that(1) by (simp add: nth_append len) (simp add: read_def)
  qed
  have "i - ?s = i mod 512"
    by (rule minus_mult_div_eq_mod)
  then have enough: "\<not> length read \<le> i - ?s"
    using assms(2) i s by (simp add: len)
  let ?new = "\<lparr>tag = i div 512, line_data = read @ drop (length read) mem\<rparr>"
  let ?st = "st\<lparr>lf_fpos := ?s + length read, lf_cache := (lf_cache st)[i div 512 mod 32 := Some ?new],
    lf_current := ?s + 512\<rparr>"
  have "refill_cache mem st i = Inr (line_data ?new ! (i mod 512), ?st)"
    using enough by (simp only: refill_cache_def div_mod_eqs Let_def pos line_index read_def if_False)
  moreover have "line_data ?new ! (i mod 512) = ?f ! i"
    using nth [of "i mod 512"] assms(2) i by simp
  moreover have "lf_ok ?st"
    using assms(1) s nth by (auto simp: lf_ok_def nth_list_update len)
  ultimately show ?thesis
    by auto
qed

lemma CORD_lf_func_ok:
  assumes "lf_ok st" "i < length (lf_file st)"
  shows "\<exists>st'. CORD_lf_func mem st i = Inr (lf_file st ! i, st') \<and> lf_ok st' \<and> lf_file st' = lf_file st"
proof (cases "\<exists>cl. lf_cache st ! (i div 512 mod 32) = Some cl \<and> tag cl = i div 512")
  case True
  then obtain cl where cl: "lf_cache st ! (i div 512 mod 32) = Some cl" "tag cl = i div 512"
    by blast
  have "line_data cl ! (i mod 512) = lf_file st ! (512 * tag cl + i mod 512)"
  proof -
    have "i div 512 mod 32 < 32" "i mod 512 < 512" "512 * tag cl + i mod 512 < length (lf_file st)"
      using assms(2) cl(2) by simp_all
    then show ?thesis
      using assms(1) cl(1) by (simp only: lf_ok_def)
  qed
  then show ?thesis
    using assms(1) cl by (simp add: CORD_lf_func_def div_mod_eqs line_index Let_def)
next
  case False
  then have "CORD_lf_func mem st i = refill_cache mem st i"
    by (auto simp: CORD_lf_func_def div_mod_eqs line_index Let_def split: option.splits)
  then show ?thesis
    using refill_ok [OF assms, of mem] by simp
qed

text \<open>Any sequence of calls, each with its own new memory.\<close>

fun lf_calls :: "lf_state \<Rightarrow> (char list \<times> nat) list \<Rightarrow> stop + char list" where
  "lf_calls st [] = Inr []"
| "lf_calls st ((mem, i) # calls) =
     sbind (CORD_lf_func mem st i) (\<lambda>(c, st'). sbind (lf_calls st' calls) (\<lambda>cs. Inr (c # cs)))"

lemma lf_calls_ok:
  "lf_ok st \<Longrightarrow> \<forall>(mem, i)\<in>set calls. i < length (lf_file st) \<Longrightarrow>
    lf_calls st calls = Inr (map (\<lambda>(mem, i). lf_file st ! i) calls)"
proof (induction calls arbitrary: st)
  case (Cons call calls)
  obtain mem i where call: "call = (mem, i)"
    by (cases call)
  obtain st' where "CORD_lf_func mem st i = Inr (lf_file st ! i, st')" "lf_ok st'" "lf_file st' = lf_file st"
    using CORD_lf_func_ok [OF Cons.prems(1), of i mem] Cons.prems(2) by (auto simp: call)
  then show ?case
    using Cons.IH [of st'] Cons.prems(2) by (simp add: call)
qed simp

section \<open>Properties\<close>

text \<open>C23: the function of a lazily read file refines indexing into the file: from the initial state any
  sequence of calls with indices inside the file, in any order and with any contents of the new lines,
  returns the characters of the file; cache hits, conflicts in the cache, reads without seeking and a
  short last line included.\<close>

theorem lazy_cache_correct:
  assumes "\<forall>(mem, i)\<in>set calls. i < length f"
  shows "lf_calls (lazy_state f) calls = Inr (map (\<lambda>(mem, i). f ! i) calls)"
  using lf_calls_ok [OF lazy_state_ok, of calls f] assms by (simp add: lazy_state_def)

theorem lazy_cache_correct_witness:
  "lf_calls (lazy_state ''hello'') [([], 4), ([], 0), ([], 4)] = Inr ''oho''"
  using lazy_cache_correct [of "[([], 4), ([], 0), ([], 4)]" "''hello''"] by simp

text \<open>\<open>CORD_from_file\<close> gives a well-formed cord for the contents of the file, whether it reads the
  file at once, when it is shorter than the threshold, or on demand.\<close>

theorem from_file_correct:
  assumes "length (ec_buf mem) = CORD_BUFSZ + 1"
  shows "\<exists>z. CORD_from_file (Suc k) mem f = Inr z \<and> cord_inv z \<and> chars z = f"
proof (cases "length f < LAZY_THRESHOLD")
  case True
  then have "length f < min_len ! 46"
  proof -
    have "minl 12 = 377" "minl 13 = 610"
      by (simp_all add: numeral_eq_Suc)
    then have "LAZY_THRESHOLD < minl 27"
      using minl_add [of 12 12] by (simp add: LAZY_THRESHOLD_def del: minl.simps)
    also have "minl 27 \<le> minl 46"
      by (rule minl_mono) simp
    finally show ?thesis
      using True by (simp add: min_len_46)
  qed
  then have "length f < minl 46"
    by (simp only: min_len_46)
  then show ?thesis
    using True CORD_from_file_eager_ok [OF assms] by (simp add: CORD_from_file_def)
next
  case False
  have "map ((!) f) [0..<length f] = f"
    by (rule map_nth)
  then show ?thesis
    using False CORD_from_fn_ok [of "\<lambda>i. f ! i" "length f"]
    by (simp add: CORD_from_file_def CORD_from_file_lazy_inner_def)
qed

theorem from_file_correct_witness:
  "\<exists>z. CORD_from_file 1 new_ec (''a'' @ [NUL]) = Inr z \<and> chars z = ''a'' @ [NUL]"
  using from_file_correct [OF new_ec_mem, of 0 "''a'' @ [NUL]"] by auto

end

