(* ===== verification/GcRoots.thy ===== *)
theory GcRoots
  imports Prelude "HOL-Library.Word" "HOL-Library.Multiset"
begin

text \<open>
  Root sets of the collector (\<open>gc-7.4.2/mark_rts.c\<close>): the table of static root ranges with its hash
  index, the sorted table of excluded ranges, and the order in which \<open>GC_push_roots\<close> hands ranges to
  the marker. The configuration is the one of a 64-bit Linux build without threads: the index of roots
  is compiled in, the stack grows down, and no pointer needs fixing up.

  Addresses are 64-bit words and are compared as such. The two tables are arrays: lists whose length
  stands for \<open>MAX_ROOT_SETS\<close> and \<open>MAX_EXCLUSIONS\<close>, which the build configures. A pointer to a
  \<open>struct roots\<close> is its index in the table. What the marker does with a range is in \<open>mark.c\<close>; here
  a call of it is an event of the list that the functions return.
\<close>

unbundle bit_operations_syntax

section \<open>Data\<close>

type_synonym ptr_t = "64 word"

record roots =
  r_start :: ptr_t
  r_end :: ptr_t
  r_next :: "nat option"
  r_tmp :: bool

record exclusion =
  e_start :: ptr_t
  e_end :: ptr_t

record rts_state =
  GC_static_roots :: "roots list"
  n_root_sets :: nat
  GC_root_index :: "nat option list"
  GC_root_size :: "64 word"
  roots_were_cleared :: bool
  last_root_set :: nat
  GC_no_dls :: bool
  GC_excl_table :: "exclusion list"
  GC_excl_table_entries :: nat

definition RT_SIZE :: nat where
  "RT_SIZE = 64"

section \<open>The table of static roots\<close>

definition in_range :: "ptr_t \<Rightarrow> ptr_t \<Rightarrow> ptr_t \<Rightarrow> bool" where
  "in_range b e p \<longleftrightarrow> b \<le> p \<and> p < e"

definition GC_compute_root_size :: "rts_state \<Rightarrow> 64 word" where
  "GC_compute_root_size s =
     sum_list (map (\<lambda>r. r_end r - r_start r) (take (n_root_sets s) (GC_static_roots s)))"

definition in_root :: "rts_state \<Rightarrow> ptr_t \<Rightarrow> nat \<Rightarrow> bool" where
  "in_root s p i \<longleftrightarrow> in_range (r_start (GC_static_roots s ! i)) (r_end (GC_static_roots s ! i)) p"

definition GC_is_static_root :: "ptr_t \<Rightarrow> rts_state \<Rightarrow> bool \<times> rts_state" where
  "GC_is_static_root p s =
     (if last_root_set s < n_root_sets s \<and> in_root s p (last_root_set s) then (True, s)
      else case find (in_root s p) [0..<n_root_sets s] of
          Some i \<Rightarrow> (True, s\<lparr>last_root_set := i\<rparr>)
        | None \<Rightarrow> (False, s))"

definition GC_is_tmp_root :: "ptr_t \<Rightarrow> rts_state \<Rightarrow> bool \<times> rts_state" where
  "GC_is_tmp_root p s =
     (if last_root_set s < n_root_sets s \<and> in_root s p (last_root_set s)
      then (r_tmp (GC_static_roots s ! last_root_set s), s)
      else case find (in_root s p) [0..<n_root_sets s] of
          Some i \<Rightarrow> (r_tmp (GC_static_roots s ! i), s\<lparr>last_root_set := i\<rparr>)
        | None \<Rightarrow> (False, s))"

definition rt_hash :: "ptr_t \<Rightarrow> nat" where
  "rt_hash addr =
     (let result = addr;
          result = result XOR drop_bit 48 result;
          result = result XOR drop_bit 24 result;
          result = result XOR drop_bit 12 result;
          result = result XOR drop_bit 6 result
      in unat (result AND 63))"

text \<open>The search along \<open>r_next\<close>, at most \<open>n\<close> entries long.\<close>

fun find_in_chain :: "nat \<Rightarrow> roots list \<Rightarrow> nat option \<Rightarrow> ptr_t \<Rightarrow> stop + nat option" where
  "find_in_chain n rs None b = Inr None"
| "find_in_chain 0 rs (Some p) b = Inl No_Fuel"
| "find_in_chain (Suc n) rs (Some p) b =
     (if r_start (rs ! p) = b then Inr (Some p) else find_in_chain n rs (r_next (rs ! p)) b)"

definition GC_roots_present :: "ptr_t \<Rightarrow> rts_state \<Rightarrow> stop + nat option" where
  "GC_roots_present b s =
     find_in_chain (n_root_sets s) (GC_static_roots s) (GC_root_index s ! rt_hash b) b"

definition add_roots_to_index :: "nat \<Rightarrow> rts_state \<Rightarrow> rts_state" where
  "add_roots_to_index p s =
     (let h = rt_hash (r_start (GC_static_roots s ! p)) in
      s\<lparr>GC_static_roots := (GC_static_roots s)
          [p := (GC_static_roots s ! p)\<lparr>r_next := GC_root_index s ! h\<rparr>],
        GC_root_index := (GC_root_index s)[h := Some p]\<rparr>)"

definition round_up :: "ptr_t \<Rightarrow> ptr_t" where
  "round_up b = (b + 7) AND NOT 7"

definition round_down :: "ptr_t \<Rightarrow> ptr_t" where
  "round_down e = e AND NOT 7"

definition GC_add_roots_inner :: "ptr_t \<Rightarrow> ptr_t \<Rightarrow> bool \<Rightarrow> rts_state \<Rightarrow> stop + rts_state" where
  "GC_add_roots_inner b0 e0 tmp s =
     (let b = round_up b0; e = round_down e0 in
      if b \<ge> e then Inr s
      else sbind (GC_roots_present b s) (\<lambda>old.
        case old of
          Some p \<Rightarrow>
            let r = GC_static_roots s ! p in
            if e \<le> r_end r then Inr s
            else Inr (s\<lparr>GC_root_size := GC_root_size s + (e - r_end r),
                       GC_static_roots := (GC_static_roots s)[p := r\<lparr>r_end := e\<rparr>]\<rparr>)
        | None \<Rightarrow>
            if n_root_sets s = length (GC_static_roots s) then Inl (Abort ''Too many root sets'')
            else
              let s = s\<lparr>GC_static_roots := (GC_static_roots s)
                [n_root_sets s := \<lparr>r_start = b, r_end = e, r_next = None, r_tmp = tmp\<rparr>]\<rparr>;
                  s = add_roots_to_index (n_root_sets s) s
              in Inr (s\<lparr>GC_root_size := GC_root_size s + (e - b), n_root_sets := n_root_sets s + 1\<rparr>)))"

text \<open>
  The variant for Windows has no index; it extends the first root that touches the new range and then
  merges the roots after it that touch the result. A deleted root is replaced by the last one.
\<close>

definition touches :: "ptr_t \<Rightarrow> ptr_t \<Rightarrow> roots \<Rightarrow> bool" where
  "touches b e r \<longleftrightarrow> b \<le> r_end r \<and> e \<ge> r_start r"

definition extend_root :: "ptr_t \<Rightarrow> ptr_t \<Rightarrow> bool \<Rightarrow> nat \<Rightarrow> rts_state \<Rightarrow> rts_state" where
  "extend_root b e tmp old s =
     (let r = GC_static_roots s ! old;
          below = (if b < r_start r then r_start r - b else 0);
          above = (if e > r_end r then e - r_end r else 0) in
      s\<lparr>GC_root_size := GC_root_size s + below + above,
        GC_static_roots := (GC_static_roots s)[old := r\<lparr>r_start := r_start r - below,
          r_end := r_end r + above, r_tmp := r_tmp r \<and> tmp\<rparr>]\<rparr>)"

definition delete_merged :: "nat \<Rightarrow> rts_state \<Rightarrow> rts_state" where
  "delete_merged i s =
     (let other = GC_static_roots s ! i; l = GC_static_roots s ! (n_root_sets s - 1) in
      s\<lparr>GC_root_size := GC_root_size s - (r_end other - r_start other),
        GC_static_roots := (GC_static_roots s)[i := other\<lparr>r_start := r_start l, r_end := r_end l\<rparr>],
        n_root_sets := n_root_sets s - 1\<rparr>)"

function merge_loop :: "nat \<Rightarrow> nat \<Rightarrow> rts_state \<Rightarrow> rts_state" where
  "merge_loop old i s =
     (if i < n_root_sets s then
        let other = GC_static_roots s ! i in
        if touches (r_start other) (r_end other) (GC_static_roots s ! old) then
          merge_loop old (i + 1)
            (delete_merged i (extend_root (r_start other) (r_end other) (r_tmp other) old s))
        else merge_loop old (i + 1) s
      else s)"
  by pat_completeness auto

termination
  by (relation "measure (\<lambda>(old, i, s). n_root_sets s - i)")
    (auto simp: delete_merged_def extend_root_def Let_def)

declare merge_loop.simps [simp del]

definition GC_add_roots_inner_win32 ::
  "ptr_t \<Rightarrow> ptr_t \<Rightarrow> bool \<Rightarrow> rts_state \<Rightarrow> stop + rts_state" where
  "GC_add_roots_inner_win32 b0 e0 tmp s =
     (let b = round_up b0; e = round_down e0 in
      if b \<ge> e then Inr s
      else case find (\<lambda>i. touches b e (GC_static_roots s ! i)) [0..<n_root_sets s] of
          Some i \<Rightarrow> Inr (merge_loop i (i + 1) (extend_root b e tmp i s))
        | None \<Rightarrow>
            if n_root_sets s = length (GC_static_roots s) then Inl (Abort ''Too many root sets'')
            else Inr (s\<lparr>GC_static_roots := (GC_static_roots s)
                [n_root_sets s := \<lparr>r_start = b, r_end = e, r_next = None, r_tmp = tmp\<rparr>],
              GC_root_size := GC_root_size s + (e - b), n_root_sets := n_root_sets s + 1\<rparr>))"

definition GC_add_roots :: "ptr_t \<Rightarrow> ptr_t \<Rightarrow> rts_state \<Rightarrow> stop + rts_state" where
  "GC_add_roots b e s = GC_add_roots_inner b e False s"

definition GC_clear_roots :: "rts_state \<Rightarrow> rts_state" where
  "GC_clear_roots s = s\<lparr>roots_were_cleared := True, n_root_sets := 0, GC_root_size := 0,
     GC_root_index := replicate RT_SIZE None\<rparr>"

definition GC_remove_root_at_pos :: "nat \<Rightarrow> rts_state \<Rightarrow> rts_state" where
  "GC_remove_root_at_pos i s =
     (let r = GC_static_roots s ! i; l = GC_static_roots s ! (n_root_sets s - 1) in
      s\<lparr>GC_root_size := GC_root_size s - (r_end r - r_start r),
        GC_static_roots := (GC_static_roots s)
          [i := r\<lparr>r_start := r_start l, r_end := r_end l, r_tmp := r_tmp l\<rparr>],
        n_root_sets := n_root_sets s - 1\<rparr>)"

definition GC_rebuild_root_index :: "rts_state \<Rightarrow> rts_state" where
  "GC_rebuild_root_index s =
     fold add_roots_to_index [0..<n_root_sets s] (s\<lparr>GC_root_index := replicate RT_SIZE None\<rparr>)"

text \<open>
  The loop of the two functions that remove roots; they differ in the condition. After a removal the
  same position is looked at again, since the last root has moved there.
\<close>

function remove_loop :: "(roots \<Rightarrow> bool) \<Rightarrow> nat \<Rightarrow> rts_state \<Rightarrow> rts_state" where
  "remove_loop cond i s =
     (if i < n_root_sets s then
        if cond (GC_static_roots s ! i) then remove_loop cond i (GC_remove_root_at_pos i s)
        else remove_loop cond (i + 1) s
      else s)"
  by pat_completeness auto

termination
  by (relation "measure (\<lambda>(cond, i, s). n_root_sets s - i)")
    (auto simp: GC_remove_root_at_pos_def Let_def)

declare remove_loop.simps [simp del]

definition GC_remove_tmp_roots :: "rts_state \<Rightarrow> rts_state" where
  "GC_remove_tmp_roots s = GC_rebuild_root_index (remove_loop r_tmp 0 s)"

definition GC_remove_roots_inner :: "ptr_t \<Rightarrow> ptr_t \<Rightarrow> rts_state \<Rightarrow> rts_state" where
  "GC_remove_roots_inner b e s =
     GC_rebuild_root_index (remove_loop (\<lambda>r. r_start r \<ge> b \<and> r_end r \<le> e) 0 s)"

definition GC_remove_roots :: "ptr_t \<Rightarrow> ptr_t \<Rightarrow> rts_state \<Rightarrow> rts_state" where
  "GC_remove_roots b e s =
     (if round_up b \<ge> round_down e then s else GC_remove_roots_inner b e s)"

section \<open>The table of exclusions\<close>

text \<open>
  The binary search. With an empty table \<open>high\<close> starts at the largest \<open>size_t\<close> and the first access is
  far outside.
\<close>

function next_exclusion_loop :: "exclusion list \<Rightarrow> ptr_t \<Rightarrow> nat \<Rightarrow> nat \<Rightarrow> nat" where
  "next_exclusion_loop tab a low high =
     (if high > low then
        let mid = (low + high) div 2 in
        if e_end (tab ! mid) \<le> a then next_exclusion_loop tab a (mid + 1) high
        else next_exclusion_loop tab a low mid
      else low)"
  by pat_completeness auto

termination
  by (relation "measure (\<lambda>(tab, a, low, high). high - low)") auto

declare next_exclusion_loop.simps [simp del]

definition GC_next_exclusion :: "ptr_t \<Rightarrow> rts_state \<Rightarrow> stop + nat option" where
  "GC_next_exclusion start_addr s =
     (if GC_excl_table_entries s = 0 then Inl (Undefined ''read past the exclusion table'')
      else
        let low = next_exclusion_loop (GC_excl_table s) start_addr 0 (GC_excl_table_entries s - 1) in
        Inr (if e_end (GC_excl_table s ! low) \<le> start_addr then None else Some low))"

text \<open>Moving the entries from \<open>k\<close> on up by one place.\<close>

fun shift_loop :: "nat \<Rightarrow> nat \<Rightarrow> exclusion list \<Rightarrow> stop + exclusion list" where
  "shift_loop i k tab =
     (if i > k then
        if i < length tab then shift_loop (i - 1) k (tab[i := tab ! (i - 1)])
        else Inl (Undefined ''write past the exclusion table'')
      else Inr tab)"

declare shift_loop.simps [simp del]

definition insert_exclusion :: "nat \<Rightarrow> ptr_t \<Rightarrow> ptr_t \<Rightarrow> rts_state \<Rightarrow> stop + rts_state" where
  "insert_exclusion next_index start finish s =
     (if GC_excl_table_entries s = length (GC_excl_table s) then Inl (Abort ''Too many exclusions'')
      else Inr (s\<lparr>GC_excl_table := (GC_excl_table s)[next_index := \<lparr>e_start = start, e_end = finish\<rparr>],
             GC_excl_table_entries := GC_excl_table_entries s + 1\<rparr>))"

definition GC_exclude_static_roots_inner ::
  "ptr_t \<Rightarrow> ptr_t \<Rightarrow> rts_state \<Rightarrow> stop + rts_state" where
  "GC_exclude_static_roots_inner start finish s =
     sbind (if GC_excl_table_entries s = 0 then Inr None else GC_next_exclusion start s) (\<lambda>nxt.
       case nxt of
         Some k \<Rightarrow>
           let x = GC_excl_table s ! k in
           if e_start x < finish then Inl (Abort ''Exclusion ranges overlap'')
           else if e_start x = finish then
             Inr (s\<lparr>GC_excl_table := (GC_excl_table s)[k := x\<lparr>e_start := start\<rparr>]\<rparr>)
           else sbind (shift_loop (GC_excl_table_entries s) k (GC_excl_table s)) (\<lambda>tab.
             insert_exclusion k start finish (s\<lparr>GC_excl_table := tab\<rparr>))
       | None \<Rightarrow> insert_exclusion (GC_excl_table_entries s) start finish s)"

definition GC_exclude_static_roots :: "ptr_t \<Rightarrow> ptr_t \<Rightarrow> rts_state \<Rightarrow> stop + rts_state" where
  "GC_exclude_static_roots b e s =
     (if b = e then Inr s
      else
        let b = round_down b; e = round_up e; e = (if e = 0 then NOT 7 else e) in
        GC_exclude_static_roots_inner b e s)"

section \<open>Pushing roots\<close>

text \<open>The calls of the marker, in order.\<close>

datatype mark_call =
    Push_conditional ptr_t ptr_t bool
  | Push_all ptr_t ptr_t
  | Push_all_stack ptr_t ptr_t
  | Push_all_eager ptr_t ptr_t
  | Set_mark_bit ptr_t
  | Push_finalizer_structures
  | Push_typed_structures
  | Push_other_roots

lemma GC_next_exclusion_after:
  "GC_next_exclusion a s = Inr (Some k) \<Longrightarrow> a < e_end (GC_excl_table s ! k)"
  by (auto simp: GC_next_exclusion_def Let_def split: if_splits)

function GC_push_conditional_with_exclusions ::
  "rts_state \<Rightarrow> ptr_t \<Rightarrow> ptr_t \<Rightarrow> bool \<Rightarrow> stop + mark_call list" where
  "GC_push_conditional_with_exclusions s bottom hi all =
     (if bottom < hi then
        sbind (GC_next_exclusion bottom s) (\<lambda>nxt.
          case nxt of
            None \<Rightarrow> Inr [Push_conditional bottom hi all]
          | Some k \<Rightarrow>
              let excl_start = e_start (GC_excl_table s ! k) in
              if excl_start \<ge> hi then Inr [Push_conditional bottom hi all]
              else
                sbind (GC_push_conditional_with_exclusions s (e_end (GC_excl_table s ! k)) hi all)
                  (\<lambda>rest. Inr ((if excl_start > bottom then [Push_conditional bottom excl_start all]
                     else []) @ rest)))
      else Inr [])"
  by pat_completeness auto

termination
  by (relation "measure (\<lambda>(s, bottom, t, all). unat t - unat bottom)")
    (auto dest!: GC_next_exclusion_after simp: word_less_nat_alt)

declare GC_push_conditional_with_exclusions.simps [simp del]

text \<open>
  What the functions below read of the rest of the collector and of the machine: the stack pointer and
  the cold end of the stack, the traced sections of the stack, innermost first, each with its address and
  its saved stack pointer, the addresses of the free list headers of the object kinds (0 where \<open>GC_base\<close>
  finds no heap object), and which of the optional callbacks are set.
\<close>

record roots_env =
  GC_approx_sp :: ptr_t
  GC_stackbottom :: ptr_t
  GC_traced_stack_sect :: "(ptr_t \<times> ptr_t) list"
  GC_all_interior_pointers :: bool
  freelist_bases :: "ptr_t list"
  has_typed_structures :: bool
  has_other_roots :: bool

definition GC_push_all_stack_partially_eager ::
  "bool \<Rightarrow> ptr_t \<Rightarrow> ptr_t \<Rightarrow> ptr_t \<Rightarrow> mark_call list" where
  "GC_push_all_stack_partially_eager interior bottom hi cold_gc_frame =
     (if interior then
        if cold_gc_frame = 0 then [Push_all_stack bottom hi]
        else [Push_all (cold_gc_frame - 8) hi, Push_all_eager bottom cold_gc_frame]
      else [Push_all_eager bottom hi])"

fun GC_push_all_stack_part_eager_sections ::
  "bool \<Rightarrow> ptr_t \<Rightarrow> ptr_t \<Rightarrow> ptr_t \<Rightarrow> (ptr_t \<times> ptr_t) list \<Rightarrow> mark_call list" where
  "GC_push_all_stack_part_eager_sections interior lo hi cold_gc_frame [] =
     GC_push_all_stack_partially_eager interior lo hi cold_gc_frame"
| "GC_push_all_stack_part_eager_sections interior lo hi cold_gc_frame ((sect, saved_stack_ptr) # sects) =
     GC_push_all_stack_partially_eager interior lo sect cold_gc_frame @
     GC_push_all_stack_part_eager_sections interior saved_stack_ptr hi 0 sects"

text \<open>The variant for builds with threads.\<close>

fun GC_push_all_stack_sections :: "ptr_t \<Rightarrow> ptr_t \<Rightarrow> (ptr_t \<times> ptr_t) list \<Rightarrow> mark_call list" where
  "GC_push_all_stack_sections lo hi [] = [Push_all_stack lo hi]"
| "GC_push_all_stack_sections lo hi ((sect, saved_stack_ptr) # sects) =
     Push_all_stack lo sect # GC_push_all_stack_sections saved_stack_ptr hi sects"

definition GC_push_current_stack :: "roots_env \<Rightarrow> ptr_t \<Rightarrow> mark_call list" where
  "GC_push_current_stack env cold_gc_frame =
     GC_push_all_stack_part_eager_sections (GC_all_interior_pointers env) (GC_approx_sp env)
       (GC_stackbottom env) cold_gc_frame (GC_traced_stack_sect env)"

definition GC_push_regs_and_stack :: "roots_env \<Rightarrow> ptr_t \<Rightarrow> mark_call list" where
  "GC_push_regs_and_stack env cold_gc_frame = GC_push_current_stack env cold_gc_frame"

definition GC_push_gc_structures :: "roots_env \<Rightarrow> mark_call list" where
  "GC_push_gc_structures env =
     Push_finalizer_structures # (if has_typed_structures env then [Push_typed_structures] else [])"

text \<open>\<open>register_dls\<close> stands for \<open>GC_register_dynamic_libraries\<close>.\<close>

definition GC_cond_register_dynamic_libraries ::
  "(rts_state \<Rightarrow> stop + rts_state) \<Rightarrow> rts_state \<Rightarrow> stop + rts_state" where
  "GC_cond_register_dynamic_libraries register_dls s =
     (let s = GC_remove_tmp_roots s in if \<not> GC_no_dls s then register_dls s else Inr s)"

fun push_static_roots :: "rts_state \<Rightarrow> bool \<Rightarrow> roots list \<Rightarrow> stop + mark_call list" where
  "push_static_roots s all [] = Inr []"
| "push_static_roots s all (r # rs) =
     sbind (GC_push_conditional_with_exclusions s (r_start r) (r_end r) all) (\<lambda>xs.
     sbind (push_static_roots s all rs) (\<lambda>ys. Inr (xs @ ys)))"

definition GC_push_roots :: "roots_env \<Rightarrow> bool \<Rightarrow> ptr_t \<Rightarrow> rts_state \<Rightarrow> stop + mark_call list" where
  "GC_push_roots env all cold_gc_frame s =
     sbind (push_static_roots s all (take (n_root_sets s) (GC_static_roots s))) (\<lambda>static.
       Inr (static @
         map Set_mark_bit (filter (\<lambda>base. base \<noteq> 0) (freelist_bases env)) @
         (if GC_no_dls s \<or> roots_were_cleared s then GC_push_gc_structures env else []) @
         GC_push_regs_and_stack env cold_gc_frame @
         (if has_other_roots env then [Push_other_roots] else [])))"

section \<open>Rounding\<close>

lemma and_7: "unat (a AND 7) = unat a mod 8" for a :: ptr_t
proof -
  have "a AND 7 = take_bit 3 a"
    by (simp add: take_bit_eq_mask mask_eq_exp_minus_1)
  then show ?thesis
    by (simp add: take_bit_eq_mod unat_mod_distrib)
qed

lemma and_not_7: "unat (a AND NOT 7) = 8 * (unat a div 8)" for a :: ptr_t
proof -
  have "(a AND NOT 7) + (a AND 7) = (a AND NOT 7) OR (a AND 7)"
    by (rule disjunctive_add_eq_or) (simp add: bit_eq_iff bit_simps)
  also have "\<dots> = a"
    by (rule bit_eqI) (auto simp: bit_simps)
  finally have "a AND NOT 7 = a - (a AND 7)"
    by (simp add: eq_diff_eq)
  moreover have "a AND 7 \<le> a"
    by (simp add: word_le_nat_alt and_7)
  ultimately show ?thesis
    by (simp add: unat_sub and_7 minus_mod_eq_mult_div)
qed

lemma unat_round_down: "unat (round_down e) = 8 * (unat e div 8)"
  by (simp only: round_down_def and_not_7)

lemma unat_round_up: "unat b + 7 < 2 ^ 64 \<Longrightarrow> unat (round_up b) = 8 * ((unat b + 7) div 8)"
  by (simp only: round_up_def and_not_7) (simp add: unat_word_ariths)

lemma round_up_wraps: "2 ^ 64 \<le> unat b + 7 \<Longrightarrow> round_up b = 0"
proof -
  assume "2 ^ 64 \<le> unat b + 7"
  moreover have "unat b < 2 ^ 64"
    using unsigned_less [of b] by simp
  ultimately have "(unat b + 7) mod 2 ^ 64 < 7"
    by (simp add: mod_if) arith
  then have "unat (round_up b) = 0"
    by (simp only: round_up_def and_not_7) (simp add: unat_word_ariths)
  then show ?thesis
    by (simp only: unat_eq_0)
qed

section \<open>The index of the roots\<close>

fun chain :: "roots list \<Rightarrow> nat option \<Rightarrow> nat list \<Rightarrow> bool" where
  "chain rs p [] \<longleftrightarrow> p = None"
| "chain rs p (i # is) \<longleftrightarrow> p = Some i \<and> chain rs (r_next (rs ! i)) is"

definition bucket :: "roots list \<Rightarrow> nat \<Rightarrow> nat \<Rightarrow> nat list" where
  "bucket rs h n = rev (filter (\<lambda>i. rt_hash (r_start (rs ! i)) = h) [0..<n])"

text \<open>The index lists the first \<open>n\<close> roots, each bucket from the newest to the oldest.\<close>

definition indexed :: "roots list \<Rightarrow> nat option list \<Rightarrow> nat \<Rightarrow> bool" where
  "indexed rs idx n \<longleftrightarrow> length idx = RT_SIZE \<and> (\<forall>h<RT_SIZE. chain rs (idx ! h) (bucket rs h n))"

lemma rt_hash_less: "rt_hash a < RT_SIZE"
proof -
  have "x AND 63 = take_bit 6 x" for x :: ptr_t
    by (simp add: take_bit_eq_mask mask_eq_exp_minus_1)
  then show ?thesis
    by (simp add: rt_hash_def RT_SIZE_def Let_def take_bit_eq_mod unat_mod_distrib)
qed

lemma chain_cong:
  "(\<And>i. i \<in> set is \<Longrightarrow> r_next (rs ! i) = r_next (rs' ! i)) \<Longrightarrow> chain rs p is = chain rs' p is"
  by (induction "is" arbitrary: p) auto

lemma bucket_cong:
  "(\<And>i. i < n \<Longrightarrow> r_start (rs ! i) = r_start (rs' ! i)) \<Longrightarrow> bucket rs h n = bucket rs' h n"
  unfolding bucket_def by (rule arg_cong [of _ _ rev], rule filter_cong) simp_all

lemma in_bucket: "i \<in> set (bucket rs h n) \<longleftrightarrow> i < n \<and> rt_hash (r_start (rs ! i)) = h"
  by (auto simp: bucket_def)

lemma bucket_Suc:
  "bucket rs h (Suc n) = (if rt_hash (r_start (rs ! n)) = h then n # bucket rs h n else bucket rs h n)"
  by (simp add: bucket_def)

lemma length_bucket: "length (bucket rs h n) \<le> n"
  using length_filter_le [of "\<lambda>i. rt_hash (r_start (rs ! i)) = h" "[0..<n]"] by (simp add: bucket_def)

lemma find_in_chain_ok:
  "chain rs p is \<Longrightarrow> length is \<le> n \<Longrightarrow> find_in_chain n rs p b = Inr (find (\<lambda>i. r_start (rs ! i) = b) is)"
proof (induction "is" arbitrary: p n)
  case (Cons i "is")
  then show ?case
    by (cases n) auto
qed simp

lemma indexed_0: "indexed rs (replicate RT_SIZE None) 0"
  by (simp add: indexed_def bucket_def)

lemma indexed_Suc:
  assumes "indexed rs idx n" "n < length rs"
  shows "indexed (rs[n := (rs ! n)\<lparr>r_next := idx ! rt_hash (r_start (rs ! n))\<rparr>])
    (idx[rt_hash (r_start (rs ! n)) := Some n]) (Suc n)"
proof -
  let ?h = "rt_hash (r_start (rs ! n))"
  let ?rs = "rs[n := (rs ! n)\<lparr>r_next := idx ! ?h\<rparr>]"
  have b: "bucket ?rs h n = bucket rs h n" for h
    by (rule bucket_cong) (simp add: nth_list_update)
  have c: "chain ?rs p (bucket rs h n) = chain rs p (bucket rs h n)" for p h
    by (rule chain_cong) (simp add: in_bucket)
  show ?thesis
    using assms rt_hash_less [of "r_start (rs ! n)"]
    by (auto simp: indexed_def bucket_Suc b c nth_list_update)
qed

text \<open>What the abstract set of roots sees of an entry.\<close>

type_synonym root_view = "ptr_t \<times> ptr_t \<times> bool"

definition view :: "roots \<Rightarrow> root_view" where
  "view r = (r_start r, r_end r, r_tmp r)"

definition root_list :: "rts_state \<Rightarrow> root_view list" where
  "root_list s = map view (take (n_root_sets s) (GC_static_roots s))"

definition roots_ok :: "root_view list \<Rightarrow> bool" where
  "roots_ok vs \<longleftrightarrow> (\<forall>(b, e, t)\<in>set vs. b < e) \<and> distinct (map fst vs)"

definition view_size :: "root_view \<Rightarrow> 64 word" where
  "view_size = (\<lambda>(b, e, t). e - b)"

definition rts_ok :: "rts_state \<Rightarrow> bool" where
  "rts_ok s \<longleftrightarrow> n_root_sets s \<le> length (GC_static_roots s) \<and>
     indexed (GC_static_roots s) (GC_root_index s) (n_root_sets s) \<and>
     roots_ok (root_list s) \<and> GC_root_size s = sum_list (map view_size (root_list s))"

definition covered :: "root_view list \<Rightarrow> ptr_t set" where
  "covered vs = (\<Union>(b, e, t)\<in>set vs. {a. in_range b e a})"

lemma covered_simps [simp]:
  "covered [] = {}" "covered (v # vs) = {a. in_range (fst v) (fst (snd v)) a} \<union> covered vs"
  "covered (vs @ ws) = covered vs \<union> covered ws"
  by (auto simp: covered_def split: prod.splits)

lemma covered_iff: "a \<in> covered vs \<longleftrightarrow> (\<exists>b e t. (b, e, t) \<in> set vs \<and> in_range b e a)"
  by (auto simp: covered_def)

lemma covered_extend:
  assumes "p < length vs" "vs ! p = (b, e, t)" "e \<le> e'"
  shows "covered (vs[p := (b, e', t')]) = covered vs \<union> {a. in_range b e' a}"
proof -
  have "vs = take p vs @ (b, e, t) # drop (Suc p) vs"
    using assms(1,2) by (metis id_take_nth_drop)
  then have "covered vs = covered (take p vs) \<union> ({a. in_range b e a} \<union> covered (drop (Suc p) vs))"
    using covered_simps by (metis fst_conv snd_conv)
  moreover have "{a. in_range b e a} \<subseteq> {a. in_range b e' a}"
    using assms(3) by (auto simp: in_range_def)
  ultimately show ?thesis
    using assms(1) by (auto simp: upd_conv_take_nth_drop)
qed

lemma length_root_list: "rts_ok s \<Longrightarrow> length (root_list s) = n_root_sets s"
  by (simp add: root_list_def rts_ok_def)

lemma root_list_nth: "rts_ok s \<Longrightarrow> i < n_root_sets s \<Longrightarrow> root_list s ! i = view (GC_static_roots s ! i)"
  by (simp add: root_list_def rts_ok_def)

lemma compute_root_size_ok: "rts_ok s \<Longrightarrow> GC_compute_root_size s = GC_root_size s"
  by (simp add: rts_ok_def GC_compute_root_size_def root_list_def view_size_def view_def comp_def)

lemma GC_roots_present_ok:
  assumes "rts_ok s"
  shows "GC_roots_present b s = Inr (find (\<lambda>i. r_start (GC_static_roots s ! i) = b)
    (bucket (GC_static_roots s) (rt_hash b) (n_root_sets s)))"
  using assms rt_hash_less [of b]
  by (simp add: GC_roots_present_def find_in_chain_ok length_bucket rts_ok_def indexed_def)

lemma GC_roots_present_Some:
  assumes "rts_ok s" "GC_roots_present b s = Inr (Some p)"
  shows "p < n_root_sets s" "r_start (GC_static_roots s ! p) = b"
  using assms(2) by (auto simp: GC_roots_present_ok [OF assms(1)] find_Some_iff
    dest!: nth_mem [of _ "bucket _ _ _"] simp: in_bucket)

lemma GC_roots_present_None:
  assumes "rts_ok s" "GC_roots_present b s = Inr None" "i < n_root_sets s"
  shows "r_start (GC_static_roots s ! i) \<noteq> b"
  using assms(2,3) by (auto simp: GC_roots_present_ok [OF assms(1)] find_None_iff in_bucket)

section \<open>Operations on the roots keep the invariant\<close>

lemma indexed_cong:
  assumes "indexed rs idx n" "length rs' = length rs"
    "\<And>i. i < n \<Longrightarrow> r_start (rs' ! i) = r_start (rs ! i) \<and> r_next (rs' ! i) = r_next (rs ! i)"
  shows "indexed rs' idx n"
proof -
  have "bucket rs' h n = bucket rs h n" for h
    using assms(3) by (intro bucket_cong) simp
  moreover have "chain rs' p (bucket rs h n) = chain rs p (bucket rs h n)" for p h
    using assms(3) by (intro chain_cong) (simp add: in_bucket)
  ultimately show ?thesis
    using assms(1) by (simp add: indexed_def)
qed

lemma roots_ok_snoc:
  "roots_ok (vs @ [v]) \<longleftrightarrow> roots_ok vs \<and> fst v < fst (snd v) \<and> fst v \<notin> fst ` set vs"
  by (auto simp: roots_ok_def split: prod.splits)

lemma add_new_root_ok:
  fixes tmp :: bool
  assumes "rts_ok s" "n_root_sets s < length (GC_static_roots s)" "b < e"
    "\<And>i. i < n_root_sets s \<Longrightarrow> r_start (GC_static_roots s ! i) \<noteq> b"
  defines "rs \<equiv> (GC_static_roots s)[n_root_sets s := \<lparr>r_start = b, r_end = e, r_next = None, r_tmp = tmp\<rparr>]"
  defines "s1 \<equiv> add_roots_to_index (n_root_sets s) (s\<lparr>GC_static_roots := rs\<rparr>)"
  defines "s' \<equiv> s1\<lparr>GC_root_size := GC_root_size s1 + (e - b), n_root_sets := n_root_sets s1 + 1\<rparr>"
  shows "rts_ok s'" "root_list s' = root_list s @ [(b, e, tmp)]"
proof -
  let ?n = "n_root_sets s" and ?h = "rt_hash b"
  have n: "?n < length rs" "rs ! ?n = \<lparr>r_start = b, r_end = e, r_next = None, r_tmp = tmp\<rparr>"
    using assms(2) by (simp_all add: rs_def)
  have idx: "indexed rs (GC_root_index s) ?n"
    by (rule indexed_cong [of "GC_static_roots s"]) (use assms(1) in \<open>simp_all add: rts_ok_def rs_def\<close>)
  have s': "GC_static_roots s' = rs[?n := (rs ! ?n)\<lparr>r_next := GC_root_index s ! ?h\<rparr>]"
    "GC_root_index s' = (GC_root_index s)[?h := Some ?n]" "n_root_sets s' = Suc ?n"
    "GC_root_size s' = GC_root_size s + (e - b)"
    by (simp_all add: s'_def s1_def add_roots_to_index_def Let_def n)
  have "indexed (GC_static_roots s') (GC_root_index s') (n_root_sets s')"
    using indexed_Suc [OF idx n(1)] by (simp add: s' n(2))
  moreover show list: "root_list s' = root_list s @ [(b, e, tmp)]"
    using n by (simp add: root_list_def s' take_Suc_conv_app_nth view_def) (simp add: rs_def)
  moreover have "b \<notin> fst ` set (root_list s)"
  proof
    assume "b \<in> fst ` set (root_list s)"
    then obtain i where "i < n_root_sets s" "b = r_start (GC_static_roots s ! i)"
      by (auto simp: root_list_def view_def in_set_conv_nth)
    then show False
      using assms(4) [of i] by simp
  qed
  moreover have "GC_root_size s' = sum_list (map view_size (root_list s'))"
    using assms(1) by (simp add: s' list rts_ok_def view_size_def)
  ultimately show "rts_ok s'"
    using assms(1,2,3) by (simp add: rts_ok_def roots_ok_snoc s' rs_def)
qed

lemma sum_list_update_group:
  "k < length xs \<Longrightarrow> sum_list (xs[k := x]) = sum_list xs + (x - xs ! k)" for x :: "'a :: ab_group_add"
proof (induction xs arbitrary: k)
  case (Cons y xs)
  then show ?case
    by (cases k) simp_all
qed simp

lemma extend_root_ok:
  assumes "rts_ok s" "p < n_root_sets s" "r_end (GC_static_roots s ! p) < e"
  defines "r \<equiv> GC_static_roots s ! p"
  defines "s' \<equiv> s\<lparr>GC_root_size := GC_root_size s + (e - r_end r),
    GC_static_roots := (GC_static_roots s)[p := r\<lparr>r_end := e\<rparr>]\<rparr>"
  shows "rts_ok s'" "root_list s' = (root_list s)[p := (r_start r, e, r_tmp r)]"
proof -
  have r: "root_list s ! p = (r_start r, r_end r, r_tmp r)" "p < length (root_list s)"
    using assms(1,2) by (simp_all add: root_list_nth length_root_list view_def r_def)
  have "indexed (GC_static_roots s') (GC_root_index s') (n_root_sets s')"
    by (rule indexed_cong [of "GC_static_roots s"])
      (use assms(1,2) in \<open>auto simp: rts_ok_def s'_def r_def nth_list_update\<close>)
  moreover show list: "root_list s' = (root_list s)[p := (r_start r, e, r_tmp r)]"
    by (simp add: s'_def root_list_def take_update_swap map_update view_def)
  moreover have "roots_ok ((root_list s)[p := (r_start r, e, r_tmp r)])"
  proof -
    have "roots_ok (root_list s)"
      using assms(1) by (simp add: rts_ok_def)
    moreover have "map fst ((root_list s)[p := (r_start r, e, r_tmp r)]) = map fst (root_list s)"
      using r by (metis fst_conv list_update_id map_update nth_map)
    moreover have "r_start r < e"
    proof -
      have "(r_start r, r_end r, r_tmp r) \<in> set (root_list s)"
        using r nth_mem by metis
      then show ?thesis
        using calculation(1) assms(3) by (force simp: roots_ok_def r_def)
    qed
    ultimately show ?thesis
      using set_update_subset_insert [of "root_list s" p] by (fastforce simp: roots_ok_def)
  qed
  moreover have "GC_root_size s' = sum_list (map view_size (root_list s'))"
    using assms(1) r by (simp add: list map_update sum_list_update_group view_size_def rts_ok_def)
      (simp add: s'_def)
  ultimately show "rts_ok s'"
    using assms(1) by (simp add: rts_ok_def s'_def)
qed

lemma GC_add_roots_inner_ok:
  assumes "rts_ok s"
  shows "n_root_sets s = length (GC_static_roots s) \<and>
    GC_add_roots_inner b0 e0 tmp s = Inl (Abort ''Too many root sets'') \<or>
    (\<exists>s'. GC_add_roots_inner b0 e0 tmp s = Inr s' \<and> rts_ok s' \<and>
    covered (root_list s') = covered (root_list s) \<union> {a. in_range (round_up b0) (round_down e0) a} \<and>
    length (GC_static_roots s') = length (GC_static_roots s) \<and>
    n_root_sets s' \<le> Suc (n_root_sets s) \<and>
    GC_excl_table s' = GC_excl_table s \<and> GC_excl_table_entries s' = GC_excl_table_entries s)"
proof -
  let ?b = "round_up b0" and ?e = "round_down e0"
  consider "?b \<ge> ?e" | p where "?b < ?e" "GC_roots_present ?b s = Inr (Some p)"
    | "?b < ?e" "GC_roots_present ?b s = Inr None"
    using GC_roots_present_ok [OF assms, of ?b] by (metis not_le option.exhaust)
  then show ?thesis
  proof cases
    case 1
    then show ?thesis
      using assms by (auto simp: GC_add_roots_inner_def in_range_def)
  next
    case 2
    let ?r = "GC_static_roots s ! p"
    have p: "p < n_root_sets s" "r_start ?r = ?b"
      using GC_roots_present_Some [OF assms 2(2)] by simp_all
    have mem: "root_list s ! p = (?b, r_end ?r, r_tmp ?r)" "p < length (root_list s)"
      using p assms by (simp_all add: root_list_nth length_root_list view_def)
    show ?thesis
    proof (cases "?e \<le> r_end ?r")
      case True
      have "{a. in_range ?b ?e a} \<subseteq> covered (root_list s)"
        using nth_mem [OF mem(2)] True unfolding mem(1) by (fastforce simp: covered_iff in_range_def)
      then show ?thesis
        using 2 assms True by (auto simp: GC_add_roots_inner_def Let_def)
    next
      case False
      then have "r_end ?r < ?e"
        by simp
      note ext = extend_root_ok [OF assms p(1) this]
      have "covered ((root_list s)[p := (?b, ?e, r_tmp ?r)]) = covered (root_list s) \<union> {a. in_range ?b ?e a}"
        using mem False by (intro covered_extend [where e = "r_end ?r"]) simp_all
      then show ?thesis
        using 2 ext False p by (auto simp: GC_add_roots_inner_def Let_def)
    qed
  next
    case 3
    show ?thesis
    proof (cases "n_root_sets s = length (GC_static_roots s)")
      case True
      then show ?thesis
        using 3 by (auto simp: GC_add_roots_inner_def Let_def)
    next
      case False
      then have "n_root_sets s < length (GC_static_roots s)"
        using assms by (simp add: rts_ok_def)
      note new = add_new_root_ok [OF assms this 3(1) GC_roots_present_None [OF assms 3(2)], where tmp = tmp]
      show ?thesis
        using 3 False new by (auto simp: GC_add_roots_inner_def Let_def add_roots_to_index_def)
    qed
  qed
qed

text \<open>Rebuilding the index needs no assumption on the old one.\<close>

definition pre_ok :: "rts_state \<Rightarrow> bool" where
  "pre_ok s \<longleftrightarrow> n_root_sets s \<le> length (GC_static_roots s) \<and> roots_ok (root_list s) \<and>
     GC_root_size s = sum_list (map view_size (root_list s))"

lemma view_r_next [simp]: "view (r\<lparr>r_next := x\<rparr>) = view r"
  by (simp add: view_def)

lemma add_roots_to_index_frame:
  "n_root_sets (add_roots_to_index p s) = n_root_sets s"
  "GC_root_size (add_roots_to_index p s) = GC_root_size s"
  "length (GC_static_roots (add_roots_to_index p s)) = length (GC_static_roots s)"
  "map view (GC_static_roots (add_roots_to_index p s)) = map view (GC_static_roots s)"
  "GC_excl_table (add_roots_to_index p s) = GC_excl_table s"
  "GC_excl_table_entries (add_roots_to_index p s) = GC_excl_table_entries s"
  by (simp_all add: add_roots_to_index_def Let_def map_update)
    (metis list_update_beyond list_update_id map_update not_le nth_map view_r_next)

lemma rebuild_loop_ok:
  assumes "k \<le> length (GC_static_roots s)"
  defines "s' \<equiv> fold add_roots_to_index [0..<k] (s\<lparr>GC_root_index := replicate RT_SIZE None\<rparr>)"
  shows "indexed (GC_static_roots s') (GC_root_index s') k \<and> n_root_sets s' = n_root_sets s \<and>
    GC_root_size s' = GC_root_size s \<and> length (GC_static_roots s') = length (GC_static_roots s) \<and>
    map view (GC_static_roots s') = map view (GC_static_roots s) \<and>
    GC_excl_table s' = GC_excl_table s \<and> GC_excl_table_entries s' = GC_excl_table_entries s"
  using assms(1) unfolding s'_def
proof (induction k)
  case 0
  then show ?case
    by (simp add: indexed_0)
next
  case (Suc k)
  let ?s = "fold add_roots_to_index [0..<k] (s\<lparr>GC_root_index := replicate RT_SIZE None\<rparr>)"
  have "indexed (GC_static_roots (add_roots_to_index k ?s)) (GC_root_index (add_roots_to_index k ?s)) (Suc k)"
    using indexed_Suc [of "GC_static_roots ?s" "GC_root_index ?s" k] Suc
    by (simp add: add_roots_to_index_def Let_def)
  then show ?case
    using Suc by (simp add: add_roots_to_index_frame)
qed

lemma GC_rebuild_root_index_ok:
  assumes "pre_ok s"
  shows "rts_ok (GC_rebuild_root_index s)" "root_list (GC_rebuild_root_index s) = root_list s"
    "GC_excl_table (GC_rebuild_root_index s) = GC_excl_table s"
    "GC_excl_table_entries (GC_rebuild_root_index s) = GC_excl_table_entries s"
proof -
  have n: "n_root_sets s \<le> length (GC_static_roots s)"
    using assms by (simp add: pre_ok_def)
  note ok = rebuild_loop_ok [OF this, folded GC_rebuild_root_index_def]
  show list: "root_list (GC_rebuild_root_index s) = root_list s"
    using ok by (simp add: root_list_def flip: take_map)
  show "rts_ok (GC_rebuild_root_index s)" "GC_excl_table (GC_rebuild_root_index s) = GC_excl_table s"
    "GC_excl_table_entries (GC_rebuild_root_index s) = GC_excl_table_entries s"
    using ok assms list n by (simp_all add: rts_ok_def pre_ok_def)
qed

text \<open>Removing a root moves the last one into its place.\<close>

lemma remove_at_list:
  assumes "n_root_sets s \<le> length (GC_static_roots s)" "i < n_root_sets s"
  shows "root_list (GC_remove_root_at_pos i s) = butlast ((root_list s)[i := last (root_list s)])"
proof -
  have v: "view (r\<lparr>r_start := r_start l, r_end := r_end l, r_tmp := r_tmp l\<rparr>) = view l" for r l
    by (simp add: view_def)
  have len: "length (root_list s) = n_root_sets s"
    using assms(1) by (simp add: root_list_def)
  then have "last (root_list s) = view (GC_static_roots s ! (n_root_sets s - 1))"
    using assms by (subst last_conv_nth) (auto simp: root_list_def)
  then show ?thesis
    using assms by (simp add: root_list_def GC_remove_root_at_pos_def Let_def v map_update
      take_update_swap butlast_conv_take min_def flip: take_map)
qed

lemma mset_butlast_update:
  assumes "i < length xs"
  shows "add_mset (xs ! i) (mset (butlast (xs[i := last xs]))) = mset xs"
proof -
  obtain ys y where xs: "xs = ys @ [y]"
    using assms by (cases xs rule: rev_cases) auto
  show ?thesis
  proof (cases "i < length ys")
    case True
    then have "ys ! i \<in># mset ys"
      by simp
    then show ?thesis
      using True by (simp add: xs list_update_append nth_append mset_update)
  next
    case False
    then have "i = length ys"
      using assms by (simp add: xs)
    then show ?thesis
      by (simp add: xs)
  qed
qed

lemma roots_ok_mset: "mset vs = add_mset v (mset ws) \<Longrightarrow> roots_ok vs \<Longrightarrow> roots_ok ws"
proof -
  assume m: "mset vs = add_mset v (mset ws)" and ok: "roots_ok vs"
  have "set vs = insert v (set ws)"
    using arg_cong [OF m, of set_mset] by simp
  moreover have "distinct (map fst ws)"
  proof -
    have "mset (map fst vs) = mset (map fst (v # ws))"
      using m by simp
    then have "distinct (map fst (v # ws))"
      using ok by (metis mset_eq_imp_distinct_iff roots_ok_def)
    then show ?thesis
      by simp
  qed
  ultimately show ?thesis
    using ok by (simp add: roots_ok_def)
qed

lemma sum_list_mset: "sum_list (map f xs) = sum_mset (image_mset f (mset xs))"
  by (metis mset_map sum_mset_sum_list)

lemma remove_at_ok:
  assumes "pre_ok s" "i < n_root_sets s"
  shows "pre_ok (GC_remove_root_at_pos i s)"
    "add_mset (root_list s ! i) (mset (root_list (GC_remove_root_at_pos i s))) = mset (root_list s)"
proof -
  have n: "n_root_sets s \<le> length (GC_static_roots s)" "i < length (root_list s)"
    using assms by (simp_all add: pre_ok_def root_list_def)
  show m: "add_mset (root_list s ! i) (mset (root_list (GC_remove_root_at_pos i s))) = mset (root_list s)"
    using mset_butlast_update [OF n(2)] by (simp add: remove_at_list [OF n(1) assms(2)])
  have size: "sum_list (map view_size (root_list s)) =
    view_size (root_list s ! i) + sum_list (map view_size (root_list (GC_remove_root_at_pos i s)))"
    unfolding sum_list_mset m [symmetric] by simp
  have view: "view_size (root_list s ! i) = r_end (GC_static_roots s ! i) - r_start (GC_static_roots s ! i)"
    using n assms(2) by (simp add: root_list_def view_def view_size_def)
  have "sum_list (map view_size (root_list (GC_remove_root_at_pos i s))) =
    GC_root_size (GC_remove_root_at_pos i s)"
  proof -
    have "GC_root_size (GC_remove_root_at_pos i s) =
      GC_root_size s - (r_end (GC_static_roots s ! i) - r_start (GC_static_roots s ! i))"
      by (simp add: GC_remove_root_at_pos_def Let_def)
    moreover have "GC_root_size s = sum_list (map view_size (root_list s))"
      using assms(1) by (simp add: pre_ok_def)
    ultimately show ?thesis
      using size view by simp
  qed
  moreover have "n_root_sets (GC_remove_root_at_pos i s)
    \<le> length (GC_static_roots (GC_remove_root_at_pos i s))"
    using n by (simp add: GC_remove_root_at_pos_def Let_def)
  ultimately show "pre_ok (GC_remove_root_at_pos i s)"
    using assms(1) roots_ok_mset [OF m [symmetric]] by (simp add: pre_ok_def)
qed

lemma remove_at_frame:
  "n_root_sets (GC_remove_root_at_pos i s) = n_root_sets s - 1"
  "GC_excl_table (GC_remove_root_at_pos i s) = GC_excl_table s"
  "GC_excl_table_entries (GC_remove_root_at_pos i s) = GC_excl_table_entries s"
  "j \<noteq> i \<Longrightarrow> GC_static_roots (GC_remove_root_at_pos i s) ! j = GC_static_roots s ! j"
  by (simp_all add: GC_remove_root_at_pos_def Let_def)

lemma remove_loop_ok:
  assumes "pre_ok s" "\<And>r. c r = c' (view r)" "\<forall>j<i. j < n_root_sets s \<longrightarrow> \<not> c (GC_static_roots s ! j)"
  shows "pre_ok (remove_loop c i s) \<and>
    mset (root_list (remove_loop c i s)) = filter_mset (\<lambda>v. \<not> c' v) (mset (root_list s)) \<and>
    GC_excl_table (remove_loop c i s) = GC_excl_table s \<and>
    GC_excl_table_entries (remove_loop c i s) = GC_excl_table_entries s"
  using assms
proof (induction c i s rule: remove_loop.induct)
  case (1 c i s)
  let ?rm = "GC_remove_root_at_pos i s"
  consider "\<not> i < n_root_sets s" | "i < n_root_sets s" "c (GC_static_roots s ! i)"
    | "i < n_root_sets s" "\<not> c (GC_static_roots s ! i)"
    by blast
  then show ?case
  proof cases
    case 1
    have "\<not> c' v" if "v \<in># mset (root_list s)" for v
    proof -
      have "v \<in> view ` set (take (n_root_sets s) (GC_static_roots s))"
        using that by (simp add: root_list_def)
      then obtain j where "j < n_root_sets s" "v = view (GC_static_roots s ! j)"
        by (auto simp: in_set_conv_nth)
      moreover have "j < i"
        using 1 calculation(1) by simp
      ultimately show ?thesis
        using "1.prems"(3) by (simp add: "1.prems"(2) [symmetric])
    qed
    then have "filter (\<lambda>v. \<not> c' v) (root_list s) = root_list s"
      by simp
    then have "filter_mset (\<lambda>v. \<not> c' v) (mset (root_list s)) = mset (root_list s)"
      by (simp flip: mset_filter)
    then show ?thesis
      using 1 "1.prems"(1) by (simp add: remove_loop.simps [of c i s])
  next
    case 2
    have "root_list s ! i = view (GC_static_roots s ! i)"
      using 2 "1.prems"(1) by (simp add: root_list_def pre_ok_def)
    then have c': "c' (root_list s ! i)"
      using 2(2) "1.prems"(2) [of "GC_static_roots s ! i"] by simp
    have "filter_mset (\<lambda>v. \<not> c' v) (mset (root_list s)) =
      filter_mset (\<lambda>v. \<not> c' v) (add_mset (root_list s ! i) (mset (root_list ?rm)))"
      by (simp only: remove_at_ok(2) [OF "1.prems"(1) 2(1)])
    also have "\<dots> = filter_mset (\<lambda>v. \<not> c' v) (mset (root_list ?rm))"
      using c' by simp
    finally have "filter_mset (\<lambda>v. \<not> c' v) (mset (root_list s)) =
      filter_mset (\<lambda>v. \<not> c' v) (mset (root_list ?rm))" .
    moreover have "remove_loop c i s = remove_loop c i ?rm"
      using 2 by (simp add: remove_loop.simps [of c i s])
    ultimately show ?thesis
      using "1.IH"(1) [OF 2 remove_at_ok(1) [OF "1.prems"(1) 2(1)] "1.prems"(2)] "1.prems"(3)
      by (simp add: remove_at_frame)
  next
    case 3
    then have "remove_loop c i s = remove_loop c (i + 1) s"
      by (simp add: remove_loop.simps [of c i s])
    then show ?thesis
      using "1.IH"(2) [OF 3 "1.prems"(1,2)] "1.prems"(3) 3(2) by (auto simp: less_Suc_eq)
  qed
qed

lemma covered_mset: "mset vs = filter_mset P (mset ws) \<Longrightarrow> covered vs = covered (filter P ws)"
proof -
  assume "mset vs = filter_mset P (mset ws)"
  then have "set vs = set (filter P ws)"
    by (metis mset_filter set_mset_mset)
  then show ?thesis
    by (simp add: covered_def)
qed

lemma remove_and_rebuild_ok:
  assumes "rts_ok s" "\<And>r. c r = c' (view r)"
  shows "rts_ok (GC_rebuild_root_index (remove_loop c 0 s)) \<and>
    mset (root_list (GC_rebuild_root_index (remove_loop c 0 s))) =
      filter_mset (\<lambda>v. \<not> c' v) (mset (root_list s)) \<and>
    GC_excl_table (GC_rebuild_root_index (remove_loop c 0 s)) = GC_excl_table s \<and>
    GC_excl_table_entries (GC_rebuild_root_index (remove_loop c 0 s)) = GC_excl_table_entries s"
proof -
  have "pre_ok s"
    using assms(1) by (simp add: rts_ok_def pre_ok_def)
  then have "pre_ok (remove_loop c 0 s) \<and>
    mset (root_list (remove_loop c 0 s)) = filter_mset (\<lambda>v. \<not> c' v) (mset (root_list s)) \<and>
    GC_excl_table (remove_loop c 0 s) = GC_excl_table s \<and>
    GC_excl_table_entries (remove_loop c 0 s) = GC_excl_table_entries s"
    using assms(2) by (intro remove_loop_ok) simp_all
  then show ?thesis
    using GC_rebuild_root_index_ok [of "remove_loop c 0 s"] by simp
qed

lemma GC_remove_tmp_roots_ok:
  assumes "rts_ok s"
  shows "rts_ok (GC_remove_tmp_roots s) \<and>
    mset (root_list (GC_remove_tmp_roots s)) = filter_mset (\<lambda>(b, e, t). \<not> t) (mset (root_list s))"
  using remove_and_rebuild_ok [OF assms, of r_tmp "\<lambda>(b, e, t). t"]
  by (simp add: GC_remove_tmp_roots_def view_def case_prod_unfold)

lemma GC_remove_roots_ok:
  assumes "rts_ok s"
  shows "rts_ok (GC_remove_roots b e s)"
    "mset (root_list (GC_remove_roots b e s)) = (if round_down e \<le> round_up b then mset (root_list s)
       else filter_mset (\<lambda>(rb, re, t). \<not> (b \<le> rb \<and> re \<le> e)) (mset (root_list s)))"
  using assms remove_and_rebuild_ok [OF assms, of "\<lambda>r. b \<le> r_start r \<and> r_end r \<le> e"
      "\<lambda>(rb, re, t). b \<le> rb \<and> re \<le> e"]
  by (simp_all add: GC_remove_roots_def GC_remove_roots_inner_def view_def case_prod_unfold)

lemma GC_clear_roots_ok: "rts_ok (GC_clear_roots s)" "root_list (GC_clear_roots s) = []"
  by (simp_all add: GC_clear_roots_def rts_ok_def root_list_def indexed_0 roots_ok_def)

lemma GC_is_static_root_ok:
  assumes "rts_ok s"
  shows "fst (GC_is_static_root p s) \<longleftrightarrow> p \<in> covered (root_list s)"
    "rts_ok (snd (GC_is_static_root p s))" "root_list (snd (GC_is_static_root p s)) = root_list s"
proof -
  have cov: "p \<in> covered (root_list s) \<longleftrightarrow> (\<exists>i<n_root_sets s. in_root s p i)"
  proof -
    have "set (root_list s) = (\<lambda>i. view (GC_static_roots s ! i)) ` {..<n_root_sets s}"
      using assms by (force simp: root_list_def rts_ok_def in_set_conv_nth)
    then show ?thesis
      by (auto simp: covered_def in_root_def view_def)
  qed
  show "fst (GC_is_static_root p s) \<longleftrightarrow> p \<in> covered (root_list s)"
    by (auto simp: GC_is_static_root_def cov find_None_iff find_Some_iff split: option.splits)
  show "rts_ok (snd (GC_is_static_root p s))" "root_list (snd (GC_is_static_root p s)) = root_list s"
    using assms by (auto simp: GC_is_static_root_def rts_ok_def root_list_def split: option.splits)
qed

section \<open>The exclusion table is sorted\<close>

definition excl_list :: "rts_state \<Rightarrow> exclusion list" where
  "excl_list s = take (GC_excl_table_entries s) (GC_excl_table s)"

definition excl_sorted :: "exclusion list \<Rightarrow> bool" where
  "excl_sorted xs \<longleftrightarrow> sorted_wrt (\<lambda>x y. e_end x \<le> e_start y) xs \<and> (\<forall>x\<in>set xs. e_start x < e_end x)"

definition excl_ok :: "rts_state \<Rightarrow> bool" where
  "excl_ok s \<longleftrightarrow> GC_excl_table_entries s \<le> length (GC_excl_table s) \<and> excl_sorted (excl_list s)"

definition excluded :: "exclusion list \<Rightarrow> ptr_t set" where
  "excluded xs = (\<Union>x\<in>set xs. {a. in_range (e_start x) (e_end x) a})"

lemma excluded_simps [simp]:
  "excluded [] = {}" "excluded (x # xs) = {a. in_range (e_start x) (e_end x) a} \<union> excluded xs"
  "excluded (xs @ ys) = excluded xs \<union> excluded ys"
  by (auto simp: excluded_def)

lemma excl_sorted_append:
  "excl_sorted (xs @ x # ys) \<longleftrightarrow> excl_sorted xs \<and> excl_sorted ys \<and> e_start x < e_end x \<and>
     (\<forall>y\<in>set xs. e_end y \<le> e_start x) \<and> (\<forall>y\<in>set ys. e_end x \<le> e_start y) \<and>
     (\<forall>y\<in>set xs. \<forall>z\<in>set ys. e_end y \<le> e_start z)"
  by (auto simp: excl_sorted_def sorted_wrt_append)

lemma excl_ends_mono:
  assumes "excl_sorted xs" "i \<le> j" "j < length xs"
  shows "e_end (xs ! i) \<le> e_end (xs ! j)"
proof (cases "i = j")
  case False
  then have "e_end (xs ! i) \<le> e_start (xs ! j)"
    using assms by (auto simp: excl_sorted_def sorted_wrt_iff_nth_less)
  moreover have "e_start (xs ! j) < e_end (xs ! j)"
    using assms by (auto simp: excl_sorted_def)
  ultimately show ?thesis
    by simp
qed simp

lemma next_exclusion_loop_ok:
  assumes "low \<le> high" "\<And>i j. i \<le> j \<Longrightarrow> j \<le> high \<Longrightarrow> e_end (tab ! i) \<le> e_end (tab ! j)"
    "\<forall>i<low. e_end (tab ! i) \<le> a"
  shows "next_exclusion_loop tab a low high \<le> high \<and>
    (\<forall>i<next_exclusion_loop tab a low high. e_end (tab ! i) \<le> a) \<and>
    (next_exclusion_loop tab a low high < high \<longrightarrow> a < e_end (tab ! next_exclusion_loop tab a low high))"
  using assms
proof (induction tab a low high rule: next_exclusion_loop.induct)
  case (1 tab a low high)
  define mid where "mid = (low + high) div 2"
  consider "low = high" | "low < high" "e_end (tab ! mid) \<le> a" | "low < high" "a < e_end (tab ! mid)"
    using "1.prems"(1) by fastforce
  then show ?case
  proof cases
    case 1
    have "next_exclusion_loop tab a low high = low"
      by (subst next_exclusion_loop.simps) (simp add: 1)
    then show ?thesis
      using "1.prems" 1 by simp
  next
    case 2
    have m: "mid + 1 \<le> high" "mid \<le> high"
      using 2(1) by (simp_all add: mid_def)
    have "e_end (tab ! i) \<le> a" if "i < mid + 1" for i
      using "1.prems"(2) [of i mid] that m 2(2) by simp
    then show ?thesis
      using "1.IH"(1) [OF 2(1) mid_def 2(2) m(1) "1.prems"(2)] 2
      by (simp add: next_exclusion_loop.simps [of tab a low high] mid_def Let_def)
  next
    case 3
    have m: "low \<le> mid" "mid < high"
      using 3(1) by (simp_all add: mid_def)
    have n: "\<not> e_end (tab ! mid) \<le> a"
      using 3(2) by simp
    have "next_exclusion_loop tab a low high = next_exclusion_loop tab a low mid"
      using 3(1) n by (simp add: next_exclusion_loop.simps [of tab a low high] mid_def Let_def)
    moreover have "next_exclusion_loop tab a low mid \<le> mid \<and>
      (\<forall>i<next_exclusion_loop tab a low mid. e_end (tab ! i) \<le> a) \<and>
      (next_exclusion_loop tab a low mid < mid \<longrightarrow> a < e_end (tab ! next_exclusion_loop tab a low mid))"
      by (rule "1.IH"(2) [OF 3(1) mid_def n m(1)]) (use "1.prems" m in auto)
    ultimately show ?thesis
      using m 3(2) by (metis le_neq_implies_less le_trans less_imp_le)
  qed
qed

lemma GC_next_exclusion_ok:
  assumes "excl_ok s" "GC_excl_table_entries s > 0"
  obtains (Some) k where "GC_next_exclusion a s = Inr (Some k)" "k < length (excl_list s)"
      "GC_excl_table s ! k = excl_list s ! k" "a < e_end (excl_list s ! k)"
      "\<forall>y\<in>set (take k (excl_list s)). e_end y \<le> a"
  | (None) "GC_next_exclusion a s = Inr None" "\<forall>y\<in>set (excl_list s). e_end y \<le> a"
proof -
  let ?xs = "excl_list s" and ?n = "GC_excl_table_entries s"
  let ?k = "next_exclusion_loop (GC_excl_table s) a 0 (?n - 1)"
  have len: "length ?xs = ?n" and nth: "\<And>i. i < ?n \<Longrightarrow> GC_excl_table s ! i = ?xs ! i"
    using assms(1) by (simp_all add: excl_list_def excl_ok_def)
  have mono: "e_end (GC_excl_table s ! i) \<le> e_end (GC_excl_table s ! j)" if "i \<le> j" "j \<le> ?n - 1" for i j
    using excl_ends_mono [of ?xs i j] assms that by (simp add: excl_ok_def len nth)
  have "?k \<le> ?n - 1 \<and> (\<forall>i<?k. e_end (GC_excl_table s ! i) \<le> a) \<and>
    (?k < ?n - 1 \<longrightarrow> a < e_end (GC_excl_table s ! ?k))"
    by (rule next_exclusion_loop_ok [OF _ mono]) simp_all
  then have k: "?k < ?n" "\<forall>i<?k. e_end (?xs ! i) \<le> a" "?k < ?n - 1 \<longrightarrow> a < e_end (?xs ! ?k)"
    using assms(2) by (auto simp: nth)
  show thesis
  proof (cases "a < e_end (?xs ! ?k)")
    case True
    have "GC_next_exclusion a s = Inr (Some ?k)"
      using True assms(2) k(1) by (auto simp: GC_next_exclusion_def nth Let_def)
    moreover have "\<forall>y\<in>set (take ?k ?xs). e_end y \<le> a"
      using k(1,2) by (auto simp: in_set_conv_nth len)
    ultimately show thesis
      using Some [of ?k] True k(1) by (simp add: len nth)
  next
    case False
    then have "?k = ?n - 1"
      using k(1,3) by linarith
    have "e_end (?xs ! i) \<le> a" if "i < ?n" for i
    proof (cases "i = ?k")
      case True
      then show ?thesis
        using False by simp
    next
      case ne: False
      then have "i < ?k"
        using \<open>?k = ?n - 1\<close> that by linarith
      then show ?thesis
        using k(2) by blast
    qed
    then have "\<forall>y\<in>set ?xs. e_end y \<le> a"
      by (auto simp: in_set_conv_nth len)
    moreover have "GC_next_exclusion a s = Inr None"
      using False assms(2) k(1) by (simp add: GC_next_exclusion_def nth Let_def)
    ultimately show thesis
      by (intro None)
  qed
qed

lemma shift_loop_ok:
  "k \<le> i \<Longrightarrow> i < length tab \<Longrightarrow>
    \<exists>tab'. shift_loop i k tab = Inr tab' \<and> length tab' = length tab \<and>
      (\<forall>j. tab' ! j = (if k < j \<and> j \<le> i then tab ! (j - 1) else tab ! j))"
proof (induction "i - k" arbitrary: i tab)
  case 0
  then have "shift_loop i k tab = Inr tab"
    by (subst shift_loop.simps) simp
  then show ?case
    using 0 by auto
next
  case (Suc d)
  let ?tab = "tab[i := tab ! (i - 1)]"
  have i: "k < i" "d = i - 1 - k"
    using Suc.hyps(2) by simp_all
  have "k \<le> i - 1" "i - 1 < length ?tab"
    using i(1) Suc.prems by simp_all
  from Suc.hyps(1) [OF i(2) this]
  obtain tab' where t: "shift_loop (i - 1) k ?tab = Inr tab'" "length tab' = length tab"
      "\<forall>j. tab' ! j = (if k < j \<and> j \<le> i - 1 then ?tab ! (j - 1) else ?tab ! j)"
    by auto
  have "shift_loop i k tab = Inr tab'"
    using i(1) Suc.prems t(1) by (simp add: shift_loop.simps [of i])
  moreover have "tab' ! j = (if k < j \<and> j \<le> i then tab ! (j - 1) else tab ! j)" for j
    using t(3) i(1) Suc.prems by (cases "j = i") (auto simp: nth_list_update)
  ultimately show ?case
    using t(2) by blast
qed

lemma insert_list:
  assumes "length tab' = length tab" "n < length tab" "k \<le> n"
    "\<forall>j. tab' ! j = (if k < j \<and> j \<le> n then tab ! (j - 1) else tab ! j)"
  shows "take (Suc n) (tab'[k := x]) = take k (take n tab) @ x # drop k (take n tab)"
proof (rule nth_equalityI)
  show "length (take (Suc n) (tab'[k := x])) = length (take k (take n tab) @ x # drop k (take n tab))"
    using assms(1-3) by simp
next
  fix j assume "j < length (take (Suc n) (tab'[k := x]))"
  then have j: "j \<le> n"
    using assms(1,2) by simp
  consider "j < k" | "j = k" | "k < j"
    by linarith
  then show "take (Suc n) (tab'[k := x]) ! j = (take k (take n tab) @ x # drop k (take n tab)) ! j"
  proof cases
    case 3
    then have "(take k (take n tab) @ x # drop k (take n tab)) ! j = tab ! (j - 1)"
      using j assms(2,3) by (simp add: nth_append nth_Cons')
    then show ?thesis
      using 3 j assms by simp
  qed (use j assms in \<open>simp_all add: nth_append\<close>)
qed

text \<open>What the two stacks of tables have in common: an operation on one leaves the other alone.\<close>

definition same_roots :: "rts_state \<Rightarrow> rts_state \<Rightarrow> bool" where
  "same_roots s s' \<longleftrightarrow> s' = s\<lparr>GC_excl_table := GC_excl_table s', GC_excl_table_entries := GC_excl_table_entries s'\<rparr>"

lemma insert_exclusion_ok:
  assumes "excl_ok s" "GC_excl_table_entries s < length (GC_excl_table s)" "k \<le> GC_excl_table_entries s"
    "shift_loop (GC_excl_table_entries s) k (GC_excl_table s) = Inr tab"
  shows "\<exists>s'. insert_exclusion k b e (s\<lparr>GC_excl_table := tab\<rparr>) = Inr s' \<and> same_roots s s' \<and>
    excl_list s' = take k (excl_list s) @ \<lparr>e_start = b, e_end = e\<rparr> # drop k (excl_list s) \<and>
    GC_excl_table_entries s' = Suc (GC_excl_table_entries s) \<and> length (GC_excl_table s') = length (GC_excl_table s)"
proof -
  let ?n = "GC_excl_table_entries s" and ?x = "\<lparr>e_start = b, e_end = e\<rparr>"
  have tab: "length tab = length (GC_excl_table s)"
    "\<forall>j. tab ! j = (if k < j \<and> j \<le> ?n then GC_excl_table s ! (j - 1) else GC_excl_table s ! j)"
    using shift_loop_ok [OF assms(3,2)] assms(4) by auto
  have "take (Suc ?n) (tab[k := ?x]) = take k (excl_list s) @ ?x # drop k (excl_list s)"
    unfolding excl_list_def by (rule insert_list [OF tab(1) assms(2,3) tab(2)])
  then show ?thesis
    using assms(2) tab(1) by (auto simp: insert_exclusion_def excl_list_def same_roots_def)
qed

lemma excluded_iff: "a \<in> excluded xs \<longleftrightarrow> (\<exists>x\<in>set xs. in_range (e_start x) (e_end x) a)"
  by (auto simp: excluded_def)

text \<open>
  Adding an exclusion: the check for overlaps finds every overlap, and the other outcomes keep the
  table sorted and add exactly the new range. With a full table, though, moving the entries up writes
  past its end before the number of entries is compared with the maximum.
\<close>

definition overlaps :: "exclusion list \<Rightarrow> ptr_t \<Rightarrow> ptr_t \<Rightarrow> bool" where
  "overlaps xs b e \<longleftrightarrow> (\<exists>x\<in>set xs. e_start x < e \<and> b < e_end x)"

lemma next_parts:
  assumes "excl_ok s" "k < length (excl_list s)" "b < e_end (excl_list s ! k)"
    "\<forall>y\<in>set (take k (excl_list s)). e_end y \<le> b"
  obtains xs x ys where "excl_list s = xs @ x # ys" "k = length xs" "b < e_end x" "e_start x < e_end x"
    "\<forall>y\<in>set xs. e_end y \<le> b" "\<forall>y\<in>set xs. e_end y \<le> e_start x" "\<forall>y\<in>set ys. e_end x \<le> e_start y"
    "\<forall>y\<in>set ys. b < e_end y" "excl_sorted xs" "excl_sorted ys"
    "\<forall>y\<in>set xs. \<forall>z\<in>set ys. e_end y \<le> e_start z"
proof -
  define xs x ys where "xs = take k (excl_list s)" and "x = excl_list s ! k"
    and "ys = drop (Suc k) (excl_list s)"
  have eq: "excl_list s = xs @ x # ys"
    using assms(2) by (simp add: xs_def x_def ys_def id_take_nth_drop)
  then have sorted: "excl_sorted (xs @ x # ys)"
    using assms(1) by (simp add: excl_ok_def)
  have basic: "k = length xs" "b < e_end x" "\<forall>y\<in>set xs. e_end y \<le> b"
    using assms by (simp_all add: xs_def x_def)
  have "b < e_end y" if "y \<in> set ys" for y
  proof -
    have "e_end x \<le> e_start y" "e_start y < e_end y"
      using sorted that by (auto simp: excl_sorted_append) (auto simp: excl_sorted_def)
    then show ?thesis
      using basic(2) by simp
  qed
  then show thesis
    using sorted basic by (intro that [OF eq]) (simp_all add: excl_sorted_append)
qed

lemma insert_sorted:
  assumes "excl_sorted xs" "excl_sorted ys" "b < e" "\<forall>y\<in>set xs. e_end y \<le> b" "\<forall>y\<in>set ys. e \<le> e_start y"
  shows "excl_sorted (xs @ \<lparr>e_start = b, e_end = e\<rparr> # ys)"
proof -
  have "e_end y \<le> e_start z" if "y \<in> set xs" "z \<in> set ys" for y z
  proof -
    have "e_end y \<le> b" "e \<le> e_start z"
      using assms(4,5) that by simp_all
    then show ?thesis
      using assms(3) by simp
  qed
  then show ?thesis
    using assms by (simp add: excl_sorted_append)
qed

lemma GC_exclude_static_roots_inner_ok:
  assumes "excl_ok s" "b < e"
  shows "if overlaps (excl_list s) b e
    then GC_exclude_static_roots_inner b e s = Inl (Abort ''Exclusion ranges overlap'')
    else (GC_excl_table_entries s = length (GC_excl_table s) \<and>
        (\<exists>m. GC_exclude_static_roots_inner b e s = Inl m)) \<or>
      (\<exists>s'. GC_exclude_static_roots_inner b e s = Inr s' \<and> excl_ok s' \<and> same_roots s s' \<and>
      excluded (excl_list s') = excluded (excl_list s) \<union> {a. in_range b e a} \<and>
      GC_excl_table_entries s' > 0 \<and> GC_excl_table_entries s' \<le> Suc (GC_excl_table_entries s) \<and>
      length (GC_excl_table s') = length (GC_excl_table s))"
proof -
  let ?n = "GC_excl_table_entries s"
  have len: "length (excl_list s) = ?n"
    using assms(1) by (simp add: excl_list_def excl_ok_def)
  consider (last) "?n = 0 \<or> GC_next_exclusion b s = Inr None" "\<forall>y\<in>set (excl_list s). e_end y \<le> b"
    | (before) k where "?n > 0" "GC_next_exclusion b s = Inr (Some k)" "k < length (excl_list s)"
        "GC_excl_table s ! k = excl_list s ! k" "b < e_end (excl_list s ! k)"
        "\<forall>y\<in>set (take k (excl_list s)). e_end y \<le> b"
  proof (cases "?n = 0")
    case True
    then show thesis
      using last len by simp
  next
    case False
    then have "?n > 0"
      by simp
    from GC_next_exclusion_ok [OF assms(1) this, of b] show thesis
      by cases (use last before \<open>?n > 0\<close> in blast)+
  qed
  then show ?thesis
  proof cases
    case last
    have "\<not> overlaps (excl_list s) b e"
      using last(2) by (auto simp: overlaps_def not_less)
    moreover have ?thesis if "?n = length (GC_excl_table s)"
      using last(1) that calculation
      by (auto simp: GC_exclude_static_roots_inner_def insert_exclusion_def)
    moreover have ?thesis if room: "?n < length (GC_excl_table s)"
    proof -
      have "shift_loop ?n ?n (GC_excl_table s) = Inr (GC_excl_table s)"
        by (subst shift_loop.simps) simp
      from insert_exclusion_ok [OF assms(1) room order_refl this, of b e]
      obtain s' where s': "insert_exclusion ?n b e s = Inr s'" "same_roots s s'"
          "excl_list s' = excl_list s @ [\<lparr>e_start = b, e_end = e\<rparr>]" "GC_excl_table_entries s' = Suc ?n"
          "length (GC_excl_table s') = length (GC_excl_table s)"
        using len by auto
      moreover have "GC_exclude_static_roots_inner b e s = Inr s'"
        using last(1) s'(1) by (auto simp: GC_exclude_static_roots_inner_def)
      moreover have "excl_ok s'"
        using insert_sorted [of "excl_list s" "[]" b e] assms last(2) s' room
        by (simp add: excl_ok_def excl_sorted_def)
      ultimately show ?thesis
        using \<open>\<not> overlaps (excl_list s) b e\<close> by auto
    qed
    ultimately show ?thesis
      using assms(1) by (fastforce simp: excl_ok_def le_less)
  next
    case before
    obtain xs x ys where p: "excl_list s = xs @ x # ys" "k = length xs" "b < e_end x" "e_start x < e_end x"
        "\<forall>y\<in>set xs. e_end y \<le> b" "\<forall>y\<in>set xs. e_end y \<le> e_start x" "\<forall>y\<in>set ys. e_end x \<le> e_start y"
        "\<forall>y\<in>set ys. b < e_end y" "excl_sorted xs" "excl_sorted ys"
        "\<forall>y\<in>set xs. \<forall>z\<in>set ys. e_end y \<le> e_start z"
      by (rule next_parts [OF assms(1) before(3,5,6)])
    have x: "GC_excl_table s ! k = x" "k < ?n"
      using before(3,4) p(1,2) len by simp_all
    have "overlaps (excl_list s) b e \<longleftrightarrow> e_start x < e"
    proof -
      have "e_start y < e \<Longrightarrow> e_start x < e" if "y \<in> set ys" for y
        using p(4,7) that by fastforce
      then show ?thesis
        using p(1,3,5) by (fastforce simp: overlaps_def)
    qed
    note overlap = this
    consider "e_start x < e" | "e_start x = e" | "e < e_start x"
      by fastforce
    then show ?thesis
    proof cases
      case 1
      then show ?thesis
        using before(1,2) x overlap by (simp add: GC_exclude_static_roots_inner_def)
    next
      case 2
      let ?s = "s\<lparr>GC_excl_table := (GC_excl_table s)[k := x\<lparr>e_start := b\<rparr>]\<rparr>"
      have "GC_exclude_static_roots_inner b e s = Inr ?s"
        using 2 before(1,2) x by (simp add: GC_exclude_static_roots_inner_def)
      moreover have list: "excl_list ?s = xs @ x\<lparr>e_start := b\<rparr> # ys"
      proof -
        have "excl_list ?s = (excl_list s)[k := x\<lparr>e_start := b\<rparr>]"
          by (simp add: excl_list_def take_update_swap)
        then show ?thesis
          using p(1,2) by simp
      qed
      moreover have "excl_ok ?s"
      proof -
        have "excl_sorted (excl_list ?s)"
          unfolding list using p by (simp add: excl_sorted_append)
        then show ?thesis
          using assms(1) by (simp add: excl_ok_def)
      qed
      moreover have "excluded (excl_list ?s) = excluded (excl_list s) \<union> {a. in_range b e a}"
        using 2 assms(2) p(4) by (auto simp: list p(1) in_range_def)
      ultimately show ?thesis
        using 2 overlap before(1) by (auto simp: same_roots_def)
    next
      case 3
      show ?thesis
      proof (cases "?n < length (GC_excl_table s)")
      case full: False
      then have n: "?n = length (GC_excl_table s)"
        using assms(1) by (simp add: excl_ok_def)
      then have "\<exists>m. shift_loop ?n k (GC_excl_table s) = Inl m"
        using x(2) by (subst shift_loop.simps) simp
      then show ?thesis
        using 3 n overlap before(1,2) x by (auto simp: GC_exclude_static_roots_inner_def Let_def)
      next
      case room: True
      obtain tab where tab: "shift_loop ?n k (GC_excl_table s) = Inr tab"
        using shift_loop_ok [of k ?n "GC_excl_table s"] x(2) room by auto
      from insert_exclusion_ok [OF assms(1) room less_imp_le [OF x(2)] tab, of b e]
      obtain s' where s': "insert_exclusion k b e (s\<lparr>GC_excl_table := tab\<rparr>) = Inr s'" "same_roots s s'"
          "excl_list s' = xs @ \<lparr>e_start = b, e_end = e\<rparr> # x # ys" "GC_excl_table_entries s' = Suc ?n"
          "length (GC_excl_table s') = length (GC_excl_table s)"
        using p(1,2) by auto
      moreover have "GC_exclude_static_roots_inner b e s = Inr s'"
        using 3 before(1,2) x tab s'(1) by (simp add: GC_exclude_static_roots_inner_def Let_def not_less less_imp_le)
      moreover have "excl_ok s'"
      proof -
        have "excl_sorted (x # ys)"
          using p excl_sorted_append [of "[]" x ys] by (simp add: excl_sorted_def)
        moreover have "\<forall>y\<in>set (x # ys). e \<le> e_start y"
          using 3 p(4,7) by fastforce
        ultimately show ?thesis
          using insert_sorted [OF p(9) _ assms(2) p(5)] room s' by (simp add: excl_ok_def)
      qed
      ultimately show ?thesis
        using 3 overlap p(1) by auto
      qed
    qed
  qed
qed

lemma exclude_full_table:
  assumes "excl_ok s" "GC_excl_table_entries s = length (GC_excl_table s)" "x \<in> set (excl_list s)"
    "b < e_start x" "\<forall>y\<in>set (excl_list s). e_end y \<le> b \<or> e < e_start y"
  shows "GC_exclude_static_roots_inner b e s = Inl (Undefined ''write past the exclusion table'')"
proof -
  let ?n = "GC_excl_table_entries s"
  have n: "?n > 0" and len: "length (excl_list s) = ?n"
    using assms(1-3) by (auto simp: excl_list_def excl_ok_def)
  have x: "b < e_end x"
    using assms(1,3,4) by (auto simp: excl_ok_def excl_sorted_def)
  from GC_next_exclusion_ok [OF assms(1) n, of b] show ?thesis
  proof cases
    case Some: (1 k)
    then have "e < e_start (GC_excl_table s ! k)"
      using assms(5) nth_mem [OF Some(2)] by fastforce
    moreover have "shift_loop ?n k (GC_excl_table s) = Inl (Undefined ''write past the exclusion table'')"
      using Some(2) assms(2) len by (subst shift_loop.simps) simp
    ultimately show ?thesis
      using n Some(1) by (simp add: GC_exclude_static_roots_inner_def Let_def not_less less_imp_le)
  next
    case 2
    then show ?thesis
      using x assms(3) by fastforce
  qed
qed

section \<open>What is pushed\<close>

fun range_of :: "mark_call \<Rightarrow> ptr_t set" where
  "range_of (Push_conditional b e all) = {a. in_range b e a}"
| "range_of (Push_all b e) = {a. in_range b e a}"
| "range_of (Push_all_stack b e) = {a. in_range b e a}"
| "range_of (Push_all_eager b e) = {a. in_range b e a}"
| "range_of _ = {}"

definition pushed :: "mark_call list \<Rightarrow> ptr_t set" where
  "pushed cs = (\<Union>c\<in>set cs. range_of c)"

lemma pushed_simps [simp]:
  "pushed [] = {}" "pushed (c # cs) = range_of c \<union> pushed cs" "pushed (cs @ ds) = pushed cs \<union> pushed ds"
  by (auto simp: pushed_def)

text \<open>The addresses from \<open>bottom\<close> on, cut at the first exclusion that ends after it.\<close>

lemma free_before_next:
  assumes "\<forall>y\<in>set xs. e_end y \<le> bottom" "e_start x < e_end x" "\<forall>y\<in>set ys. e_end x \<le> e_start y"
    "bottom \<le> a" "a < e_start x"
  shows "a \<notin> excluded (xs @ x # ys)"
  using assms by (fastforce simp: excluded_iff in_range_def)

lemma split_at_next:
  assumes "\<forall>y\<in>set xs. e_end y \<le> bottom" "e_start x < e_end x" "\<forall>y\<in>set ys. e_end x \<le> e_start y"
    "bottom < e_end x" "e_start x < hi"
  shows "{a. in_range bottom hi a} - excluded (xs @ x # ys) =
    {a. in_range bottom (e_start x) a} \<union> ({a. in_range (e_end x) hi a} - excluded (xs @ x # ys))"
proof (rule set_eqI)
  fix a
  consider "a < e_start x" | "in_range (e_start x) (e_end x) a" | "e_end x \<le> a"
    unfolding in_range_def by fastforce
  then show "a \<in> {a. in_range bottom hi a} - excluded (xs @ x # ys) \<longleftrightarrow>
    a \<in> {a. in_range bottom (e_start x) a} \<union> ({a. in_range (e_end x) hi a} - excluded (xs @ x # ys))"
  proof cases
    case 1
    then show ?thesis
      using assms free_before_next [OF assms(1-3), of a] by (auto simp: in_range_def)
  next
    case 2
    then show ?thesis
      by (auto simp: in_range_def)
  next
    case 3
    then show ?thesis
      using assms by (auto simp: in_range_def)
  qed
qed

lemma push_conditional_ok:
  assumes "excl_ok s" "GC_excl_table_entries s > 0"
  shows "\<exists>cs. GC_push_conditional_with_exclusions s bottom hi all = Inr cs \<and>
    pushed cs = {a. in_range bottom hi a} - excluded (excl_list s)"
  using assms
proof (induction s bottom hi all rule: GC_push_conditional_with_exclusions.induct)
  case (1 s bottom hi all)
  let ?push = "GC_push_conditional_with_exclusions"
  note step = GC_push_conditional_with_exclusions.simps [of s bottom hi all]
  show ?case
  proof (cases "bottom < hi")
    case False
    then show ?thesis
      by (auto simp: step in_range_def)
  next
    case lt: True
    from GC_next_exclusion_ok [OF "1.prems", of bottom] show ?thesis
    proof cases
      case none: 2
      then have "{a. in_range bottom hi a} - excluded (excl_list s) = {a. in_range bottom hi a}"
        by (fastforce simp: excluded_iff in_range_def)
      then show ?thesis
        using lt none by (simp add: step)
    next
      case next_: (1 k)
      obtain xs x ys where p: "excl_list s = xs @ x # ys" "k = length xs" "bottom < e_end x" "e_start x < e_end x"
          "\<forall>y\<in>set xs. e_end y \<le> bottom" "\<forall>y\<in>set xs. e_end y \<le> e_start x"
          "\<forall>y\<in>set ys. e_end x \<le> e_start y" "\<forall>y\<in>set ys. bottom < e_end y" "excl_sorted xs" "excl_sorted ys"
          "\<forall>y\<in>set xs. \<forall>z\<in>set ys. e_end y \<le> e_start z"
        by (rule next_parts [OF "1.prems"(1) next_(2,4,5)])
      have x: "GC_excl_table s ! k = x"
        using next_(3) p(1,2) by simp
      show ?thesis
      proof (cases "hi \<le> e_start x")
        case True
        then have "{a. in_range bottom hi a} - excluded (excl_list s) = {a. in_range bottom hi a}"
          using free_before_next [OF p(5,4,7)] unfolding p(1) by (fastforce simp: in_range_def)
        then show ?thesis
          using lt True next_(1) x by (simp add: step Let_def)
      next
        case False
        obtain cs where cs: "?push s (e_end x) hi all = Inr cs"
            "pushed cs = {a. in_range (e_end x) hi a} - excluded (excl_list s)"
          using "1.IH" [OF lt next_(1) refl refl] False "1.prems" x by auto
        have "pushed ((if bottom < e_start x then [Push_conditional bottom (e_start x) all] else []) @ cs) =
          {a. in_range bottom hi a} - excluded (excl_list s)"
          using split_at_next [OF p(5,4,7,3), of hi] False by (auto simp: cs(2) p(1) in_range_def)
        moreover have "?push s bottom hi all =
          Inr ((if bottom < e_start x then [Push_conditional bottom (e_start x) all] else []) @ cs)"
          using lt False next_(1) x cs(1) by (simp add: step Let_def)
        ultimately show ?thesis
          by blast
      qed
    qed
  qed
qed

lemma push_static_roots_ok:
  assumes "excl_ok s" "GC_excl_table_entries s > 0"
  shows "\<exists>cs. push_static_roots s all rs = Inr cs \<and>
    pushed cs = covered (map view rs) - excluded (excl_list s)"
proof (induction rs)
  case (Cons r rs)
  moreover obtain cs where "GC_push_conditional_with_exclusions s (r_start r) (r_end r) all = Inr cs"
      "pushed cs = {a. in_range (r_start r) (r_end r) a} - excluded (excl_list s)"
    using push_conditional_ok [OF assms] by blast
  ultimately show ?case
    by (auto simp: view_def)
qed simp

text \<open>The parts of the stack between its traced sections.\<close>

fun stack_parts :: "ptr_t \<Rightarrow> ptr_t \<Rightarrow> (ptr_t \<times> ptr_t) list \<Rightarrow> ptr_t set" where
  "stack_parts lo hi [] = {a. in_range lo hi a}"
| "stack_parts lo hi ((sect, saved) # sects) = {a. in_range lo sect a} \<union> stack_parts saved hi sects"

lemma stack_sections_ok: "pushed (GC_push_all_stack_sections lo hi sects) = stack_parts lo hi sects"
  by (induction lo hi sects rule: GC_push_all_stack_sections.induct) auto

lemma partially_eager_ok:
  assumes "cold = 0 \<or> (8 \<le> cold \<and> bottom \<le> cold - 8 \<and> cold \<le> hi)"
  shows "pushed (GC_push_all_stack_partially_eager interior bottom hi cold) = {a. in_range bottom hi a}"
proof (cases "interior \<and> cold \<noteq> 0")
  case False
  then show ?thesis
    by (auto simp: GC_push_all_stack_partially_eager_def)
next
  case True
  then have c: "8 \<le> cold" "bottom \<le> cold - 8" "cold \<le> hi"
    using assms by simp_all
  have "cold - 8 \<le> cold"
    using c(1) by (simp add: word_le_nat_alt unat_sub)
  then have "in_range bottom hi a \<longleftrightarrow> in_range (cold - 8) hi a \<or> in_range bottom cold a" for a
    using c(2,3) unfolding in_range_def by fastforce
  then show ?thesis
    using True by (simp add: GC_push_all_stack_partially_eager_def Collect_disj_eq)
qed

text \<open>The frame of the collector whose address is passed lies in the innermost part of the stack.\<close>

definition cold_frame_ok :: "roots_env \<Rightarrow> ptr_t \<Rightarrow> bool" where
  "cold_frame_ok env cold \<longleftrightarrow> cold = 0 \<or> (8 \<le> cold \<and> GC_approx_sp env \<le> cold - 8 \<and>
     cold \<le> (case GC_traced_stack_sect env of [] \<Rightarrow> GC_stackbottom env | (sect, _) # _ \<Rightarrow> sect))"

lemma eager_sections_ok:
  "cold = 0 \<or> (8 \<le> cold \<and> lo \<le> cold - 8 \<and> cold \<le> (case sects of [] \<Rightarrow> hi | (sect, _) # _ \<Rightarrow> sect)) \<Longrightarrow>
    pushed (GC_push_all_stack_part_eager_sections interior lo hi cold sects) = stack_parts lo hi sects"
  by (induction interior lo hi cold sects rule: GC_push_all_stack_part_eager_sections.induct)
    (simp_all add: partially_eager_ok)

lemma push_current_stack_ok:
  "cold_frame_ok env cold \<Longrightarrow> pushed (GC_push_current_stack env cold) =
    stack_parts (GC_approx_sp env) (GC_stackbottom env) (GC_traced_stack_sect env)"
  unfolding GC_push_current_stack_def cold_frame_ok_def by (rule eager_sections_ok) simp

lemma pushed_empty: "(\<forall>c\<in>set cs. range_of c = {}) \<Longrightarrow> pushed cs = {}"
  by (simp add: pushed_def)

section \<open>The operations as steps\<close>

inductive rts_step :: "rts_state \<Rightarrow> rts_state \<Rightarrow> bool" where
  add: "GC_add_roots_inner b e tmp s = Inr s' \<Longrightarrow> rts_step s s'"
| remove: "rts_step s (GC_remove_roots b e s)"
| remove_tmp: "rts_step s (GC_remove_tmp_roots s)"
| clear: "rts_step s (GC_clear_roots s)"
| exclude: "b < e \<Longrightarrow> GC_exclude_static_roots_inner b e s = Inr s' \<Longrightarrow> rts_step s s'"
| ask: "rts_step s (snd (GC_is_static_root p s))"

definition tables_ok :: "rts_state \<Rightarrow> bool" where
  "tables_ok s \<longleftrightarrow> rts_ok s \<and> excl_ok s"

lemma excl_ok_cong:
  "GC_excl_table s' = GC_excl_table s \<Longrightarrow> GC_excl_table_entries s' = GC_excl_table_entries s \<Longrightarrow>
    excl_ok s' \<longleftrightarrow> excl_ok s"
  by (simp add: excl_ok_def excl_list_def)

lemma same_roots_ok: "same_roots s s' \<Longrightarrow> rts_ok s' \<longleftrightarrow> rts_ok s"
  unfolding same_roots_def
  by (erule ssubst) (simp add: rts_ok_def root_list_def)

lemma rts_step_frame:
  "GC_excl_table (GC_remove_tmp_roots s) = GC_excl_table s \<and>
   GC_excl_table_entries (GC_remove_tmp_roots s) = GC_excl_table_entries s \<and>
   GC_excl_table (GC_remove_roots b e s) = GC_excl_table s \<and>
   GC_excl_table_entries (GC_remove_roots b e s) = GC_excl_table_entries s" if "rts_ok s"
  using remove_and_rebuild_ok [OF that, of r_tmp "\<lambda>(b, e, t). t"]
    remove_and_rebuild_ok [OF that, of "\<lambda>r. b \<le> r_start r \<and> r_end r \<le> e"
      "\<lambda>(rb, re, t). b \<le> rb \<and> re \<le> e"]
  by (simp add: GC_remove_tmp_roots_def GC_remove_roots_def GC_remove_roots_inner_def view_def)

lemma exclude_needs_room:
  assumes "excl_ok s" "GC_exclude_static_roots_inner b e s = Inr s'" "b < e"
  shows "excl_ok s' \<and> same_roots s s'"
  using GC_exclude_static_roots_inner_ok [OF assms(1,3)] assms(2) by (auto split: if_splits)

lemma rts_step_ok: "rts_step s s' \<Longrightarrow> tables_ok s \<Longrightarrow> tables_ok s'"
proof (induction rule: rts_step.induct)
  case (add b e tmp s s')
  then show ?case
    using GC_add_roots_inner_ok [of s b e tmp] excl_ok_cong [of s' s] by (auto simp: tables_ok_def)
next
  case (remove s b e)
  then show ?case
    using rts_step_frame [of s b e] GC_remove_roots_ok [of s b e] excl_ok_cong [of "GC_remove_roots b e s" s]
    by (simp add: tables_ok_def)
next
  case (remove_tmp s)
  then show ?case
    using rts_step_frame [of s] GC_remove_tmp_roots_ok [of s] excl_ok_cong [of "GC_remove_tmp_roots s" s]
    by (simp add: tables_ok_def)
next
  case (clear s)
  then show ?case
    using excl_ok_cong [of "GC_clear_roots s" s] by (simp add: tables_ok_def GC_clear_roots_ok)
      (simp add: GC_clear_roots_def)
next
  case (exclude b e s s')
  then show ?case
    using exclude_needs_room [of s b e s'] same_roots_ok [of s s'] by (simp add: tables_ok_def)
next
  case (ask s p)
  moreover have "GC_excl_table (snd (GC_is_static_root p s)) = GC_excl_table s"
    "GC_excl_table_entries (snd (GC_is_static_root p s)) = GC_excl_table_entries s"
    by (auto simp: GC_is_static_root_def split: option.splits)
  ultimately show ?case
    using excl_ok_cong [of "snd (GC_is_static_root p s)" s] GC_is_static_root_ok [of s p] by (simp add: tables_ok_def)
qed

lemma GC_roots_present_unique:
  assumes "rts_ok s" "i < n_root_sets s"
  shows "GC_roots_present (r_start (GC_static_roots s ! i)) s = Inr (Some i)"
proof -
  let ?b = "r_start (GC_static_roots s ! i)"
  obtain r where r: "GC_roots_present ?b s = Inr r"
    using GC_roots_present_ok [OF assms(1)] by blast
  show ?thesis
  proof (cases r)
    case None
    then show ?thesis
      using GC_roots_present_None [OF assms(1) r [unfolded None] assms(2)] by simp
  next
    case (Some p)
    then have "p < n_root_sets s" "r_start (GC_static_roots s ! p) = ?b"
      using GC_roots_present_Some [OF assms(1)] r by simp_all
    then have "map fst (root_list s) ! p = map fst (root_list s) ! i"
      using assms by (simp add: length_root_list root_list_nth view_def)
    moreover have "distinct (map fst (root_list s))"
      using assms(1) by (simp add: rts_ok_def roots_ok_def)
    ultimately have "p = i"
      using \<open>p < n_root_sets s\<close> assms length_root_list [OF assms(1)]
        nth_eq_iff_index_eq [of "map fst (root_list s)" p i] by simp
    then show ?thesis
      using r Some by simp
  qed
qed

text \<open>A temporary root that is registered again as a permanent one stays temporary.\<close>

lemma tmp_root_lost:
  assumes "rts_ok s" "GC_roots_present (round_up b) s = Inr None" "round_up b < round_down e1"
    "GC_add_roots_inner b e1 True s = Inr s1" "GC_add_roots b e2 s1 = Inr s2"
  shows "mset (root_list (GC_remove_tmp_roots s2)) = mset (root_list (GC_remove_tmp_roots s))"
proof -
  let ?n = "n_root_sets s" and ?b = "round_up b" and ?e1 = "round_down e1" and ?e2 = "round_down e2"
  have room: "?n < length (GC_static_roots s)"
    using assms by (auto simp: GC_add_roots_inner_def Let_def rts_ok_def not_le split: if_splits)
  note new = add_new_root_ok [OF assms(1) room assms(3) GC_roots_present_None [OF assms(1,2)], where tmp = True]
  have s1: "rts_ok s1" "root_list s1 = root_list s @ [(?b, ?e1, True)]"
    using new assms room by (auto simp: GC_add_roots_inner_def Let_def split: if_splits)
  then have n: "?n < n_root_sets s1" and v: "view (GC_static_roots s1 ! ?n) = (?b, ?e1, True)"
    using length_root_list [OF s1(1)] length_root_list [OF assms(1)] root_list_nth [OF s1(1), of ?n]
    by (simp_all add: nth_append)
  then have "GC_roots_present ?b s1 = Inr (Some ?n)"
    using GC_roots_present_unique [OF s1(1) n] by (simp add: view_def)
  then have s2: "rts_ok s2 \<and> (root_list s2 = root_list s1 \<or>
    root_list s2 = (root_list s1)[?n := (?b, ?e2, True)])"
    using assms(5) s1(1) v extend_root_ok [OF s1(1) n, of ?e2]
    by (auto simp: GC_add_roots_def GC_add_roots_inner_def Let_def view_def not_le split: if_splits)
  then have "filter (\<lambda>(b, e, t). \<not> t) (root_list s2) = filter (\<lambda>(b, e, t). \<not> t) (root_list s)"
    using s1(2) length_root_list [OF assms(1)] by (auto simp: list_update_append)
  moreover have "mset (root_list (GC_remove_tmp_roots s')) = mset (filter (\<lambda>(b, e, t). \<not> t) (root_list s'))"
    if "rts_ok s'" for s'
    using GC_remove_tmp_roots_ok [OF that] by simp
  ultimately show ?thesis
    using s2 assms(1) by metis
qed

lemma round_up_le: "a mod 8 = 0 \<Longrightarrow> b \<le> a \<Longrightarrow> 8 * ((b + 7) div 8) \<le> a" for a b :: nat
  by presburger

lemma less_round_down: "a mod 8 = 0 \<Longrightarrow> a + 8 \<le> e \<Longrightarrow> a < 8 * (e div 8)" for a e :: nat
  by presburger

lemma aligned_covered:
  assumes "unat a mod 8 = 0" "b \<le> a" "unat a + 8 \<le> unat e"
  shows "in_range (round_up b) (round_down e) a"
proof -
  have le: "unat b \<le> unat a"
    using assms(2) by (simp add: word_le_nat_alt)
  moreover have "unat e < 2 ^ 64"
    using unsigned_less [of e] by simp
  ultimately have "unat (round_up b) = 8 * ((unat b + 7) div 8)"
    using assms by (intro unat_round_up) linarith
  then show ?thesis
    using round_up_le [OF assms(1) le] less_round_down [OF assms(1,3)]
    by (simp only: in_range_def word_le_nat_alt word_less_nat_alt unat_round_down simp_thms)
qed

lemma only_inside:
  assumes "unat b + 7 < 2 ^ 64" "in_range (round_up b) (round_down e) a"
  shows "in_range b e a"
proof -
  have "b' \<le> 8 * ((b' + 7) div 8)" "8 * (e' div 8) \<le> e'" for b' e' :: nat
    by presburger+
  then show ?thesis
    using assms(2) unfolding in_range_def word_le_nat_alt word_less_nat_alt unat_round_down
      unat_round_up [OF assms(1)] by (meson le_trans less_le_trans)
qed

definition new_tables :: "nat \<Rightarrow> nat \<Rightarrow> rts_state" where
  "new_tables n m = \<lparr>GC_static_roots = replicate n \<lparr>r_start = 0, r_end = 0, r_next = None, r_tmp = False\<rparr>,
     n_root_sets = 0, GC_root_index = replicate RT_SIZE None, GC_root_size = 0, roots_were_cleared = False,
     last_root_set = n, GC_no_dls = False, GC_excl_table = replicate m \<lparr>e_start = 0, e_end = 0\<rparr>,
     GC_excl_table_entries = 0\<rparr>"

lemma new_tables_ok: "tables_ok (new_tables n m)"
  by (simp add: tables_ok_def new_tables_def rts_ok_def excl_ok_def root_list_def excl_list_def indexed_0
    roots_ok_def excl_sorted_def)

definition one_exclusion :: rts_state where
  "one_exclusion = (new_tables 2 2)\<lparr>GC_excl_table := [\<lparr>e_start = 16, e_end = 32\<rparr>, \<lparr>e_start = 0, e_end = 0\<rparr>],
     GC_excl_table_entries := 1\<rparr>"

lemma one_exclusion_ok:
  "tables_ok one_exclusion" "root_list one_exclusion = []" "n_root_sets one_exclusion = 0"
  "length (GC_static_roots one_exclusion) = 2" "excl_list one_exclusion = [\<lparr>e_start = 16, e_end = 32\<rparr>]"
  "GC_excl_table_entries one_exclusion = 1" "length (GC_excl_table one_exclusion) = 2"
  by (simp_all add: one_exclusion_def tables_ok_def new_tables_def rts_ok_def excl_ok_def root_list_def
    excl_list_def indexed_0 roots_ok_def excl_sorted_def)

text \<open>
  In the variant for Windows the root that replaces a merged one is not looked at: here the third of
  three roots moves into the place of the second and stays although it overlaps the merged range, and
  its size is counted twice.
\<close>

lemma win32_overlap_remains:
  fixes root :: "ptr_t \<Rightarrow> ptr_t \<Rightarrow> roots"
  defines "root \<equiv> \<lambda>b e. \<lparr>r_start = b, r_end = e, r_next = None, r_tmp = False\<rparr>"
  shows "\<exists>s. GC_add_roots_inner_win32 8 40 False ((new_tables 3 1)\<lparr>
      GC_static_roots := [root 0 8, root 16 24, root 32 48], n_root_sets := 3, GC_root_size := 32\<rparr>) = Inr s \<and>
    root_list s = [(0, 40, False), (32, 48, False)] \<and> GC_root_size s = 56"
proof -
  let ?s = "(new_tables 3 1)\<lparr>GC_static_roots := [root 0 8, root 16 24, root 32 48],
    n_root_sets := 3, GC_root_size := 32\<rparr>"
  have r: "round_up 8 = 8" "round_down 40 = 40"
    by (simp_all add: round_up_def round_down_def)
  have "GC_add_roots_inner_win32 8 40 False ?s = Inr (merge_loop 0 1 (extend_root 8 40 False 0 ?s))"
    by (simp add: GC_add_roots_inner_win32_def r touches_def root_def upt_rec)
  then show ?thesis
    by (simp add: merge_loop.simps Let_def touches_def extend_root_def delete_merged_def root_def
      root_list_def view_def)
qed

section \<open>Properties\<close>

text \<open>C31: registering a range of roots. With room in the table \<open>GC_add_roots\<close> returns, and afterwards
  \<open>GC_is_static_root\<close> answers yes exactly for the addresses it answered yes for before and those of the
  range rounded inward to word boundaries: every aligned word of the given range is included, and,
  unless the rounding wraps around, nothing outside of it. The invariant of the tables is kept.\<close>

theorem add_roots_correct:
  assumes "tables_ok s" "n_root_sets s < length (GC_static_roots s)"
  shows "\<exists>s'. GC_add_roots b e s = Inr s' \<and> tables_ok s' \<and>
    (\<forall>a. fst (GC_is_static_root a s') \<longleftrightarrow>
      fst (GC_is_static_root a s) \<or> in_range (round_up b) (round_down e) a) \<and>
    (\<forall>a. unat a mod 8 = 0 \<and> b \<le> a \<and> unat a + 8 \<le> unat e \<longrightarrow> fst (GC_is_static_root a s')) \<and>
    (unat b + 7 < 2 ^ 64 \<longrightarrow> (\<forall>a. in_range (round_up b) (round_down e) a \<longrightarrow> in_range b e a))"
proof -
  have ok: "rts_ok s" "excl_ok s"
    using assms(1) by (simp_all add: tables_ok_def)
  obtain s' where s': "GC_add_roots b e s = Inr s'" "rts_ok s'"
      "covered (root_list s') = covered (root_list s) \<union> {a. in_range (round_up b) (round_down e) a}"
      "GC_excl_table s' = GC_excl_table s" "GC_excl_table_entries s' = GC_excl_table_entries s"
    using GC_add_roots_inner_ok [OF ok(1), of b e False] assms(2) by (auto simp: GC_add_roots_def)
  then have "tables_ok s'"
    using ok(2) excl_ok_cong [of s' s] by (simp add: tables_ok_def)
  then show ?thesis
    using s' GC_is_static_root_ok(1) [OF ok(1)] GC_is_static_root_ok(1) [OF s'(2)] aligned_covered only_inside
    by auto
qed

theorem add_roots_correct_witness:
  "\<exists>s'. GC_add_roots 4 40 one_exclusion = Inr s' \<and> fst (GC_is_static_root 32 s')"
proof -
  have room: "n_root_sets one_exclusion < length (GC_static_roots one_exclusion)"
    by (simp add: one_exclusion_ok)
  have "unat (32 :: ptr_t) mod 8 = 0 \<and> (4 :: ptr_t) \<le> 32 \<and> unat (32 :: ptr_t) + 8 \<le> unat (40 :: ptr_t)"
    by simp
  note word = this
  obtain s' where s': "GC_add_roots 4 40 one_exclusion = Inr s'"
      "\<forall>a. unat a mod 8 = 0 \<and> 4 \<le> a \<and> unat a + 8 \<le> unat (40 :: ptr_t) \<longrightarrow> fst (GC_is_static_root a s')"
    using add_roots_correct [OF one_exclusion_ok(1) room, of 4 40] by (elim exE conjE) (rule that)
  have "fst (GC_is_static_root 32 s')"
    by (rule s'(2) [rule_format]) (rule word)
  then show ?thesis
    using s'(1) by blast
qed

text \<open>C30: the tables of roots and exclusions keep their invariant under every sequence of additions,
  removals, removals of the temporary roots, clearing, exclusions and queries: the hash index lists
  exactly the roots in use, starts are distinct, no root is empty, the exclusions are sorted and
  disjoint, and \<open>GC_root_size\<close> is what \<open>GC_compute_root_size\<close> computes.\<close>

theorem root_tables_invariant:
  assumes "rts_step\<^sup>*\<^sup>* (new_tables n m) s"
  shows "tables_ok s \<and> GC_compute_root_size s = GC_root_size s"
  using assms
proof (induction rule: rtranclp_induct)
  case base
  show ?case
    using compute_root_size_ok [of "new_tables n m"] new_tables_ok [of n m] by (simp add: tables_ok_def)
next
  case (step s s')
  then have "tables_ok s'"
    using rts_step_ok by blast
  then show ?case
    using compute_root_size_ok by (simp add: tables_ok_def)
qed

theorem root_tables_invariant_witness:
  "\<exists>s. GC_add_roots 8 64 (new_tables 3 3) = Inr s \<and> tables_ok (GC_remove_roots 0 40 s) \<and>
    GC_compute_root_size (GC_remove_roots 0 40 s) = GC_root_size (GC_remove_roots 0 40 s)"
proof -
  have "rts_ok (new_tables 3 3)"
    using new_tables_ok by (simp add: tables_ok_def)
  then obtain s where s: "GC_add_roots_inner 8 64 False (new_tables 3 3) = Inr s"
    using GC_add_roots_inner_ok [of "new_tables 3 3" 8 64 False] by (auto simp: new_tables_def)
  then have "rts_step\<^sup>*\<^sup>* (new_tables 3 3) (GC_remove_roots 0 40 s)"
    by (meson add remove rtranclp.rtrancl_into_rtrancl rtranclp.rtrancl_refl)
  from root_tables_invariant [OF this] show ?thesis
    using s by (simp add: GC_add_roots_def)
qed

text \<open>C29: what the collector scans. With at least one exclusion registered, \<open>GC_push_roots\<close> returns a
  list of calls of the marker whose ranges together are the registered roots without the excluded
  addresses, and the whole stack between the stack pointer and its cold end except for the frames
  between the traced sections; the header of every free list that lies in the heap is marked, and the
  collector's own structures are pushed when roots were cleared or libraries are not registered.\<close>

theorem push_roots_correct:
  assumes "tables_ok s" "GC_excl_table_entries s > 0" "cold_frame_ok env cold"
  shows "\<exists>cs. GC_push_roots env all cold s = Inr cs \<and>
    pushed cs = (covered (root_list s) - excluded (excl_list s)) \<union>
      stack_parts (GC_approx_sp env) (GC_stackbottom env) (GC_traced_stack_sect env) \<and>
    (\<forall>base\<in>set (freelist_bases env). base \<noteq> 0 \<longrightarrow> Set_mark_bit base \<in> set cs) \<and>
    (GC_no_dls s \<or> roots_were_cleared s \<longrightarrow> Push_finalizer_structures \<in> set cs)"
proof -
  obtain cs where cs: "push_static_roots s all (take (n_root_sets s) (GC_static_roots s)) = Inr cs"
      "pushed cs = covered (root_list s) - excluded (excl_list s)"
    using push_static_roots_ok [OF _ assms(2)] assms(1) by (fastforce simp: tables_ok_def root_list_def)
  have "pushed (map Set_mark_bit xs) = {}" "pushed (GC_push_gc_structures env) = {}" for xs
    by (auto intro!: pushed_empty simp: GC_push_gc_structures_def)
  then show ?thesis
    using cs push_current_stack_ok [OF assms(3)]
    by (auto simp: GC_push_roots_def GC_push_regs_and_stack_def GC_push_gc_structures_def)
qed

theorem push_roots_correct_witness:
  "\<exists>s cs. GC_add_roots 0 64 one_exclusion = Inr s \<and>
    GC_push_roots \<lparr>GC_approx_sp = 1000, GC_stackbottom = 2000, GC_traced_stack_sect = [(1200, 1300)],
      GC_all_interior_pointers = True, freelist_bases = [512], has_typed_structures = False,
      has_other_roots = False\<rparr> True 1100 s = Inr cs \<and>
    8 \<in> pushed cs \<and> 24 \<notin> pushed cs \<and> 1250 \<notin> pushed cs \<and> 1500 \<in> pushed cs \<and> Set_mark_bit 512 \<in> set cs"
proof -
  let ?env = "\<lparr>GC_approx_sp = 1000, GC_stackbottom = 2000, GC_traced_stack_sect = [(1200, 1300)],
      GC_all_interior_pointers = True, freelist_bases = [512], has_typed_structures = False,
      has_other_roots = False\<rparr>"
  have "rts_ok one_exclusion"
    using one_exclusion_ok by (simp add: tables_ok_def)
  then obtain s where s: "GC_add_roots 0 64 one_exclusion = Inr s" "rts_ok s"
      "covered (root_list s) = {a. in_range (round_up 0) (round_down 64) a}"
      "GC_excl_table s = GC_excl_table one_exclusion" "GC_excl_table_entries s = 1"
    using GC_add_roots_inner_ok [of one_exclusion 0 64 False] one_exclusion_ok
    by (auto simp: GC_add_roots_def)
  have excl: "excl_list s = [\<lparr>e_start = 16, e_end = 32\<rparr>]"
    using s(4,5) one_exclusion_ok(5,6) by (simp add: excl_list_def)
  have "round_up 0 = 0" "round_down 64 = 64"
    by (simp_all add: round_up_def round_down_def)
  moreover have "tables_ok s" "GC_excl_table_entries s > 0"
    using s one_exclusion_ok excl_ok_cong [of s one_exclusion] by (simp_all add: tables_ok_def)
  moreover have "cold_frame_ok ?env 1100"
    by (simp add: cold_frame_ok_def)
  ultimately show ?thesis
    using push_roots_correct [of s ?env 1100 True] s(1,3) by (force simp: excl in_range_def)
qed

text \<open>C32: registering an exclusion. The check that the code calls incomplete finds every overlap with a
  registered exclusion and aborts; without an overlap and with room in the table the excluded addresses
  grow by exactly the new range and the table stays sorted. With a full table, a range below some
  exclusion that cannot be merged makes the code write past the end of the table: it moves the entries
  up before it compares their number with the maximum.\<close>

theorem exclusions_correct:
  assumes "tables_ok s" "b < e"
  shows "(overlaps (excl_list s) b e \<longrightarrow>
      GC_exclude_static_roots_inner b e s = Inl (Abort ''Exclusion ranges overlap'')) \<and>
    (\<not> overlaps (excl_list s) b e \<and> GC_excl_table_entries s < length (GC_excl_table s) \<longrightarrow>
      (\<exists>s'. GC_exclude_static_roots_inner b e s = Inr s' \<and> tables_ok s' \<and>
        excluded (excl_list s') = excluded (excl_list s) \<union> {a. in_range b e a})) \<and>
    (\<not> overlaps (excl_list s) b e \<and> GC_excl_table_entries s = length (GC_excl_table s) \<and>
      (\<exists>x\<in>set (excl_list s). b < e_start x) \<and> (\<forall>x\<in>set (excl_list s). e_start x \<noteq> e) \<longrightarrow>
      GC_exclude_static_roots_inner b e s = Inl (Undefined ''write past the exclusion table''))"
proof (intro conjI impI)
  have ok: "rts_ok s" "excl_ok s"
    using assms(1) by (simp_all add: tables_ok_def)
  note inner = GC_exclude_static_roots_inner_ok [OF ok(2) assms(2)]
  show "GC_exclude_static_roots_inner b e s = Inl (Abort ''Exclusion ranges overlap'')"
    if "overlaps (excl_list s) b e"
    using inner that by simp
  show "\<exists>s'. GC_exclude_static_roots_inner b e s = Inr s' \<and> tables_ok s' \<and>
      excluded (excl_list s') = excluded (excl_list s) \<union> {a. in_range b e a}"
    if "\<not> overlaps (excl_list s) b e \<and> GC_excl_table_entries s < length (GC_excl_table s)"
    using inner that ok(1) same_roots_ok [of s] by (auto simp: tables_ok_def)
  show "GC_exclude_static_roots_inner b e s = Inl (Undefined ''write past the exclusion table'')"
    if full: "\<not> overlaps (excl_list s) b e \<and> GC_excl_table_entries s = length (GC_excl_table s) \<and>
      (\<exists>x\<in>set (excl_list s). b < e_start x) \<and> (\<forall>x\<in>set (excl_list s). e_start x \<noteq> e)"
  proof -
    obtain x where "x \<in> set (excl_list s)" "b < e_start x"
      using full by blast
    moreover have "\<forall>y\<in>set (excl_list s). e_end y \<le> b \<or> e < e_start y"
      using full by (fastforce simp: overlaps_def)
    ultimately show ?thesis
      using exclude_full_table [OF ok(2)] full by blast
  qed
qed

theorem exclusions_correct_witness:
  "GC_exclude_static_roots_inner 8 24 one_exclusion = Inl (Abort ''Exclusion ranges overlap'') \<and>
    (\<exists>s'. GC_exclude_static_roots_inner 48 64 one_exclusion = Inr s' \<and> tables_ok s')"
proof -
  have "overlaps (excl_list one_exclusion) 8 24" "\<not> overlaps (excl_list one_exclusion) 48 64"
    by (simp_all add: one_exclusion_ok overlaps_def)
  then show ?thesis
    using exclusions_correct [OF one_exclusion_ok(1), of 8 24] exclusions_correct [OF one_exclusion_ok(1), of 48 64]
    by (auto simp: one_exclusion_ok)
qed

end
