(* ===== verification/GcHeaders.thy ===== *)
theory GcHeaders
  imports Prelude "HOL-Library.Word"
begin

text \<open>
  Block headers of the collector (\<open>gc-7.4.2/headers.c\<close>, \<open>include/private/gc_hdrs.h\<close>): the scratch
  allocator that headers come from, the two-level tree that maps addresses to headers, the forwarding
  counts of large objects, and the searches over all blocks.

  Addresses and sizes are natural numbers; the blocks of a process lie far below \<open>2 ^ 64\<close>. An entry of a
  bottom index is a header or a small number, as in the code: 0 is no header and another number counts
  blocks back towards the start of the object. A header is identified with the entry that points to it, so
  its contents are stored there. A bottom index is named by its key. The results of the coming calls of
  \<open>GET_MEM\<close> are part of the state. The configuration is 64-bit (hashed top level) with \<open>USE_MUNMAP\<close>,
  and so memory for the tree is requested in whole pages.
\<close>

unbundle bit_operations_syntax

section \<open>Headers\<close>

definition LOG_HBLKSIZE :: nat where "LOG_HBLKSIZE = 12"
definition HBLKSIZE :: nat where "HBLKSIZE = 4096"
definition LOG_BOTTOM_SZ :: nat where "LOG_BOTTOM_SZ = 10"
definition BOTTOM_SZ :: nat where "BOTTOM_SZ = 1024"
definition TOP_SZ :: nat where "TOP_SZ = 2048"
definition MAX_JUMP :: nat where "MAX_JUMP = HBLKSIZE - 1"

record hdr =
  hb_next :: nat
  hb_prev :: nat
  hb_block :: nat
  hb_obj_kind :: nat
  hb_flags :: "8 word"
  hb_last_reclaimed :: "16 word"
  hb_sz :: nat
  hb_descr :: nat
  hb_large_block :: bool
  hb_map :: "nat option"
  hb_n_marks :: nat
  hb_marks :: "64 word list"

definition IGNORE_OFF_PAGE :: "8 word" where "IGNORE_OFF_PAGE = 1"
definition WAS_UNMAPPED :: "8 word" where "WAS_UNMAPPED = 2"
definition FREE_BLK :: "8 word" where "FREE_BLK = 4"

definition HBLK_IS_FREE :: "hdr \<Rightarrow> bool" where
  "HBLK_IS_FREE hhdr \<longleftrightarrow> hb_flags hhdr AND FREE_BLK \<noteq> 0"

definition OBJ_SZ_TO_BLOCKS :: "nat \<Rightarrow> nat" where
  "OBJ_SZ_TO_BLOCKS sz = (sz + HBLKSIZE - 1) div HBLKSIZE"

datatype hdr_entry = Count nat | Hdr hdr

fun IS_FORWARDING_ADDR_OR_NIL :: "hdr_entry \<Rightarrow> bool" where
  "IS_FORWARDING_ADDR_OR_NIL (Count n) = True"
| "IS_FORWARDING_ADDR_OR_NIL (Hdr hhdr) = False"

record hdr_state =
  GC_top_index :: "nat \<Rightarrow> nat list"
  bottom_index :: "nat \<Rightarrow> nat \<Rightarrow> hdr_entry"
  GC_all_bottom_indices :: "nat list"
  hdr_free_list :: "hdr list"
  fresh_hdr :: hdr
  scratch_free_ptr :: nat
  GC_scratch_end_ptr :: nat
  GC_scratch_last_end_ptr :: nat
  get_mem :: "nat list"
  our_memory :: "(nat \<times> nat) list"
  GC_page_size :: nat
  GC_gc_no :: nat

section \<open>Scratch memory\<close>

definition MINHINCR :: nat where "MINHINCR = 16"
definition SIZEOF_HDR :: nat where "SIZEOF_HDR = 112"
definition SIZEOF_BOTTOM_INDEX :: nat where "SIZEOF_BOTTOM_INDEX = 8224"

text \<open>\<open>GET_MEM\<close> together with the \<open>GC_add_to_our_memory\<close> that follows every call.\<close>

definition GET_MEM :: "nat \<Rightarrow> hdr_state \<Rightarrow> nat \<times> hdr_state" where
  "GET_MEM bytes st =
     (let result = (case get_mem st of [] \<Rightarrow> 0 | a # _ \<Rightarrow> a) in
      (result, st\<lparr>get_mem := tl (get_mem st),
         our_memory := (if result = 0 then our_memory st else our_memory st @ [(result, bytes)])\<rparr>))"

lemma GET_MEM_shorter:
  "GET_MEM bytes st = (r, st') \<Longrightarrow> r \<noteq> 0 \<Longrightarrow> length (get_mem st') < length (get_mem st)"
  by (auto simp: GET_MEM_def Let_def split: list.splits)

definition round_granules :: "nat \<Rightarrow> nat" where
  "round_granules bytes = 16 * ((bytes + 15) div 16)"

text \<open>The page size is a power of two.\<close>

definition ROUNDUP_PAGESIZE :: "hdr_state \<Rightarrow> nat \<Rightarrow> nat" where
  "ROUNDUP_PAGESIZE st bytes = GC_page_size st * ((bytes + GC_page_size st - 1) div GC_page_size st)"

function GC_scratch_alloc :: "nat \<Rightarrow> hdr_state \<Rightarrow> nat \<times> hdr_state" where
  "GC_scratch_alloc bytes0 st =
     (let result = scratch_free_ptr st; bytes = round_granules bytes0 in
      if result + bytes \<le> GC_scratch_end_ptr st then
        (result, st\<lparr>scratch_free_ptr := result + bytes\<rparr>)
      else if MINHINCR * HBLKSIZE \<le> bytes then
        (case GET_MEM (ROUNDUP_PAGESIZE st bytes) st of (r, st1) \<Rightarrow>
           (r, if r \<noteq> 0 then st1\<lparr>GC_scratch_last_end_ptr := r + bytes\<rparr> else st1))
      else
        (case GET_MEM (ROUNDUP_PAGESIZE st (MINHINCR * HBLKSIZE)) st of (r, st1) \<Rightarrow>
           if r = 0 then GET_MEM (ROUNDUP_PAGESIZE st1 bytes) st1
           else
             let e = r + ROUNDUP_PAGESIZE st (MINHINCR * HBLKSIZE) in
             GC_scratch_alloc bytes
               (st1\<lparr>scratch_free_ptr := r, GC_scratch_end_ptr := e, GC_scratch_last_end_ptr := e\<rparr>)))"
  by pat_completeness auto

termination
  by (relation "measure (\<lambda>(bytes, st). length (get_mem st))") (auto dest!: GET_MEM_shorter [OF sym])

declare GC_scratch_alloc.simps [simp del]

text \<open>A new header has the contents of the memory it is in.\<close>

definition alloc_hdr :: "hdr_state \<Rightarrow> hdr option \<times> hdr_state" where
  "alloc_hdr st =
     (case hdr_free_list st of
        [] \<Rightarrow> (case GC_scratch_alloc SIZEOF_HDR st of (r, st1) \<Rightarrow>
                 (if r = 0 then None else Some (fresh_hdr st), st1))
      | hhdr # hs \<Rightarrow> (Some hhdr, st\<lparr>hdr_free_list := hs\<rparr>))"

definition free_hdr :: "hdr \<Rightarrow> hdr_state \<Rightarrow> hdr_state" where
  "free_hdr hhdr st = st\<lparr>hdr_free_list := hhdr # hdr_free_list st\<rparr>"

section \<open>The tree\<close>

definition TL_HASH :: "nat \<Rightarrow> nat" where
  "TL_HASH hi = hi mod TOP_SZ"

definition high_bits :: "nat \<Rightarrow> nat" where
  "high_bits p = p div 2 ^ (LOG_BOTTOM_SZ + LOG_HBLKSIZE)"

definition slot :: "nat \<Rightarrow> nat" where
  "slot p = p div 2 ^ LOG_HBLKSIZE mod BOTTOM_SZ"

text \<open>\<open>None\<close> is \<open>GC_all_nils\<close>, the bottom index without headers that ends every hash chain.\<close>

definition GET_BI :: "nat \<Rightarrow> hdr_state \<Rightarrow> nat option" where
  "GET_BI p st = (let hi = high_bits p in find (\<lambda>k. k = hi) (GC_top_index st (TL_HASH hi)))"

definition HDR :: "nat \<Rightarrow> hdr_state \<Rightarrow> hdr_entry" where
  "HDR p st = (case GET_BI p st of None \<Rightarrow> Count 0 | Some bi \<Rightarrow> bottom_index st bi (slot p))"

definition SET_HDR :: "nat \<Rightarrow> hdr_entry \<Rightarrow> hdr_state \<Rightarrow> stop + hdr_state" where
  "SET_HDR p e st =
     (case GET_BI p st of
        None \<Rightarrow> Inl (Undefined ''write to GC_all_nils'')
      | Some bi \<Rightarrow> Inr (st\<lparr>bottom_index := (bottom_index st)
          (bi := (bottom_index st bi)(slot p := e))\<rparr>))"

definition GC_init_headers :: "hdr_state \<Rightarrow> stop + hdr_state" where
  "GC_init_headers st =
     (case GC_scratch_alloc SIZEOF_BOTTOM_INDEX st of (r, st1) \<Rightarrow>
        if r = 0 then Inl (Exit 1 ''Insufficient memory for GC_all_nils'')
        else Inr (st1\<lparr>GC_top_index := (\<lambda>i. [])\<rparr>))"

text \<open>The list of the bottom indices in ascending order; \<open>desc_link\<close> is the same list backwards.\<close>

fun insert_index :: "nat \<Rightarrow> nat list \<Rightarrow> nat list" where
  "insert_index hi [] = [hi]"
| "insert_index hi (p # ps) = (if p < hi then p # insert_index hi ps else hi # p # ps)"

definition get_index :: "nat \<Rightarrow> hdr_state \<Rightarrow> bool \<times> hdr_state" where
  "get_index addr st =
     (let hi = high_bits addr; i = TL_HASH hi in
      if hi \<in> set (GC_top_index st i) then (True, st)
      else case GC_scratch_alloc SIZEOF_BOTTOM_INDEX st of (r, st1) \<Rightarrow>
        if r = 0 then (False, st1)
        else (True, st1\<lparr>GC_top_index := (GC_top_index st1)(i := hi # GC_top_index st1 i),
               bottom_index := (bottom_index st1)(hi := (\<lambda>j. Count 0)),
               GC_all_bottom_indices := insert_index hi (GC_all_bottom_indices st1)\<rparr>))"

definition GC_install_header :: "nat \<Rightarrow> hdr_state \<Rightarrow> stop + hdr option \<times> hdr_state" where
  "GC_install_header h st =
     (case get_index h st of (ok, st1) \<Rightarrow>
        if \<not> ok then Inr (None, st1)
        else case alloc_hdr st1 of
            (None, st2) \<Rightarrow> Inr (None, st2)
          | (Some hhdr, st2) \<Rightarrow>
              let hhdr = hhdr\<lparr>hb_last_reclaimed := word_of_nat (GC_gc_no st2)\<rparr> in
              sbind (SET_HDR h (Hdr hhdr) st2) (\<lambda>st3. Inr (Some hhdr, st3)))"

text \<open>The first loop of \<open>GC_install_counts\<close>: a bottom index for every part of the object.\<close>

function index_loop :: "nat \<Rightarrow> nat \<Rightarrow> hdr_state \<Rightarrow> bool \<times> hdr_state" where
  "index_loop hbp e st =
     (if hbp < e then
        case get_index hbp st of (ok, st1) \<Rightarrow>
          if \<not> ok then (False, st1) else index_loop (hbp + BOTTOM_SZ * HBLKSIZE) e st1
      else (True, st))"
  by pat_completeness auto

termination
  by (relation "measure (\<lambda>(hbp, e, st). e - hbp)") (auto simp: BOTTOM_SZ_def HBLKSIZE_def)

declare index_loop.simps [simp del]

text \<open>The loops over the blocks after the first one, with what is stored for the block \<open>i\<close> after \<open>h\<close>.\<close>

function set_loop :: "(nat \<Rightarrow> hdr_entry) \<Rightarrow> nat \<Rightarrow> nat \<Rightarrow> nat \<Rightarrow> hdr_state \<Rightarrow> stop + hdr_state" where
  "set_loop f h hbp e st =
     (if hbp < e then
        sbind (SET_HDR hbp (f ((hbp - h) div HBLKSIZE)) st) (\<lambda>st1. set_loop f h (hbp + HBLKSIZE) e st1)
      else Inr st)"
  by pat_completeness auto

termination
  by (relation "measure (\<lambda>(f, h, hbp, e, st). e - hbp)") (auto simp: HBLKSIZE_def)

declare set_loop.simps [simp del]

definition GC_install_counts :: "nat \<Rightarrow> nat \<Rightarrow> hdr_state \<Rightarrow> stop + bool \<times> hdr_state" where
  "GC_install_counts h sz st =
     (case index_loop h (h + sz) st of (ok, st1) \<Rightarrow>
        if \<not> ok then Inr (False, st1)
        else case get_index (h + sz - 1) st1 of (ok, st2) \<Rightarrow>
          if \<not> ok then Inr (False, st2)
          else sbind (set_loop (\<lambda>i. Count (if i > MAX_JUMP then MAX_JUMP else i)) h (h + HBLKSIZE) (h + sz) st2)
            (\<lambda>st3. Inr (True, st3)))"

definition GC_remove_header :: "nat \<Rightarrow> hdr_state \<Rightarrow> stop + hdr_state" where
  "GC_remove_header h st =
     (case HDR h st of
        Count n \<Rightarrow> Inl (Undefined ''free_hdr of no header'')
      | Hdr hhdr \<Rightarrow> SET_HDR h (Count 0) (free_hdr hhdr st))"

definition GC_remove_counts :: "nat \<Rightarrow> nat \<Rightarrow> hdr_state \<Rightarrow> stop + hdr_state" where
  "GC_remove_counts h sz st = set_loop (\<lambda>i. Count 0) h (h + HBLKSIZE) (h + sz) st"

section \<open>Searches\<close>

definition block_address :: "nat \<Rightarrow> nat \<Rightarrow> nat" where
  "block_address bi j = (bi * BOTTOM_SZ + j) * HBLKSIZE"

text \<open>
  \<open>GC_apply_to_all_blocks\<close>: the blocks that the function is called for, in order. The loop index is
  kept one higher than in the code.
\<close>

function apply_slots :: "nat \<Rightarrow> (nat \<Rightarrow> hdr_entry) \<Rightarrow> nat \<Rightarrow> (nat \<times> hdr) list" where
  "apply_slots bi index j1 =
     (if j1 = 0 then []
      else case index (j1 - 1) of
          Hdr hhdr \<Rightarrow> (if \<not> HBLK_IS_FREE hhdr then [(block_address bi (j1 - 1), hhdr)] else []) @
            apply_slots bi index (j1 - 1)
        | Count n \<Rightarrow> if n = 0 then apply_slots bi index (j1 - 1) else apply_slots bi index (j1 - n))"
  by pat_completeness auto

termination
  by (relation "measure (\<lambda>(bi, index, j1). j1)") auto

declare apply_slots.simps [simp del]

definition GC_apply_to_all_blocks :: "hdr_state \<Rightarrow> (nat \<times> hdr) list" where
  "GC_apply_to_all_blocks st =
     concat (map (\<lambda>bi. apply_slots bi (bottom_index st bi) BOTTOM_SZ) (GC_all_bottom_indices st))"

text \<open>The loop over the slots of a bottom index upwards, at most \<open>n\<close> steps.\<close>

fun next_slots :: "nat \<Rightarrow> (nat \<Rightarrow> hdr_entry) \<Rightarrow> nat \<Rightarrow> stop + nat option" where
  "next_slots 0 index j = Inl No_Fuel"
| "next_slots (Suc n) index j =
     (if j < BOTTOM_SZ then
        case index j of
          Count _ \<Rightarrow> next_slots n index (j + 1)
        | Hdr hhdr \<Rightarrow>
            if \<not> HBLK_IS_FREE hhdr then Inr (Some j)
            else next_slots n index (j + hb_sz hhdr div HBLKSIZE)
      else Inr None)"

fun next_indices :: "hdr_state \<Rightarrow> nat list \<Rightarrow> nat \<Rightarrow> stop + nat" where
  "next_indices st [] j = Inr 0"
| "next_indices st (bi # bis) j =
     sbind (next_slots (BOTTOM_SZ + 1) (bottom_index st bi) j) (\<lambda>r.
       case r of
         Some j' \<Rightarrow> Inr (block_address bi j')
       | None \<Rightarrow> next_indices st bis 0)"

definition GC_next_used_block :: "nat \<Rightarrow> hdr_state \<Rightarrow> stop + nat" where
  "GC_next_used_block h st =
     (case GET_BI h st of
        None \<Rightarrow> next_indices st (dropWhile (\<lambda>k. k < high_bits h) (GC_all_bottom_indices st)) 0
      | Some bi \<Rightarrow> next_indices st (dropWhile (\<lambda>k. k \<noteq> bi) (GC_all_bottom_indices st)) (slot h))"

text \<open>The loop downwards; again the index is one higher than in the code.\<close>

function prev_slots :: "(nat \<Rightarrow> hdr_entry) \<Rightarrow> nat \<Rightarrow> nat option" where
  "prev_slots index j1 =
     (if j1 = 0 then None
      else case index (j1 - 1) of
          Hdr hhdr \<Rightarrow> Some (j1 - 1)
        | Count n \<Rightarrow> if n = 0 then prev_slots index (j1 - 1) else prev_slots index (j1 - n))"
  by pat_completeness auto

termination
  by (relation "measure (\<lambda>(index, j1). j1)") auto

declare prev_slots.simps [simp del]

fun prev_indices :: "hdr_state \<Rightarrow> nat list \<Rightarrow> nat \<Rightarrow> nat" where
  "prev_indices st [] j1 = 0"
| "prev_indices st (bi # bis) j1 =
     (case prev_slots (bottom_index st bi) j1 of
        Some j \<Rightarrow> block_address bi j
      | None \<Rightarrow> prev_indices st bis BOTTOM_SZ)"

definition GC_prev_block :: "nat \<Rightarrow> hdr_state \<Rightarrow> nat" where
  "GC_prev_block h st =
     (case GET_BI h st of
        None \<Rightarrow> prev_indices st (dropWhile (\<lambda>k. k > high_bits h) (rev (GC_all_bottom_indices st))) BOTTOM_SZ
      | Some bi \<Rightarrow> prev_indices st (dropWhile (\<lambda>k. k \<noteq> bi) (rev (GC_all_bottom_indices st))) (slot h + 1))"

text \<open>
  Following forwarding counts to the start of an object. The result of a cache miss: the address of the
  block whose header is returned, whether the pointer is added to the black list, and the new entry of
  the cache.
\<close>

fun forward_loop :: "nat \<Rightarrow> nat \<Rightarrow> hdr_state \<Rightarrow> stop + nat \<times> hdr" where
  "forward_loop 0 current st = Inl No_Fuel"
| "forward_loop (Suc n) current st =
     (case HDR current st of
        Hdr hhdr \<Rightarrow> Inr (current, hhdr)
      | Count k \<Rightarrow> forward_loop n (current - HBLKSIZE * k) st)"

record miss_result =
  miss_header :: "(nat \<times> hdr) option"
  black_listed :: bool
  new_cache :: "(nat \<times> hdr) option"

definition no_header :: "bool \<Rightarrow> miss_result" where
  "no_header black = \<lparr>miss_header = None, black_listed = black, new_cache = None\<rparr>"

definition GC_header_cache_miss :: "bool \<Rightarrow> nat \<Rightarrow> hdr_state \<Rightarrow> stop + miss_result" where
  "GC_header_cache_miss interior p st =
     (case HDR p st of
        Count n \<Rightarrow>
          if interior then
            if n \<noteq> 0 then
              let current = HBLKSIZE * (p div HBLKSIZE) in
              sbind (forward_loop (current div HBLKSIZE + 1) (current - HBLKSIZE * n) st) (\<lambda>(current, hhdr).
                if hb_flags hhdr AND IGNORE_OFF_PAGE \<noteq> 0 then Inr (no_header False)
                else if HBLK_IS_FREE hhdr \<or> hb_sz hhdr \<le> p - current then Inr (no_header True)
                else Inr \<lparr>miss_header = Some (current, hhdr), black_listed = False, new_cache = None\<rparr>)
            else Inr (no_header True)
          else Inr (no_header (n = 0))
      | Hdr hhdr \<Rightarrow>
          if HBLK_IS_FREE hhdr then Inr (no_header True)
          else
            let current = HBLKSIZE * (p div HBLKSIZE) in
            Inr \<lparr>miss_header = Some (current, hhdr), black_listed = False,
              new_cache = Some (p div 2 ^ LOG_HBLKSIZE, hhdr)\<rparr>)"

section \<open>The tree is a map\<close>

text \<open>The entry of the block with number \<open>b\<close>, and the invariant of the tree.\<close>

definition entry :: "hdr_state \<Rightarrow> nat \<Rightarrow> hdr_entry" where
  "entry st b = HDR (b * HBLKSIZE) st"

definition index_ok :: "hdr_state \<Rightarrow> bool" where
  "index_ok st \<longleftrightarrow> sorted_wrt (<) (GC_all_bottom_indices st) \<and>
     (\<forall>h k. k \<in> set (GC_top_index st h) \<longleftrightarrow> k \<in> set (GC_all_bottom_indices st) \<and> TL_HASH k = h)"

definition has_index :: "hdr_state \<Rightarrow> nat \<Rightarrow> bool" where
  "has_index st b \<longleftrightarrow> b div BOTTOM_SZ \<in> set (GC_all_bottom_indices st)"

lemmas hdr_sizes = HBLKSIZE_def LOG_HBLKSIZE_def BOTTOM_SZ_def LOG_BOTTOM_SZ_def

lemma high_bits_eq: "high_bits p = p div HBLKSIZE div BOTTOM_SZ"
  by (simp add: high_bits_def hdr_sizes flip: div_mult2_eq)

lemma slot_eq: "slot p = p div HBLKSIZE mod BOTTOM_SZ"
  by (simp add: slot_def hdr_sizes)

lemma GET_BI_ok:
  assumes "index_ok st"
  shows "GET_BI p st = (if has_index st (p div HBLKSIZE) then Some (high_bits p) else None)"
proof -
  have "high_bits p \<in> set (GC_top_index st (TL_HASH (high_bits p))) \<longleftrightarrow> has_index st (p div HBLKSIZE)"
    using assms by (simp add: index_ok_def has_index_def high_bits_eq)
  moreover have "find (\<lambda>k. k = x) xs = (if x \<in> set xs then Some x else None)" for x :: nat and xs
    by (induction xs) auto
  ultimately show ?thesis
    by (simp add: GET_BI_def Let_def)
qed

lemma HDR_entry: "HDR p st = entry st (p div HBLKSIZE)"
proof -
  have "high_bits (p div HBLKSIZE * HBLKSIZE) = high_bits p" "slot (p div HBLKSIZE * HBLKSIZE) = slot p"
    by (simp_all add: high_bits_eq slot_eq HBLKSIZE_def)
  then have "HDR p st = HDR (p div HBLKSIZE * HBLKSIZE) st"
    by (simp add: HDR_def GET_BI_def cong: option.case_cong)
  then show ?thesis
    by (simp add: entry_def)
qed

lemma entry_eq:
  assumes "index_ok st"
  shows "entry st b =
    (if has_index st b then bottom_index st (b div BOTTOM_SZ) (b mod BOTTOM_SZ) else Count 0)"
  using GET_BI_ok [OF assms, of "b * HBLKSIZE"]
  by (simp add: entry_def HDR_def high_bits_eq slot_eq HBLKSIZE_def)

lemma entry_no_index: "index_ok st \<Longrightarrow> \<not> has_index st b \<Longrightarrow> entry st b = Count 0"
  by (simp add: entry_eq)

lemma SET_HDR_ok:
  assumes "index_ok st" "has_index st (p div HBLKSIZE)"
  shows "\<exists>st'. SET_HDR p e st = Inr st' \<and> index_ok st' \<and> entry st' = (entry st)(p div HBLKSIZE := e) \<and>
    has_index st' = has_index st \<and> hdr_free_list st' = hdr_free_list st"
proof -
  let ?b = "p div HBLKSIZE"
  let ?st = "st\<lparr>bottom_index := (bottom_index st)
    (high_bits p := (bottom_index st (high_bits p))(slot p := e))\<rparr>"
  have ok: "index_ok ?st" "has_index ?st = has_index st"
    using assms(1) by (simp_all add: index_ok_def has_index_def fun_eq_iff)
  have "b = ?b" if "b div BOTTOM_SZ = high_bits p" "b mod BOTTOM_SZ = slot p" for b
    using that by (metis div_mult_mod_eq high_bits_eq slot_eq)
  then have "entry ?st b = ((entry st)(?b := e)) b" for b
    using assms ok by (auto simp: entry_eq high_bits_eq slot_eq)
  then have "entry ?st = (entry st)(?b := e)"
    by blast
  moreover have "SET_HDR p e st = Inr ?st"
    using assms by (simp add: SET_HDR_def GET_BI_ok)
  ultimately show ?thesis
    using ok by auto
qed

text \<open>The scratch allocator leaves the tree alone.\<close>

definition same_tree :: "hdr_state \<Rightarrow> hdr_state \<Rightarrow> bool" where
  "same_tree st st' \<longleftrightarrow> GC_top_index st' = GC_top_index st \<and> bottom_index st' = bottom_index st \<and>
     GC_all_bottom_indices st' = GC_all_bottom_indices st \<and> GC_gc_no st' = GC_gc_no st"

lemma GET_MEM_same: "GET_MEM bytes st = (r, st') \<Longrightarrow> same_tree st st' \<and> hdr_free_list st' = hdr_free_list st"
  by (auto simp: GET_MEM_def Let_def same_tree_def)

lemma GC_scratch_alloc_same:
  "GC_scratch_alloc bytes st = (r, st') \<Longrightarrow> same_tree st st' \<and> hdr_free_list st' = hdr_free_list st"
proof (induction bytes st arbitrary: r st' rule: GC_scratch_alloc.induct)
  case (1 bytes0 st)
  show ?case
    using "1.prems" "1.IH" GET_MEM_same
    unfolding GC_scratch_alloc.simps [of bytes0 st] Let_def
    by (auto split: if_splits prod.splits simp: same_tree_def)
qed

lemma set_insert_index: "set (insert_index hi ks) = insert hi (set ks)"
  by (induction ks) auto

lemma sorted_insert_index:
  "sorted_wrt (<) ks \<Longrightarrow> hi \<notin> set ks \<Longrightarrow> sorted_wrt (<) (insert_index hi ks)"
  by (induction ks) (auto simp: set_insert_index)

lemma same_tree_entry: "same_tree st st' \<Longrightarrow> entry st' = entry st \<and> has_index st' = has_index st \<and>
    index_ok st' = index_ok st"
  by (simp add: same_tree_def entry_def HDR_def GET_BI_def has_index_def index_ok_def fun_eq_iff
    cong: option.case_cong)

lemma get_index_ok:
  assumes "index_ok st" "get_index a st = (ok, st')"
  shows "index_ok st' \<and> entry st' = entry st \<and> (ok \<longrightarrow> has_index st' (a div HBLKSIZE)) \<and>
    (\<forall>b. has_index st b \<longrightarrow> has_index st' b) \<and> hdr_free_list st' = hdr_free_list st"
proof (cases "has_index st (a div HBLKSIZE)")
  case True
  then have "get_index a st = (True, st)"
    using assms(1) by (simp add: get_index_def Let_def index_ok_def has_index_def high_bits_eq)
  then show ?thesis
    using assms True by simp
next
  case False
  let ?hi = "high_bits a"
  have hi: "?hi \<notin> set (GC_top_index st (TL_HASH ?hi))" "?hi \<notin> set (GC_all_bottom_indices st)"
    using assms(1) False by (simp_all add: index_ok_def has_index_def high_bits_eq)
  obtain r st1 where alloc: "GC_scratch_alloc SIZEOF_BOTTOM_INDEX st = (r, st1)"
    by fastforce
  note same = GC_scratch_alloc_same [OF alloc]
  then have st1: "index_ok st1" "entry st1 = entry st" "has_index st1 = has_index st"
    using same_tree_entry [of st st1] assms(1) by simp_all
  show ?thesis
  proof (cases "r = 0")
    case True
    then show ?thesis
      using assms(2) hi(1) alloc st1 same by (simp add: get_index_def Let_def)
  next
    case r: False
    let ?st = "st1\<lparr>GC_top_index := (GC_top_index st1)(TL_HASH ?hi := ?hi # GC_top_index st1 (TL_HASH ?hi)),
      bottom_index := (bottom_index st1)(?hi := (\<lambda>j. Count 0)),
      GC_all_bottom_indices := insert_index ?hi (GC_all_bottom_indices st1)\<rparr>"
    have st': "st' = ?st" "ok"
      using assms(2) hi(1) alloc r by (simp_all add: get_index_def Let_def)
    have new: "?hi \<notin> set (GC_all_bottom_indices st1)"
      using hi(2) same by (simp add: same_tree_def)
    then have ok': "index_ok ?st"
      using st1(1) by (auto simp: index_ok_def set_insert_index sorted_insert_index)
    have idx: "has_index ?st b \<longleftrightarrow> b div BOTTOM_SZ = ?hi \<or> has_index st b" for b
      using st1(3) by (auto simp: has_index_def set_insert_index fun_eq_iff)
    have "entry ?st b = entry st b" for b
      unfolding entry_eq [OF ok'] entry_eq [OF assms(1)] idx
      using new same by (auto simp: has_index_def same_tree_def)
    then show ?thesis
      using st' ok' idx same by (auto simp: high_bits_eq fun_eq_iff)
  qed
qed

lemma alloc_hdr_same:
  "alloc_hdr st = (r, st') \<Longrightarrow> same_tree st st'"
  using GC_scratch_alloc_same
  by (fastforce simp: alloc_hdr_def same_tree_def split: list.splits prod.splits)

lemma GC_install_header_ok:
  assumes "index_ok st"
  shows "\<exists>r st'. GC_install_header h st = Inr (r, st') \<and> index_ok st' \<and>
    (\<forall>b. has_index st b \<longrightarrow> has_index st' b) \<and>
    entry st' = (case r of None \<Rightarrow> entry st | Some hhdr \<Rightarrow> (entry st)(h div HBLKSIZE := Hdr hhdr))"
proof -
  obtain ok st1 where gi: "get_index h st = (ok, st1)"
    by fastforce
  obtain r st2 where ah: "alloc_hdr st1 = (r, st2)"
    by fastforce
  note g = get_index_ok [OF assms gi]
  have t: "entry st2 = entry st1" "has_index st2 = has_index st1" "index_ok st2"
    using same_tree_entry [OF alloc_hdr_same [OF ah]] g by simp_all
  show ?thesis
  proof (cases "ok \<and> r \<noteq> None")
    case False
    then show ?thesis
      using gi ah g t by (auto simp: GC_install_header_def)
  next
    case True
    then obtain hhdr where r: "r = Some hhdr" and ok
      by auto
    let ?hhdr = "hhdr\<lparr>hb_last_reclaimed := word_of_nat (GC_gc_no st2)\<rparr>"
    obtain st3 where st3: "SET_HDR h (Hdr ?hhdr) st2 = Inr st3" "index_ok st3"
        "entry st3 = (entry st2)(h div HBLKSIZE := Hdr ?hhdr)" "has_index st3 = has_index st2"
      using SET_HDR_ok [of st2 h "Hdr ?hhdr"] t g \<open>ok\<close> by auto
    then have "GC_install_header h st = Inr (Some ?hhdr, st3)"
      using gi ah r \<open>ok\<close> by (simp add: GC_install_header_def Let_def)
    then show ?thesis
      using st3 t g by auto
  qed
qed

lemma GC_remove_header_ok:
  assumes "index_ok st" "entry st (h div HBLKSIZE) = Hdr hhdr"
  shows "\<exists>st'. GC_remove_header h st = Inr st' \<and> index_ok st' \<and>
    entry st' = (entry st)(h div HBLKSIZE := Count 0) \<and> has_index st' = has_index st"
proof -
  have "same_tree st (free_hdr hhdr st)"
    by (simp add: same_tree_def free_hdr_def)
  note same = same_tree_entry [OF this]
  have "has_index st (h div HBLKSIZE)"
    using assms entry_no_index by fastforce
  then show ?thesis
    using SET_HDR_ok [of "free_hdr hhdr st" h "Count 0"] same assms
    by (auto simp: GC_remove_header_def HDR_entry)
qed

lemma set_loop_ok:
  assumes "index_ok st" "h mod HBLKSIZE = 0" "hbp mod HBLKSIZE = 0" "h \<le> hbp"
    "\<forall>b. hbp div HBLKSIZE \<le> b \<and> b * HBLKSIZE < e \<longrightarrow> has_index st b"
  shows "\<exists>st'. set_loop f h hbp e st = Inr st' \<and> index_ok st' \<and> has_index st' = has_index st \<and>
    entry st' = (\<lambda>b. if hbp div HBLKSIZE \<le> b \<and> b * HBLKSIZE < e then f (b - h div HBLKSIZE) else entry st b)"
  using assms
proof (induction f h hbp e st rule: set_loop.induct)
  case (1 f h hbp e st)
  let ?b = "hbp div HBLKSIZE"
  have hbp: "?b * HBLKSIZE = hbp" "h div HBLKSIZE * HBLKSIZE = h"
    using "1.prems"(2,3) by (auto simp: mod_eq_0_iff_dvd)
  show ?case
  proof (cases "hbp < e")
    case False
    then have "\<not> (?b \<le> b \<and> b * HBLKSIZE < e)" for b
      using hbp by (metis le_less_trans mult_le_mono1)
    then show ?thesis
      using False "1.prems"(1) by (auto simp: set_loop.simps [of f h hbp e st] fun_eq_iff)
  next
    case True
    have diff: "(hbp - h) div HBLKSIZE = ?b - h div HBLKSIZE"
      using hbp by (metis diff_mult_distrib div_mult_self_is_m HBLKSIZE_def zero_less_numeral)
    obtain st1 where st1: "SET_HDR hbp (f (?b - h div HBLKSIZE)) st = Inr st1" "index_ok st1"
        "entry st1 = (entry st)(?b := f (?b - h div HBLKSIZE))" "has_index st1 = has_index st"
      using SET_HDR_ok [OF "1.prems"(1), of hbp "f (?b - h div HBLKSIZE)"] "1.prems"(5) True hbp by auto
    have next_b: "(hbp + HBLKSIZE) div HBLKSIZE = Suc ?b"
      by (simp add: HBLKSIZE_def)
    obtain st2 where st2: "set_loop f h (hbp + HBLKSIZE) e st1 = Inr st2" "index_ok st2"
        "has_index st2 = has_index st1"
        "entry st2 = (\<lambda>b. if Suc ?b \<le> b \<and> b * HBLKSIZE < e then f (b - h div HBLKSIZE) else entry st1 b)"
      using "1.IH" [OF True st1(1) [folded diff] st1(2) "1.prems"(2)] "1.prems"(3-5) st1(4) next_b
      by (auto simp: HBLKSIZE_def)
    have "set_loop f h hbp e st = Inr st2"
      using True st1(1) st2(1) by (simp add: set_loop.simps [of f h hbp e st] diff)
    moreover have "entry st2 = (\<lambda>b. if ?b \<le> b \<and> b * HBLKSIZE < e then f (b - h div HBLKSIZE) else entry st b)"
      using True hbp by (auto simp: st2(4) st1(3) fun_eq_iff not_less_eq_eq)
    ultimately show ?thesis
      using st2 st1 by auto
  qed
qed

lemma index_loop_ok:
  assumes "index_ok st" "index_loop hbp e st = (ok, st')"
  shows "index_ok st' \<and> entry st' = entry st \<and> (\<forall>b. has_index st b \<longrightarrow> has_index st' b) \<and>
    (ok \<longrightarrow> (\<forall>i. hbp + i * (BOTTOM_SZ * HBLKSIZE) < e \<longrightarrow> has_index st' (hbp div HBLKSIZE + i * BOTTOM_SZ)))"
  using assms
proof (induction hbp e st arbitrary: ok st' rule: index_loop.induct)
  case (1 hbp e st)
  let ?step = "BOTTOM_SZ * HBLKSIZE"
  obtain ok1 st1 where gi: "get_index hbp st = (ok1, st1)"
    by fastforce
  note g = get_index_ok [OF "1.prems"(1) gi]
  note step = index_loop.simps [of hbp e st]
  show ?case
  proof (cases "hbp < e \<and> ok1")
    case False
    then show ?thesis
      using "1.prems" g gi by (auto simp: step split: if_splits)
  next
    case True
    then have loop: "index_loop (hbp + ?step) e st1 = (ok, st')"
      using "1.prems"(2) gi by (simp add: step)
    have ih: "index_ok st' \<and> entry st' = entry st1 \<and> (\<forall>b. has_index st1 b \<longrightarrow> has_index st' b) \<and>
      (ok \<longrightarrow> (\<forall>i. hbp + ?step + i * ?step < e \<longrightarrow>
        has_index st' ((hbp + ?step) div HBLKSIZE + i * BOTTOM_SZ)))"
      using "1.IH" [OF _ gi [symmetric]] True g loop by simp
    have shift: "(hbp + ?step) div HBLKSIZE = hbp div HBLKSIZE + BOTTOM_SZ"
      by (simp add: hdr_sizes)
    have "has_index st' (hbp div HBLKSIZE + i * BOTTOM_SZ)" if "ok" "hbp + i * ?step < e" for i
    proof (cases i)
      case 0
      then show ?thesis
        using g ih True by simp
    next
      case (Suc j)
      have "hbp + ?step + j * ?step < e"
        using that(2) Suc by simp
      then have "has_index st' ((hbp + ?step) div HBLKSIZE + j * BOTTOM_SZ)"
        using ih that(1) by blast
      then show ?thesis
        by (simp add: shift Suc add.assoc)
    qed
    then show ?thesis
      using ih g by auto
  qed
qed

lemma GC_install_counts_ok:
  assumes "index_ok st" "h mod HBLKSIZE = 0" "0 < sz"
  shows "\<exists>ok st'. GC_install_counts h sz st = Inr (ok, st') \<and> index_ok st' \<and>
    (\<forall>b. has_index st b \<longrightarrow> has_index st' b) \<and>
    entry st' = (if ok then (\<lambda>b. if h div HBLKSIZE < b \<and> b * HBLKSIZE < h + sz
        then Count (min (b - h div HBLKSIZE) MAX_JUMP) else entry st b) else entry st)"
proof -
  obtain ok1 st1 where il: "index_loop h (h + sz) st = (ok1, st1)"
    by fastforce
  obtain ok2 st2 where gi: "get_index (h + sz - 1) st1 = (ok2, st2)"
    by fastforce
  note l = index_loop_ok [OF assms(1) il]
  then have g: "index_ok st2 \<and> entry st2 = entry st1 \<and> (ok2 \<longrightarrow> has_index st2 ((h + sz - 1) div HBLKSIZE)) \<and>
    (\<forall>b. has_index st1 b \<longrightarrow> has_index st2 b)"
    using get_index_ok [of st1 "h + sz - 1" ok2 st2] gi by blast
  show ?thesis
  proof (cases "ok1 \<and> ok2")
    case False
    then show ?thesis
      using il gi l g by (auto simp: GC_install_counts_def)
  next
    case True
    let ?B = "h div HBLKSIZE"
    have h: "h = ?B * HBLKSIZE"
      using assms(2) by (auto simp: mod_eq_0_iff_dvd)
    have idx: "has_index st2 b" if b: "?B \<le> b" "b * HBLKSIZE < h + sz" for b
    proof -
      define i where "i = b div BOTTOM_SZ - ?B div BOTTOM_SZ"
      have key: "(?B + i * BOTTOM_SZ) div BOTTOM_SZ = b div BOTTOM_SZ"
        using b(1) by (simp add: i_def BOTTOM_SZ_def div_le_mono)
      show ?thesis
      proof (cases "h + i * (BOTTOM_SZ * HBLKSIZE) < h + sz")
        case inside: True
        then have "has_index st1 (?B + i * BOTTOM_SZ)"
          using l \<open>ok1 \<and> ok2\<close> by blast
        then show ?thesis
          using g key by (simp add: has_index_def)
      next
        case False
        have "(h + sz - 1) div HBLKSIZE div BOTTOM_SZ \<le> b div BOTTOM_SZ"
        proof -
          have "h + sz - 1 \<le> (?B + i * BOTTOM_SZ) * HBLKSIZE"
            using False h by (simp add: algebra_simps)
          then have "(h + sz - 1) div HBLKSIZE \<le> ?B + i * BOTTOM_SZ"
            using div_le_mono [of _ _ HBLKSIZE] by (fastforce simp: HBLKSIZE_def)
          then show ?thesis
            using key div_le_mono by metis
        qed
        moreover have "b div BOTTOM_SZ \<le> (h + sz - 1) div HBLKSIZE div BOTTOM_SZ"
        proof -
          have "b * HBLKSIZE \<le> h + sz - 1"
            using b(2) by simp
          then have "b \<le> (h + sz - 1) div HBLKSIZE"
            by (simp add: less_eq_div_iff_mult_less_eq HBLKSIZE_def)
          then show ?thesis
            by (rule div_le_mono)
        qed
        ultimately show ?thesis
          using g \<open>ok1 \<and> ok2\<close> by (simp add: has_index_def)
      qed
    qed
    have shift: "(h + HBLKSIZE) div HBLKSIZE = Suc ?B" "(h + HBLKSIZE) mod HBLKSIZE = 0"
      using assms(2) by (simp_all add: HBLKSIZE_def)
    have "\<forall>b. (h + HBLKSIZE) div HBLKSIZE \<le> b \<and> b * HBLKSIZE < h + sz \<longrightarrow> has_index st2 b"
      using idx by (simp add: shift)
    then obtain st3 where "set_loop (\<lambda>i. Count (if i > MAX_JUMP then MAX_JUMP else i)) h (h + HBLKSIZE) (h + sz) st2
        = Inr st3" "index_ok st3" "has_index st3 = has_index st2"
        "entry st3 = (\<lambda>b. if Suc ?B \<le> b \<and> b * HBLKSIZE < h + sz
          then Count (if b - ?B > MAX_JUMP then MAX_JUMP else b - ?B) else entry st2 b)"
      using set_loop_ok [of st2 h "h + HBLKSIZE" "h + sz" "\<lambda>i. Count (if i > MAX_JUMP then MAX_JUMP else i)"]
        g assms(2) shift by auto
    then show ?thesis
      using True il gi l g by (auto simp: GC_install_counts_def fun_eq_iff min_def Suc_le_eq)
  qed
qed

lemma GC_remove_counts_ok:
  assumes "index_ok st" "h mod HBLKSIZE = 0"
    "\<forall>b. h div HBLKSIZE < b \<and> b * HBLKSIZE < h + sz \<longrightarrow> has_index st b"
  shows "\<exists>st'. GC_remove_counts h sz st = Inr st' \<and> index_ok st' \<and> has_index st' = has_index st \<and>
    entry st' = (\<lambda>b. if h div HBLKSIZE < b \<and> b * HBLKSIZE < h + sz then Count 0 else entry st b)"
proof -
  have shift: "(h + HBLKSIZE) div HBLKSIZE = Suc (h div HBLKSIZE)" "(h + HBLKSIZE) mod HBLKSIZE = 0"
    using assms(2) by (simp_all add: HBLKSIZE_def)
  show ?thesis
    using set_loop_ok [of st h "h + HBLKSIZE" "h + sz" "\<lambda>i. Count 0"] assms shift
    by (simp add: GC_remove_counts_def Suc_le_eq)
qed

section \<open>The layout of the heap\<close>

text \<open>
  How the entries describe the heap: the blocks after the first one of an object in use hold their
  distance from it, bounded by \<open>MAX_JUMP\<close>, those of a free block hold nothing, and no other entry is a
  forwarding count.
\<close>

definition nblocks :: "hdr \<Rightarrow> nat" where
  "nblocks hhdr = OBJ_SZ_TO_BLOCKS (hb_sz hhdr)"

definition tail_entry :: "hdr \<Rightarrow> nat \<Rightarrow> hdr_entry" where
  "tail_entry hhdr i = Count (if HBLK_IS_FREE hhdr then 0 else min i MAX_JUMP)"

definition layout_ok :: "(nat \<Rightarrow> hdr_entry) \<Rightarrow> bool" where
  "layout_ok ent \<longleftrightarrow>
     (\<forall>b hhdr. ent b = Hdr hhdr \<longrightarrow> 0 < nblocks hhdr \<and>
        (HBLK_IS_FREE hhdr \<longrightarrow> hb_sz hhdr = nblocks hhdr * HBLKSIZE) \<and>
        (\<forall>i. 0 < i \<and> i < nblocks hhdr \<longrightarrow> ent (b + i) = tail_entry hhdr i)) \<and>
     (\<forall>b n. ent b = Count n \<and> 0 < n \<longrightarrow>
        (\<exists>s hhdr. ent s = Hdr hhdr \<and> \<not> HBLK_IS_FREE hhdr \<and> s < b \<and> b < s + nblocks hhdr))"

definition used :: "(nat \<Rightarrow> hdr_entry) \<Rightarrow> nat \<Rightarrow> bool" where
  "used ent b \<longleftrightarrow> (\<exists>hhdr. ent b = Hdr hhdr \<and> \<not> HBLK_IS_FREE hhdr)"

lemma layout_tail:
  "layout_ok ent \<Longrightarrow> ent b = Hdr hhdr \<Longrightarrow> 0 < i \<Longrightarrow> i < nblocks hhdr \<Longrightarrow> ent (b + i) = tail_entry hhdr i"
  by (simp add: layout_ok_def)

lemma layout_pos: "layout_ok ent \<Longrightarrow> ent b = Hdr hhdr \<Longrightarrow> 0 < nblocks hhdr"
  by (simp add: layout_ok_def)

lemma layout_free: "layout_ok ent \<Longrightarrow> ent b = Hdr hhdr \<Longrightarrow> HBLK_IS_FREE hhdr \<Longrightarrow>
    hb_sz hhdr = nblocks hhdr * HBLKSIZE"
  by (simp add: layout_ok_def)

lemma layout_count:
  assumes "layout_ok ent" "ent b = Count n" "0 < n"
  obtains s hhdr where "ent s = Hdr hhdr" "\<not> HBLK_IS_FREE hhdr" "s < b" "b < s + nblocks hhdr"
    "n = min (b - s) MAX_JUMP"
proof -
  obtain s hhdr where s: "ent s = Hdr hhdr" "\<not> HBLK_IS_FREE hhdr" "s < b" "b < s + nblocks hhdr"
    using assms by (auto simp: layout_ok_def)
  then have "ent (s + (b - s)) = tail_entry hhdr (b - s)"
    using assms(1) by (intro layout_tail) simp_all
  then show thesis
    using that [OF s] s assms(2) by (simp add: tail_entry_def)
qed

lemma not_used_tail:
  "layout_ok ent \<Longrightarrow> ent b = Hdr hhdr \<Longrightarrow> b < c \<Longrightarrow> c < b + nblocks hhdr \<Longrightarrow> \<not> used ent c"
  using layout_tail [of ent b hhdr "c - b"] by (simp add: used_def tail_entry_def)

lemma used_index: "index_ok st \<Longrightarrow> used (entry st) b \<Longrightarrow> has_index st b"
  using entry_no_index by (force simp: used_def)

lemma entry_slot:
  "index_ok st \<Longrightarrow> bi \<in> set (GC_all_bottom_indices st) \<Longrightarrow> j < BOTTOM_SZ \<Longrightarrow>
    entry st (bi * BOTTOM_SZ + j) = bottom_index st bi j"
  by (simp add: entry_eq has_index_def BOTTOM_SZ_def)

subsection \<open>The next block in use\<close>

lemma next_slots_ok:
  assumes "index_ok st" "layout_ok (entry st)" "bi \<in> set (GC_all_bottom_indices st)"
  shows "0 < n \<Longrightarrow> BOTTOM_SZ < n + j \<Longrightarrow>
    \<exists>r. next_slots n (bottom_index st bi) j = Inr r \<and>
      (case r of
        Some j' \<Rightarrow> j \<le> j' \<and> j' < BOTTOM_SZ \<and> used (entry st) (bi * BOTTOM_SZ + j') \<and>
          (\<forall>i. j \<le> i \<and> i < j' \<longrightarrow> \<not> used (entry st) (bi * BOTTOM_SZ + i))
      | None \<Rightarrow> \<forall>i. j \<le> i \<and> i < BOTTOM_SZ \<longrightarrow> \<not> used (entry st) (bi * BOTTOM_SZ + i))"
proof (induction n arbitrary: j)
  case (Suc n)
  let ?e = "\<lambda>i. entry st (bi * BOTTOM_SZ + i)"
  have skip: ?case if "j < BOTTOM_SZ" and m: "0 < m" and eq: "next_slots (Suc n) (bottom_index st bi) j = next_slots n (bottom_index st bi) (j + m)"
    and unused: "\<forall>i. j \<le> i \<and> i < j + m \<longrightarrow> \<not> used (entry st) (bi * BOTTOM_SZ + i)" for m
  proof -
    have "0 < n" "BOTTOM_SZ < n + (j + m)"
      using Suc.prems m \<open>j < BOTTOM_SZ\<close> by simp_all
    from Suc.IH [OF this] obtain r where r: "next_slots n (bottom_index st bi) (j + m) = Inr r"
      "case r of
        Some j' \<Rightarrow> j + m \<le> j' \<and> j' < BOTTOM_SZ \<and> used (entry st) (bi * BOTTOM_SZ + j') \<and>
          (\<forall>i. j + m \<le> i \<and> i < j' \<longrightarrow> \<not> used (entry st) (bi * BOTTOM_SZ + i))
      | None \<Rightarrow> \<forall>i. j + m \<le> i \<and> i < BOTTOM_SZ \<longrightarrow> \<not> used (entry st) (bi * BOTTOM_SZ + i)"
      by blast
    have "\<not> used (entry st) (bi * BOTTOM_SZ + i)"
      if "j \<le> i" "j + m \<le> i \<longrightarrow> \<not> used (entry st) (bi * BOTTOM_SZ + i)" for i
      using unused that by (cases "i < j + m") auto
    then show ?thesis
      using r eq by (auto split: option.splits)
  qed
  show ?case
  proof (cases "j < BOTTOM_SZ")
    case False
    then show ?thesis
      by auto
  next
    case True
    then have e: "bottom_index st bi j = ?e j"
      using entry_slot [OF assms(1,3)] by simp
    show ?thesis
    proof (cases "?e j")
      case (Count k)
      then show ?thesis
        using True e by (intro skip [of 1]) (auto simp: used_def le_less_Suc_eq)
    next
      case (Hdr hhdr)
      show ?thesis
      proof (cases "HBLK_IS_FREE hhdr")
        case False
        then show ?thesis
          using True e Hdr by (auto simp: used_def)
      next
        case free: True
        have sz: "hb_sz hhdr div HBLKSIZE = nblocks hhdr"
          using layout_free [OF assms(2) Hdr free] by (simp add: HBLKSIZE_def)
        have "\<not> used (entry st) (bi * BOTTOM_SZ + i)" if "j \<le> i" "i < j + nblocks hhdr" for i
        proof (cases "i = j")
          case True
          then show ?thesis
            using Hdr free by (simp add: used_def)
        next
          case False
          then show ?thesis
            using that by (intro not_used_tail [OF assms(2) Hdr]) simp_all
        qed
        then show ?thesis
          using True e Hdr free layout_pos [OF assms(2) Hdr] by (intro skip [of "nblocks hhdr"]) (auto simp: sz)
      qed
    qed
  qed
qed simp

definition is_next :: "(nat \<Rightarrow> hdr_entry) \<Rightarrow> nat \<Rightarrow> nat \<Rightarrow> bool" where
  "is_next ent lo r \<longleftrightarrow> (\<exists>b\<ge>lo. r = b * HBLKSIZE \<and> used ent b \<and> (\<forall>c. lo \<le> c \<and> c < b \<longrightarrow> \<not> used ent c)) \<or>
     (r = 0 \<and> (\<forall>b\<ge>lo. \<not> used ent b))"

lemma is_next_skip:
  assumes "lo \<le> lo'" "\<forall>b. lo \<le> b \<and> b < lo' \<longrightarrow> \<not> used ent b" "is_next ent lo' r"
  shows "is_next ent lo r"
proof -
  consider b where "lo' \<le> b" "r = b * HBLKSIZE" "used ent b" "\<forall>c. lo' \<le> c \<and> c < b \<longrightarrow> \<not> used ent c"
    | "r = 0" "\<forall>b\<ge>lo'. \<not> used ent b"
    using assms(3) by (auto simp: is_next_def)
  then show ?thesis
  proof cases
    case (1 b)
    have "\<not> used ent c" if "lo \<le> c" "c < b" for c
      using 1(4) assms(2) that by (cases "c < lo'") auto
    then show ?thesis
      using 1 assms(1) unfolding is_next_def by (intro disjI1 exI [of _ b]) auto
  next
    case 2
    then show ?thesis
      using assms(2) by (auto simp: is_next_def) (metis not_le)
  qed
qed

lemma block_split: "b = (b div BOTTOM_SZ) * BOTTOM_SZ + b mod BOTTOM_SZ" "b mod BOTTOM_SZ < BOTTOM_SZ"
  by (simp_all add: BOTTOM_SZ_def)

lemma no_index_unused:
  assumes "index_ok st" "\<forall>k\<in>set (GC_all_bottom_indices st). \<not> (lo \<le> k \<and> k < hi)" "lo * BOTTOM_SZ \<le> b" "b < hi * BOTTOM_SZ"
  shows "\<not> used (entry st) b"
proof -
  have "lo \<le> b div BOTTOM_SZ" "b div BOTTOM_SZ < hi"
    using assms(3,4) by (simp_all add: less_eq_div_iff_mult_less_eq div_less_iff_less_mult BOTTOM_SZ_def)
  then show ?thesis
    using assms(1,2) used_index [of st b] by (auto simp: has_index_def)
qed

lemma next_slots_blocks:
  assumes "index_ok st" "layout_ok (entry st)" "bi \<in> set (GC_all_bottom_indices st)"
  shows "\<exists>r. next_slots (BOTTOM_SZ + 1) (bottom_index st bi) j = Inr r \<and>
    (case r of
      Some j' \<Rightarrow> is_next (entry st) (bi * BOTTOM_SZ + j) (block_address bi j')
    | None \<Rightarrow> \<forall>b. bi * BOTTOM_SZ + j \<le> b \<and> b < Suc bi * BOTTOM_SZ \<longrightarrow> \<not> used (entry st) b)"
proof -
  obtain r where r: "next_slots (BOTTOM_SZ + 1) (bottom_index st bi) j = Inr r"
    "case r of
        Some j' \<Rightarrow> j \<le> j' \<and> j' < BOTTOM_SZ \<and> used (entry st) (bi * BOTTOM_SZ + j') \<and>
          (\<forall>i. j \<le> i \<and> i < j' \<longrightarrow> \<not> used (entry st) (bi * BOTTOM_SZ + i))
      | None \<Rightarrow> \<forall>i. j \<le> i \<and> i < BOTTOM_SZ \<longrightarrow> \<not> used (entry st) (bi * BOTTOM_SZ + i)"
    using next_slots_ok [OF assms, of "BOTTOM_SZ + 1" j] by auto
  show ?thesis
  proof (cases r)
    case None
    have "\<not> used (entry st) b" if "bi * BOTTOM_SZ + j \<le> b" "b < Suc bi * BOTTOM_SZ" for b
    proof -
      have "j \<le> b - bi * BOTTOM_SZ" "b - bi * BOTTOM_SZ < BOTTOM_SZ" "bi * BOTTOM_SZ + (b - bi * BOTTOM_SZ) = b"
        using that by simp_all
      then show ?thesis
        using r(2) None by fastforce
    qed
    then show ?thesis
      using r(1) None by simp
  next
    case (Some j')
    have "\<not> used (entry st) c" if "bi * BOTTOM_SZ + j \<le> c" "c < bi * BOTTOM_SZ + j'" for c
    proof -
      have "j \<le> c - bi * BOTTOM_SZ" "c - bi * BOTTOM_SZ < j'" "bi * BOTTOM_SZ + (c - bi * BOTTOM_SZ) = c"
        using that by simp_all
      then show ?thesis
        using r(2) Some by fastforce
    qed
    then have "is_next (entry st) (bi * BOTTOM_SZ + j) (block_address bi j')"
      using r(2) Some unfolding is_next_def block_address_def
      by (intro disjI1 exI [of _ "bi * BOTTOM_SZ + j'"]) auto
    then show ?thesis
      using r(1) Some by simp
  qed
qed

lemma next_indices_ok:
  assumes "index_ok st" "layout_ok (entry st)"
  shows "sorted_wrt (<) (bi # bis) \<Longrightarrow>
    \<forall>k. k \<in> set (GC_all_bottom_indices st) \<and> bi \<le> k \<longleftrightarrow> k \<in> set (bi # bis) \<Longrightarrow>
    j \<le> BOTTOM_SZ \<Longrightarrow>
    \<exists>r. next_indices st (bi # bis) j = Inr r \<and> is_next (entry st) (bi * BOTTOM_SZ + j) r"
proof (induction bis arbitrary: bi j)
  case Nil
  have bi: "bi \<in> set (GC_all_bottom_indices st)"
    using Nil.prems(2) by auto
  have "\<not> used (entry st) b" if "Suc bi * BOTTOM_SZ \<le> b" for b
  proof
    assume "used (entry st) b"
    moreover have "Suc bi \<le> b div BOTTOM_SZ"
      using that by (simp add: less_eq_div_iff_mult_less_eq BOTTOM_SZ_def)
    ultimately show False
      using used_index [OF assms(1), of b] Nil.prems(2) [rule_format, of "b div BOTTOM_SZ"]
      by (simp add: has_index_def)
  qed
  then have none: "is_next (entry st) (Suc bi * BOTTOM_SZ) 0"
    by (simp add: is_next_def)
  from next_slots_blocks [OF assms bi, of j] show ?case
  proof (elim exE conjE)
    fix r assume r: "next_slots (BOTTOM_SZ + 1) (bottom_index st bi) j = Inr r"
      "case r of
        Some j' \<Rightarrow> is_next (entry st) (bi * BOTTOM_SZ + j) (block_address bi j')
      | None \<Rightarrow> \<forall>b. bi * BOTTOM_SZ + j \<le> b \<and> b < Suc bi * BOTTOM_SZ \<longrightarrow> \<not> used (entry st) b"
    show ?thesis
    proof (cases r)
      case None
      have "is_next (entry st) (bi * BOTTOM_SZ + j) 0"
        by (rule is_next_skip [of _ "Suc bi * BOTTOM_SZ"]) (use none r(2) None Nil.prems(3) in auto)
      then show ?thesis
        using r(1) None by simp
    next
      case (Some j')
      then show ?thesis
        using r by simp
    qed
  qed
next
  case (Cons bi' bis)
  have bi: "bi \<in> set (GC_all_bottom_indices st)" "bi < bi'"
    using Cons.prems by auto
  have rest: "\<forall>k. k \<in> set (GC_all_bottom_indices st) \<and> bi' \<le> k \<longleftrightarrow> k \<in> set (bi' # bis)"
  proof
    fix k
    show "k \<in> set (GC_all_bottom_indices st) \<and> bi' \<le> k \<longleftrightarrow> k \<in> set (bi' # bis)"
      using Cons.prems(1) Cons.prems(2) [rule_format, of k] by auto
  qed
  have gap: "\<forall>k\<in>set (GC_all_bottom_indices st). \<not> (Suc bi \<le> k \<and> k < bi')"
  proof
    fix k assume "k \<in> set (GC_all_bottom_indices st)"
    then show "\<not> (Suc bi \<le> k \<and> k < bi')"
      using Cons.prems(1) Cons.prems(2) [rule_format, of k] by auto
  qed
  obtain r' where r': "next_indices st (bi' # bis) 0 = Inr r'" "is_next (entry st) (bi' * BOTTOM_SZ) r'"
    using Cons.IH [OF _ rest, of 0] Cons.prems(1) by auto
  from next_slots_blocks [OF assms bi(1), of j] show ?case
  proof (elim exE conjE)
    fix r assume r: "next_slots (BOTTOM_SZ + 1) (bottom_index st bi) j = Inr r"
      "case r of
        Some j' \<Rightarrow> is_next (entry st) (bi * BOTTOM_SZ + j) (block_address bi j')
      | None \<Rightarrow> \<forall>b. bi * BOTTOM_SZ + j \<le> b \<and> b < Suc bi * BOTTOM_SZ \<longrightarrow> \<not> used (entry st) b"
    show ?thesis
    proof (cases r)
      case None
      have "\<not> used (entry st) b" if "bi * BOTTOM_SZ + j \<le> b" "b < bi' * BOTTOM_SZ" for b
        using None r(2) that no_index_unused [OF assms(1) gap, of b] by fastforce
      moreover have "bi * BOTTOM_SZ + j \<le> bi' * BOTTOM_SZ" if "j \<le> BOTTOM_SZ"
      proof -
        have "Suc bi * BOTTOM_SZ \<le> bi' * BOTTOM_SZ"
          using bi(2) by (intro mult_le_mono1) simp
        then show ?thesis
          using that by simp
      qed
      ultimately have "j \<le> BOTTOM_SZ \<Longrightarrow> is_next (entry st) (bi * BOTTOM_SZ + j) r'"
        by (intro is_next_skip [where lo' = "bi' * BOTTOM_SZ", OF _ _ r'(2)]) auto
      then show ?thesis
        using r(1) None r'(1) Cons.prems(3) by simp
    next
      case (Some j')
      then show ?thesis
        using r by simp
    qed
  qed
qed

lemma dropWhile_sorted:
  "sorted_wrt (<) xs \<Longrightarrow> dropWhile (\<lambda>k. k < a) xs = filter (\<lambda>k. a \<le> k) xs" for a :: nat
proof (induction xs)
  case (Cons x xs)
  show ?case
  proof (cases "x < a")
    case False
    then have "\<forall>y\<in>set xs. a \<le> y"
      using Cons.prems by fastforce
    then show ?thesis
      using False by simp
  qed (use Cons in simp)
qed simp

lemma dropWhile_until:
  "sorted_wrt (<) xs \<Longrightarrow> a \<in> set xs \<Longrightarrow> dropWhile (\<lambda>k. k \<noteq> a) xs = filter (\<lambda>k. a \<le> k) xs" for a :: nat
proof (induction xs)
  case (Cons x xs)
  show ?case
  proof (cases "x = a")
    case True
    then have "\<forall>y\<in>set xs. a \<le> y"
      using Cons.prems by fastforce
    then show ?thesis
      using True by simp
  next
    case False
    then show ?thesis
      using Cons by auto
  qed
qed simp

lemma next_from_filter:
  assumes "index_ok st" "layout_ok (entry st)" "j \<le> BOTTOM_SZ"
    "has_index st (a * BOTTOM_SZ) \<or> j = 0"
  shows "\<exists>r. next_indices st (filter (\<lambda>k. a \<le> k) (GC_all_bottom_indices st)) j = Inr r \<and>
    is_next (entry st) (a * BOTTOM_SZ + j) r"
proof (cases "filter (\<lambda>k. a \<le> k) (GC_all_bottom_indices st)")
  case Nil
  have "\<not> used (entry st) b" if "a * BOTTOM_SZ + j \<le> b" for b
  proof -
    have "a \<le> b div BOTTOM_SZ"
      using that by (simp add: less_eq_div_iff_mult_less_eq BOTTOM_SZ_def)
    then show ?thesis
      using used_index [OF assms(1), of b] Nil by (auto simp: has_index_def filter_empty_conv)
  qed
  then show ?thesis
    using Nil by (simp add: is_next_def)
next
  case (Cons bi bis)
  have sorted: "sorted_wrt (<) (bi # bis)"
    using assms(1) sorted_wrt_filter [of "(<)" "GC_all_bottom_indices st" "\<lambda>k. a \<le> k"]
    by (simp add: index_ok_def Cons)
  have set: "k \<in> set (GC_all_bottom_indices st) \<and> a \<le> k \<longleftrightarrow> k \<in> set (bi # bis)" for k
    using arg_cong [OF Cons, of set] by auto
  have a: "a \<le> bi"
    using set [of bi] by simp
  have all: "\<forall>k. k \<in> set (GC_all_bottom_indices st) \<and> bi \<le> k \<longleftrightarrow> k \<in> set (bi # bis)"
  proof
    fix k
    show "k \<in> set (GC_all_bottom_indices st) \<and> bi \<le> k \<longleftrightarrow> k \<in> set (bi # bis)"
      using set [of k] a sorted by auto
  qed
  show ?thesis
  proof (cases "a = bi")
    case True
    then show ?thesis
      using next_indices_ok [OF assms(1,2) sorted all assms(3)] Cons by simp
  next
    case False
    then have "j = 0"
      using assms(4) set [of a] sorted a by (auto simp: has_index_def BOTTOM_SZ_def)
    have "\<forall>k\<in>set (GC_all_bottom_indices st). \<not> (a \<le> k \<and> k < bi)"
    proof
      fix k assume "k \<in> set (GC_all_bottom_indices st)"
      then show "\<not> (a \<le> k \<and> k < bi)"
        using set [of k] sorted by auto
    qed
    note gap = no_index_unused [OF assms(1) this]
    obtain r where r: "next_indices st (bi # bis) 0 = Inr r" "is_next (entry st) (bi * BOTTOM_SZ + 0) r"
      using next_indices_ok [OF assms(1,2) sorted all, of 0] by auto
    have "is_next (entry st) (a * BOTTOM_SZ) r"
      by (rule is_next_skip [OF _ _ r(2)]) (use a gap in auto)
    then show ?thesis
      using r(1) Cons \<open>j = 0\<close> by simp
  qed
qed

lemma GC_next_used_block_ok:
  assumes "index_ok st" "layout_ok (entry st)"
  shows "\<exists>r. GC_next_used_block h st = Inr r \<and> is_next (entry st) (h div HBLKSIZE) r"
proof -
  let ?b = "h div HBLKSIZE" and ?hi = "high_bits h"
  have b: "?hi * BOTTOM_SZ + slot h = ?b" "slot h \<le> BOTTOM_SZ" "?hi * BOTTOM_SZ \<le> ?b" "?b < Suc ?hi * BOTTOM_SZ"
    using div_mult_mod_eq [of ?b BOTTOM_SZ] mod_less_divisor [of BOTTOM_SZ ?b]
    by (simp_all add: high_bits_eq slot_eq BOTTOM_SZ_def)
  have sorted: "sorted_wrt (<) (GC_all_bottom_indices st)"
    using assms(1) by (simp add: index_ok_def)
  show ?thesis
  proof (cases "has_index st ?b")
    case True
    then have "?hi \<in> set (GC_all_bottom_indices st)" "has_index st (?hi * BOTTOM_SZ)"
      by (simp_all add: has_index_def high_bits_eq BOTTOM_SZ_def)
    then show ?thesis
      using next_from_filter [OF assms b(2), of ?hi] True b(1) sorted assms(1)
      by (simp add: GC_next_used_block_def GET_BI_ok dropWhile_until)
  next
    case False
    obtain r where r: "next_indices st (filter (\<lambda>k. ?hi \<le> k) (GC_all_bottom_indices st)) 0 = Inr r"
        "is_next (entry st) (?hi * BOTTOM_SZ + 0) r"
      using next_from_filter [OF assms, of 0 ?hi] by auto
    have "\<not> used (entry st) c" if "?hi * BOTTOM_SZ \<le> c" "c \<le> ?b" for c
    proof -
      have "c div BOTTOM_SZ = ?hi"
        using that b(4) by (intro div_nat_eqI) (simp_all add: mult.commute)
      then show ?thesis
        using False used_index [OF assms(1), of c] by (auto simp: has_index_def high_bits_eq)
    qed
    then have "is_next (entry st) ?b r"
      using r(2) b(3) unfolding is_next_def by fastforce
    then show ?thesis
      using r(1) False sorted assms(1) by (simp add: GC_next_used_block_def GET_BI_ok dropWhile_sorted)
  qed
qed

subsection \<open>The previous block\<close>

definition has_hdr :: "(nat \<Rightarrow> hdr_entry) \<Rightarrow> nat \<Rightarrow> bool" where
  "has_hdr ent b \<longleftrightarrow> (\<exists>hhdr. ent b = Hdr hhdr)"

text \<open>The block with the largest number below \<open>hi\<close> that has a header.\<close>

definition is_prev :: "(nat \<Rightarrow> hdr_entry) \<Rightarrow> nat \<Rightarrow> nat \<Rightarrow> bool" where
  "is_prev ent hi r \<longleftrightarrow> (\<exists>b<hi. r = b * HBLKSIZE \<and> has_hdr ent b \<and> (\<forall>c. b < c \<and> c < hi \<longrightarrow> \<not> has_hdr ent c)) \<or>
     (r = 0 \<and> (\<forall>b<hi. \<not> has_hdr ent b))"

lemma is_prev_skip:
  assumes "hi' \<le> hi" "\<forall>b. hi' \<le> b \<and> b < hi \<longrightarrow> \<not> has_hdr ent b" "is_prev ent hi' r"
  shows "is_prev ent hi r"
proof -
  consider b where "b < hi'" "r = b * HBLKSIZE" "has_hdr ent b" "\<forall>c. b < c \<and> c < hi' \<longrightarrow> \<not> has_hdr ent c"
    | "r = 0" "\<forall>b<hi'. \<not> has_hdr ent b"
    using assms(3) by (auto simp: is_prev_def)
  then show ?thesis
  proof cases
    case (1 b)
    have "\<not> has_hdr ent c" if "b < c" "c < hi" for c
      using 1(4) assms(2) that by (cases "c < hi'") auto
    then show ?thesis
      using 1 assms(1) unfolding is_prev_def by (intro disjI1 exI [of _ b]) auto
  next
    case 2
    have "\<not> has_hdr ent b" if "b < hi" for b
      using 2(2) assms(2) that by (cases "b < hi'") auto
    then show ?thesis
      using 2(1) by (simp add: is_prev_def)
  qed
qed

lemma has_hdr_index: "index_ok st \<Longrightarrow> has_hdr (entry st) b \<Longrightarrow> has_index st b"
  using entry_no_index by (force simp: has_hdr_def)

lemma jump_over:
  assumes "layout_ok ent" "ent b = Count n" "0 < n" "b - n < c" "c \<le> b"
  shows "\<not> has_hdr ent c \<and> n \<le> b"
proof -
  obtain s hhdr where s: "ent s = Hdr hhdr" "s < b" "b < s + nblocks hhdr" "n = min (b - s) MAX_JUMP"
    using layout_count [OF assms(1-3)] by metis
  then have "0 < c - s" "c - s < nblocks hhdr" "s + (c - s) = c"
    using assms(4,5) by auto
  then have "ent c = tail_entry hhdr (c - s)"
    using layout_tail [OF assms(1) s(1), of "c - s"] by simp
  then show ?thesis
    using s by (simp add: has_hdr_def tail_entry_def)
qed

lemma prev_slots_ok:
  assumes "index_ok st" "layout_ok (entry st)" "bi \<in> set (GC_all_bottom_indices st)"
  shows "j1 \<le> BOTTOM_SZ \<Longrightarrow>
    (case prev_slots (bottom_index st bi) j1 of
      Some j \<Rightarrow> is_prev (entry st) (bi * BOTTOM_SZ + j1) (block_address bi j)
    | None \<Rightarrow> \<forall>b. bi * BOTTOM_SZ \<le> b \<and> b < bi * BOTTOM_SZ + j1 \<longrightarrow> \<not> has_hdr (entry st) b)"
proof (induction j1 rule: less_induct)
  case (less j1)
  let ?ent = "entry st" and ?idx = "bottom_index st bi"
  note step = prev_slots.simps [of ?idx j1]
  show ?case
  proof (cases "j1 = 0")
    case True
    have "prev_slots ?idx j1 = None"
      by (subst prev_slots.simps) (simp add: True)
    then show ?thesis
      using True by auto
  next
    case False
    define b where "b = bi * BOTTOM_SZ + (j1 - 1)"
    have j: "j1 - 1 < BOTTOM_SZ" "Suc b = bi * BOTTOM_SZ + j1"
      using False less.prems by (simp_all add: b_def)
    have e: "?idx (j1 - 1) = ?ent b"
      unfolding b_def by (rule entry_slot [OF assms(1,3) j(1), symmetric])
    have skip: ?thesis if "0 < m" "prev_slots ?idx j1 = prev_slots ?idx (j1 - m)"
      "\<forall>c. bi * BOTTOM_SZ + (j1 - m) \<le> c \<and> c < bi * BOTTOM_SZ + j1 \<longrightarrow> \<not> has_hdr ?ent c" for m
    proof -
      have ih: "case prev_slots ?idx (j1 - m) of
          Some j \<Rightarrow> is_prev ?ent (bi * BOTTOM_SZ + (j1 - m)) (block_address bi j)
        | None \<Rightarrow> \<forall>b. bi * BOTTOM_SZ \<le> b \<and> b < bi * BOTTOM_SZ + (j1 - m) \<longrightarrow> \<not> has_hdr ?ent b"
        using less.IH [of "j1 - m"] less.prems that(1) False by simp
      show ?thesis
      proof (cases "prev_slots ?idx (j1 - m)")
        case None
        have "\<not> has_hdr ?ent c" if c: "bi * BOTTOM_SZ \<le> c" "c < bi * BOTTOM_SZ + j1" for c
          using ih None \<open>\<forall>c. bi * BOTTOM_SZ + (j1 - m) \<le> c \<and> c < bi * BOTTOM_SZ + j1 \<longrightarrow> \<not> has_hdr ?ent c\<close> c
          by (cases "c < bi * BOTTOM_SZ + (j1 - m)") auto
        then show ?thesis
          using None that(2) by simp
      next
        case (Some j')
        have "is_prev ?ent (bi * BOTTOM_SZ + j1) (block_address bi j')"
          by (rule is_prev_skip [of "bi * BOTTOM_SZ + (j1 - m)"]) (use ih Some that(3) in auto)
        then show ?thesis
          using Some that(2) by simp
      qed
    qed
    show ?thesis
    proof (cases "?ent b")
      case (Hdr hhdr)
      have "is_prev ?ent (Suc b) (block_address bi (j1 - 1))"
        using Hdr unfolding is_prev_def has_hdr_def
        by (intro disjI1 exI [of _ b]) (auto simp: block_address_def b_def)
      then show ?thesis
        using False e Hdr j(2) by (simp add: step)
    next
      case (Count n)
      show ?thesis
      proof (cases "n = 0")
        case True
        have "\<not> has_hdr ?ent c" if "bi * BOTTOM_SZ + (j1 - 1) \<le> c" "c < bi * BOTTOM_SZ + j1" for c
        proof -
          have "c = b"
            using that j(2) by (simp add: b_def)
          then show ?thesis
            using Count by (simp add: has_hdr_def)
        qed
        then show ?thesis
          using True Count False e by (intro skip [of 1]) (simp_all add: step)
      next
        case n: False
        have "\<not> has_hdr ?ent c" if "bi * BOTTOM_SZ + (j1 - n) \<le> c" "c < bi * BOTTOM_SZ + j1" for c
        proof -
          have "n \<le> b"
            using layout_count [OF assms(2) Count] n by (metis diff_le_self le_trans min.cobounded1 neq0_conv)
          then have "b - n < c" "c \<le> b"
            using that n j(2) False by (cases "n \<le> j1"; simp add: b_def)+
          then show ?thesis
            using jump_over [OF assms(2) Count, of c] n by simp
        qed
        then show ?thesis
          using n Count False e by (intro skip [of n]) (simp_all add: step)
      qed
    qed
  qed
qed

lemma no_index_no_hdr:
  assumes "index_ok st" "\<forall>k\<in>set (GC_all_bottom_indices st). \<not> (lo \<le> k \<and> k < hi)" "lo * BOTTOM_SZ \<le> b" "b < hi * BOTTOM_SZ"
  shows "\<not> has_hdr (entry st) b"
proof -
  have "lo \<le> b div BOTTOM_SZ" "b div BOTTOM_SZ < hi"
    using assms(3,4) by (simp_all add: less_eq_div_iff_mult_less_eq div_less_iff_less_mult BOTTOM_SZ_def)
  then show ?thesis
    using assms(1,2) has_hdr_index [of st b] by (auto simp: has_index_def)
qed

text \<open>The list is the descending list of the bottom indices below \<open>a\<close>.\<close>

lemma prev_indices_ok:
  assumes "index_ok st" "layout_ok (entry st)"
  shows "sorted_wrt (>) bis \<Longrightarrow> set bis = {k \<in> set (GC_all_bottom_indices st). k < a} \<Longrightarrow>
    is_prev (entry st) (a * BOTTOM_SZ) (prev_indices st bis BOTTOM_SZ)"
proof (induction bis arbitrary: a)
  case Nil
  have "\<not> has_hdr (entry st) b" if "b < a * BOTTOM_SZ" for b
    using no_index_no_hdr [OF assms(1), of 0 a b] Nil.prems(2) that by auto
  then show ?case
    by (simp add: is_prev_def)
next
  case (Cons bi bis)
  have bi: "bi \<in> set (GC_all_bottom_indices st)" "bi < a"
    using Cons.prems(2) by auto
  have "set bis = {k \<in> set (GC_all_bottom_indices st). k < bi}"
  proof (intro set_eqI iffI)
    fix k assume "k \<in> set bis"
    then show "k \<in> {k \<in> set (GC_all_bottom_indices st). k < bi}"
      using Cons.prems by auto
  next
    fix k assume k: "k \<in> {k \<in> set (GC_all_bottom_indices st). k < bi}"
    then have "k \<in> set (bi # bis)"
      unfolding Cons.prems(2) using bi(2) by simp
    then show "k \<in> set bis"
      using k by simp
  qed
  then have ih: "is_prev (entry st) (bi * BOTTOM_SZ) (prev_indices st bis BOTTOM_SZ)"
    using Cons.IH Cons.prems(1) by simp
  have gap: "\<not> has_hdr (entry st) b" if "Suc bi * BOTTOM_SZ \<le> b" "b < a * BOTTOM_SZ" for b
  proof -
    have "\<not> (Suc bi \<le> k \<and> k < a)" if k: "k \<in> set (GC_all_bottom_indices st)" for k
    proof
      assume "Suc bi \<le> k \<and> k < a"
      then have "k \<in> set (bi # bis)" "bi < k"
        unfolding Cons.prems(2) using k by simp_all
      then show False
        using Cons.prems(1) by auto
    qed
    then show ?thesis
      using no_index_no_hdr [OF assms(1) _ that] by blast
  qed
  have le: "Suc bi * BOTTOM_SZ \<le> a * BOTTOM_SZ"
    using bi(2) by (intro mult_le_mono1) simp
  note slots = prev_slots_ok [OF assms bi(1) order_refl]
  have "is_prev (entry st) (Suc bi * BOTTOM_SZ) (prev_indices st (bi # bis) BOTTOM_SZ)"
  proof (cases "prev_slots (bottom_index st bi) BOTTOM_SZ")
    case None
    show ?thesis
      by (rule is_prev_skip [of "bi * BOTTOM_SZ"]) (use None slots ih in \<open>auto simp: add.commute\<close>)
  next
    case (Some j)
    then show ?thesis
      using slots by (simp add: add.commute)
  qed
  then show ?case
    by (rule is_prev_skip [OF le, rotated]) (use gap in blast)
qed

lemma rev_filter_less:
  fixes a :: nat
  assumes "sorted_wrt (<) xs"
  shows "sorted_wrt (>) (rev xs)" "dropWhile (\<lambda>k. k > a) (rev xs) = rev (filter (\<lambda>k. k \<le> a) xs)"
proof -
  show "sorted_wrt (>) (rev xs)"
    using assms by (simp add: sorted_wrt_rev)
  show "dropWhile (\<lambda>k. k > a) (rev xs) = rev (filter (\<lambda>k. k \<le> a) xs)"
    using assms
  proof (induction xs rule: rev_induct)
    case (snoc x xs)
    show ?case
    proof (cases "x > a")
      case False
      then have "\<forall>y\<in>set xs. y \<le> a"
        using snoc.prems by (fastforce simp: sorted_wrt_append)
      then show ?thesis
        using False by simp
    next
      case True
      then show ?thesis
        using snoc by (simp add: sorted_wrt_append)
    qed
  qed simp
qed

lemma dropWhile_rev_until:
  fixes a :: nat
  assumes "sorted_wrt (<) xs" "a \<in> set xs"
  shows "dropWhile (\<lambda>k. k \<noteq> a) (rev xs) = a # rev (filter (\<lambda>k. k < a) xs)"
  using assms
proof (induction xs rule: rev_induct)
  case (snoc x xs)
  show ?case
  proof (cases "x = a")
    case False
    then have "a \<in> set xs" "\<not> x < a"
      using snoc.prems by (auto simp: sorted_wrt_append)
    then show ?thesis
      using snoc False by (simp add: sorted_wrt_append)
  next
    case True
    then have "\<forall>y\<in>set xs. y < a"
      using snoc.prems by (simp add: sorted_wrt_append)
    then show ?thesis
      using True by simp
  qed
qed simp

lemma GC_prev_block_ok:
  assumes "index_ok st" "layout_ok (entry st)"
  shows "is_prev (entry st) (Suc (h div HBLKSIZE)) (GC_prev_block h st)"
proof -
  let ?b = "h div HBLKSIZE" and ?hi = "high_bits h" and ?all = "GC_all_bottom_indices st"
  have b: "?hi * BOTTOM_SZ + slot h = ?b" "slot h < BOTTOM_SZ"
    using div_mult_mod_eq [of ?b BOTTOM_SZ] mod_less_divisor [of BOTTOM_SZ ?b]
    by (simp_all add: high_bits_eq slot_eq BOTTOM_SZ_def)
  have sorted: "sorted_wrt (<) ?all"
    using assms(1) by (simp add: index_ok_def)
  have desc: "sorted_wrt (>) (rev (filter P ?all))" for P
    using sorted by (simp add: sorted_wrt_rev sorted_wrt_filter)
  have before: "is_prev (entry st) (a * BOTTOM_SZ) (prev_indices st (rev (filter (\<lambda>k. k < a) ?all)) BOTTOM_SZ)" for a
    by (rule prev_indices_ok [OF assms desc]) auto
  show ?thesis
  proof (cases "has_index st ?b")
    case True
    then have hi: "?hi \<in> set ?all"
      by (simp add: has_index_def high_bits_eq)
    have eq: "GC_prev_block h st = prev_indices st (?hi # rev (filter (\<lambda>k. k < ?hi) ?all)) (slot h + 1)"
      using True hi assms(1) sorted by (simp add: GC_prev_block_def GET_BI_ok dropWhile_rev_until)
    note slots = prev_slots_ok [OF assms hi, of "slot h + 1"]
    show ?thesis
    proof (cases "prev_slots (bottom_index st ?hi) (slot h + 1)")
      case None
      have "is_prev (entry st) (Suc ?b) (prev_indices st (rev (filter (\<lambda>k. k < ?hi) ?all)) BOTTOM_SZ)"
        by (rule is_prev_skip [OF _ _ before]) (use None slots b in auto)
      then show ?thesis
        using eq None by simp
    next
      case (Some j)
      then show ?thesis
        using eq slots b by simp
    qed
  next
    case False
    then have hi: "?hi \<notin> set ?all"
      by (simp add: has_index_def high_bits_eq)
    then have "filter (\<lambda>k. k \<le> ?hi) ?all = filter (\<lambda>k. k < ?hi) ?all"
      by (intro filter_cong) (auto simp: le_less)
    then have eq: "GC_prev_block h st = prev_indices st (rev (filter (\<lambda>k. k < ?hi) ?all)) BOTTOM_SZ"
      using False assms(1) sorted by (simp add: GC_prev_block_def GET_BI_ok rev_filter_less)
    have "\<not> has_hdr (entry st) c" if "?hi * BOTTOM_SZ \<le> c" "c < Suc ?b" for c
    proof -
      have "c < Suc ?hi * BOTTOM_SZ"
        using that(2) b by simp
      then show ?thesis
        using no_index_no_hdr [OF assms(1), of ?hi "Suc ?hi" c] hi that(1) by (metis le_less_Suc_eq)
    qed
    then show ?thesis
      unfolding eq using b by (intro is_prev_skip [OF _ _ before]) auto
  qed
qed

subsection \<open>All blocks\<close>

lemma apply_slots_ok:
  assumes "index_ok st" "layout_ok (entry st)" "bi \<in> set (GC_all_bottom_indices st)"
  shows "j1 \<le> BOTTOM_SZ \<Longrightarrow> set (apply_slots bi (bottom_index st bi) j1) =
    {(block_address bi j, hhdr) | j hhdr. j < j1 \<and> entry st (bi * BOTTOM_SZ + j) = Hdr hhdr \<and> \<not> HBLK_IS_FREE hhdr}"
proof (induction j1 rule: less_induct)
  case (less j1)
  let ?ent = "entry st" and ?idx = "bottom_index st bi"
  let ?S = "\<lambda>m. {(block_address bi j, hhdr) | j hhdr. j < m \<and> ?ent (bi * BOTTOM_SZ + j) = Hdr hhdr \<and> \<not> HBLK_IS_FREE hhdr}"
  note step = apply_slots.simps [of bi ?idx j1]
  show ?case
  proof (cases "j1 = 0")
    case True
    then show ?thesis
      by (subst step) simp
  next
    case False
    define b where "b = bi * BOTTOM_SZ + (j1 - 1)"
    have e: "?idx (j1 - 1) = ?ent b"
      unfolding b_def by (rule entry_slot [OF assms(1,3), symmetric]) (use less.prems False in simp)
    have ih: "set (apply_slots bi ?idx m) = ?S m" if "m < j1" for m
      using less.IH [OF that] less.prems that by simp
    have split: "?S j1 = {(block_address bi (j1 - 1), hhdr) | hhdr. ?ent b = Hdr hhdr \<and> \<not> HBLK_IS_FREE hhdr} \<union> ?S (j1 - 1)"
    proof -
      have lt: "j < j1 \<longleftrightarrow> j = j1 - 1 \<or> j < j1 - 1" for j
        using False by auto
      show ?thesis
        unfolding lt b_def by (rule set_eqI) auto
    qed
    show ?thesis
    proof (cases "?ent b")
      case (Hdr hhdr)
      have "set (apply_slots bi ?idx j1) =
          {(block_address bi (j1 - 1), hhdr) | hhdr. ?ent b = Hdr hhdr \<and> \<not> HBLK_IS_FREE hhdr} \<union>
          set (apply_slots bi ?idx (j1 - 1))"
        using False e Hdr by (subst step) simp
      then show ?thesis
        unfolding split using False ih [of "j1 - 1"] by simp
    next
      case (Count n)
      show ?thesis
      proof (cases "n = 0")
        case True
        then show ?thesis
          unfolding split using Count False e ih [of "j1 - 1"] by (subst step) simp
      next
        case n: False
        have "n \<le> b"
          using layout_count [OF assms(2) Count] n by (metis diff_le_self le_trans min.cobounded1 neq0_conv)
        have "j < j1 - n" if j: "j < j1" "?ent (bi * BOTTOM_SZ + j) = Hdr hhdr" for j hhdr
        proof (rule ccontr)
          assume "\<not> j < j1 - n"
          then have "b - n < bi * BOTTOM_SZ + j" "bi * BOTTOM_SZ + j \<le> b"
            using \<open>n \<le> b\<close> j(1) n by (cases "n \<le> j1"; simp add: b_def)+
          then show False
            using jump_over [OF assms(2) Count] n j(2) by (auto simp: has_hdr_def)
        qed
        then have "j < j1 \<and> ?ent (bi * BOTTOM_SZ + j) = Hdr hhdr \<longleftrightarrow>
            j < j1 - n \<and> ?ent (bi * BOTTOM_SZ + j) = Hdr hhdr" for j hhdr
          using less_le_trans [OF _ diff_le_self [of j1 n]] by blast
        then have "?S j1 = ?S (j1 - n)"
          by (simp only: conj_assoc [symmetric])
        then show ?thesis
          using Count n False e ih [of "j1 - n"] by (subst step) simp
      qed
    qed
  qed
qed

lemma GC_apply_to_all_blocks_ok:
  assumes "index_ok st" "layout_ok (entry st)"
  shows "set (GC_apply_to_all_blocks st) =
    {(b * HBLKSIZE, hhdr) | b hhdr. entry st b = Hdr hhdr \<and> \<not> HBLK_IS_FREE hhdr}"
proof -
  have mem: "(a, hhdr) \<in> set (GC_apply_to_all_blocks st) \<longleftrightarrow>
    (\<exists>bi\<in>set (GC_all_bottom_indices st). \<exists>j<BOTTOM_SZ. a = (bi * BOTTOM_SZ + j) * HBLKSIZE \<and>
      entry st (bi * BOTTOM_SZ + j) = Hdr hhdr \<and> \<not> HBLK_IS_FREE hhdr)" for a hhdr
    using apply_slots_ok [OF assms _ order_refl]
    by (auto simp: GC_apply_to_all_blocks_def block_address_def)
  have "(\<exists>b. a = b * HBLKSIZE \<and> entry st b = Hdr hhdr \<and> \<not> HBLK_IS_FREE hhdr) \<longleftrightarrow>
    (a, hhdr) \<in> set (GC_apply_to_all_blocks st)" for a hhdr
  proof
    assume "\<exists>b. a = b * HBLKSIZE \<and> entry st b = Hdr hhdr \<and> \<not> HBLK_IS_FREE hhdr"
    then obtain b where b: "a = b * HBLKSIZE" "entry st b = Hdr hhdr" "\<not> HBLK_IS_FREE hhdr"
      by blast
    then have "has_index st b"
      using has_hdr_index [OF assms(1), of b] by (simp add: has_hdr_def)
    then show "(a, hhdr) \<in> set (GC_apply_to_all_blocks st)"
      unfolding mem has_index_def using b block_split [of b] by metis
  qed (auto simp: mem)
  then show ?thesis
    by auto
qed

subsection \<open>Pointers into an object\<close>

lemma forward_loop_ok:
  assumes "layout_ok (entry st)" "entry st s = Hdr hhdr" "\<not> HBLK_IS_FREE hhdr"
  shows "s \<le> b \<Longrightarrow> b < s + nblocks hhdr \<Longrightarrow> b - s < n \<Longrightarrow>
    forward_loop n (b * HBLKSIZE) st = Inr (s * HBLKSIZE, hhdr)"
proof (induction n arbitrary: b)
  case (Suc n)
  have hdr: "HDR (b * HBLKSIZE) st = entry st b"
    by (simp add: entry_def)
  show ?case
  proof (cases "b = s")
    case True
    then show ?thesis
      using hdr assms(2) by simp
  next
    case False
    let ?k = "min (b - s) MAX_JUMP"
    have "entry st (s + (b - s)) = tail_entry hhdr (b - s)"
      by (rule layout_tail [OF assms(1,2)]) (use Suc.prems False in simp_all)
    then have e: "entry st b = Count ?k"
      using Suc.prems(1) assms(3) by (simp add: tail_entry_def)
    have k: "0 < ?k" "?k \<le> b - s"
      using False Suc.prems(1) by (auto simp: MAX_JUMP_def HBLKSIZE_def)
    then have "forward_loop n ((b - ?k) * HBLKSIZE) st = Inr (s * HBLKSIZE, hhdr)"
      using Suc.prems by (intro Suc.IH) auto
    moreover have "(b - ?k) * HBLKSIZE = b * HBLKSIZE - HBLKSIZE * ?k"
      by (simp only: diff_mult_distrib mult.commute [of HBLKSIZE])
    ultimately show ?thesis
      using hdr e by simp
  qed
qed simp

definition holds_object :: "(nat \<Rightarrow> hdr_entry) \<Rightarrow> nat \<Rightarrow> nat \<Rightarrow> hdr \<Rightarrow> bool" where
  "holds_object ent b s hhdr \<longleftrightarrow>
     ent s = Hdr hhdr \<and> \<not> HBLK_IS_FREE hhdr \<and> s \<le> b \<and> b < s + nblocks hhdr"

lemma cache_miss_object:
  assumes "layout_ok (entry st)" "holds_object (entry st) (p div HBLKSIZE) s hhdr"
  shows "GC_header_cache_miss interior p st =
    Inr (if p div HBLKSIZE = s then
           \<lparr>miss_header = Some (s * HBLKSIZE, hhdr), black_listed = False,
             new_cache = Some (p div 2 ^ LOG_HBLKSIZE, hhdr)\<rparr>
         else if \<not> interior \<or> hb_flags hhdr AND IGNORE_OFF_PAGE \<noteq> 0 then no_header False
         else if hb_sz hhdr \<le> p - s * HBLKSIZE then no_header True
         else \<lparr>miss_header = Some (s * HBLKSIZE, hhdr), black_listed = False, new_cache = None\<rparr>)"
proof -
  let ?b = "p div HBLKSIZE"
  have obj: "entry st s = Hdr hhdr" "\<not> HBLK_IS_FREE hhdr" "s \<le> ?b" "?b < s + nblocks hhdr"
    using assms(2) by (simp_all add: holds_object_def)
  show ?thesis
  proof (cases "?b = s")
    case True
    then show ?thesis
      using obj by (simp add: GC_header_cache_miss_def HDR_entry mult.commute)
  next
    case False
    let ?k = "min (?b - s) MAX_JUMP"
    have "entry st (s + (?b - s)) = tail_entry hhdr (?b - s)"
      by (rule layout_tail [OF assms(1) obj(1)]) (use obj False in simp_all)
    then have e: "entry st ?b = Count ?k"
      using obj by (simp add: tail_entry_def)
    have k: "0 < ?k" "?k \<le> ?b - s"
      using False obj(3) by (auto simp: MAX_JUMP_def HBLKSIZE_def)
    have "forward_loop (?b + 1) ((?b - ?k) * HBLKSIZE) st = Inr (s * HBLKSIZE, hhdr)"
      by (rule forward_loop_ok [OF assms(1) obj(1,2)]) (use k obj in auto)
    moreover have "(?b - ?k) * HBLKSIZE = HBLKSIZE * ?b - HBLKSIZE * ?k"
      by (simp only: diff_mult_distrib mult.commute [of HBLKSIZE])
    moreover have "HBLKSIZE * ?b div HBLKSIZE + 1 = ?b + 1"
      by (simp add: HBLKSIZE_def)
    ultimately have loop: "forward_loop (HBLKSIZE * ?b div HBLKSIZE + 1) (HBLKSIZE * ?b - HBLKSIZE * ?k) st =
        Inr (s * HBLKSIZE, hhdr)"
      by simp
    have "HDR p st = Count ?k" "?k \<noteq> 0"
      using e k by (simp_all add: HDR_entry)
    then show ?thesis
      using loop False obj(2) unfolding GC_header_cache_miss_def Let_def
      by (simp del: min_less_iff_conj)
  qed
qed

lemma cache_miss_no_object:
  assumes "layout_ok (entry st)" "\<forall>s hhdr. \<not> holds_object (entry st) (p div HBLKSIZE) s hhdr"
  shows "GC_header_cache_miss interior p st = Inr (no_header True)"
proof (cases "entry st (p div HBLKSIZE)")
  case (Count n)
  have "n = 0"
  proof (rule ccontr)
    assume "n \<noteq> 0"
    then obtain s hhdr where "entry st s = Hdr hhdr" "\<not> HBLK_IS_FREE hhdr" "s < p div HBLKSIZE"
        "p div HBLKSIZE < s + nblocks hhdr"
      using layout_count [OF assms(1) Count] by (metis neq0_conv)
    then show False
      using assms(2) [rule_format, of s hhdr] by (simp add: holds_object_def)
  qed
  then show ?thesis
    using Count by (simp add: GC_header_cache_miss_def HDR_entry)
next
  case (Hdr hhdr)
  then have "HBLK_IS_FREE hhdr"
    using assms(2) [rule_format, of "p div HBLKSIZE" hhdr] layout_pos [OF assms(1) Hdr]
    by (simp add: holds_object_def)
  then show ?thesis
    using Hdr by (simp add: GC_header_cache_miss_def HDR_entry)
qed

section \<open>Properties\<close>

text \<open>A heap with one object of two blocks, in the blocks 5 and 6, and no free block.\<close>

definition sample_hdr :: hdr where
  "sample_hdr = \<lparr>hb_next = 0, hb_prev = 0, hb_block = 5 * HBLKSIZE, hb_obj_kind = 1, hb_flags = 0,
     hb_last_reclaimed = 0, hb_sz = 6000, hb_descr = 0, hb_large_block = True, hb_map = None,
     hb_n_marks = 0, hb_marks = []\<rparr>"

definition sample_heap :: hdr_state where
  "sample_heap = \<lparr>GC_top_index = (\<lambda>i. if i = 0 then [0] else []),
     bottom_index = (\<lambda>bi j. if bi = 0 \<and> j = 5 then Hdr sample_hdr else if bi = 0 \<and> j = 6 then Count 1 else Count 0),
     GC_all_bottom_indices = [0], hdr_free_list = [], fresh_hdr = sample_hdr, scratch_free_ptr = 0,
     GC_scratch_end_ptr = 0, GC_scratch_last_end_ptr = 0, get_mem = [8192 * HBLKSIZE], our_memory = [], GC_page_size = 4096,
     GC_gc_no = 1\<rparr>"

lemma sample_hdr_ok: "nblocks sample_hdr = 2" "\<not> HBLK_IS_FREE sample_hdr" "hb_flags sample_hdr = 0" "hb_sz sample_hdr = 6000"
  by (simp_all add: sample_hdr_def nblocks_def OBJ_SZ_TO_BLOCKS_def HBLKSIZE_def HBLK_IS_FREE_def)

lemma sample_index_ok: "index_ok sample_heap"
  by (auto simp: sample_heap_def index_ok_def TL_HASH_def)

lemma sample_entry: "entry sample_heap = (\<lambda>b. if b = 5 then Hdr sample_hdr else if b = 6 then Count 1 else Count 0)"
proof
  fix b
  have "b div BOTTOM_SZ = 0 \<and> b mod BOTTOM_SZ = j \<longleftrightarrow> b = j" if "j < BOTTOM_SZ" for j
    using that by (metis div_eq_0_iff mod_less div_less BOTTOM_SZ_def zero_neq_numeral)
  from this [of 5] this [of 6]
  show "entry sample_heap b = (if b = 5 then Hdr sample_hdr else if b = 6 then Count 1 else Count 0)"
    unfolding entry_eq [OF sample_index_ok]
    by (auto simp: has_index_def sample_heap_def BOTTOM_SZ_def)
qed

lemma sample_layout_ok: "layout_ok (entry sample_heap)"
  unfolding layout_ok_def
proof (intro conjI allI impI)
  fix b n assume "entry sample_heap b = Count n \<and> 0 < n"
  then have "b = 6"
    by (simp add: sample_entry split: if_splits)
  then show "\<exists>s hhdr. entry sample_heap s = Hdr hhdr \<and> \<not> HBLK_IS_FREE hhdr \<and> s < b \<and> b < s + nblocks hhdr"
    by (intro exI [of _ 5] exI [of _ sample_hdr]) (simp add: sample_entry sample_hdr_ok)
qed (auto simp: sample_entry sample_hdr_ok tail_entry_def MAX_JUMP_def HBLKSIZE_def split: if_splits)

text \<open>C35: installing the header of an object and the counts of its other blocks never touches memory
  outside of the tree. If memory for the tree runs out, all entries stay as they were, except that the
  header may be in place. Otherwise the first block has the header, each later block of the object its
  distance bounded by \<open>MAX_JUMP\<close>, and every other address what it had, and removing the counts and the
  header again leaves exactly the blocks of the object without an entry.\<close>

theorem header_tree_roundtrip:
  assumes "index_ok st" "h mod HBLKSIZE = 0" "0 < sz"
  shows "\<exists>r st1. GC_install_header h st = Inr (r, st1) \<and> index_ok st1 \<and>
    (case r of
      None \<Rightarrow> \<forall>p. HDR p st1 = HDR p st
    | Some hhdr \<Rightarrow> \<exists>ok st2. GC_install_counts h sz st1 = Inr (ok, st2) \<and> index_ok st2 \<and>
        (if \<not> ok then \<forall>p. HDR p st2 = (if p div HBLKSIZE = h div HBLKSIZE then Hdr hhdr else HDR p st)
         else (\<forall>p. HDR p st2 =
             (let i = p div HBLKSIZE - h div HBLKSIZE in
              if p div HBLKSIZE = h div HBLKSIZE then Hdr hhdr
              else if h div HBLKSIZE < p div HBLKSIZE \<and> p div HBLKSIZE * HBLKSIZE < h + sz then Count (min i MAX_JUMP)
              else HDR p st)) \<and>
           (\<exists>st3 st4. GC_remove_counts h sz st2 = Inr st3 \<and> GC_remove_header h st3 = Inr st4 \<and> index_ok st4 \<and>
             (\<forall>p. HDR p st4 =
               (if h div HBLKSIZE \<le> p div HBLKSIZE \<and> p div HBLKSIZE * HBLKSIZE < h + sz then Count 0
                else HDR p st)))))"
proof -
  let ?B = "h div HBLKSIZE"
  have h: "?B * HBLKSIZE = h"
    using assms(2) by (metis div_mult_mod_eq add_0_right)
  obtain r st1 where st1: "GC_install_header h st = Inr (r, st1)" "index_ok st1"
      "entry st1 = (case r of None \<Rightarrow> entry st | Some hhdr \<Rightarrow> (entry st)(?B := Hdr hhdr))"
    using GC_install_header_ok [OF assms(1)] by blast
  obtain ok st2 where st2: "GC_install_counts h sz st1 = Inr (ok, st2)" "index_ok st2"
      "entry st2 = (if ok then (\<lambda>b. if ?B < b \<and> b * HBLKSIZE < h + sz
        then Count (min (b - ?B) MAX_JUMP) else entry st1 b) else entry st1)"
    using GC_install_counts_ok [OF st1(2) assms(2,3)] by blast
  show ?thesis
  proof (cases "r = None \<or> \<not> ok")
    case True
    then show ?thesis
      using st1 st2 by (cases r) (auto simp: HDR_entry)
  next
    case False
    then obtain hhdr where r: "r = Some hhdr" and ok
      by auto
    have covered: "has_index st2 b" if "?B < b" "b * HBLKSIZE < h + sz" for b
    proof (rule ccontr)
      assume "\<not> has_index st2 b"
      then have "entry st2 b = Count 0"
        by (rule entry_no_index [OF st2(2)])
      then show False
        using that st2(3) \<open>ok\<close> by (simp add: MAX_JUMP_def HBLKSIZE_def)
    qed
    then obtain st3 where st3: "GC_remove_counts h sz st2 = Inr st3" "index_ok st3"
        "entry st3 = (\<lambda>b. if ?B < b \<and> b * HBLKSIZE < h + sz then Count 0 else entry st2 b)"
      using GC_remove_counts_ok [OF st2(2) assms(2), of sz] by blast
    have "entry st3 ?B = Hdr hhdr"
      using st3(3) st2(3) st1(3) r \<open>ok\<close> by simp
    then obtain st4 where st4: "GC_remove_header h st3 = Inr st4" "index_ok st4"
        "entry st4 = (entry st3)(?B := Count 0)"
      using GC_remove_header_ok [OF st3(2)] by blast
    have "entry st4 b = (if ?B \<le> b \<and> b * HBLKSIZE < h + sz then Count 0 else entry st b)" for b
      using st4(3) st3(3) st2(3) st1(3) r \<open>ok\<close> h assms(3) by (auto simp: le_less)
    then show ?thesis
      using st1 st2 st3 st4 r \<open>ok\<close> by (auto simp: HDR_entry Let_def)
  qed
qed

theorem header_tree_roundtrip_witness:
  "\<exists>r st1. GC_install_header (3 * HBLKSIZE) sample_heap = Inr (r, st1) \<and> index_ok st1"
proof -
  have "3 * HBLKSIZE mod HBLKSIZE = 0"
    by (simp add: HBLKSIZE_def)
  from header_tree_roundtrip [OF sample_index_ok this, of 5000] show ?thesis
    by fastforce
qed

text \<open>C33: on a heap whose entries describe its objects, the searches that skip over free blocks and
  along forwarding counts miss nothing: \<open>GC_next_used_block\<close> gives the first block at or after \<open>h\<close> in use
  and \<open>GC_prev_block\<close> the last block at or before \<open>h\<close> with a header, or 0 if there is none, and
  \<open>GC_apply_to_all_blocks\<close> visits the blocks in use and nothing else.\<close>

theorem block_searches_correct:
  assumes "index_ok st" "layout_ok (entry st)"
  shows "(\<exists>r. GC_next_used_block h st = Inr r \<and> is_next (entry st) (h div HBLKSIZE) r) \<and>
    is_prev (entry st) (Suc (h div HBLKSIZE)) (GC_prev_block h st) \<and>
    set (GC_apply_to_all_blocks st) =
      {(b * HBLKSIZE, hhdr) | b hhdr. entry st b = Hdr hhdr \<and> \<not> HBLK_IS_FREE hhdr}"
  using GC_next_used_block_ok [OF assms] GC_prev_block_ok [OF assms] GC_apply_to_all_blocks_ok [OF assms] by simp

theorem block_searches_correct_witness:
  "GC_next_used_block (6 * HBLKSIZE) sample_heap = Inr 0 \<and> GC_prev_block (6 * HBLKSIZE) sample_heap = 5 * HBLKSIZE"
proof -
  note found = block_searches_correct [OF sample_index_ok sample_layout_ok, of "6 * HBLKSIZE"]
  have b: "6 * HBLKSIZE div HBLKSIZE = 6"
    by (simp add: HBLKSIZE_def)
  have "r = 0" if "is_next (entry sample_heap) 6 r" for r
    using that by (auto simp: is_next_def used_def sample_entry split: if_splits)
  moreover have "r = 5 * HBLKSIZE" if "is_prev (entry sample_heap) (Suc 6) r" for r
    using that unfolding is_prev_def has_hdr_def sample_entry
    by (auto split: if_splits dest: spec [of _ 5])
  ultimately show ?thesis
    using found unfolding b by metis
qed

text \<open>C34: on such a heap a miss of the header cache follows the forwarding counts to the header of the
  object that holds the address, however many there are, and never gives the header of a free block. A
  pointer past the first block gets a header only if interior pointers are recognised, the object does
  not ask to ignore them and the address is inside it. An address in no object is black listed.\<close>

theorem header_cache_miss_correct:
  assumes "layout_ok (entry st)"
  shows "(\<forall>s hhdr. holds_object (entry st) (p div HBLKSIZE) s hhdr \<longrightarrow> GC_header_cache_miss interior p st =
      Inr (if p div HBLKSIZE = s then
           \<lparr>miss_header = Some (s * HBLKSIZE, hhdr), black_listed = False,
             new_cache = Some (p div 2 ^ LOG_HBLKSIZE, hhdr)\<rparr>
         else if \<not> interior \<or> hb_flags hhdr AND IGNORE_OFF_PAGE \<noteq> 0 then no_header False
         else if hb_sz hhdr \<le> p - s * HBLKSIZE then no_header True
         else \<lparr>miss_header = Some (s * HBLKSIZE, hhdr), black_listed = False, new_cache = None\<rparr>)) \<and>
    ((\<forall>s hhdr. \<not> holds_object (entry st) (p div HBLKSIZE) s hhdr) \<longrightarrow>
      GC_header_cache_miss interior p st = Inr (no_header True))"
  using cache_miss_object [OF assms] cache_miss_no_object [OF assms] by blast

theorem header_cache_miss_correct_witness:
  "GC_header_cache_miss True (6 * HBLKSIZE + 8) sample_heap =
    Inr \<lparr>miss_header = Some (5 * HBLKSIZE, sample_hdr), black_listed = False, new_cache = None\<rparr> \<and>
   GC_header_cache_miss True (7 * HBLKSIZE) sample_heap = Inr (no_header True)"
proof
  have "holds_object (entry sample_heap) ((6 * HBLKSIZE + 8) div HBLKSIZE) 5 sample_hdr"
    by (simp add: holds_object_def sample_entry sample_hdr_ok HBLKSIZE_def)
  then show "GC_header_cache_miss True (6 * HBLKSIZE + 8) sample_heap =
    Inr \<lparr>miss_header = Some (5 * HBLKSIZE, sample_hdr), black_listed = False, new_cache = None\<rparr>"
    using header_cache_miss_correct [OF sample_layout_ok, of "6 * HBLKSIZE + 8" True]
    by (simp add: sample_hdr_ok HBLKSIZE_def)
  have "\<not> holds_object (entry sample_heap) (7 * HBLKSIZE div HBLKSIZE) s hhdr" for s hhdr
    by (auto simp: holds_object_def sample_entry sample_hdr_ok HBLKSIZE_def split: if_splits)
  then show "GC_header_cache_miss True (7 * HBLKSIZE) sample_heap = Inr (no_header True)"
    using header_cache_miss_correct [OF sample_layout_ok, of "7 * HBLKSIZE" True] by blast
qed

end
