(* ===== verification/GcBlackList.thy ===== *)
theory GcBlackList
  imports GcHeaders
begin

text \<open>
  Black lists (\<open>gc-7.4.2/blacklst.c\<close> and the page hash tables of \<open>include/private/gc_priv.h\<close>): the
  blocks that false references were seen to, in the collection before and in this one, the scan that
  the block allocator makes before it uses a block, and the change of the lists at a collection.

  A table is a function from word indices to 64-bit words; a pointer to a table is \<open>None\<close> until the table
  is allocated. The tables never overlap: the pointers are only exchanged. The configuration is the one of
  the headers, with \<open>2 ^ 18\<close> entries in a table.
\<close>

unbundle bit_operations_syntax

section \<open>Page hash tables\<close>

definition LOG_PHT_ENTRIES :: nat where "LOG_PHT_ENTRIES = 18"
definition PHT_ENTRIES :: nat where "PHT_ENTRIES = 2 ^ LOG_PHT_ENTRIES"
definition WORDSZ :: nat where "WORDSZ = 64"
definition SIZEOF_PAGE_HASH_TABLE :: nat where "SIZEOF_PAGE_HASH_TABLE = 8 * (PHT_ENTRIES div WORDSZ)"

type_synonym page_hash_table = "nat \<Rightarrow> 64 word"

definition PHT_HASH :: "nat \<Rightarrow> nat" where
  "PHT_HASH addr = addr div 2 ^ LOG_HBLKSIZE mod PHT_ENTRIES"

definition get_pht_entry_from_index :: "page_hash_table \<Rightarrow> nat \<Rightarrow> bool" where
  "get_pht_entry_from_index bl index \<longleftrightarrow> drop_bit (index mod WORDSZ) (bl (index div WORDSZ)) AND 1 \<noteq> 0"

definition set_pht_entry_from_index :: "page_hash_table \<Rightarrow> nat \<Rightarrow> page_hash_table" where
  "set_pht_entry_from_index bl index =
     bl(index div WORDSZ := bl (index div WORDSZ) OR push_bit (index mod WORDSZ) 1)"

definition GC_clear_bl :: "page_hash_table \<Rightarrow> page_hash_table" where
  "GC_clear_bl doomed = (\<lambda>i. 0)"

section \<open>State\<close>

definition MAXHINCR :: nat where "MAXHINCR = 2048"

record bl_state =
  GC_all_interior_pointers :: bool
  GC_old_normal_bl :: "page_hash_table option"
  GC_incomplete_normal_bl :: "page_hash_table option"
  GC_old_stack_bl :: "page_hash_table option"
  GC_incomplete_stack_bl :: "page_hash_table option"
  GC_total_stack_black_listed :: nat
  GC_black_list_spacing :: nat
  GC_heapsize :: nat
  GC_heap_sects :: "(nat \<times> nat) list"
  GC_modws_valid_offsets :: "nat \<Rightarrow> bool"
  headers :: hdr_state

definition deref :: "'a option \<Rightarrow> stop + 'a" where
  "deref p = (case p of None \<Rightarrow> Inl (Undefined ''null pointer'') | Some x \<Rightarrow> Inr x)"

lemma deref_simps [simp]: "deref None = Inl (Undefined ''null pointer'')" "deref (Some x) = Inr x"
  by (simp_all add: deref_def)

text \<open>Allocating the two tables of a kind; both are cleared.\<close>

definition new_tables_pair :: "bl_state \<Rightarrow> stop + bl_state" where
  "new_tables_pair st =
     (case GC_scratch_alloc SIZEOF_PAGE_HASH_TABLE (headers st) of (r1, h1) \<Rightarrow>
      case GC_scratch_alloc SIZEOF_PAGE_HASH_TABLE h1 of (r2, h2) \<Rightarrow>
        if r1 = 0 \<or> r2 = 0 then Inl (Exit 1 ''Insufficient memory for black list'')
        else Inr (st\<lparr>headers := h2\<rparr>))"

definition GC_bl_init_no_interiors :: "bl_state \<Rightarrow> stop + bl_state" where
  "GC_bl_init_no_interiors st =
     (if GC_incomplete_normal_bl st = None then
        sbind (new_tables_pair st) (\<lambda>st1.
          Inr (st1\<lparr>GC_old_normal_bl := Some (\<lambda>i. 0), GC_incomplete_normal_bl := Some (\<lambda>i. 0)\<rparr>))
      else Inr st)"

definition GC_bl_init :: "bl_state \<Rightarrow> stop + bl_state" where
  "GC_bl_init st =
     sbind (if \<not> GC_all_interior_pointers st then GC_bl_init_no_interiors st else Inr st) (\<lambda>st1.
     sbind (new_tables_pair st1) (\<lambda>st2.
       Inr (st2\<lparr>GC_old_stack_bl := Some (\<lambda>i. 0), GC_incomplete_stack_bl := Some (\<lambda>i. 0)\<rparr>)))"

section \<open>Statistics and promotion\<close>

function number_loop :: "page_hash_table \<Rightarrow> nat \<Rightarrow> nat \<Rightarrow> nat" where
  "number_loop bl h endp1 =
     (if h < endp1 then
        (if get_pht_entry_from_index bl (PHT_HASH h) then 1 else 0) + number_loop bl (h + HBLKSIZE) endp1
      else 0)"
  by pat_completeness auto

termination
  by (relation "measure (\<lambda>(bl, h, endp1). endp1 - h)") (auto simp: HBLKSIZE_def)

declare number_loop.simps [simp del]

definition GC_number_stack_black_listed :: "nat \<Rightarrow> nat \<Rightarrow> bl_state \<Rightarrow> stop + nat" where
  "GC_number_stack_black_listed start endp1 st =
     (if start < endp1 then sbind (deref (GC_old_stack_bl st)) (\<lambda>bl. Inr (number_loop bl start endp1))
      else Inr 0)"

fun sects_loop :: "(nat \<times> nat) list \<Rightarrow> bl_state \<Rightarrow> stop + nat" where
  "sects_loop [] st = Inr 0"
| "sects_loop ((start, bytes) # sects) st =
     sbind (GC_number_stack_black_listed start (start + bytes div HBLKSIZE * HBLKSIZE) st) (\<lambda>n.
     sbind (sects_loop sects st) (\<lambda>total. Inr (n + total)))"

definition total_stack_black_listed :: "bl_state \<Rightarrow> stop + nat" where
  "total_stack_black_listed st = sbind (sects_loop (GC_heap_sects st) st) (\<lambda>total. Inr (total * HBLKSIZE))"

definition new_spacing :: "nat \<Rightarrow> bl_state \<Rightarrow> nat" where
  "new_spacing tot st =
     (let s1 = (if tot \<noteq> 0 then HBLKSIZE * (GC_heapsize st div tot) else GC_black_list_spacing st);
          s2 = (if s1 < 3 * HBLKSIZE then 3 * HBLKSIZE else s1) in
      if s2 > MAXHINCR * HBLKSIZE then MAXHINCR * HBLKSIZE else s2)"

definition GC_promote_black_lists :: "bl_state \<Rightarrow> stop + bl_state" where
  "GC_promote_black_lists st =
     (let very_old_normal_bl = GC_old_normal_bl st; very_old_stack_bl = GC_old_stack_bl st in
      sbind (if \<not> GC_all_interior_pointers st
             then sbind (deref very_old_normal_bl) (\<lambda>bl. Inr (Some (GC_clear_bl bl)))
             else Inr very_old_normal_bl) (\<lambda>cleared_normal.
      sbind (sbind (deref very_old_stack_bl) (\<lambda>bl. Inr (Some (GC_clear_bl bl)))) (\<lambda>cleared_stack.
      let st1 = st\<lparr>GC_old_normal_bl := GC_incomplete_normal_bl st, GC_old_stack_bl := GC_incomplete_stack_bl st,
            GC_incomplete_normal_bl := cleared_normal, GC_incomplete_stack_bl := cleared_stack\<rparr> in
      sbind (total_stack_black_listed st1) (\<lambda>total.
        Inr (st1\<lparr>GC_total_stack_black_listed := total, GC_black_list_spacing := new_spacing total st1\<rparr>)))))"

definition GC_unpromote_black_lists :: "bl_state \<Rightarrow> stop + bl_state" where
  "GC_unpromote_black_lists st =
     sbind (if \<not> GC_all_interior_pointers st then
              sbind (deref (GC_old_normal_bl st)) (\<lambda>old.
              sbind (deref (GC_incomplete_normal_bl st)) (\<lambda>_.
                Inr (st\<lparr>GC_incomplete_normal_bl := Some old\<rparr>)))
            else Inr st) (\<lambda>st1.
     sbind (deref (GC_old_stack_bl st1)) (\<lambda>old.
     sbind (deref (GC_incomplete_stack_bl st1)) (\<lambda>_.
       Inr (st1\<lparr>GC_incomplete_stack_bl := Some old\<rparr>))))"

section \<open>Adding and testing\<close>

definition GC_add_to_black_list_normal :: "nat \<Rightarrow> bl_state \<Rightarrow> stop + bl_state" where
  "GC_add_to_black_list_normal p st =
     (if GC_modws_valid_offsets st (p mod 8) then
        let index = PHT_HASH p in
        sbind (if HDR p (headers st) = Count 0 then Inr True
               else sbind (deref (GC_old_normal_bl st)) (\<lambda>bl. Inr (get_pht_entry_from_index bl index))) (\<lambda>add.
          if add then sbind (deref (GC_incomplete_normal_bl st)) (\<lambda>bl.
            Inr (st\<lparr>GC_incomplete_normal_bl := Some (set_pht_entry_from_index bl index)\<rparr>))
          else Inr st)
      else Inr st)"

definition GC_add_to_black_list_stack :: "nat \<Rightarrow> bl_state \<Rightarrow> stop + bl_state" where
  "GC_add_to_black_list_stack p st =
     (let index = PHT_HASH p in
      sbind (if HDR p (headers st) = Count 0 then Inr True
             else sbind (deref (GC_old_stack_bl st)) (\<lambda>bl. Inr (get_pht_entry_from_index bl index))) (\<lambda>add.
        if add then sbind (deref (GC_incomplete_stack_bl st)) (\<lambda>bl.
          Inr (st\<lparr>GC_incomplete_stack_bl := Some (set_pht_entry_from_index bl index)\<rparr>))
        else Inr st))"

definition GC_ADD_TO_BLACK_LIST_NORMAL :: "nat \<Rightarrow> bl_state \<Rightarrow> stop + bl_state" where
  "GC_ADD_TO_BLACK_LIST_NORMAL p st =
     (if GC_all_interior_pointers st then GC_add_to_black_list_stack p st else GC_add_to_black_list_normal p st)"

text \<open>The scan over the blocks, a word of both tables at a time where it is zero. 0 is the null pointer.\<close>

function scan_loop :: "page_hash_table \<Rightarrow> page_hash_table \<Rightarrow> nat \<Rightarrow> nat \<Rightarrow> nat \<Rightarrow> nat" where
  "scan_loop old incomplete h nblks i =
     (let index = PHT_HASH (h + i * HBLKSIZE) in
      if old (index div WORDSZ) = 0 \<and> incomplete (index div WORDSZ) = 0 then
        let i' = i + (WORDSZ - index mod WORDSZ) in
        if i' \<ge> nblks then 0 else scan_loop old incomplete h nblks i'
      else if get_pht_entry_from_index old index \<or> get_pht_entry_from_index incomplete index then
        h + (i + 1) * HBLKSIZE
      else if i + 1 \<ge> nblks then 0 else scan_loop old incomplete h nblks (i + 1))"
  by pat_completeness auto

termination
proof (relation "measure (\<lambda>(old, incomplete, h, nblks, i). nblks - i)")
  fix old incomplete :: page_hash_table and h nblks i x i' :: nat
  assume "x = PHT_HASH (h + i * HBLKSIZE)" "i' = i + (WORDSZ - x mod WORDSZ)" "\<not> nblks \<le> i'"
  moreover have "x mod WORDSZ < WORDSZ"
    by (simp add: WORDSZ_def)
  ultimately show "((old, incomplete, h, nblks, i'), old, incomplete, h, nblks, i)
      \<in> measure (\<lambda>(old, incomplete, h, nblks, i). nblks - i)"
    by simp
qed auto

declare scan_loop.simps [simp del]

definition GC_is_black_listed :: "nat \<Rightarrow> nat \<Rightarrow> bl_state \<Rightarrow> stop + nat" where
  "GC_is_black_listed h len st =
     (let index = PHT_HASH h in
      sbind (if \<not> GC_all_interior_pointers st then
               sbind (deref (GC_old_normal_bl st)) (\<lambda>old.
                 if get_pht_entry_from_index old index then Inr True
                 else sbind (deref (GC_incomplete_normal_bl st)) (\<lambda>bl. Inr (get_pht_entry_from_index bl index)))
             else Inr False) (\<lambda>normal.
        if normal then Inr (h + HBLKSIZE)
        else sbind (deref (GC_old_stack_bl st)) (\<lambda>old.
          sbind (deref (GC_incomplete_stack_bl st)) (\<lambda>incomplete.
            Inr (scan_loop old incomplete h (len div HBLKSIZE) 0)))))"

section \<open>The tables as sets of blocks\<close>

text \<open>What a table says of the block with number \<open>b\<close>.\<close>

definition listed :: "page_hash_table \<Rightarrow> nat \<Rightarrow> bool" where
  "listed bl b = get_pht_entry_from_index bl (b mod PHT_ENTRIES)"

lemma PHT_HASH_eq: "PHT_HASH p = p div HBLKSIZE mod PHT_ENTRIES"
  by (simp add: PHT_HASH_def HBLKSIZE_def LOG_HBLKSIZE_def)

lemma get_pht_listed: "get_pht_entry_from_index bl (PHT_HASH p) = listed bl (p div HBLKSIZE)"
  by (simp add: listed_def PHT_HASH_eq)

lemma get_pht_bit: "get_pht_entry_from_index bl i = bit (bl (i div WORDSZ)) (i mod WORDSZ)"
  by (simp add: get_pht_entry_from_index_def bit_iff_and_drop_bit_eq_1 bit_iff_odd_drop_bit and_one_eq mod2_eq_if)

lemma set_get_pht: "get_pht_entry_from_index (set_pht_entry_from_index bl i) j \<longleftrightarrow> j = i \<or> get_pht_entry_from_index bl j"
proof -
  have "j = i \<longleftrightarrow> j div WORDSZ = i div WORDSZ \<and> j mod WORDSZ = i mod WORDSZ"
    by (metis div_mult_mod_eq)
  moreover have "i mod WORDSZ < 64"
    by (simp add: WORDSZ_def)
  ultimately show ?thesis
    by (auto simp: get_pht_bit set_pht_entry_from_index_def bit_or_iff bit_push_bit_iff bit_1_iff
      bit_exp_iff possible_bit_word)
qed

lemma listed_set: "listed (set_pht_entry_from_index bl (PHT_HASH p)) b \<longleftrightarrow>
    b mod PHT_ENTRIES = p div HBLKSIZE mod PHT_ENTRIES \<or> listed bl b"
  by (auto simp: listed_def set_get_pht PHT_HASH_eq)

lemma listed_zero: "\<not> listed (\<lambda>i. 0) b"
  by (simp add: listed_def get_pht_entry_from_index_def)

definition black :: "page_hash_table \<Rightarrow> page_hash_table \<Rightarrow> nat \<Rightarrow> bool" where
  "black old incomplete b \<longleftrightarrow> listed old b \<or> listed incomplete b"

lemma black_zero_word:
  assumes "old (b mod PHT_ENTRIES div WORDSZ) = 0" "incomplete (b mod PHT_ENTRIES div WORDSZ) = 0"
    "k < WORDSZ - b mod PHT_ENTRIES mod WORDSZ"
  shows "\<not> black old incomplete (b + k)"
proof -
  let ?i = "b mod PHT_ENTRIES"
  have less: "?i mod WORDSZ + k < WORDSZ"
    using assms(3) by simp
  have size: "PHT_ENTRIES = 4096 * WORDSZ"
    by (simp add: PHT_ENTRIES_def LOG_PHT_ENTRIES_def WORDSZ_def)
  have eq: "?i + k = ?i div WORDSZ * WORDSZ + (?i mod WORDSZ + k)"
    by (simp add: div_mult_mod_eq add.assoc [symmetric])
  then have same: "(?i + k) div WORDSZ = ?i div WORDSZ"
    using less by (metis add.commute div_less div_mult_self1 add_0 less_nat_zero_code)
  have "?i < 4096 * WORDSZ"
    unfolding size by (rule mod_less_divisor) (simp add: WORDSZ_def)
  then have "(?i + k) div WORDSZ < 4096"
    unfolding same by (simp add: less_mult_imp_div_less)
  then have "?i + k < PHT_ENTRIES"
    unfolding size by (simp add: WORDSZ_def div_less_iff_less_mult)
  then have "(b + k) mod PHT_ENTRIES = ?i + k"
    by (metis mod_add_left_eq mod_less)
  then show ?thesis
    using assms(1,2) same by (simp add: black_def listed_def get_pht_bit)
qed

text \<open>The scan finds the first block at or after \<open>i\<close> that is listed, if it is before \<open>n\<close>.\<close>

definition scanned :: "(nat \<Rightarrow> bool) \<Rightarrow> nat \<Rightarrow> nat \<Rightarrow> nat \<Rightarrow> nat \<Rightarrow> bool" where
  "scanned bad h n i r \<longleftrightarrow>
     (r = 0 \<and> (\<forall>j. i \<le> j \<and> j < max n (i + 1) \<longrightarrow> \<not> bad (h div HBLKSIZE + j))) \<or>
     (\<exists>j\<ge>i. j < max n (i + 1) \<and> bad (h div HBLKSIZE + j) \<and> r = h + (j + 1) * HBLKSIZE \<and>
       (\<forall>k. i \<le> k \<and> k < j \<longrightarrow> \<not> bad (h div HBLKSIZE + k)))"

lemma scanned_end: "(\<And>j. i \<le> j \<Longrightarrow> j < m \<Longrightarrow> \<not> bad (h div HBLKSIZE + j)) \<Longrightarrow> i < m \<Longrightarrow> n \<le> m \<Longrightarrow>
    scanned bad h n i 0"
  unfolding scanned_def by (intro disjI1) (simp add: max_def)

lemma scanned_skip:
  assumes "\<And>j. i \<le> j \<Longrightarrow> j < m \<Longrightarrow> \<not> bad (h div HBLKSIZE + j)" "i < m" "m < n" "scanned bad h n m r"
  shows "scanned bad h n i r"
proof -
  consider "r = 0" "\<forall>j. m \<le> j \<and> j < n \<longrightarrow> \<not> bad (h div HBLKSIZE + j)"
    | j where "m \<le> j" "j < n" "bad (h div HBLKSIZE + j)" "r = h + (j + 1) * HBLKSIZE"
        "\<forall>k. m \<le> k \<and> k < j \<longrightarrow> \<not> bad (h div HBLKSIZE + k)"
    using assms(3,4) by (auto simp: scanned_def)
  then show ?thesis
  proof cases
    case 1
    have "\<not> bad (h div HBLKSIZE + j)" if "i \<le> j" "j < n" for j
      using assms(1) [OF that(1)] 1(2) that(2) by (cases "j < m") simp_all
    then show ?thesis
      using 1(1) assms(2,3) by (simp add: scanned_def)
  next
    case (2 j)
    have "\<not> bad (h div HBLKSIZE + k)" if "i \<le> k" "k < j" for k
      using assms(1) [OF that(1)] 2(5) that(2) by (cases "k < m") simp_all
    then show ?thesis
      unfolding scanned_def using 2 assms(2) by (intro disjI2 exI [of _ j]) simp
  qed
qed

lemma scan_loop_ok: "scanned (black old incomplete) h n i (scan_loop old incomplete h n i)"
proof (induction old incomplete h n i rule: scan_loop.induct)
  case (1 old incomplete h n i)
  let ?b = "h div HBLKSIZE + i" and ?loop = "scan_loop old incomplete h n"
  let ?w = "WORDSZ - ?b mod PHT_ENTRIES mod WORDSZ"
  let ?easy = "old (?b mod PHT_ENTRIES div WORDSZ) = 0 \<and> incomplete (?b mod PHT_ENTRIES div WORDSZ) = 0"
  have hash: "PHT_HASH (h + i * HBLKSIZE) = ?b mod PHT_ENTRIES"
    by (simp add: PHT_HASH_eq HBLKSIZE_def add.commute)
  have get: "get_pht_entry_from_index old (?b mod PHT_ENTRIES) \<or>
      get_pht_entry_from_index incomplete (?b mod PHT_ENTRIES) \<longleftrightarrow> black old incomplete ?b"
    by (simp add: black_def listed_def)
  have step: "?loop i = (if ?easy then if i + ?w \<ge> n then 0 else ?loop (i + ?w)
      else if black old incomplete ?b then h + (i + 1) * HBLKSIZE
      else if i + 1 \<ge> n then 0 else ?loop (i + 1))"
    by (subst scan_loop.simps) (simp only: hash get Let_def)
  consider "?easy" | "\<not> ?easy" "black old incomplete ?b" | "\<not> ?easy" "\<not> black old incomplete ?b"
    by blast
  then show ?case
  proof cases
    case easy: 1
    have clean: "\<not> black old incomplete (h div HBLKSIZE + j)" if "i \<le> j" "j < i + ?w" for j
      using black_zero_word [of old ?b incomplete "j - i"] easy that by simp
    have w: "i < i + ?w"
      by (simp add: WORDSZ_def)
    show ?thesis
    proof (cases "i + ?w \<ge> n")
      case True
      then show ?thesis
        using scanned_end [of i "i + ?w" "black old incomplete" h n, OF clean w True] easy step by simp
    next
      case False
      have "scanned (black old incomplete) h n (i + ?w) (?loop (i + ?w))"
        using "1.IH"(1) [OF refl _ refl, unfolded hash] easy False by simp
      then show ?thesis
        using scanned_skip [of i "i + ?w" "black old incomplete" h n "?loop (i + ?w)", OF clean w] False easy step by simp
    qed
  next
    case 2
    have "?loop i = h + (i + 1) * HBLKSIZE"
      unfolding step if_not_P [OF 2(1)] if_P [OF 2(2)] ..
    then show ?thesis
      unfolding scanned_def using 2 by (intro disjI2 exI [of _ i]) (auto simp: less_max_iff_disj)
  next
    case 3
    have clean: "\<not> black old incomplete (h div HBLKSIZE + j)" if "i \<le> j" "j < i + 1" for j
    proof -
      have "j = i"
        using that by simp
      then show ?thesis
        using 3 by simp
    qed
    show ?thesis
    proof (cases "i + 1 \<ge> n")
      case True
      have "?loop i = 0"
        unfolding step if_not_P [OF 3(1)] if_not_P [OF 3(2)] if_P [OF True] ..
      then show ?thesis
        using scanned_end [of i "i + 1" "black old incomplete" h n, OF clean less_add_one True] by (simp only:)
    next
      case False
      have "scanned (black old incomplete) h n (i + 1) (?loop (i + 1))"
        by (rule "1.IH"(2) [OF refl, unfolded hash get, OF 3 False])
      moreover have "?loop i = ?loop (i + 1)"
        unfolding step if_not_P [OF 3(1)] if_not_P [OF 3(2)] if_not_P [OF False] ..
      moreover have "i + 1 < n"
        using False by simp
      ultimately show ?thesis
        using scanned_skip [of i "i + 1" "black old incomplete" h n "?loop (i + 1)", OF clean less_add_one]
        by (simp only:)
    qed
  qed
qed

section \<open>The lists of a state\<close>

definition tables_ready :: "bl_state \<Rightarrow> bool" where
  "tables_ready st \<longleftrightarrow> GC_old_stack_bl st \<noteq> None \<and> GC_incomplete_stack_bl st \<noteq> None \<and>
     (\<not> GC_all_interior_pointers st \<longrightarrow> GC_old_normal_bl st \<noteq> None \<and> GC_incomplete_normal_bl st \<noteq> None)"

definition in_tables :: "page_hash_table option \<Rightarrow> page_hash_table option \<Rightarrow> nat \<Rightarrow> bool" where
  "in_tables old incomplete b \<longleftrightarrow> (\<exists>t. (old = Some t \<or> incomplete = Some t) \<and> listed t b)"

lemma in_tables_simps [simp]: "in_tables (Some old) (Some incomplete) b = black old incomplete b"
  by (auto simp: in_tables_def black_def)

text \<open>Whether an object of \<open>n\<close> blocks at the block \<open>b\<close> is to be avoided.\<close>

definition blocked :: "bl_state \<Rightarrow> nat \<Rightarrow> nat \<Rightarrow> bool" where
  "blocked st b n \<longleftrightarrow>
     (\<not> GC_all_interior_pointers st \<and> in_tables (GC_old_normal_bl st) (GC_incomplete_normal_bl st) b) \<or>
     (\<exists>j < max n 1. in_tables (GC_old_stack_bl st) (GC_incomplete_stack_bl st) (b + j))"

lemma tables_ready_cases:
  assumes "tables_ready st"
  obtains old incomplete where "GC_old_stack_bl st = Some old" "GC_incomplete_stack_bl st = Some incomplete"
    "GC_all_interior_pointers st"
  | old incomplete old' incomplete' where "GC_old_stack_bl st = Some old" "GC_incomplete_stack_bl st = Some incomplete"
    "GC_old_normal_bl st = Some old'" "GC_incomplete_normal_bl st = Some incomplete'" "\<not> GC_all_interior_pointers st"
  using assms unfolding tables_ready_def by (cases "GC_all_interior_pointers st") auto

lemma sects_loop_ready: "GC_old_stack_bl st = Some old \<Longrightarrow> \<exists>n. sects_loop sects st = Inr n"
  by (induction sects st rule: sects_loop.induct) (auto simp: GC_number_stack_black_listed_def)

lemma promote_ready:
  assumes "tables_ready st"
  shows "\<exists>st'. GC_promote_black_lists st = Inr st' \<and> tables_ready st' \<and>
    GC_all_interior_pointers st' = GC_all_interior_pointers st \<and>
    GC_old_stack_bl st' = GC_incomplete_stack_bl st \<and> GC_incomplete_stack_bl st' = Some (\<lambda>i. 0) \<and>
    GC_old_normal_bl st' = GC_incomplete_normal_bl st \<and>
    (\<not> GC_all_interior_pointers st \<longrightarrow> GC_incomplete_normal_bl st' = Some (\<lambda>i. 0)) \<and>
    3 * HBLKSIZE \<le> GC_black_list_spacing st' \<and> GC_black_list_spacing st' \<le> MAXHINCR * HBLKSIZE"
proof -
  have spacing: "3 * HBLKSIZE \<le> new_spacing n s \<and> new_spacing n s \<le> MAXHINCR * HBLKSIZE" for n s
    by (simp add: new_spacing_def Let_def MAXHINCR_def HBLKSIZE_def)
  have total_ok: "\<exists>n. total_stack_black_listed s = Inr n" if "GC_old_stack_bl s = Some old" for s old
    using sects_loop_ready [OF that, of "GC_heap_sects s"] by (auto simp: total_stack_black_listed_def)
  from assms show ?thesis
  proof (cases rule: tables_ready_cases)
    case (1 old incomplete)
    let ?st = "st\<lparr>GC_old_normal_bl := GC_incomplete_normal_bl st, GC_old_stack_bl := GC_incomplete_stack_bl st,
      GC_incomplete_normal_bl := GC_old_normal_bl st, GC_incomplete_stack_bl := Some (\<lambda>i. 0)\<rparr>"
    obtain n where "total_stack_black_listed ?st = Inr n"
      using total_ok [of ?st incomplete] 1 by auto
    then show ?thesis
      using 1 spacing by (simp add: GC_promote_black_lists_def Let_def GC_clear_bl_def tables_ready_def)
  next
    case (2 old incomplete old' incomplete')
    let ?st = "st\<lparr>GC_old_normal_bl := GC_incomplete_normal_bl st, GC_old_stack_bl := GC_incomplete_stack_bl st,
      GC_incomplete_normal_bl := Some (\<lambda>i. 0), GC_incomplete_stack_bl := Some (\<lambda>i. 0)\<rparr>"
    obtain n where "total_stack_black_listed ?st = Inr n"
      using total_ok [of ?st incomplete] 2 by auto
    then show ?thesis
      using 2 spacing by (simp add: GC_promote_black_lists_def Let_def GC_clear_bl_def tables_ready_def)
  qed
qed

text \<open>What an addition does: the stack list if interior pointers are recognised, the normal one if not.\<close>

lemma add_ready:
  assumes "tables_ready st" "HDR p (headers st) = Count 0"
    "GC_all_interior_pointers st \<or> GC_modws_valid_offsets st (p mod 8)"
  shows "\<exists>st'. GC_ADD_TO_BLACK_LIST_NORMAL p st = Inr st' \<and> tables_ready st' \<and>
    GC_all_interior_pointers st' = GC_all_interior_pointers st \<and>
    (if GC_all_interior_pointers st then \<exists>t. GC_incomplete_stack_bl st' = Some t \<and> listed t (p div HBLKSIZE)
     else \<exists>t. GC_incomplete_normal_bl st' = Some t \<and> listed t (p div HBLKSIZE)) \<and>
    (\<forall>b n. blocked st b n \<longrightarrow> blocked st' b n)"
  using assms(1)
proof (cases rule: tables_ready_cases)
  case (1 old incomplete)
  let ?t = "set_pht_entry_from_index incomplete (PHT_HASH p)"
  have "blocked (st\<lparr>GC_incomplete_stack_bl := Some ?t\<rparr>) b n" if "blocked st b n" for b n
    using that 1 by (auto simp: blocked_def black_def listed_set)
  then show ?thesis
    using 1 assms(2) by (auto simp: GC_ADD_TO_BLACK_LIST_NORMAL_def GC_add_to_black_list_stack_def Let_def
      tables_ready_def listed_set)
next
  case (2 old incomplete old' incomplete')
  let ?t = "set_pht_entry_from_index incomplete' (PHT_HASH p)"
  have "blocked (st\<lparr>GC_incomplete_normal_bl := Some ?t\<rparr>) b n" if "blocked st b n" for b n
    using that 2 by (auto simp: blocked_def black_def listed_set)
  then show ?thesis
    using 2 assms(2,3) by (auto simp: GC_ADD_TO_BLACK_LIST_NORMAL_def GC_add_to_black_list_normal_def Let_def
      tables_ready_def listed_set)
qed

lemma GC_bl_init_ready:
  assumes "GC_bl_init st = Inr st'" "GC_incomplete_normal_bl st = None"
  shows "tables_ready st' \<and> \<not> blocked st' b n"
proof -
  have pair: "GC_all_interior_pointers s' = GC_all_interior_pointers s \<and>
      GC_old_normal_bl s' = GC_old_normal_bl s \<and> GC_incomplete_normal_bl s' = GC_incomplete_normal_bl s"
    if "new_tables_pair s = Inr s'" for s s'
    using that by (auto simp: new_tables_pair_def split: prod.splits if_splits)
  show ?thesis
    using assms
    by (auto simp: GC_bl_init_def GC_bl_init_no_interiors_def sbind_eq_Inr tables_ready_def blocked_def black_def
      listed_zero dest!: pair split: if_splits)
qed

lemma is_black_listed_scan:
  assumes "tables_ready st"
  shows "\<exists>r. GC_is_black_listed h len st = Inr r \<and>
    (r = h + HBLKSIZE \<and> blocked st (h div HBLKSIZE) (len div HBLKSIZE) \<or>
     scanned (in_tables (GC_old_stack_bl st) (GC_incomplete_stack_bl st)) h (len div HBLKSIZE) 0 r \<and>
     (GC_all_interior_pointers st \<or>
       \<not> in_tables (GC_old_normal_bl st) (GC_incomplete_normal_bl st) (h div HBLKSIZE)))"
  using assms
proof (cases rule: tables_ready_cases)
  case (1 old incomplete)
  have bad: "in_tables (Some old) (Some incomplete) = black old incomplete"
    by (rule ext) simp
  show ?thesis
    using 1 scan_loop_ok [of old incomplete h "len div HBLKSIZE" 0] by (simp add: GC_is_black_listed_def bad)
next
  case (2 old incomplete old' incomplete')
  have bad: "in_tables (Some old) (Some incomplete) = black old incomplete"
    by (rule ext) simp
  show ?thesis
    using 2 scan_loop_ok [of old incomplete h "len div HBLKSIZE" 0]
    by (auto simp: GC_is_black_listed_def Let_def get_pht_listed blocked_def black_def [of old' incomplete'] bad)
qed

section \<open>Properties\<close>

lemma is_black_listed_ok:
  assumes "tables_ready st"
  shows "\<exists>r. GC_is_black_listed h len st = Inr r \<and>
    (r = 0 \<longleftrightarrow> \<not> blocked st (h div HBLKSIZE) (len div HBLKSIZE)) \<and>
    (r \<noteq> 0 \<longrightarrow> (\<exists>k>0. r = h + k * HBLKSIZE \<and>
      (\<forall>m<k. blocked st (h div HBLKSIZE + m) (len div HBLKSIZE))))"
proof -
  let ?b = "h div HBLKSIZE" and ?n = "len div HBLKSIZE"
  let ?bad = "in_tables (GC_old_stack_bl st) (GC_incomplete_stack_bl st)"
  obtain r where r: "GC_is_black_listed h len st = Inr r"
    "r = h + HBLKSIZE \<and> blocked st ?b ?n \<or> scanned ?bad h ?n 0 r \<and>
     (GC_all_interior_pointers st \<or> \<not> in_tables (GC_old_normal_bl st) (GC_incomplete_normal_bl st) ?b)"
    using is_black_listed_scan [OF assms] by blast
  then consider "r = h + HBLKSIZE" "blocked st ?b ?n"
    | "r = 0" "\<not> blocked st ?b ?n"
    | j where "j < max ?n 1" "?bad (?b + j)" "r = h + (j + 1) * HBLKSIZE"
    unfolding scanned_def blocked_def by (auto simp: max.commute)
  then show ?thesis
  proof cases
    case 1
    then show ?thesis
      using r(1) by (auto intro!: exI [of _ 1] simp: HBLKSIZE_def)
  next
    case 2
    then show ?thesis
      using r(1) by simp
  next
    case (3 j)
    have "blocked st (?b + m) ?n" if "m < j + 1" for m
      unfolding blocked_def by (rule disjI2, rule exI [of _ "j - m"]) (use 3 that in auto)
    moreover from this [of 0] have "blocked st ?b ?n"
      by simp
    moreover have "r \<noteq> 0"
      using 3(3) by (simp add: HBLKSIZE_def)
    ultimately show ?thesis
      using r(1) 3(3) by (intro exI [of _ r]) (auto intro!: exI [of _ "j + 1"])
  qed
qed

text \<open>C36: the scan of the black lists, a word of the tables at a time, gives 0 exactly if no black list
  forbids an object of \<open>len\<close> bytes at \<open>h\<close>; otherwise it gives a later address, a whole number of blocks
  further, such that the object is forbidden at every block before it.\<close>

theorem black_list_scan_correct:
  assumes "tables_ready st"
  shows "\<exists>r. GC_is_black_listed h len st = Inr r \<and>
    (r = 0 \<longleftrightarrow> \<not> blocked st (h div HBLKSIZE) (len div HBLKSIZE)) \<and>
    (r \<noteq> 0 \<longrightarrow> (\<exists>k>0. r = h + k * HBLKSIZE \<and>
      (\<forall>m<k. blocked st (h div HBLKSIZE + m) (len div HBLKSIZE))))"
  by (rule is_black_listed_ok [OF assms])

text \<open>A state with block 9 on the stack list and block 3 on the normal one.\<close>

definition sample_lists :: bl_state where
  "sample_lists = \<lparr>GC_all_interior_pointers = False, GC_old_normal_bl = Some (\<lambda>i. 0),
     GC_incomplete_normal_bl = Some (set_pht_entry_from_index (\<lambda>i. 0) 3),
     GC_old_stack_bl = Some (set_pht_entry_from_index (\<lambda>i. 0) 9), GC_incomplete_stack_bl = Some (\<lambda>i. 0),
     GC_total_stack_black_listed = 0, GC_black_list_spacing = MINHINCR * HBLKSIZE,
     GC_heapsize = 65536, GC_heap_sects = [(0, 65536)], GC_modws_valid_offsets = (\<lambda>i. i = 0),
     headers = sample_heap\<rparr>"

lemma sample_lists_ready: "tables_ready sample_lists"
  by (simp add: tables_ready_def sample_lists_def)

theorem black_list_scan_correct_witness:
  "\<exists>r. GC_is_black_listed (3 * HBLKSIZE) HBLKSIZE sample_lists = Inr r \<and> 3 * HBLKSIZE < r"
proof -
  have "blocked sample_lists (3 * HBLKSIZE div HBLKSIZE) (HBLKSIZE div HBLKSIZE)"
    by (simp add: blocked_def sample_lists_def black_def listed_def set_get_pht HBLKSIZE_def
      PHT_ENTRIES_def LOG_PHT_ENTRIES_def)
  then show ?thesis
    using black_list_scan_correct [OF sample_lists_ready, of "3 * HBLKSIZE" HBLKSIZE]
    by (auto simp: HBLKSIZE_def)
qed

text \<open>C37: an address in no object that is added to the black lists forbids its block at once, and what was
  forbidden before stays so; the block is still forbidden after the next collection, and if nothing is
  added, the collection after that forgets every entry. The tables stay allocated, and the spacing
  estimate stays between 3 and \<open>MAXHINCR\<close> blocks.\<close>

theorem black_list_lifetime:
  assumes "tables_ready st" "HDR p (headers st) = Count 0"
    "GC_all_interior_pointers st \<or> GC_modws_valid_offsets st (p mod 8)"
  shows "\<exists>st1 st2 st3. GC_ADD_TO_BLACK_LIST_NORMAL p st = Inr st1 \<and> GC_promote_black_lists st1 = Inr st2 \<and>
    GC_promote_black_lists st2 = Inr st3 \<and> tables_ready st1 \<and> tables_ready st2 \<and> tables_ready st3 \<and>
    blocked st1 (p div HBLKSIZE) n \<and> (\<forall>b m. blocked st b m \<longrightarrow> blocked st1 b m) \<and>
    blocked st2 (p div HBLKSIZE) n \<and> (\<forall>b m. \<not> blocked st3 b m) \<and>
    3 * HBLKSIZE \<le> GC_black_list_spacing st2 \<and> GC_black_list_spacing st2 \<le> MAXHINCR * HBLKSIZE"
proof -
  let ?b = "p div HBLKSIZE"
  obtain st1 where st1: "GC_ADD_TO_BLACK_LIST_NORMAL p st = Inr st1" "tables_ready st1"
      "GC_all_interior_pointers st1 = GC_all_interior_pointers st" "\<forall>b m. blocked st b m \<longrightarrow> blocked st1 b m"
      and new: "if GC_all_interior_pointers st then \<exists>t. GC_incomplete_stack_bl st1 = Some t \<and> listed t ?b
        else \<exists>t. GC_incomplete_normal_bl st1 = Some t \<and> listed t ?b"
    using add_ready [OF assms] by blast
  obtain st2 where st2: "GC_promote_black_lists st1 = Inr st2" "tables_ready st2"
      "GC_all_interior_pointers st2 = GC_all_interior_pointers st1"
      "GC_old_stack_bl st2 = GC_incomplete_stack_bl st1" "GC_incomplete_stack_bl st2 = Some (\<lambda>i. 0)"
      "GC_old_normal_bl st2 = GC_incomplete_normal_bl st1"
      "\<not> GC_all_interior_pointers st1 \<longrightarrow> GC_incomplete_normal_bl st2 = Some (\<lambda>i. 0)"
      "3 * HBLKSIZE \<le> GC_black_list_spacing st2" "GC_black_list_spacing st2 \<le> MAXHINCR * HBLKSIZE"
    using promote_ready [OF st1(2)] by blast
  obtain st3 where st3: "GC_promote_black_lists st2 = Inr st3" "tables_ready st3"
      "GC_all_interior_pointers st3 = GC_all_interior_pointers st2"
      "GC_old_stack_bl st3 = GC_incomplete_stack_bl st2" "GC_incomplete_stack_bl st3 = Some (\<lambda>i. 0)"
      "GC_old_normal_bl st3 = GC_incomplete_normal_bl st2"
      "\<not> GC_all_interior_pointers st2 \<longrightarrow> GC_incomplete_normal_bl st3 = Some (\<lambda>i. 0)"
    using promote_ready [OF st2(2)] by blast
  have "blocked st1 ?b n" "blocked st2 ?b n"
    using new st1(3) st2 unfolding blocked_def in_tables_def by (auto split: if_splits intro!: exI [of _ 0])
  moreover have "\<not> blocked st3 b m" for b m
    using st3 st2(3,5,7) by (auto simp: blocked_def in_tables_def listed_zero)
  ultimately show ?thesis
    using st1 st2 st3 by blast
qed

theorem black_list_lifetime_witness:
  "\<exists>st1. GC_ADD_TO_BLACK_LIST_NORMAL (8 * HBLKSIZE) sample_lists = Inr st1 \<and> blocked st1 8 1"
proof -
  have none: "HDR (8 * HBLKSIZE) (headers sample_lists) = Count 0"
    by (simp add: sample_lists_def HDR_entry sample_entry HBLKSIZE_def)
  have valid: "GC_all_interior_pointers sample_lists \<or> GC_modws_valid_offsets sample_lists (8 * HBLKSIZE mod 8)"
    by (simp add: sample_lists_def)
  show ?thesis
    using black_list_lifetime [OF sample_lists_ready none valid, of 1] by (auto simp: HBLKSIZE_def)
qed

end
