(* ===== verification/GcHblk.thy ===== *)
theory GcHblk
  imports GcBlackList
begin

text \<open>
  The block allocator of the collector (\<open>gc-7.4.2/allchblk.c\<close>) with the object maps of
  \<open>gc-7.4.2/obj_map.c\<close> that it sets up headers with: the free lists of blocks by size, the removal
  and insertion of blocks, splitting and merging, the choice of a block and the release of one.

  A pointer to a header is the address of its block, and the links of the free lists are such addresses;
  0 is the null pointer. What the operating system is asked for (mapping, unmapping, protection, clearing
  of memory) is a log of events. The configuration is the one of the headers: 64 bits, \<open>USE_MUNMAP\<close>,
  mark bits per granule, no assertions. Byte counts that the code subtracts from wrap around.
\<close>

unbundle bit_operations_syntax

section \<open>State\<close>

definition GRANULE_BYTES :: nat where "GRANULE_BYTES = 16"
definition MAXOBJBYTES :: nat where "MAXOBJBYTES = HBLKSIZE div 2"
definition MAP_LEN :: nat where "MAP_LEN = HBLKSIZE div 16"
definition VALID_OFFSET_SZ :: nat where "VALID_OFFSET_SZ = HBLKSIZE"
definition MAX_BLACK_LIST_ALLOC :: nat where "MAX_BLACK_LIST_ALLOC = 2 * HBLKSIZE"
definition UNIQUE_THRESHOLD :: nat where "UNIQUE_THRESHOLD = 32"
definition HUGE_THRESHOLD :: nat where "HUGE_THRESHOLD = 256"
definition FL_COMPRESSION :: nat where "FL_COMPRESSION = 8"
definition N_HBLK_FLS :: nat where
  "N_HBLK_FLS = (HUGE_THRESHOLD - UNIQUE_THRESHOLD) div FL_COMPRESSION + UNIQUE_THRESHOLD"

definition PTRFREE :: nat where "PTRFREE = 0"

definition IS_UNCOLLECTABLE :: "nat \<Rightarrow> bool" where
  "IS_UNCOLLECTABLE k \<longleftrightarrow> k div 2 = 1"

definition BYTES_TO_GRANULES :: "nat \<Rightarrow> nat" where
  "BYTES_TO_GRANULES n = n div 16"

record obj_kind =
  ok_descriptor :: nat
  ok_relocate_descr :: bool

datatype os_call =
    Unmap nat nat
  | Remap nat nat
  | Unmap_gap nat nat nat nat
  | Remove_protection nat nat bool
  | Clear_block nat
  | Warn string

record heap_state =
  bl :: bl_state
  GC_obj_map :: "nat \<Rightarrow> nat list option"
  GC_valid_offsets :: "nat \<Rightarrow> bool"
  GC_obj_kinds :: "nat \<Rightarrow> obj_kind"
  GC_hblkfreelist :: "nat \<Rightarrow> nat"
  GC_free_bytes :: "nat \<Rightarrow> nat"
  GC_large_free_bytes :: nat
  GC_large_allocd_bytes :: nat
  GC_max_large_allocd_bytes :: nat
  GC_bytes_dropped :: nat
  GC_requested_heapsize :: nat
  GC_finalizer_bytes_freed :: nat
  GC_use_entire_heap :: bool
  GC_dont_gc :: bool
  GC_incremental :: bool
  GC_find_leak :: bool
  GC_debugging_started :: bool
  drop_count :: nat
  GC_large_alloc_warn_suppressed :: nat
  GC_large_alloc_warn_interval :: nat
  GC_fail_count :: nat
  GC_unmap_threshold :: nat
  os_calls :: "os_call list"

definition hdrs :: "heap_state \<Rightarrow> hdr_state" where
  "hdrs st = headers (bl st)"

definition set_hdrs :: "hdr_state \<Rightarrow> heap_state \<Rightarrow> heap_state" where
  "set_hdrs hs st = st\<lparr>bl := (bl st)\<lparr>headers := hs\<rparr>\<rparr>"

definition log_call :: "os_call \<Rightarrow> heap_state \<Rightarrow> heap_state" where
  "log_call c st = st\<lparr>os_calls := os_calls st @ [c]\<rparr>"

definition minus_word :: "nat \<Rightarrow> nat \<Rightarrow> nat" where
  "minus_word a b = (if b \<le> a then a - b else a + 2 ^ 64 - b)"

text \<open>Access to the header of the block at \<open>a\<close>; without one, the code follows a null pointer or a count.\<close>

definition get_hdr :: "nat \<Rightarrow> heap_state \<Rightarrow> stop + hdr" where
  "get_hdr a st = (case HDR a (hdrs st) of Hdr hhdr \<Rightarrow> Inr hhdr | Count n \<Rightarrow> Inl (Undefined ''no header''))"

text \<open>The header of the block at \<open>a\<close>, if there is one.\<close>

definition hdr_or_null :: "nat \<Rightarrow> heap_state \<Rightarrow> stop + hdr option" where
  "hdr_or_null a st = (case HDR a (hdrs st) of
      Hdr hhdr \<Rightarrow> Inr (Some hhdr)
    | Count n \<Rightarrow> if n = 0 then Inr None else Inl (Undefined ''a count used as a header''))"

definition put_hdr :: "nat \<Rightarrow> hdr \<Rightarrow> heap_state \<Rightarrow> stop + heap_state" where
  "put_hdr a hhdr st = sbind (SET_HDR a (Hdr hhdr) (hdrs st)) (\<lambda>hs. Inr (set_hdrs hs st))"

definition mod_hdr :: "nat \<Rightarrow> (hdr \<Rightarrow> hdr) \<Rightarrow> heap_state \<Rightarrow> stop + heap_state" where
  "mod_hdr a f st = sbind (get_hdr a st) (\<lambda>hhdr. put_hdr a (f hhdr) st)"

definition install_header :: "nat \<Rightarrow> heap_state \<Rightarrow> stop + hdr option \<times> heap_state" where
  "install_header a st =
     sbind (GC_install_header a (hdrs st)) (\<lambda>(r, hs). Inr (r, set_hdrs hs st))"

definition remove_header :: "nat \<Rightarrow> heap_state \<Rightarrow> stop + heap_state" where
  "remove_header a st = sbind (GC_remove_header a (hdrs st)) (\<lambda>hs. Inr (set_hdrs hs st))"

section \<open>Object maps\<close>

definition GC_add_map_entry :: "nat \<Rightarrow> heap_state \<Rightarrow> bool \<times> heap_state" where
  "GC_add_map_entry granules0 st =
     (let granules = (if granules0 > BYTES_TO_GRANULES MAXOBJBYTES then 0 else granules0) in
      if GC_obj_map st granules \<noteq> None then (True, st)
      else case GC_scratch_alloc (MAP_LEN * 2) (hdrs st) of (new_map, hs) \<Rightarrow>
        if new_map = 0 then (False, set_hdrs hs st)
        else (True, (set_hdrs hs st)\<lparr>GC_obj_map := (GC_obj_map st)(granules := Some
          (map (\<lambda>displ. if granules = 0 then 1 else displ mod granules) [0..<BYTES_TO_GRANULES HBLKSIZE]))\<rparr>))"

definition GC_register_displacement_inner :: "nat \<Rightarrow> heap_state \<Rightarrow> stop + heap_state" where
  "GC_register_displacement_inner offset st =
     (if offset \<ge> VALID_OFFSET_SZ then Inl (Abort ''Bad argument to GC_register_displacement'')
      else if \<not> GC_valid_offsets st offset then
        Inr (st\<lparr>GC_valid_offsets := (GC_valid_offsets st)(offset := True),
          bl := (bl st)\<lparr>GC_modws_valid_offsets := (GC_modws_valid_offsets (bl st))(offset mod 8 := True)\<rparr>\<rparr>)
      else Inr st)"

definition GC_initialize_offsets :: "heap_state \<Rightarrow> heap_state" where
  "GC_initialize_offsets st =
     (if GC_all_interior_pointers (bl st) then
        st\<lparr>GC_valid_offsets := (\<lambda>i. i < VALID_OFFSET_SZ \<or> GC_valid_offsets st i)\<rparr>
      else st\<lparr>GC_valid_offsets := (\<lambda>i. False), bl := (bl st)\<lparr>GC_modws_valid_offsets := (\<lambda>i. False)\<rparr>\<rparr>)"

section \<open>Free lists\<close>

text \<open>The loop downwards from \<open>N_HBLK_FLS\<close>; \<open>n1\<close> is one more than the code's \<open>n\<close>.\<close>

fun enough_loop :: "nat \<Rightarrow> nat \<Rightarrow> heap_state \<Rightarrow> nat" where
  "enough_loop 0 bytes st = 0"
| "enough_loop (Suc n) bytes st =
     (let bytes = bytes + GC_free_bytes st n in
      if bytes \<ge> GC_max_large_allocd_bytes st then n else enough_loop n bytes st)"

definition GC_enough_large_bytes_left :: "heap_state \<Rightarrow> nat" where
  "GC_enough_large_bytes_left st = enough_loop (N_HBLK_FLS + 1) (GC_large_allocd_bytes st) st"

definition GC_hblk_fl_from_blocks :: "nat \<Rightarrow> nat" where
  "GC_hblk_fl_from_blocks blocks_needed =
     (if blocks_needed \<le> UNIQUE_THRESHOLD then blocks_needed
      else if blocks_needed \<ge> HUGE_THRESHOLD then N_HBLK_FLS
      else (blocks_needed - UNIQUE_THRESHOLD) div FL_COMPRESSION + UNIQUE_THRESHOLD)"

definition IS_MAPPED :: "hdr \<Rightarrow> bool" where
  "IS_MAPPED hhdr \<longleftrightarrow> hb_flags hhdr AND WAS_UNMAPPED = 0"

text \<open>The sum along a free list, which has at most \<open>n\<close> entries.\<close>

fun free_loop :: "nat \<Rightarrow> nat \<Rightarrow> heap_state \<Rightarrow> stop + nat" where
  "free_loop 0 h st = (if h = 0 then Inr 0 else Inl No_Fuel)"
| "free_loop (Suc n) h st =
     (if h = 0 then Inr 0
      else sbind (get_hdr h st) (\<lambda>hhdr.
        sbind (free_loop n (hb_next hhdr) st) (\<lambda>s. Inr (hb_sz hhdr + s))))"

fun lists_loop :: "nat \<Rightarrow> nat list \<Rightarrow> heap_state \<Rightarrow> stop + nat" where
  "lists_loop n [] st = Inr 0"
| "lists_loop n (i # is) st =
     sbind (free_loop n (GC_hblkfreelist st i) st) (\<lambda>s.
     sbind (lists_loop n is st) (\<lambda>s'. Inr (s + s')))"

definition GC_compute_large_free_bytes :: "nat \<Rightarrow> heap_state \<Rightarrow> stop + nat" where
  "GC_compute_large_free_bytes n st = lists_loop n [0..<N_HBLK_FLS + 1] st"

definition HBLK_OBJS :: "nat \<Rightarrow> nat" where
  "HBLK_OBJS sz = HBLKSIZE div sz"

definition FINAL_MARK_BIT :: "nat \<Rightarrow> nat" where
  "FINAL_MARK_BIT sz = (if sz > MAXOBJBYTES then HBLKSIZE div GRANULE_BYTES else BYTES_TO_GRANULES (sz * HBLK_OBJS sz))"

definition GC_clear_hdr_marks :: "hdr \<Rightarrow> hdr" where
  "GC_clear_hdr_marks hhdr =
     (let last_bit = FINAL_MARK_BIT (hb_sz hhdr) in
      hhdr\<lparr>hb_marks := (replicate (HBLKSIZE div GRANULE_BYTES div 64 + 1) 0)
          [last_bit div 64 := push_bit (last_bit mod 64) 1], hb_n_marks := 0\<rparr>)"

definition setup_header :: "nat \<Rightarrow> nat \<Rightarrow> nat \<Rightarrow> nat \<Rightarrow> 8 word \<Rightarrow> heap_state \<Rightarrow> stop + bool \<times> heap_state" where
  "setup_header hp block byte_sz kind flags st =
     (let descr = ok_descriptor (GC_obj_kinds st kind) +
            (if ok_relocate_descr (GC_obj_kinds st kind) then byte_sz else 0);
          granules = BYTES_TO_GRANULES byte_sz in
      sbind (mod_hdr hp (\<lambda>hhdr. hhdr\<lparr>hb_sz := byte_sz, hb_obj_kind := kind, hb_flags := flags, hb_block := block,
        hb_descr := descr, hb_large_block := (byte_sz > MAXOBJBYTES)\<rparr>) st) (\<lambda>st.
      case GC_add_map_entry granules st of (ok, st) \<Rightarrow>
        if \<not> ok then
          sbind (mod_hdr hp (\<lambda>hhdr. hhdr\<lparr>hb_sz := HBLKSIZE, hb_descr := 0, hb_large_block := True, hb_map := None\<rparr>) st)
            (\<lambda>st. Inr (False, st))
        else
          sbind (mod_hdr hp (\<lambda>hhdr. (GC_clear_hdr_marks
              (hhdr\<lparr>hb_map := Some (if byte_sz > MAXOBJBYTES then 0 else granules)\<rparr>))
              \<lparr>hb_last_reclaimed := word_of_nat (GC_gc_no (hdrs st))\<rparr>) st)
            (\<lambda>st. Inr (True, st))))"

definition GC_remove_from_fl_at :: "nat \<Rightarrow> nat \<Rightarrow> heap_state \<Rightarrow> stop + heap_state" where
  "GC_remove_from_fl_at hp index st =
     sbind (get_hdr hp st) (\<lambda>hhdr.
     sbind (if hb_prev hhdr = 0 then
              Inr (st\<lparr>GC_hblkfreelist := (GC_hblkfreelist st)(index := hb_next hhdr)\<rparr>)
            else mod_hdr (hb_prev hhdr) (\<lambda>phdr. phdr\<lparr>hb_next := hb_next hhdr\<rparr>) st) (\<lambda>st.
     let st = st\<lparr>GC_free_bytes := (GC_free_bytes st)(index := minus_word (GC_free_bytes st index) (hb_sz hhdr))\<rparr> in
     if hb_next hhdr \<noteq> 0 then mod_hdr (hb_next hhdr) (\<lambda>nhdr. nhdr\<lparr>hb_prev := hb_prev hhdr\<rparr>) st
     else Inr st))"

definition GC_remove_from_fl :: "nat \<Rightarrow> heap_state \<Rightarrow> stop + heap_state" where
  "GC_remove_from_fl hp st =
     sbind (get_hdr hp st) (\<lambda>hhdr. GC_remove_from_fl_at hp (GC_hblk_fl_from_blocks (hb_sz hhdr div HBLKSIZE)) st)"

text \<open>Following forwarding counts, at most \<open>n\<close> of them.\<close>

fun start_loop :: "nat \<Rightarrow> nat \<Rightarrow> hdr_state \<Rightarrow> stop + nat \<times> hdr option" where
  "start_loop 0 p hs = Inl No_Fuel"
| "start_loop (Suc n) p hs =
     (case HDR p hs of
        Hdr phdr \<Rightarrow> Inr (p, Some phdr)
      | Count k \<Rightarrow> if k = 0 then Inr (p, None) else start_loop n (p - k * HBLKSIZE) hs)"

definition GC_free_block_ending_at :: "nat \<Rightarrow> heap_state \<Rightarrow> stop + nat" where
  "GC_free_block_ending_at h st =
     sbind (start_loop (h div HBLKSIZE + 1) (h - HBLKSIZE) (hdrs st)) (\<lambda>(p, r).
       case r of
         Some phdr \<Rightarrow> Inr (if HBLK_IS_FREE phdr then p else 0)
       | None \<Rightarrow>
           let p = GC_prev_block (h - HBLKSIZE) (hdrs st) in
           if p \<noteq> 0 then
             sbind (get_hdr p st) (\<lambda>phdr. Inr (if HBLK_IS_FREE phdr \<and> p + hb_sz phdr = h then p else 0))
           else Inr 0)"

definition GC_add_to_fl :: "nat \<Rightarrow> heap_state \<Rightarrow> stop + heap_state" where
  "GC_add_to_fl h st =
     sbind (get_hdr h st) (\<lambda>hhdr.
     let index = GC_hblk_fl_from_blocks (hb_sz hhdr div HBLKSIZE); second = GC_hblkfreelist st index;
         st = st\<lparr>GC_hblkfreelist := (GC_hblkfreelist st)(index := h),
           GC_free_bytes := (GC_free_bytes st)(index := GC_free_bytes st index + hb_sz hhdr)\<rparr> in
     sbind (mod_hdr h (\<lambda>hhdr. hhdr\<lparr>hb_next := second, hb_prev := 0\<rparr>) st) (\<lambda>st.
     sbind (if second \<noteq> 0 then mod_hdr second (\<lambda>shdr. shdr\<lparr>hb_prev := h\<rparr>) st else Inr st) (\<lambda>st.
     mod_hdr h (\<lambda>hhdr. hhdr\<lparr>hb_flags := hb_flags hhdr OR FREE_BLK\<rparr>) st)))"

section \<open>Unmapping\<close>

text \<open>\<open>(unsigned short)GC_gc_no - hb_last_reclaimed\<close> is computed as an \<open>int\<close>.\<close>

definition is_old :: "hdr \<Rightarrow> heap_state \<Rightarrow> bool" where
  "is_old hhdr st \<longleftrightarrow>
     uint (word_of_nat (GC_gc_no (hdrs st)) :: 16 word) - uint (hb_last_reclaimed hhdr) >
     uint (word_of_nat (GC_unmap_threshold st) :: 16 word)"

fun unmap_loop :: "nat \<Rightarrow> nat \<Rightarrow> heap_state \<Rightarrow> stop + heap_state" where
  "unmap_loop 0 h st = (if h = 0 then Inr st else Inl No_Fuel)"
| "unmap_loop (Suc n) h st =
     (if h = 0 then Inr st
      else sbind (get_hdr h st) (\<lambda>hhdr.
        sbind (if IS_MAPPED hhdr \<and> is_old hhdr st then
                 mod_hdr h (\<lambda>hhdr. hhdr\<lparr>hb_flags := hb_flags hhdr OR WAS_UNMAPPED\<rparr>)
                   (log_call (Unmap h (hb_sz hhdr)) st)
               else Inr st) (\<lambda>st.
          unmap_loop n (hb_next hhdr) st)))"

fun unmap_lists :: "nat \<Rightarrow> nat list \<Rightarrow> heap_state \<Rightarrow> stop + heap_state" where
  "unmap_lists n [] st = Inr st"
| "unmap_lists n (i # is) st =
     sbind (unmap_loop n (GC_hblkfreelist st i) st) (\<lambda>st. unmap_lists n is st)"

definition GC_unmap_old :: "nat \<Rightarrow> heap_state \<Rightarrow> stop + heap_state" where
  "GC_unmap_old n st =
     (if GC_unmap_threshold st = 0 then Inr st else unmap_lists n [0..<N_HBLK_FLS + 1] st)"

text \<open>Making two adjacent free blocks both mapped or both unmapped.\<close>

definition make_consistent :: "nat \<Rightarrow> nat \<Rightarrow> heap_state \<Rightarrow> stop + heap_state" where
  "make_consistent h nxt st =
     sbind (get_hdr h st) (\<lambda>hhdr. sbind (get_hdr nxt st) (\<lambda>nexthdr.
     let size = hb_sz hhdr; nextsize = hb_sz nexthdr in
     if IS_MAPPED hhdr \<and> \<not> IS_MAPPED nexthdr then
       if size > nextsize then Inr (log_call (Remap nxt nextsize) st)
       else mod_hdr h (\<lambda>hhdr. hhdr\<lparr>hb_flags := hb_flags hhdr OR WAS_UNMAPPED\<rparr>)
         (log_call (Unmap_gap h size nxt nextsize) (log_call (Unmap h size) st))
     else if IS_MAPPED nexthdr \<and> \<not> IS_MAPPED hhdr then
       if size > nextsize then
         Inr (log_call (Unmap_gap h size nxt nextsize) (log_call (Unmap nxt nextsize) st))
       else mod_hdr h (\<lambda>hhdr. hhdr\<lparr>hb_flags := hb_flags hhdr AND NOT WAS_UNMAPPED,
           hb_last_reclaimed := hb_last_reclaimed nexthdr\<rparr>) (log_call (Remap h size) st)
     else if \<not> IS_MAPPED hhdr \<and> \<not> IS_MAPPED nexthdr then
       Inr (log_call (Unmap_gap h size nxt nextsize) st)
     else Inr st))"

text \<open>Whether the next block is free and the sum of the sizes is a positive signed number.\<close>

definition mergeable :: "nat \<Rightarrow> hdr option \<Rightarrow> bool" where
  "mergeable sz nexthdr = (case nexthdr of
      None \<Rightarrow> False
    | Some nh \<Rightarrow> HBLK_IS_FREE nh \<and> 0 < sz + hb_sz nh \<and> sz + hb_sz nh < 2 ^ 63)"

fun coalesce_loop :: "nat \<Rightarrow> nat \<Rightarrow> nat \<Rightarrow> heap_state \<Rightarrow> stop + heap_state" where
  "coalesce_loop 0 i h st = (if h = 0 then Inr st else Inl No_Fuel)"
| "coalesce_loop (Suc n) i h st =
     (if h = 0 then Inr st
      else sbind (get_hdr h st) (\<lambda>hhdr.
        let size = hb_sz hhdr; nxt = h + size in
        sbind (hdr_or_null nxt st) (\<lambda>nexthdr.
        if mergeable size nexthdr then
          sbind (make_consistent h nxt st) (\<lambda>st.
          sbind (GC_remove_from_fl_at h i st) (\<lambda>st.
          sbind (GC_remove_from_fl nxt st) (\<lambda>st.
          sbind (get_hdr nxt st) (\<lambda>nexthdr.
          sbind (mod_hdr h (\<lambda>hhdr. hhdr\<lparr>hb_sz := hb_sz hhdr + hb_sz nexthdr\<rparr>) st) (\<lambda>st.
          sbind (remove_header nxt st) (\<lambda>st.
          sbind (GC_add_to_fl h st) (\<lambda>st.
            coalesce_loop n i (GC_hblkfreelist st i) st)))))))
        else coalesce_loop n i (hb_next hhdr) st)))"

fun coalesce_lists :: "nat \<Rightarrow> nat list \<Rightarrow> heap_state \<Rightarrow> stop + heap_state" where
  "coalesce_lists n [] st = Inr st"
| "coalesce_lists n (i # is) st =
     sbind (coalesce_loop n i (GC_hblkfreelist st i) st) (\<lambda>st. coalesce_lists n is st)"

definition GC_merge_unmapped :: "nat \<Rightarrow> heap_state \<Rightarrow> stop + heap_state" where
  "GC_merge_unmapped n st = coalesce_lists n [0..<N_HBLK_FLS + 1] st"

section \<open>Splitting\<close>

text \<open>The first \<open>bytes\<close> bytes of the free block at \<open>h\<close>; 0 if there is no memory for a header.\<close>

definition GC_get_first_part :: "nat \<Rightarrow> nat \<Rightarrow> nat \<Rightarrow> heap_state \<Rightarrow> stop + nat \<times> heap_state" where
  "GC_get_first_part h bytes index st =
     sbind (get_hdr h st) (\<lambda>hhdr.
     let total_size = hb_sz hhdr in
     sbind (GC_remove_from_fl_at h index st) (\<lambda>st.
     if total_size = bytes then Inr (h, st)
     else let rest = h + bytes in
       sbind (install_header rest st) (\<lambda>(r, st).
       if r = None then Inr (0, log_call (Warn ''Header allocation failed: Dropping block.'') st)
       else
         sbind (mod_hdr rest (\<lambda>rhdr. rhdr\<lparr>hb_sz := minus_word total_size bytes, hb_flags := 0\<rparr>) st) (\<lambda>st.
         sbind (GC_add_to_fl rest st) (\<lambda>st. Inr (h, st))))))"

definition GC_split_block :: "nat \<Rightarrow> nat \<Rightarrow> nat \<Rightarrow> heap_state \<Rightarrow> stop + heap_state" where
  "GC_split_block h n index st =
     sbind (get_hdr h st) (\<lambda>hhdr.
     let total_size = hb_sz hhdr; h_size = minus_word n h; prev = hb_prev hhdr; nxt = hb_next hhdr in
     sbind (mod_hdr n (\<lambda>nhdr. nhdr\<lparr>hb_prev := prev, hb_next := nxt, hb_sz := minus_word total_size h_size,
       hb_flags := 0\<rparr>) st) (\<lambda>st.
     sbind (if prev \<noteq> 0 then mod_hdr prev (\<lambda>phdr. phdr\<lparr>hb_next := n\<rparr>) st
            else Inr (st\<lparr>GC_hblkfreelist := (GC_hblkfreelist st)(index := n)\<rparr>)) (\<lambda>st.
     sbind (if nxt \<noteq> 0 then mod_hdr nxt (\<lambda>nhdr. nhdr\<lparr>hb_prev := n\<rparr>) st else Inr st) (\<lambda>st.
     let st = st\<lparr>GC_free_bytes := (GC_free_bytes st)(index := minus_word (GC_free_bytes st index) h_size)\<rparr> in
     sbind (mod_hdr h (\<lambda>hhdr. hhdr\<lparr>hb_last_reclaimed := word_of_nat (GC_gc_no (hdrs st)), hb_sz := h_size\<rparr>) st) (\<lambda>st.
     sbind (GC_add_to_fl h st) (\<lambda>st.
     mod_hdr n (\<lambda>nhdr. nhdr\<lparr>hb_flags := hb_flags nhdr OR FREE_BLK\<rparr>) st))))))"

section \<open>Allocation\<close>

definition AVOID_SPLIT_REMAPPED :: nat where "AVOID_SPLIT_REMAPPED = 2"

text \<open>The blocks that the search passes over because of the black lists, and where it ends.\<close>

fun bl_search :: "nat \<Rightarrow> nat \<Rightarrow> nat \<Rightarrow> nat \<Rightarrow> heap_state \<Rightarrow> stop + nat" where
  "bl_search 0 lasthbp search_end eff st = Inl No_Fuel"
| "bl_search (Suc k) lasthbp search_end eff st =
     (if lasthbp \<le> search_end then
        sbind (GC_is_black_listed lasthbp eff (bl st)) (\<lambda>thishbp.
          if thishbp \<noteq> 0 then bl_search k thishbp search_end eff st else Inr lasthbp)
      else Inr lasthbp)"

text \<open>
  The loop that allocates and drops the \<open>k\<close> blocks from \<open>h\<close> on; \<open>hp\<close> is the header that is set up.
\<close>

fun drop_loop :: "nat \<Rightarrow> nat \<Rightarrow> nat option \<Rightarrow> nat \<Rightarrow> heap_state \<Rightarrow> stop + heap_state" where
  "drop_loop 0 hbp hp h st = Inr st"
| "drop_loop (Suc k) hbp hp h st =
     sbind (if h \<noteq> hbp then sbind (install_header h st) (\<lambda>(r, st). Inr (if r = None then None else Some h, st))
            else Inr (hp, st)) (\<lambda>(hp, st).
     sbind (case hp of
         None \<Rightarrow> Inr st
       | Some a \<Rightarrow> sbind (setup_header a h HBLKSIZE PTRFREE 0 st) (\<lambda>(_, st).
           Inr (if GC_debugging_started st then log_call (Clear_block h) st else st))) (\<lambda>st.
     drop_loop k hbp hp (h + HBLKSIZE) st))"

definition drop_block :: "nat \<Rightarrow> nat \<Rightarrow> heap_state \<Rightarrow> stop + heap_state" where
  "drop_block hbp n st =
     sbind (get_hdr hbp st) (\<lambda>hhdr.
     let total_size = hb_sz hhdr;
         st = st\<lparr>GC_large_free_bytes := minus_word (GC_large_free_bytes st) total_size,
           GC_bytes_dropped := GC_bytes_dropped st + total_size\<rparr> in
     sbind (GC_remove_from_fl_at hbp n st) (\<lambda>st.
       drop_loop (total_size div HBLKSIZE) hbp (Some hbp) hbp st))"

definition remap :: "nat \<Rightarrow> heap_state \<Rightarrow> stop + heap_state" where
  "remap hbp st =
     sbind (get_hdr hbp st) (\<lambda>hhdr.
       if \<not> IS_MAPPED hhdr then
         mod_hdr hbp (\<lambda>hhdr. hhdr\<lparr>hb_flags := hb_flags hhdr AND NOT WAS_UNMAPPED\<rparr>)
           (log_call (Remap hbp (hb_sz hhdr)) st)
       else Inr st)"

text \<open>
  What the search decides for the block at \<open>hbp\<close>: to go on behind a block, to start again, or to use a
  block. \<open>better_next\<close> is the test for a next block that fits better.
\<close>

datatype verdict = Continue_from nat | Restart | Use nat

definition better_next :: "nat \<Rightarrow> nat \<Rightarrow> nat \<Rightarrow> heap_state \<Rightarrow> stop + bool" where
  "better_next thishbp size_avail size_needed st =
     (if thishbp \<noteq> 0 then
        sbind (get_hdr thishbp st) (\<lambda>thishdr.
        let next_size = hb_sz thishdr in
        if next_size < size_avail \<and> next_size \<ge> size_needed then
          sbind (GC_is_black_listed thishbp size_needed (bl st)) (\<lambda>r. Inr (r = 0))
        else Inr False)
      else Inr False)"

definition all_black_listed :: "nat \<Rightarrow> nat \<Rightarrow> heap_state \<Rightarrow> stop + verdict \<times> heap_state" where
  "all_black_listed hbp n st =
     (let st = st\<lparr>drop_count := drop_count st + 1\<rparr> in
      if drop_count st mod 4 = 0 then
        sbind (get_hdr hbp st) (\<lambda>hhdr.
        sbind (drop_block hbp n st) (\<lambda>st.
          Inr (if hb_prev hhdr = 0 then Restart else Continue_from (hb_prev hhdr), st)))
      else Inr (Continue_from hbp, st))"

definition consider_block ::
  "nat \<Rightarrow> nat \<Rightarrow> nat \<Rightarrow> 8 word \<Rightarrow> nat \<Rightarrow> nat \<Rightarrow> nat \<Rightarrow> heap_state \<Rightarrow> stop + verdict \<times> heap_state" where
  "consider_block fuel size_needed kind flags n may_split hbp st =
     sbind (get_hdr hbp st) (\<lambda>hhdr.
     let size_avail = hb_sz hhdr in
     if size_avail < size_needed then Inr (Continue_from hbp, st)
     else
       sbind (if size_avail \<noteq> size_needed then
                if may_split = 0 then Inr True
                else better_next (hb_next hhdr) size_avail size_needed st
              else Inr False) (\<lambda>go_on.
       if go_on then Inr (Continue_from hbp, st)
       else if \<not> IS_UNCOLLECTABLE kind \<and> (kind \<noteq> PTRFREE \<or> size_needed > MAX_BLACK_LIST_ALLOC) then
         sbind (bl_search fuel hbp (hbp + size_avail - size_needed)
             (if flags AND IGNORE_OFF_PAGE \<noteq> 0 then HBLKSIZE else size_needed) st) (\<lambda>thishbp.
         if thishbp - hbp + size_needed \<le> size_avail then
           if thishbp \<noteq> hbp then
             if may_split = AVOID_SPLIT_REMAPPED \<and> \<not> IS_MAPPED hhdr then Inr (Continue_from hbp, st)
             else
               sbind (install_header thishbp st) (\<lambda>(r, st).
               if r = None then Inr (Use hbp, st)
               else
                 sbind (remap hbp st) (\<lambda>st.
                 sbind (GC_split_block hbp thishbp n st) (\<lambda>st. Inr (Use thishbp, st))))
           else Inr (Use hbp, st)
         else if size_needed > GC_black_list_spacing (bl st) \<and>
             size_avail - size_needed > GC_black_list_spacing (bl st) then
           (let k = GC_large_alloc_warn_suppressed st + 1 in
            Inr (Use hbp, if k \<ge> GC_large_alloc_warn_interval st
              then (log_call (Warn ''Repeated allocation of very large block'') st)\<lparr>GC_large_alloc_warn_suppressed := 0\<rparr>
              else st\<lparr>GC_large_alloc_warn_suppressed := k\<rparr>))
         else if thishbp - hbp = size_avail \<and> size_needed = HBLKSIZE \<and> IS_MAPPED hhdr \<and> \<not> GC_find_leak st then
           all_black_listed hbp n st
         else Inr (Continue_from hbp, st))
       else Inr (Use hbp, st)))"

text \<open>The search of list \<open>n\<close>, with at most \<open>k\<close> blocks looked at.\<close>

fun search_loop ::
  "nat \<Rightarrow> nat \<Rightarrow> nat \<Rightarrow> nat \<Rightarrow> 8 word \<Rightarrow> nat \<Rightarrow> nat \<Rightarrow> nat \<Rightarrow> heap_state \<Rightarrow> stop + nat \<times> nat \<times> heap_state" where
  "search_loop 0 fuel size_needed kind flags n may_split hbp st = (if hbp = 0 then Inr (0, 0, st) else Inl No_Fuel)"
| "search_loop (Suc k) fuel size_needed kind flags n may_split hbp st =
     (if hbp = 0 then Inr (0, 0, st)
      else sbind (consider_block fuel size_needed kind flags n may_split hbp st) (\<lambda>(v, st).
        case v of
          Continue_from h \<Rightarrow> sbind (get_hdr h st) (\<lambda>hhdr.
            search_loop k fuel size_needed kind flags n may_split (hb_next hhdr) st)
        | Restart \<Rightarrow> search_loop k fuel size_needed kind flags n may_split (GC_hblkfreelist st n) st
        | Use h \<Rightarrow> sbind (remap h st) (\<lambda>st.
            sbind (GC_get_first_part h size_needed n st) (\<lambda>(r, st). Inr (r, h, st)))))"

definition GC_allochblk_nth ::
  "nat \<Rightarrow> nat \<Rightarrow> nat \<Rightarrow> 8 word \<Rightarrow> nat \<Rightarrow> nat \<Rightarrow> heap_state \<Rightarrow> stop + nat \<times> heap_state" where
  "GC_allochblk_nth fuel sz kind flags n may_split st =
     (let size_needed = HBLKSIZE * OBJ_SZ_TO_BLOCKS sz in
      sbind (search_loop fuel fuel size_needed kind flags n may_split (GC_hblkfreelist st n) st) (\<lambda>(hbp, hp, st).
      if hbp = 0 then Inr (0, st)
      else
        sbind (GC_install_counts hbp size_needed (hdrs st)) (\<lambda>(ok, hs).
        let st = set_hdrs hs st in
        if \<not> ok then Inr (0, st)
        else
          sbind (setup_header hp hbp sz kind flags st) (\<lambda>(ok, st).
          if \<not> ok then
            sbind (GC_remove_counts hbp size_needed (hdrs st)) (\<lambda>hs. Inr (0, set_hdrs hs st))
          else
            sbind (get_hdr hp st) (\<lambda>hhdr.
            let st = log_call (Remove_protection hbp (size_needed div HBLKSIZE) (hb_descr hhdr = 0)) st in
            Inr (hbp, st\<lparr>GC_fail_count := 0,
              GC_large_free_bytes := minus_word (GC_large_free_bytes st) size_needed\<rparr>))))))"

text \<open>The loop over the lists from \<open>start_list\<close>, at most \<open>k\<close> of them.\<close>

fun alloc_lists ::
  "nat \<Rightarrow> nat \<Rightarrow> nat \<Rightarrow> nat \<Rightarrow> 8 word \<Rightarrow> nat \<Rightarrow> nat \<Rightarrow> heap_state \<Rightarrow> stop + nat \<times> heap_state" where
  "alloc_lists 0 fuel sz kind flags start_list may_split st = Inr (0, st)"
| "alloc_lists (Suc k) fuel sz kind flags start_list may_split st =
     sbind (GC_allochblk_nth fuel sz kind flags start_list may_split st) (\<lambda>(result, st).
       if result \<noteq> 0 then Inr (result, st)
       else alloc_lists k fuel sz kind flags (start_list + 1) may_split st)"

text \<open>\<open>should_collect\<close> is the answer of \<open>GC_should_collect\<close> (\<open>alloc.c\<close>) in the state at the call.\<close>

definition GC_allochblk ::
  "(heap_state \<Rightarrow> bool) \<Rightarrow> nat \<Rightarrow> nat \<Rightarrow> nat \<Rightarrow> 8 word \<Rightarrow> heap_state \<Rightarrow> stop + nat \<times> heap_state" where
  "GC_allochblk should_collect fuel sz kind flags st =
     (let blocks = OBJ_SZ_TO_BLOCKS sz in
      if blocks * HBLKSIZE \<ge> 2 ^ 63 then Inr (0, st)
      else
        let start_list = GC_hblk_fl_from_blocks blocks in
        sbind (GC_allochblk_nth fuel sz kind flags start_list 0 st) (\<lambda>(result, st).
        if result \<noteq> 0 then Inr (result, st)
        else
          let (split_limit, may_split) =
            (if GC_use_entire_heap st \<or> GC_dont_gc st \<or>
                minus_word (GC_heapsize (bl st)) (GC_large_free_bytes st) < GC_requested_heapsize st \<or>
                GC_incremental st \<or> \<not> should_collect st
             then (N_HBLK_FLS, 1)
             else if GC_finalizer_bytes_freed st > GC_heapsize (bl st) div 16 then (0, 1)
             else let l = GC_enough_large_bytes_left st in (l, if l > 0 then AVOID_SPLIT_REMAPPED else 1));
            start_list = (if start_list < UNIQUE_THRESHOLD then start_list + 1 else start_list) in
          alloc_lists (split_limit + 1 - start_list) fuel sz kind flags start_list may_split st))"

section \<open>Release\<close>

definition merge_next :: "nat \<Rightarrow> nat \<Rightarrow> hdr option \<Rightarrow> heap_state \<Rightarrow> stop + heap_state" where
  "merge_next hbp nxt nexthdr st =
     sbind (get_hdr hbp st) (\<lambda>hhdr.
     if mergeable (hb_sz hhdr) nexthdr \<and> (\<forall>nh. nexthdr = Some nh \<longrightarrow> IS_MAPPED nh) then
       sbind (GC_remove_from_fl nxt st) (\<lambda>st.
       sbind (get_hdr nxt st) (\<lambda>nexthdr.
       sbind (mod_hdr hbp (\<lambda>hhdr. hhdr\<lparr>hb_sz := hb_sz hhdr + hb_sz nexthdr\<rparr>) st) (\<lambda>st.
         remove_header nxt st)))
     else Inr st)"

text \<open>The block that the memory is part of afterwards.\<close>

definition merge_prev :: "nat \<Rightarrow> nat \<Rightarrow> heap_state \<Rightarrow> stop + nat \<times> heap_state" where
  "merge_prev hbp prev st =
     (if prev \<noteq> 0 then
        sbind (get_hdr hbp st) (\<lambda>hhdr. sbind (get_hdr prev st) (\<lambda>prevhdr.
        if IS_MAPPED prevhdr \<and> 0 < hb_sz hhdr + hb_sz prevhdr \<and> hb_sz hhdr + hb_sz prevhdr < 2 ^ 63 then
          sbind (GC_remove_from_fl prev st) (\<lambda>st.
          sbind (mod_hdr prev (\<lambda>prevhdr. prevhdr\<lparr>hb_sz := hb_sz prevhdr + hb_sz hhdr,
            hb_last_reclaimed := word_of_nat (GC_gc_no (hdrs st))\<rparr>) st) (\<lambda>st.
          sbind (remove_header hbp st) (\<lambda>st. Inr (prev, st))))
        else Inr (hbp, st)))
      else Inr (hbp, st))"

definition GC_freehblk :: "nat \<Rightarrow> heap_state \<Rightarrow> stop + heap_state" where
  "GC_freehblk hbp st =
     sbind (get_hdr hbp st) (\<lambda>hhdr.
     let size = HBLKSIZE * OBJ_SZ_TO_BLOCKS (hb_sz hhdr) in
     if size = 0 \<or> size \<ge> 2 ^ 63 then Inl (Abort ''Deallocating excessively large block.  Too large an allocation?'')
     else
       sbind (GC_remove_counts hbp size (hdrs st)) (\<lambda>hs.
       let st = set_hdrs hs st in
       sbind (mod_hdr hbp (\<lambda>hhdr. hhdr\<lparr>hb_sz := size, hb_last_reclaimed := word_of_nat (GC_gc_no (hdrs st))\<rparr>) st) (\<lambda>st.
       if HBLK_IS_FREE hhdr then Inl (Abort ''Duplicate large block deallocation'')
       else
         sbind (mod_hdr hbp (\<lambda>hhdr. hhdr\<lparr>hb_flags := hb_flags hhdr OR FREE_BLK\<rparr>) st) (\<lambda>st.
         sbind (hdr_or_null (hbp + size) st) (\<lambda>nexthdr.
         sbind (GC_free_block_ending_at hbp st) (\<lambda>prev.
         sbind (merge_next hbp (hbp + size) nexthdr st) (\<lambda>st.
         sbind (merge_prev hbp prev st) (\<lambda>(hbp, st).
           GC_add_to_fl hbp (st\<lparr>GC_large_free_bytes := GC_large_free_bytes st + size\<rparr>)))))))))"

end
