(* ===== verification/GcHblkLists.thy ===== *)
theory GcHblkLists
  imports GcHblk
begin

text \<open>
  The free lists of \<open>allchblk.c\<close> as lists of block numbers: the doubly linked lists in the headers, what
  removing and inserting a block does to them, and the release of a block, which keeps the whole heap
  consistent and merges free neighbours.
\<close>

section \<open>Headers as a map\<close>

abbreviation ent :: "heap_state \<Rightarrow> nat \<Rightarrow> hdr_entry" where
  "ent st \<equiv> entry (hdrs st)"

lemma set_hdrs_simps [simp]:
  "hdrs (set_hdrs hs st) = hs" "set_hdrs hs (set_hdrs hs' st) = set_hdrs hs st" "set_hdrs (hdrs st) st = st"
  "GC_hblkfreelist (set_hdrs hs st) = GC_hblkfreelist st" "GC_free_bytes (set_hdrs hs st) = GC_free_bytes st"
  "GC_large_free_bytes (set_hdrs hs st) = GC_large_free_bytes st" "GC_obj_map (set_hdrs hs st) = GC_obj_map st"
  by (simp_all add: hdrs_def set_hdrs_def)

lemma hdrs_update_simps [simp]:
  "hdrs (st\<lparr>GC_hblkfreelist := F\<rparr>) = hdrs st" "hdrs (st\<lparr>GC_free_bytes := B\<rparr>) = hdrs st"
  "hdrs (st\<lparr>GC_large_free_bytes := n\<rparr>) = hdrs st"
  by (simp_all add: hdrs_def)

lemma same_updates [simp]:
  "(set_hdrs hs st)\<lparr>GC_hblkfreelist := GC_hblkfreelist st\<rparr> = set_hdrs hs st"
  "st\<lparr>GC_hblkfreelist := GC_hblkfreelist st\<rparr> = st"
  by (cases st; simp add: set_hdrs_def)+

lemma HBLKSIZE_pos [simp]: "HBLKSIZE \<noteq> 0" "0 < HBLKSIZE"
  by (simp_all add: HBLKSIZE_def)

lemma HDR_block [simp]: "HDR (b * HBLKSIZE) hs = entry hs b"
  by (simp add: entry_def)

lemma block_mult [simp]: "b * HBLKSIZE div HBLKSIZE = b" "b * HBLKSIZE = c * HBLKSIZE \<longleftrightarrow> b = c" "b * HBLKSIZE = 0 \<longleftrightarrow> b = 0"
  "b * HBLKSIZE mod HBLKSIZE = 0"
  by (simp_all add: HBLKSIZE_def)

lemma get_hdr_ok: "ent st b = Hdr hhdr \<Longrightarrow> get_hdr (b * HBLKSIZE) st = Inr hhdr"
  by (simp add: get_hdr_def)

text \<open>Links are all that the list operations change in other headers.\<close>

fun core :: "hdr_entry \<Rightarrow> hdr_entry" where
  "core (Count n) = Count n"
| "core (Hdr hhdr) = Hdr (hhdr\<lparr>hb_next := 0, hb_prev := 0\<rparr>)"

definition cores :: "heap_state \<Rightarrow> nat \<Rightarrow> hdr_entry" where
  "cores st b = core (ent st b)"

definition sz :: "(nat \<Rightarrow> hdr_entry) \<Rightarrow> nat \<Rightarrow> nat" where
  "sz e b = (case e b of Hdr hhdr \<Rightarrow> hb_sz hhdr | Count n \<Rightarrow> 0)"

lemma mod_hdr_ok:
  assumes "index_ok (hdrs st)" "ent st b = Hdr hhdr"
  shows "\<exists>hs. mod_hdr (b * HBLKSIZE) f st = Inr (set_hdrs hs st) \<and> index_ok hs \<and>
    entry hs = (ent st)(b := Hdr (f hhdr))"
proof -
  have "has_index (hdrs st) b"
    using assms has_hdr_index by (simp add: has_hdr_def)
  then obtain hs where "SET_HDR (b * HBLKSIZE) (Hdr (f hhdr)) (hdrs st) = Inr hs" "index_ok hs"
      "entry hs = (ent st)(b := Hdr (f hhdr))"
    using SET_HDR_ok [of "hdrs st" "b * HBLKSIZE" "Hdr (f hhdr)"] assms(1) by auto
  then show ?thesis
    using get_hdr_ok [OF assms(2)] by (auto simp: mod_hdr_def put_hdr_def)
qed

section \<open>Doubly linked lists\<close>

fun seg :: "(nat \<Rightarrow> hdr_entry) \<Rightarrow> nat \<Rightarrow> nat \<Rightarrow> nat list \<Rightarrow> nat \<Rightarrow> bool" where
  "seg e prev first [] nxt \<longleftrightarrow> first = nxt"
| "seg e prev first (b # bs) nxt \<longleftrightarrow> first = b * HBLKSIZE \<and> 0 < b \<and>
     (\<exists>hhdr. e b = Hdr hhdr \<and> hb_prev hhdr = prev \<and> seg e (b * HBLKSIZE) (hb_next hhdr) bs nxt)"

definition lst :: "nat \<Rightarrow> nat list \<Rightarrow> nat" where
  "lst prev bs = (if bs = [] then prev else last bs * HBLKSIZE)"

lemma lst_simps [simp]: "lst prev [] = prev" "lst prev (b # bs) = lst (b * HBLKSIZE) bs"
  by (simp_all add: lst_def)

lemma seg_append: "seg e p f (xs @ ys) n \<longleftrightarrow> (\<exists>m. seg e p f xs m \<and> seg e (lst p xs) m ys n)"
  by (induction xs arbitrary: p f) auto

lemma seg_cong: "(\<And>b. b \<in> set bs \<Longrightarrow> e' b = e b) \<Longrightarrow> seg e' p f bs n = seg e p f bs n"
  by (induction bs arbitrary: p f) auto

lemma seg_links:
  "(\<And>b hhdr. b \<in> set bs \<Longrightarrow> e b = Hdr hhdr \<Longrightarrow>
      \<exists>h'. e' b = Hdr h' \<and> hb_prev h' = hb_prev hhdr \<and> hb_next h' = hb_next hhdr) \<Longrightarrow>
    seg e p f bs n \<Longrightarrow> seg e' p f bs n"
  by (induction bs arbitrary: p f) (auto, metis)

lemma seg_first: "seg e p f bs n \<Longrightarrow> f = (case bs of [] \<Rightarrow> n | b # _ \<Rightarrow> b * HBLKSIZE)"
  by (cases bs) auto

lemma seg_set_next:
  "seg e p f xs n \<Longrightarrow> xs \<noteq> [] \<Longrightarrow> distinct xs \<Longrightarrow> e (last xs) = Hdr hhdr \<Longrightarrow>
    seg (e(last xs := Hdr (hhdr\<lparr>hb_next := n'\<rparr>))) p f xs n'"
proof (induction xs arbitrary: p f)
  case (Cons b xs)
  show ?case
  proof (cases "xs = []")
    case False
    then have "b \<noteq> last xs"
      using Cons.prems(3) last_in_set [OF False] by auto
    then show ?thesis
      using Cons False by auto
  qed (use Cons in auto)
qed simp

lemma seg_set_prev:
  assumes "seg e p f (y # ys) n" "distinct (y # ys)" "e y = Hdr hhdr"
  shows "seg (e(y := Hdr (hhdr\<lparr>hb_prev := p'\<rparr>))) p' f (y # ys) n"
proof -
  have "seg (e(y := Hdr (hhdr\<lparr>hb_prev := p'\<rparr>))) q g ys n = seg e q g ys n" for q g
    by (rule seg_cong) (use assms(2) in auto)
  then show ?thesis
    using assms by auto
qed

lemma seg_hdr: "seg e p f bs n \<Longrightarrow> b \<in> set bs \<Longrightarrow> 0 < b \<and> (\<exists>hhdr. e b = Hdr hhdr)"
  by (induction bs arbitrary: p f) auto

text \<open>The lists \<open>L i\<close> of the blocks on every free list, and the byte counts.\<close>

definition lists_ok :: "heap_state \<Rightarrow> (nat \<Rightarrow> nat list) \<Rightarrow> bool" where
  "lists_ok st L \<longleftrightarrow> index_ok (hdrs st) \<and>
     (\<forall>i. seg (ent st) 0 (GC_hblkfreelist st i) (L i) 0 \<and> distinct (L i) \<and>
       GC_free_bytes st i = sum_list (map (sz (ent st)) (L i))) \<and>
     (\<forall>i j. i \<noteq> j \<longrightarrow> set (L i) \<inter> set (L j) = {})"

definition listed_blocks :: "(nat \<Rightarrow> nat list) \<Rightarrow> nat set" where
  "listed_blocks L = (\<Union>i. set (L i))"

lemma sz_core: "core (e' b) = core (e b) \<Longrightarrow> sz e' b = sz e b"
  by (cases "e b"; cases "e' b") (simp_all add: sz_def hdr.ext_inject hdr.splits)

text \<open>What taking a block out of the middle does to the headers around it.\<close>

definition unlinked :: "(nat \<Rightarrow> hdr_entry) \<Rightarrow> nat \<Rightarrow> nat \<Rightarrow> nat list \<Rightarrow> nat list \<Rightarrow> nat \<Rightarrow> (nat \<Rightarrow> hdr_entry) \<Rightarrow> nat \<Rightarrow> bool" where
  "unlinked e p f xs ys n e' f' \<longleftrightarrow> seg e' p f' (xs @ ys) n \<and> (\<forall>c. c \<notin> set xs \<union> set ys \<longrightarrow> e' c = e c) \<and>
     (\<forall>c. core (e' c) = core (e c))"

lemma seg_unlink:
  assumes seg: "seg e p f (xs @ b # ys) n" and dist: "distinct (xs @ b # ys)" and hdr: "e b = Hdr hhdr"
  defines "e1 \<equiv> (if xs = [] then e else e(last xs := Hdr ((case e (last xs) of Hdr h \<Rightarrow> h)\<lparr>hb_next := hb_next hhdr\<rparr>)))"
  defines "e2 \<equiv> (if ys = [] then e1 else e1(hd ys := Hdr ((case e1 (hd ys) of Hdr h \<Rightarrow> h)\<lparr>hb_prev := hb_prev hhdr\<rparr>)))"
  shows "unlinked e p f xs ys n e2 (if xs = [] then hb_next hhdr else f)"
    and "hb_prev hhdr = lst p xs" "hb_next hhdr = (case ys of [] \<Rightarrow> n | y # _ \<Rightarrow> y * HBLKSIZE)"
proof -
  have xs: "seg e p f xs (b * HBLKSIZE)" and prev: "hb_prev hhdr = lst p xs"
    and ys: "seg e (b * HBLKSIZE) (hb_next hhdr) ys n"
    using seg hdr by (auto simp: seg_append)
  show "hb_prev hhdr = lst p xs"
    by (rule prev)
  show nxt: "hb_next hhdr = (case ys of [] \<Rightarrow> n | y # _ \<Rightarrow> y * HBLKSIZE)"
    by (rule seg_first [OF ys])
  have e1: "seg e1 p (if xs = [] then hb_next hhdr else f) xs (hb_next hhdr)"
  proof (cases "xs = []")
    case False
    then obtain h where h: "e (last xs) = Hdr h"
      using seg_hdr [OF xs, of "last xs"] by auto
    show ?thesis
      using seg_set_next [OF xs False _ h, of "hb_next hhdr"] dist False h by (simp add: e1_def)
  qed simp
  have e1_ys: "e1 c = e c" if "c \<notin> set xs" for c
    using that last_in_set [of xs] by (auto simp: e1_def)
  have ys1: "seg e1 (b * HBLKSIZE) (hb_next hhdr) ys n"
  proof -
    have "seg e1 (b * HBLKSIZE) (hb_next hhdr) ys n = seg e (b * HBLKSIZE) (hb_next hhdr) ys n"
      by (rule seg_cong, rule e1_ys) (use dist in auto)
    then show ?thesis
      using ys by simp
  qed
  have e2_xs: "seg e2 p (if xs = [] then hb_next hhdr else f) xs (hb_next hhdr)"
  proof -
    have "e2 c = e1 c" if "c \<in> set xs" for c
      using that dist hd_in_set [of ys] by (auto simp: e2_def)
    then show ?thesis
      using e1 seg_cong [of xs e2 e1] by blast
  qed
  moreover have "seg e2 (lst p xs) (hb_next hhdr) ys n"
  proof (cases ys)
    case Nil
    then show ?thesis
      using ys1 by simp
  next
    case (Cons y ys')
    then obtain h where h: "e1 y = Hdr h"
      using seg_hdr [OF ys1, of y] by auto
    show ?thesis
      using seg_set_prev [OF ys1 [unfolded Cons] _ h, of "hb_prev hhdr"] dist Cons h prev by (simp add: e2_def)
  qed
  ultimately have "seg e2 p (if xs = [] then hb_next hhdr else f) (xs @ ys) n"
    by (auto simp: seg_append)
  moreover have "e2 c = e c" if "c \<notin> set xs \<union> set ys" for c
    using that e1_ys hd_in_set [of ys] by (auto simp: e2_def)
  moreover have "core (e1 c) = core (e c)" for c
    using seg_hdr [OF xs] last_in_set [of xs] by (fastforce simp: e1_def)
  moreover have "core (e2 c) = core (e1 c)" for c
    using seg_hdr [OF ys1] hd_in_set [of ys] by (fastforce simp: e2_def)
  ultimately show "unlinked e p f xs ys n e2 (if xs = [] then hb_next hhdr else f)"
    by (simp add: unlinked_def)
qed

lemma remove_from_fl_at_ok:
  assumes ok: "lists_ok st L" and b: "b \<in> set (L i)"
  shows "\<exists>st'. GC_remove_from_fl_at (b * HBLKSIZE) i st = Inr st' \<and> lists_ok st' (L(i := remove1 b (L i))) \<and>
    ent st' b = ent st b \<and> cores st' = cores st \<and> (\<forall>c. c \<notin> set (L i) \<longrightarrow> ent st' c = ent st c) \<and>
    GC_large_free_bytes st' = GC_large_free_bytes st \<and> GC_free_bytes st' =
      (GC_free_bytes st)(i := GC_free_bytes st i - sz (ent st) b)"
proof -
  obtain xs ys where L: "L i = xs @ b # ys" "b \<notin> set xs"
    using split_list_first [OF b] by blast
  have seg: "seg (ent st) 0 (GC_hblkfreelist st i) (xs @ b # ys) 0" and dist: "distinct (xs @ b # ys)"
    and index: "index_ok (hdrs st)"
    and bytes: "GC_free_bytes st i = sum_list (map (sz (ent st)) (xs @ b # ys))"
    unfolding L(1) [symmetric] using ok by (simp_all add: lists_ok_def)
  obtain hhdr where hdr: "ent st b = Hdr hhdr"
    using seg_hdr [OF seg, of b] by auto
  let ?e = "ent st"
  define e1 where "e1 = (if xs = [] then ?e else ?e(last xs := Hdr ((case ?e (last xs) of Hdr h \<Rightarrow> h)\<lparr>hb_next := hb_next hhdr\<rparr>)))"
  define e2 where "e2 = (if ys = [] then e1 else e1(hd ys := Hdr ((case e1 (hd ys) of Hdr h \<Rightarrow> h)\<lparr>hb_prev := hb_prev hhdr\<rparr>)))"
  note un = seg_unlink [OF seg dist hdr, folded e1_def, folded e2_def]
  define F where "F = (if xs = [] then (GC_hblkfreelist st)(i := hb_next hhdr) else GC_hblkfreelist st)"
  obtain h1 where h1: "index_ok h1" "entry h1 = e1" and step1:
    "(if hb_prev hhdr = 0 then Inr (st\<lparr>GC_hblkfreelist := (GC_hblkfreelist st)(i := hb_next hhdr)\<rparr>)
      else mod_hdr (hb_prev hhdr) (\<lambda>phdr. phdr\<lparr>hb_next := hb_next hhdr\<rparr>) st) =
     Inr ((set_hdrs h1 st)\<lparr>GC_hblkfreelist := F\<rparr>)"
  proof (cases "xs = []")
    case True
    then show ?thesis
      using that [of "hdrs st"] index un(2) by (simp add: e1_def F_def)
  next
    case False
    then obtain h where h: "0 < last xs" "?e (last xs) = Hdr h"
      using seg_hdr [OF seg, of "last xs"] by auto
    obtain hs where "mod_hdr (last xs * HBLKSIZE) (\<lambda>phdr. phdr\<lparr>hb_next := hb_next hhdr\<rparr>) st = Inr (set_hdrs hs st)"
        "index_ok hs" "entry hs = ?e(last xs := Hdr (h\<lparr>hb_next := hb_next hhdr\<rparr>))"
      using mod_hdr_ok [OF index h(2)] by blast
    then show ?thesis
      using that [of hs] False h un(2) by (simp add: e1_def F_def lst_def)
  qed
  let ?B = "(GC_free_bytes st)(i := minus_word (GC_free_bytes st i) (hb_sz hhdr))"
  let ?st1 = "(set_hdrs h1 st)\<lparr>GC_hblkfreelist := F, GC_free_bytes := ?B\<rparr>"
  obtain h2 where h2: "index_ok h2" "entry h2 = e2" and step2:
    "(if hb_next hhdr \<noteq> 0 then mod_hdr (hb_next hhdr) (\<lambda>nhdr. nhdr\<lparr>hb_prev := hb_prev hhdr\<rparr>) ?st1 else Inr ?st1) =
     Inr (set_hdrs h2 ?st1)"
  proof (cases ys)
    case Nil
    then show ?thesis
      using that [of h1] h1 un(3) by (simp add: e2_def hdrs_def set_hdrs_def)
  next
    case (Cons y ys')
    then have "y \<notin> set xs"
      using dist by auto
    then have "e1 y = ?e y"
      using last_in_set [of xs] by (auto simp: e1_def)
    then obtain h where y: "0 < y" "e1 y = Hdr h"
      using seg_hdr [OF seg, of y] Cons by auto
    then have "ent ?st1 y = Hdr h" "index_ok (hdrs ?st1)"
      using h1 by simp_all
    then obtain hs where "mod_hdr (y * HBLKSIZE) (\<lambda>nhdr. nhdr\<lparr>hb_prev := hb_prev hhdr\<rparr>) ?st1 = Inr (set_hdrs hs ?st1)"
        "index_ok hs" "entry hs = (ent ?st1)(y := Hdr (h\<lparr>hb_prev := hb_prev hhdr\<rparr>))"
      using mod_hdr_ok [of ?st1 y h "\<lambda>nhdr. nhdr\<lparr>hb_prev := hb_prev hhdr\<rparr>"] by blast
    then show ?thesis
      using that [of hs] Cons h1 un(3) y by (simp add: e2_def)
  qed
  let ?st2 = "set_hdrs h2 ?st1"
  have run: "GC_remove_from_fl_at (b * HBLKSIZE) i st = Inr ?st2"
    unfolding GC_remove_from_fl_at_def get_hdr_ok [OF hdr] sbind_Inr step1 Let_def
    using step2 by (simp split: if_splits)
  have others: "e2 c = ?e c" if "c \<notin> set xs \<union> set ys" for c
    using un(1) that by (simp add: unlinked_def)
  have cores: "core (e2 c) = core (?e c)" for c
    using un(1) by (simp add: unlinked_def)
  have sizes: "sz e2 = sz ?e"
    by (rule ext) (rule sz_core [OF cores])
  have rem: "remove1 b (L i) = xs @ ys"
    using L by (simp add: remove1_append)
  have sum: "minus_word (GC_free_bytes st i) (hb_sz hhdr) = sum_list (map (sz ?e) (xs @ ys))"
      "minus_word (GC_free_bytes st i) (hb_sz hhdr) = GC_free_bytes st i - sz ?e b"
    using hdr unfolding bytes by (simp_all add: minus_word_def sz_def)
  have disj: "set (L i) \<inter> set (L j) = {}" if "j \<noteq> i" for j
    using ok that by (simp add: lists_ok_def)
  have "lists_ok ?st2 (L(i := remove1 b (L i)))"
    unfolding lists_ok_def
  proof (intro conjI allI impI)
    show "index_ok (hdrs ?st2)"
      using h2 by simp
    fix j
    show "seg (ent ?st2) 0 (GC_hblkfreelist ?st2 j) ((L(i := remove1 b (L i))) j) 0"
    proof (cases "j = i")
      case True
      then show ?thesis
        using un(1) h2 rem by (cases "xs = []") (simp_all add: unlinked_def F_def)
    next
      case False
      have "seg e2 0 (GC_hblkfreelist st j) (L j) 0 = seg ?e 0 (GC_hblkfreelist st j) (L j) 0"
        by (rule seg_cong, rule others) (use disj [OF False] L(1) in auto)
      then show ?thesis
        using ok h2 False by (simp add: lists_ok_def F_def)
    qed
    show "distinct ((L(i := remove1 b (L i))) j)"
      using ok by (simp add: lists_ok_def)
    show "GC_free_bytes ?st2 j = sum_list (map (sz (ent ?st2)) ((L(i := remove1 b (L i))) j))"
      using ok h2 sum(1) rem sizes by (simp add: lists_ok_def)
  next
    fix j k :: nat assume "j \<noteq> k"
    moreover have "set ((L(i := remove1 b (L i))) m) \<subseteq> set (L m)" for m
      using set_remove1_subset [of b "L i"] by auto
    ultimately show "set ((L(i := remove1 b (L i))) j) \<inter> set ((L(i := remove1 b (L i))) k) = {}"
      using ok unfolding lists_ok_def by blast
  qed
  moreover have "b \<notin> set xs \<union> set ys"
    using dist by auto
  ultimately show ?thesis
    using run h2 others cores sum(2) L(1) by (auto simp: cores_def fun_eq_iff)
qed

lemma add_to_fl_ok:
  assumes ok: "lists_ok st L" and b: "b \<notin> listed_blocks L" "0 < b" "ent st b = Hdr hhdr"
  defines "i \<equiv> GC_hblk_fl_from_blocks (hb_sz hhdr div HBLKSIZE)"
  shows "\<exists>st'. GC_add_to_fl (b * HBLKSIZE) st = Inr st' \<and> lists_ok st' (L(i := b # L i)) \<and>
    cores st' = (cores st)(b := core (Hdr (hhdr\<lparr>hb_flags := hb_flags hhdr OR FREE_BLK\<rparr>))) \<and>
    (\<forall>c. c \<noteq> b \<and> c \<notin> set (L i) \<longrightarrow> ent st' c = ent st c) \<and>
    GC_large_free_bytes st' = GC_large_free_bytes st \<and> GC_free_bytes st' =
      (GC_free_bytes st)(i := GC_free_bytes st i + hb_sz hhdr)"
proof -
  let ?e = "ent st" and ?second = "GC_hblkfreelist st i" and ?a = "b * HBLKSIZE"
  let ?hb = "hhdr\<lparr>hb_next := ?second, hb_prev := 0\<rparr>"
  let ?hf = "?hb\<lparr>hb_flags := hb_flags hhdr OR FREE_BLK\<rparr>"
  have seg: "seg ?e 0 ?second (L i) 0" and dist: "distinct (L i)" and index: "index_ok (hdrs st)"
    using ok by (simp_all add: lists_ok_def)
  have notin: "b \<notin> set (L j)" for j
    using b(1) by (auto simp: listed_blocks_def)
  define e1 where "e1 = ?e(b := Hdr ?hb)"
  define e2 where "e2 = (if L i = [] then e1 else e1(hd (L i) := Hdr ((case ?e (hd (L i)) of Hdr h \<Rightarrow> h)\<lparr>hb_prev := ?a\<rparr>)))"
  define e3 where "e3 = e2(b := Hdr ?hf)"
  let ?st1 = "st\<lparr>GC_hblkfreelist := (GC_hblkfreelist st)(i := ?a),
    GC_free_bytes := (GC_free_bytes st)(i := GC_free_bytes st i + hb_sz hhdr)\<rparr>"
  obtain h1 where h1: "mod_hdr ?a (\<lambda>hhdr. hhdr\<lparr>hb_next := ?second, hb_prev := 0\<rparr>) ?st1 = Inr (set_hdrs h1 ?st1)"
      "index_ok h1" "entry h1 = e1"
    using mod_hdr_ok [of ?st1 b hhdr "\<lambda>hhdr. hhdr\<lparr>hb_next := ?second, hb_prev := 0\<rparr>"] index b(3)
    by (auto simp: e1_def)
  obtain h2 where h2: "(if ?second \<noteq> 0 then mod_hdr ?second (\<lambda>shdr. shdr\<lparr>hb_prev := ?a\<rparr>) (set_hdrs h1 ?st1)
      else Inr (set_hdrs h1 ?st1)) = Inr (set_hdrs h2 ?st1)" "index_ok h2" "entry h2 = e2"
  proof (cases "L i")
    case Nil
    then show ?thesis
      using that [of h1] h1 seg by (simp add: e2_def)
  next
    case (Cons y ys)
    then obtain h where y: "0 < y" "?e y = Hdr h" "?second = y * HBLKSIZE"
      using seg by auto
    have "y \<noteq> b"
      using notin [of i] Cons by auto
    then have "ent (set_hdrs h1 ?st1) y = Hdr h"
      using y h1 by (simp add: e1_def)
    then obtain hs where "mod_hdr (y * HBLKSIZE) (\<lambda>shdr. shdr\<lparr>hb_prev := ?a\<rparr>) (set_hdrs h1 ?st1) = Inr (set_hdrs hs ?st1)"
        "index_ok hs" "entry hs = e1(y := Hdr (h\<lparr>hb_prev := ?a\<rparr>))"
      using mod_hdr_ok [of "set_hdrs h1 ?st1" y h "\<lambda>shdr. shdr\<lparr>hb_prev := ?a\<rparr>"] h1 by auto
    then show ?thesis
      using that [of hs] y Cons by (simp add: e2_def)
  qed
  have "e2 b = Hdr ?hb"
    using notin [of i] hd_in_set [of "L i"] by (auto simp: e2_def e1_def)
  then obtain h3 where h3: "mod_hdr ?a (\<lambda>hhdr. hhdr\<lparr>hb_flags := hb_flags hhdr OR FREE_BLK\<rparr>) (set_hdrs h2 ?st1) =
      Inr (set_hdrs h3 ?st1)" "index_ok h3" "entry h3 = e3"
    using mod_hdr_ok [of "set_hdrs h2 ?st1" b ?hb "\<lambda>hhdr. hhdr\<lparr>hb_flags := hb_flags hhdr OR FREE_BLK\<rparr>"] h2
    by (auto simp: e3_def)
  let ?st3 = "set_hdrs h3 ?st1"
  have run: "GC_add_to_fl ?a st = Inr ?st3"
    unfolding GC_add_to_fl_def get_hdr_ok [OF b(3)] sbind_Inr Let_def i_def [symmetric] h1(1)
    using h2(1) h3(1) by (simp split: if_splits)
  have core_hd: "core (e3 c) = (if c = b then core (Hdr (hhdr\<lparr>hb_flags := hb_flags hhdr OR FREE_BLK\<rparr>)) else core (?e c))" for c
  proof (cases "L i \<noteq> [] \<and> c = hd (L i)")
    case True
    then obtain h where "?e c = Hdr h"
      using seg_hdr [OF seg, of c] hd_in_set [of "L i"] by auto
    then show ?thesis
      using True notin [of i] hd_in_set [of "L i"] by (auto simp: e3_def e2_def e1_def)
  qed (auto simp: e3_def e2_def e1_def)
  have others: "e3 c = ?e c" if "c \<noteq> b" "c \<notin> set (L i)" for c
    using that hd_in_set [of "L i"] by (auto simp: e3_def e2_def e1_def)
  have sizes: "sz e3 = sz ?e"
  proof
    fix c show "sz e3 c = sz ?e c"
      using core_hd [of c] sz_core [of e3 c ?e] b(3) by (cases "c = b") (simp_all add: sz_def e3_def)
  qed
  have links: "seg e3 ?a ?second (L i) 0"
  proof (cases "L i")
    case Nil
    then show ?thesis
      using seg by simp
  next
    case (Cons y ys)
    then obtain h where y: "?e y = Hdr h"
      using seg by auto
    have "seg (?e(y := Hdr (h\<lparr>hb_prev := ?a\<rparr>))) ?a ?second (y # ys) 0"
      by (rule seg_set_prev [OF seg [unfolded Cons] _ y]) (use dist Cons in simp)
    moreover have "seg e3 ?a ?second (y # ys) 0 = seg (?e(y := Hdr (h\<lparr>hb_prev := ?a\<rparr>))) ?a ?second (y # ys) 0"
      by (rule seg_cong) (use notin [of i] y Cons in \<open>auto simp: e3_def e2_def e1_def\<close>)
    ultimately show ?thesis
      using Cons by simp
  qed
  have "lists_ok ?st3 (L(i := b # L i))"
    unfolding lists_ok_def
  proof (intro conjI allI impI)
    show "index_ok (hdrs ?st3)"
      using h3 by simp
    fix j
    show "seg (ent ?st3) 0 (GC_hblkfreelist ?st3 j) ((L(i := b # L i)) j) 0"
    proof (cases "j = i")
      case True
      then show ?thesis
        using links h3 b(2) by (simp add: e3_def)
    next
      case False
      have "seg e3 0 (GC_hblkfreelist st j) (L j) 0 = seg ?e 0 (GC_hblkfreelist st j) (L j) 0"
        by (rule seg_cong, rule others) (use ok False notin [of j] in \<open>auto simp: lists_ok_def\<close>)
      then show ?thesis
        using ok h3 False by (simp add: lists_ok_def)
    qed
    show "distinct ((L(i := b # L i)) j)"
      using ok notin [of i] by (simp add: lists_ok_def)
    show "GC_free_bytes ?st3 j = sum_list (map (sz (ent ?st3)) ((L(i := b # L i)) j))"
      using ok h3 sizes b(3) by (simp add: lists_ok_def sz_def [of ?e b])
  next
    fix j k :: nat assume "j \<noteq> k"
    then show "set ((L(i := b # L i)) j) \<inter> set ((L(i := b # L i)) k) = {}"
      using ok notin [of j] notin [of k] by (auto simp: lists_ok_def)
  qed
  then show ?thesis
    using run h3 others core_hd by (auto simp: cores_def fun_eq_iff)
qed

section \<open>The block before\<close>

lemma start_loop_ok:
  assumes "layout_ok (entry hs)" "entry hs s = Hdr hhdr" "\<not> HBLK_IS_FREE hhdr"
  shows "s \<le> b \<Longrightarrow> b < s + nblocks hhdr \<Longrightarrow> b - s < n \<Longrightarrow>
    start_loop n (b * HBLKSIZE) hs = Inr (s * HBLKSIZE, Some hhdr)"
proof (induction n arbitrary: b)
  case (Suc n)
  show ?case
  proof (cases "b = s")
    case False
    let ?k = "min (b - s) MAX_JUMP"
    have "entry hs (s + (b - s)) = tail_entry hhdr (b - s)"
      by (rule layout_tail [OF assms(1,2)]) (use Suc.prems False in simp_all)
    then have e: "entry hs b = Count ?k"
      using Suc.prems(1) assms(3) by (simp add: tail_entry_def)
    have k: "0 < ?k" "?k \<le> b - s"
      using False Suc.prems(1) by (auto simp: MAX_JUMP_def HBLKSIZE_def)
    then have "start_loop n ((b - ?k) * HBLKSIZE) hs = Inr (s * HBLKSIZE, Some hhdr)"
      using Suc.prems by (intro Suc.IH) auto
    then show ?thesis
      using e k(1) by (simp add: diff_mult_distrib)
  qed (use assms(2) in simp)
qed simp

text \<open>Where a block ends, and that the block at \<open>b\<close> is in no other one.\<close>

definition ends_at :: "(nat \<Rightarrow> hdr_entry) \<Rightarrow> nat \<Rightarrow> nat \<Rightarrow> bool" where
  "ends_at e b c \<longleftrightarrow> (\<exists>hhdr. e c = Hdr hhdr \<and> HBLK_IS_FREE hhdr \<and> c + nblocks hhdr = b)"

lemma no_hdr_inside:
  assumes "layout_ok e" "e c = Hdr hhdr" "c < x" "x < c + nblocks hhdr"
  shows "e x \<noteq> Hdr h"
  using layout_tail [OF assms(1,2), of "x - c"] assms(3,4) by (simp add: tail_entry_def)

lemma free_block_ending_at_ok:
  assumes index: "index_ok (hdrs st)" and layout: "layout_ok (ent st)" and zero: "\<forall>h. ent st 0 \<noteq> Hdr h"
    and b: "0 < b" "ent st b = Hdr hb"
  shows "\<exists>p. GC_free_block_ending_at (b * HBLKSIZE) st = Inr p \<and>
    (p = 0 \<and> (\<forall>c. \<not> ends_at (ent st) b c) \<or> (\<exists>c>0. p = c * HBLKSIZE \<and> ends_at (ent st) b c))"
proof -
  let ?e = "ent st"
  have prev: "b * HBLKSIZE - HBLKSIZE = (b - 1) * HBLKSIZE"
    by (simp add: diff_mult_distrib)
  have pos: "c + nblocks h = b \<Longrightarrow> ?e c = Hdr h \<Longrightarrow> 0 < c \<and> c < b" for c h
    using zero layout_pos [OF layout, of c h] by (cases "c = 0") auto
  have eq: "GC_free_block_ending_at (b * HBLKSIZE) st =
    sbind (start_loop (b + 1) ((b - 1) * HBLKSIZE) (hdrs st)) (\<lambda>(p, r).
       case r of
         Some phdr \<Rightarrow> Inr (if HBLK_IS_FREE phdr then p else 0)
       | None \<Rightarrow>
           let p = GC_prev_block ((b - 1) * HBLKSIZE) (hdrs st) in
           if p \<noteq> 0 then
             sbind (get_hdr p st) (\<lambda>phdr. Inr (if HBLK_IS_FREE phdr \<and> p + hb_sz phdr = b * HBLKSIZE then p else 0))
           else Inr 0)"
    unfolding GC_free_block_ending_at_def prev block_mult ..
  show ?thesis
  proof (cases "?e (b - 1)")
    case (Hdr h)
    have one: "nblocks h = 1"
    proof (rule ccontr)
      assume "nblocks h \<noteq> 1"
      then have "b - 1 < b" "b < b - 1 + nblocks h"
        using layout_pos [OF layout Hdr] b(1) by simp_all
      then show False
        using no_hdr_inside [OF layout Hdr] b(2) by blast
    qed
    have "\<not> ends_at ?e b c" if "c \<noteq> b - 1" for c
      using that no_hdr_inside [OF layout, of c _ "b - 1" h] Hdr pos by (fastforce simp: ends_at_def)
    moreover have "ends_at ?e b (b - 1) \<longleftrightarrow> HBLK_IS_FREE h"
      using Hdr one b(1) by (auto simp: ends_at_def)
    moreover have "b - 1 \<noteq> 0"
      using zero Hdr by auto
    moreover have "GC_free_block_ending_at (b * HBLKSIZE) st = Inr (if HBLK_IS_FREE h then (b - 1) * HBLKSIZE else 0)"
      unfolding eq using Hdr by simp
    ultimately show ?thesis
      by (cases "HBLK_IS_FREE h") (auto, metis)
  next
    case (Count k)
    show ?thesis
    proof (cases "k = 0")
      case False
      then obtain s h where s: "?e s = Hdr h" "\<not> HBLK_IS_FREE h" "s < b - 1" "b - 1 < s + nblocks h"
        using layout_count [OF layout Count] by (metis neq0_conv)
      have "start_loop (b + 1) ((b - 1) * HBLKSIZE) (hdrs st) = Inr (s * HBLKSIZE, Some h)"
        by (rule start_loop_ok [OF layout s(1,2)]) (use s in auto)
      then have "GC_free_block_ending_at (b * HBLKSIZE) st = Inr 0"
        unfolding eq using s(2) by simp
      moreover have "\<not> ends_at ?e b c" for c
      proof
        assume "ends_at ?e b c"
        then obtain hc where c: "?e c = Hdr hc" "HBLK_IS_FREE hc" "c + nblocks hc = b"
          by (auto simp: ends_at_def)
        then have "c \<noteq> b - 1"
          using Count by auto
        then have "?e (c + (b - 1 - c)) = tail_entry hc (b - 1 - c)"
          using pos [OF c(3,1)] c(3) by (intro layout_tail [OF layout c(1)]) auto
        then show False
          using Count False c(2) pos [OF c(3,1)] by (simp add: tail_entry_def)
      qed
      ultimately show ?thesis
        by simp
    next
      case True
      let ?p = "GC_prev_block ((b - 1) * HBLKSIZE) (hdrs st)"
      have "is_prev ?e b ?p"
        using GC_prev_block_ok [OF index layout, of "(b - 1) * HBLKSIZE"] b(1) by simp
      then consider (none) "?p = 0" "\<forall>c<b. \<not> has_hdr ?e c"
        | (some) c where "c < b" "?p = c * HBLKSIZE" "has_hdr ?e c" "\<forall>x. c < x \<and> x < b \<longrightarrow> \<not> has_hdr ?e x"
        unfolding is_prev_def by (elim disjE exE conjE) simp_all
      then show ?thesis
      proof cases
        case none
        then have "\<not> ends_at ?e b c" for c
          using pos [of c] by (auto simp: ends_at_def has_hdr_def)
        moreover have "GC_free_block_ending_at (b * HBLKSIZE) st = Inr 0"
          unfolding eq using Count True none(1) by simp
        ultimately show ?thesis
          by simp
      next
        case some
        then obtain h where h: "?e c = Hdr h"
          by (auto simp: has_hdr_def)
        then have c: "0 < c"
          using zero by (cases "c = 0") auto
        have only: "x = c" if end_x: "ends_at ?e b x" for x
        proof -
          obtain hx where x: "?e x = Hdr hx" "x + nblocks hx = b"
            using end_x by (auto simp: ends_at_def)
          then have "x < b" "\<not> c < x"
            using pos [OF x(2,1)] some(4) by (auto simp: has_hdr_def)
          then show ?thesis
            using no_hdr_inside [OF layout x(1), of c h] x(2) some(1) h by (cases "x = c") auto
        qed
        have end_c: "ends_at ?e b c \<longleftrightarrow> HBLK_IS_FREE h \<and> c * HBLKSIZE + hb_sz h = b * HBLKSIZE"
        proof (cases "HBLK_IS_FREE h")
          case True
          then have "c * HBLKSIZE + hb_sz h = (c + nblocks h) * HBLKSIZE"
            using layout_free [OF layout h] by (simp add: add_mult_distrib)
          then show ?thesis
            using True h by (simp add: ends_at_def)
        qed (use h in \<open>simp add: ends_at_def\<close>)
        have run: "GC_free_block_ending_at (b * HBLKSIZE) st =
            Inr (if HBLK_IS_FREE h \<and> c * HBLKSIZE + hb_sz h = b * HBLKSIZE then c * HBLKSIZE else 0)"
          unfolding eq using Count True some(2) c get_hdr_ok [of st c h] h by (simp add: Let_def)
        show ?thesis
        proof (cases "ends_at ?e b c")
          case True
          then show ?thesis
            unfolding run end_c [symmetric] using c by (intro exI [of _ "c * HBLKSIZE"] conjI disjI2 exI [of _ c]) simp_all
        next
          case False
          then have "\<forall>x. \<not> ends_at ?e b x"
            using only by blast
          then show ?thesis
            unfolding run end_c [symmetric] using False by simp
        qed
      qed
    qed
  qed
qed

end
