(* ===== verification/GcHblkFree.thy ===== *)
theory GcHblkFree
  imports GcHblkLists
begin

text \<open>
  Releasing a block (\<open>GC_freehblk\<close>): the invariant of the heap, that a release keeps it, and that the
  freed memory is merged with its free neighbours.
\<close>

unbundle bit_operations_syntax

section \<open>The invariant of the heap\<close>

definition is_free :: "(nat \<Rightarrow> hdr_entry) \<Rightarrow> nat \<Rightarrow> bool" where
  "is_free e b \<longleftrightarrow> (\<exists>hhdr. e b = Hdr hhdr \<and> HBLK_IS_FREE hhdr)"

definition fl_index :: "(nat \<Rightarrow> hdr_entry) \<Rightarrow> nat \<Rightarrow> nat" where
  "fl_index e b = GC_hblk_fl_from_blocks (sz e b div HBLKSIZE)"

text \<open>The lists hold the free blocks other than those of \<open>X\<close>, each on the list of its size.\<close>

definition heap_inv :: "heap_state \<Rightarrow> (nat \<Rightarrow> nat list) \<Rightarrow> nat set \<Rightarrow> bool" where
  "heap_inv st L X \<longleftrightarrow> lists_ok st L \<and> layout_ok (ent st) \<and> (\<forall>h. ent st 0 \<noteq> Hdr h) \<and>
     (\<forall>c. is_free (ent st) c \<longleftrightarrow> c \<in> listed_blocks L \<union> X) \<and> listed_blocks L \<inter> X = {} \<and>
     (\<forall>i. \<forall>c\<in>set (L i). fl_index (ent st) c = i)"

definition listed_bytes :: "heap_state \<Rightarrow> nat" where
  "listed_bytes st = (\<Sum>i\<le>N_HBLK_FLS. GC_free_bytes st i)"

text \<open>Every free block is on its list, and \<open>GC_large_free_bytes\<close> is their total size.\<close>

definition heap_ok :: "heap_state \<Rightarrow> (nat \<Rightarrow> nat list) \<Rightarrow> bool" where
  "heap_ok st L \<longleftrightarrow> heap_inv st L {} \<and> GC_large_free_bytes st = listed_bytes st"

lemma fl_from_blocks_le: "GC_hblk_fl_from_blocks n \<le> N_HBLK_FLS"
  by (auto simp: GC_hblk_fl_from_blocks_def N_HBLK_FLS_def HUGE_THRESHOLD_def UNIQUE_THRESHOLD_def FL_COMPRESSION_def)

text \<open>What depends on the headers without their links only.\<close>

lemma core_Count: "core (e' b) = core (e b) \<Longrightarrow> e' b = Count n \<longleftrightarrow> e b = Count n"
  by (cases "e b"; cases "e' b") simp_all

lemma core_Hdr:
  assumes "core (e' b) = core (e b)" "e b = Hdr hhdr"
  obtains h' where "e' b = Hdr h'" "hb_sz h' = hb_sz hhdr" "hb_flags h' = hb_flags hhdr" "nblocks h' = nblocks hhdr"
    "HBLK_IS_FREE h' = HBLK_IS_FREE hhdr" "tail_entry h' = tail_entry hhdr" "IS_MAPPED h' = IS_MAPPED hhdr"
proof (cases "e' b")
  case (Hdr h')
  then have "h'\<lparr>hb_next := 0, hb_prev := 0\<rparr> = hhdr\<lparr>hb_next := 0, hb_prev := 0\<rparr>"
    using assms by simp
  then have "hb_sz (h'\<lparr>hb_next := 0, hb_prev := 0\<rparr>) = hb_sz (hhdr\<lparr>hb_next := 0, hb_prev := 0\<rparr>)"
      "hb_flags (h'\<lparr>hb_next := 0, hb_prev := 0\<rparr>) = hb_flags (hhdr\<lparr>hb_next := 0, hb_prev := 0\<rparr>)"
    by simp_all
  then have "hb_sz h' = hb_sz hhdr" "hb_flags h' = hb_flags hhdr"
    by simp_all
  then show ?thesis
    using that [OF Hdr] by (simp add: nblocks_def HBLK_IS_FREE_def tail_entry_def fun_eq_iff IS_MAPPED_def)
qed (use assms in simp)

lemma is_free_core:
  assumes "core (e' b) = core (e b)"
  shows "is_free e' b = is_free e b"
proof (cases "e b")
  case (Hdr h)
  then show ?thesis
    using core_Hdr [of e' b e, OF assms Hdr] by (metis is_free_def hdr_entry.inject(2))
next
  case (Count n)
  then show ?thesis
    using core_Count [of e' b e n, OF assms] by (simp add: is_free_def)
qed

lemma used_core:
  assumes "core (e' b) = core (e b)"
  shows "used e' b = used e b"
proof (cases "e b")
  case (Hdr h)
  then show ?thesis
    using core_Hdr [of e' b e, OF assms Hdr] by (metis used_def hdr_entry.inject(2))
next
  case (Count n)
  then show ?thesis
    using core_Count [of e' b e n, OF assms] by (simp add: used_def)
qed

lemma layout_core_imp:
  assumes cores: "\<And>b. core (e' b) = core (e b)" and ok: "layout_ok e"
  shows "layout_ok e'"
  unfolding layout_ok_def
proof (intro conjI allI impI)
  fix b h' assume "e' b = Hdr h'"
  then obtain h where h: "e b = Hdr h" "hb_sz h = hb_sz h'" "nblocks h = nblocks h'" "HBLK_IS_FREE h = HBLK_IS_FREE h'"
      "tail_entry h = tail_entry h'"
    using core_Hdr [of e b e' h'] cores [of b] by metis
  show "0 < nblocks h'"
    using layout_pos [OF ok h(1)] h by simp
  show "hb_sz h' = nblocks h' * HBLKSIZE" if "HBLK_IS_FREE h'"
    using layout_free [OF ok h(1)] h that by simp
  show "e' (b + i) = tail_entry h' i" if "0 < i \<and> i < nblocks h'" for i
    using layout_tail [OF ok h(1), of i] that h core_Count [of e' "b + i" e, OF cores] by (simp add: tail_entry_def)
next
  fix b n assume "e' b = Count n \<and> 0 < n"
  then have "e b = Count n \<and> 0 < n"
    using core_Count [of e' b e, OF cores] by simp
  then obtain s h where s: "e s = Hdr h" "\<not> HBLK_IS_FREE h" "s < b" "b < s + nblocks h"
    using ok unfolding layout_ok_def by blast
  then show "\<exists>s hhdr. e' s = Hdr hhdr \<and> \<not> HBLK_IS_FREE hhdr \<and> s < b \<and> b < s + nblocks hhdr"
    using core_Hdr [of e' s e, OF cores s(1)] s(2-4) by metis
qed

lemma cores_ent: "cores st' = cores st \<Longrightarrow> core (ent st' b) = core (ent st b)"
  by (simp add: cores_def fun_eq_iff)

lemma sz_cores: "cores st' = cores st \<Longrightarrow> sz (ent st') = sz (ent st)"
  by (rule ext) (rule sz_core, rule cores_ent)

lemma listed_bytes_update:
  assumes "i \<le> N_HBLK_FLS" "GC_free_bytes st' = (GC_free_bytes st)(i := n)"
  shows "listed_bytes st' + GC_free_bytes st i = listed_bytes st + n"
proof -
  have "listed_bytes s = GC_free_bytes s i + (\<Sum>j\<in>{..N_HBLK_FLS} - {i}. GC_free_bytes s j)" for s
    unfolding listed_bytes_def using assms(1) by (simp add: sum.remove)
  moreover have "(\<Sum>j\<in>{..N_HBLK_FLS} - {i}. GC_free_bytes st' j) = (\<Sum>j\<in>{..N_HBLK_FLS} - {i}. GC_free_bytes st j)"
    by (rule sum.cong) (use assms(2) in auto)
  ultimately show ?thesis
    using assms(2) by simp
qed

section \<open>Taking a block from its list, and putting one on its list\<close>

lemma free_hdr_sz: "layout_ok e \<Longrightarrow> e b = Hdr hhdr \<Longrightarrow> HBLK_IS_FREE hhdr \<Longrightarrow> sz e b = nblocks hhdr * HBLKSIZE"
  by (simp add: sz_def layout_free)

lemma listed_remove:
  assumes ok: "lists_ok st L" and c: "c \<in> set (L i)"
  shows "listed_blocks (L(i := remove1 c (L i))) = listed_blocks L - {c}"
proof -
  let ?L = "L(i := remove1 c (L i))"
  have "distinct (L i)" and disj: "\<And>j. j \<noteq> i \<Longrightarrow> set (L i) \<inter> set (L j) = {}"
    using ok by (simp_all add: lists_ok_def)
  then have "set (?L j) = set (L j) - {c}" for j
    using c disj [of j] by (cases "j = i") (auto simp: set_remove1_eq)
  then show ?thesis
    by (auto simp: listed_blocks_def)
qed

lemma remove_bytes:
  assumes ok: "lists_ok st L" and c: "c \<in> set (L i)" and i: "i \<le> N_HBLK_FLS"
    and st': "GC_free_bytes st' = (GC_free_bytes st)(i := GC_free_bytes st i - sz (ent st) c)"
  shows "listed_bytes st' + sz (ent st) c = listed_bytes st"
proof -
  have "sz (ent st) c \<le> GC_free_bytes st i"
    using ok member_le_sum_list [of "sz (ent st) c" "map (sz (ent st)) (L i)"] c by (simp add: lists_ok_def)
  then show ?thesis
    using listed_bytes_update [OF i st'] by simp
qed

lemma listed_add: "listed_blocks (L(i := b # L i)) = insert b (listed_blocks L)"
  by (auto simp: listed_blocks_def split: if_splits)

lemma remove_step:
  assumes inv: "heap_inv st L X" and c: "c \<in> listed_blocks L"
  shows "\<exists>st' L'. GC_remove_from_fl (c * HBLKSIZE) st = Inr st' \<and> heap_inv st' L' (insert c X) \<and>
    L' = L(fl_index (ent st) c := remove1 c (L (fl_index (ent st) c))) \<and> cores st' = cores st \<and> GC_large_free_bytes st' = GC_large_free_bytes st \<and>
    listed_bytes st' + sz (ent st) c = listed_bytes st"
proof -
  let ?i = "fl_index (ent st) c"
  have lists: "lists_ok st L" and layout: "layout_ok (ent st)" and index: "\<forall>i. \<forall>c\<in>set (L i). fl_index (ent st) c = i"
    and free: "is_free (ent st) b \<longleftrightarrow> b \<in> listed_blocks L \<union> X" for b
    using inv by (simp_all add: heap_inv_def)
  have c_in: "c \<in> set (L ?i)"
    using c index by (auto simp: listed_blocks_def)
  obtain hhdr where hdr: "ent st c = Hdr hhdr"
    using free [of c] c by (auto simp: is_free_def)
  let ?L = "L(?i := remove1 c (L ?i))"
  obtain st' where st': "GC_remove_from_fl_at (c * HBLKSIZE) ?i st = Inr st'" "lists_ok st' ?L" "cores st' = cores st"
      "GC_large_free_bytes st' = GC_large_free_bytes st"
      "GC_free_bytes st' = (GC_free_bytes st)(?i := GC_free_bytes st ?i - sz (ent st) c)"
    using remove_from_fl_at_ok [OF lists c_in] by blast
  have run: "GC_remove_from_fl (c * HBLKSIZE) st = Inr st'"
    using st'(1) get_hdr_ok [OF hdr] hdr by (simp add: GC_remove_from_fl_def fl_index_def sz_def)
  note listed' = listed_remove [OF lists c_in]
  note cores = cores_ent [OF st'(3)]
  have "heap_inv st' ?L (insert c X)"
    unfolding heap_inv_def
  proof (intro conjI allI ballI)
    show "lists_ok st' ?L"
      by (rule st'(2))
    show "layout_ok (ent st')"
      by (rule layout_core_imp [of "ent st'" "ent st", OF cores layout])
    show "ent st' 0 \<noteq> Hdr h" for h
    proof
      assume "ent st' 0 = Hdr h"
      then show False
        using cores [of 0] inv by (cases "ent st 0") (simp_all add: heap_inv_def)
    qed
    show "is_free (ent st') b \<longleftrightarrow> b \<in> listed_blocks ?L \<union> insert c X" for b
      using is_free_core [of "ent st'" b "ent st", OF cores] free [of b] listed' c by auto
    show "listed_blocks ?L \<inter> insert c X = {}"
      using listed' inv by (auto simp: heap_inv_def)
    show "fl_index (ent st') b = i" if "b \<in> set (?L i)" for b i
    proof -
      have "b \<in> set (L i)"
        using that set_remove1_subset [of c "L ?i"] by (auto split: if_splits)
      then show ?thesis
        using index sz_cores [OF st'(3)] by (simp add: fl_index_def)
    qed
  qed
  moreover have "listed_bytes st' + sz (ent st) c = listed_bytes st"
    using remove_bytes [OF lists c_in _ st'(5)] fl_from_blocks_le by (simp add: fl_index_def)
  ultimately show ?thesis
    using run st'(3,4) by blast
qed

lemma remove_at_step:
  assumes inv: "heap_inv st L X" and c: "c \<in> set (L i)"
  obtains st' where "GC_remove_from_fl_at (c * HBLKSIZE) i st = Inr st'" "heap_inv st' (L(i := remove1 c (L i))) (insert c X)"
    "cores st' = cores st" "GC_large_free_bytes st' = GC_large_free_bytes st"
    "listed_bytes st' + sz (ent st) c = listed_bytes st"
proof -
  have i: "fl_index (ent st) c = i" and in_L: "c \<in> listed_blocks L" and "is_free (ent st) c"
    using inv c by (auto simp: heap_inv_def listed_blocks_def)
  then obtain h where h: "ent st c = Hdr h"
    by (auto simp: is_free_def)
  have "GC_remove_from_fl (c * HBLKSIZE) st = GC_remove_from_fl_at (c * HBLKSIZE) i st"
    using get_hdr_ok [OF h] h i by (simp add: GC_remove_from_fl_def fl_index_def sz_def)
  then show thesis
    using that remove_step [OF inv in_L] i by auto
qed

lemma add_step:
  assumes inv: "heap_inv st L {b}"
  shows "\<exists>st' L'. GC_add_to_fl (b * HBLKSIZE) st = Inr st' \<and> heap_inv st' L' {} \<and>
    L' = L(fl_index (ent st) b := b # L (fl_index (ent st) b)) \<and> cores st' = cores st \<and> GC_large_free_bytes st' = GC_large_free_bytes st \<and>
    listed_bytes st' = listed_bytes st + sz (ent st) b"
proof -
  have lists: "lists_ok st L" and layout: "layout_ok (ent st)" and index: "\<forall>i. \<forall>c\<in>set (L i). fl_index (ent st) c = i"
    and free: "is_free (ent st) c \<longleftrightarrow> c \<in> insert b (listed_blocks L)" and notin: "b \<notin> listed_blocks L"
    and zero: "\<forall>h. ent st 0 \<noteq> Hdr h" for c
    using inv by (auto simp: heap_inv_def)
  obtain hhdr where hdr: "ent st b = Hdr hhdr" "HBLK_IS_FREE hhdr"
    using free [of b] by (auto simp: is_free_def)
  have "0 < b"
    using zero hdr(1) by (cases "b = 0") auto
  let ?i = "GC_hblk_fl_from_blocks (hb_sz hhdr div HBLKSIZE)"
  let ?L = "L(?i := b # L ?i)"
  obtain st' where st': "GC_add_to_fl (b * HBLKSIZE) st = Inr st'" "lists_ok st' ?L"
      "cores st' = (cores st)(b := core (Hdr (hhdr\<lparr>hb_flags := hb_flags hhdr OR FREE_BLK\<rparr>)))"
      "GC_large_free_bytes st' = GC_large_free_bytes st"
      "GC_free_bytes st' = (GC_free_bytes st)(?i := GC_free_bytes st ?i + hb_sz hhdr)"
    using add_to_fl_ok [OF lists notin \<open>0 < b\<close> hdr(1)] by blast
  have flag: "hb_flags hhdr OR FREE_BLK = hb_flags hhdr"
  proof -
    have four: "bit (4 :: 8 word) m \<longleftrightarrow> m = 2" for m
      using bit_exp_iff [of 2 m, where ?'a = "8 word"] by (auto simp: possible_bit_word)
    have "bit (hb_flags hhdr) 2"
      using hdr(2) and_exp_eq_0_iff_not_bit [of "hb_flags hhdr" 2] by (simp add: HBLK_IS_FREE_def FREE_BLK_def)
    then have "bit (hb_flags hhdr OR 4) m = bit (hb_flags hhdr) m" for m
      using four [of m] unfolding bit_or_iff by blast
    then show ?thesis
      unfolding FREE_BLK_def by (rule bit_eqI)
  qed
  have "cores st' = cores st"
    using st'(3) flag hdr(1) by (auto simp: cores_def fun_eq_iff)
  note cores = cores_ent [OF this] and sizes = sz_cores [OF this]
  note listed' = listed_add [of L ?i b]
  have "heap_inv st' ?L {}"
    unfolding heap_inv_def
  proof (intro conjI allI ballI)
    show "lists_ok st' ?L"
      by (rule st'(2))
    show "layout_ok (ent st')"
      by (rule layout_core_imp [of "ent st'" "ent st", OF cores layout])
    show "ent st' 0 \<noteq> Hdr h" for h
    proof
      assume "ent st' 0 = Hdr h"
      then show False
        using cores [of 0] zero by (cases "ent st 0") simp_all
    qed
    show "is_free (ent st') c \<longleftrightarrow> c \<in> listed_blocks ?L \<union> {}" for c
      using is_free_core [of "ent st'" c "ent st", OF cores] free [of c] listed' by auto
    show "listed_blocks ?L \<inter> {} = {}"
      by simp
    show "fl_index (ent st') c = i" if "c \<in> set (?L i)" for c i
      using that index sizes hdr(1) by (auto simp: fl_index_def sz_def [of "ent st" b] split: if_splits)
  qed
  moreover have "listed_bytes st' = listed_bytes st + sz (ent st) b"
    using listed_bytes_update [OF fl_from_blocks_le st'(5)] hdr(1) by (simp add: sz_def)
  moreover have "fl_index (ent st) b = ?i"
    using hdr(1) by (simp add: fl_index_def sz_def)
  ultimately show ?thesis
    using st'(1,4) \<open>cores st' = cores st\<close> by auto
qed

section \<open>Layouts\<close>

lemma nblocks_mult: "hb_sz hhdr = k * HBLKSIZE \<Longrightarrow> nblocks hhdr = k"
  by (simp add: nblocks_def OBJ_SZ_TO_BLOCKS_def HBLKSIZE_def)

text \<open>Two adjacent free blocks become one.\<close>

lemma layout_merge:
  assumes ok: "layout_ok e" and lo: "e lo = Hdr a" "HBLK_IS_FREE a" and hi: "e hi = Hdr c" "HBLK_IS_FREE c"
    and adj: "hi = lo + nblocks a" and m: "hb_sz m = hb_sz a + hb_sz c" "HBLK_IS_FREE m"
  shows "layout_ok (e(lo := Hdr m, hi := Count 0))" "nblocks m = nblocks a + nblocks c"
proof -
  let ?e = "e(lo := Hdr m, hi := Count 0)"
  have sz: "hb_sz m = (nblocks a + nblocks c) * HBLKSIZE"
    using m(1) layout_free [OF ok lo] layout_free [OF ok hi] by (simp add: add_mult_distrib)
  then show n: "nblocks m = nblocks a + nblocks c"
    by (rule nblocks_mult)
  have pos: "0 < nblocks a" "0 < nblocks c"
    using layout_pos [OF ok lo(1)] layout_pos [OF ok hi(1)] by simp_all
  have tail: "?e (lo + i) = tail_entry m i" if "0 < i" "i < nblocks m" for i
  proof (cases "i < nblocks a")
    case True
    then show ?thesis
      using layout_tail [OF ok lo(1), of i] that(1) adj lo(2) m(2) by (simp add: tail_entry_def)
  next
    case False
    have "lo + i = hi \<or> e (hi + (i - nblocks a)) = tail_entry c (i - nblocks a)"
      using layout_tail [OF ok hi(1), of "i - nblocks a"] that False n adj by (cases "i = nblocks a") auto
    moreover have "hi + (i - nblocks a) = lo + i"
      using False adj by simp
    ultimately show ?thesis
      using m(2) hi(2) that(1) by (auto simp: tail_entry_def)
  qed
  have other: "?e (b + i) = tail_entry h i" if "e b = Hdr h" "b \<noteq> lo" "b \<noteq> hi" "0 < i" "i < nblocks h" for b h i
  proof -
    have "e (b + i) = tail_entry h i"
      by (rule layout_tail [OF ok that(1,4,5)])
    moreover from this have "b + i \<noteq> lo" "b + i \<noteq> hi"
      using lo(1) hi(1) by (auto simp: tail_entry_def)
    ultimately show ?thesis
      by simp
  qed
  show "layout_ok ?e"
    unfolding layout_ok_def
  proof (intro conjI allI impI)
    fix b h assume b: "?e b = Hdr h"
    then have "b \<noteq> hi"
      by auto
    show "0 < nblocks h"
      using b n pos layout_pos [OF ok, of b h] by (cases "b = lo") (auto split: if_splits)
    show "hb_sz h = nblocks h * HBLKSIZE" if "HBLK_IS_FREE h"
      using b n sz \<open>b \<noteq> hi\<close> layout_free [OF ok, of b h] that by (cases "b = lo") auto
    show "?e (b + i) = tail_entry h i" if "0 < i \<and> i < nblocks h" for i
    proof (cases "b = lo")
      case True
      then have "h = m"
        using b \<open>b \<noteq> hi\<close> by simp
      then show ?thesis
        using tail [of i] that True by (simp only:)
    next
      case False
      then show ?thesis
        using other [of b h i] that b \<open>b \<noteq> hi\<close> by simp
    qed
  next
    fix b k assume "?e b = Count k \<and> 0 < k"
    then have "e b = Count k" "0 < k"
      by (auto split: if_splits)
    then obtain s h where s: "e s = Hdr h" "\<not> HBLK_IS_FREE h" "s < b" "b < s + nblocks h"
      using ok unfolding layout_ok_def by blast
    then have "s \<noteq> lo" "s \<noteq> hi"
      using lo hi by auto
    then show "\<exists>s hhdr. ?e s = Hdr hhdr \<and> \<not> HBLK_IS_FREE hhdr \<and> s < b \<and> b < s + nblocks hhdr"
      using s by (intro exI [of _ s] exI [of _ h]) simp
  qed
qed

text \<open>An object becomes a free block without forwarding counts.\<close>

definition released :: "(nat \<Rightarrow> hdr_entry) \<Rightarrow> nat \<Rightarrow> nat \<Rightarrow> hdr \<Rightarrow> nat \<Rightarrow> hdr_entry" where
  "released e b n m = (\<lambda>x. if x = b then Hdr m else if b < x \<and> x < b + n then Count 0 else e x)"

lemma layout_release:
  assumes ok: "layout_ok e" and b: "e b = Hdr h" "\<not> HBLK_IS_FREE h"
    and m: "hb_sz m = nblocks h * HBLKSIZE" "HBLK_IS_FREE m"
  shows "layout_ok (released e b (nblocks h) m)" "nblocks m = nblocks h"
proof -
  let ?e = "released e b (nblocks h) m"
  show n: "nblocks m = nblocks h"
    by (rule nblocks_mult [OF m(1)])
  have out: "x \<le> b \<or> b + nblocks h \<le> x" if "e x = Hdr hx" for x hx
    using no_hdr_inside [OF ok b(1), of x hx] that by (metis not_le)
  have other: "?e (x + i) = tail_entry hx i" if x: "e x = Hdr hx" "x \<noteq> b" "0 < i" "i < nblocks hx" for x hx i
  proof -
    have e: "e (x + i) = tail_entry hx i"
      by (rule layout_tail [OF ok x(1,3,4)])
    then have "x + i \<noteq> b"
      using b(1) by (auto simp: tail_entry_def)
    moreover have "\<not> (b < x + i \<and> x + i < b + nblocks h)"
    proof
      assume in_b: "b < x + i \<and> x + i < b + nblocks h"
      then have "x < b"
        using out [OF x(1)] x(2) by auto
      then show False
        using no_hdr_inside [OF ok x(1), of b h] b(1) in_b x(4) by auto
    qed
    ultimately show ?thesis
      using e by (auto simp: released_def)
  qed
  show "layout_ok ?e"
    unfolding layout_ok_def
  proof (intro conjI allI impI)
    fix x hx assume x: "?e x = Hdr hx"
    then have cases: "x = b \<and> hx = m \<or> x \<noteq> b \<and> e x = Hdr hx"
      by (auto simp: released_def split: if_splits)
    show "0 < nblocks hx"
      using cases n layout_pos [OF ok] b(1) by auto
    show "hb_sz hx = nblocks hx * HBLKSIZE" if "HBLK_IS_FREE hx"
      using cases n m(1) layout_free [OF ok] that by auto
    show "?e (x + i) = tail_entry hx i" if i: "0 < i \<and> i < nblocks hx" for i
      using cases
    proof
      assume "x = b \<and> hx = m"
      then show ?thesis
        using i n m(2) by (simp add: released_def tail_entry_def)
    next
      assume "x \<noteq> b \<and> e x = Hdr hx"
      then show ?thesis
        using other i by blast
    qed
  next
    fix x k assume x: "?e x = Count k \<and> 0 < k"
    then have e: "e x = Count k" "0 < k" "\<not> (b < x \<and> x < b + nblocks h)"
      by (auto simp: released_def split: if_splits)
    then obtain s hs where s: "e s = Hdr hs" "\<not> HBLK_IS_FREE hs" "s < x" "x < s + nblocks hs"
      using ok unfolding layout_ok_def by blast
    have "s \<noteq> b"
      using s e(3) b(1) by auto
    then have "?e s = Hdr hs"
      using s(1) out [OF s(1)] by (auto simp: released_def)
    then show "\<exists>s hhdr. ?e s = Hdr hhdr \<and> \<not> HBLK_IS_FREE hhdr \<and> s < x \<and> x < s + nblocks hhdr"
      using s by blast
  qed
qed

section \<open>Merging\<close>

lemma lists_ok_other:
  assumes ok: "lists_ok st L" and index: "index_ok hs" and same: "\<forall>c\<in>listed_blocks L. entry hs c = ent st c"
  shows "lists_ok (set_hdrs hs st) L"
proof -
  have "seg (entry hs) 0 (GC_hblkfreelist st i) (L i) 0" for i
  proof -
    have "seg (entry hs) 0 (GC_hblkfreelist st i) (L i) 0 = seg (ent st) 0 (GC_hblkfreelist st i) (L i) 0"
      by (rule seg_cong) (use same in \<open>auto simp: listed_blocks_def\<close>)
    then show ?thesis
      using ok by (simp add: lists_ok_def)
  qed
  moreover have "sum_list (map (sz (entry hs)) (L i)) = sum_list (map (sz (ent st)) (L i))" for i
  proof -
    have "map (sz (entry hs)) (L i) = map (sz (ent st)) (L i)"
      using same by (auto simp: sz_def listed_blocks_def)
    then show ?thesis
      by (simp only:)
  qed
  ultimately show ?thesis
    using ok index by (simp add: lists_ok_def)
qed

lemma remove_header_ok:
  assumes "index_ok (hdrs st)" "ent st b = Hdr hhdr"
  shows "\<exists>hs. remove_header (b * HBLKSIZE) st = Inr (set_hdrs hs st) \<and> index_ok hs \<and>
    entry hs = (ent st)(b := Count 0)"
  using GC_remove_header_ok [of "hdrs st" "b * HBLKSIZE" hhdr] assms by (auto simp: remove_header_def)

text \<open>The header at \<open>lo\<close> takes over the memory of the next block, whose header is removed.\<close>

lemma absorb_ok:
  assumes inv: "heap_inv st L {lo, hi}" and lo: "ent st lo = Hdr a" and hi: "ent st hi = Hdr c"
    and adj: "hi = lo + nblocks a" and f: "hb_sz (f a) = hb_sz a + hb_sz c" "hb_flags (f a) = hb_flags a"
  shows "\<exists>hs. sbind (mod_hdr (lo * HBLKSIZE) f st) (remove_header (hi * HBLKSIZE)) = Inr (set_hdrs hs st) \<and>
    heap_inv (set_hdrs hs st) L {lo} \<and> entry hs = (ent st)(lo := Hdr (f a), hi := Count 0) \<and>
    nblocks (f a) = nblocks a + nblocks c"
proof -
  have lists: "lists_ok st L" and layout: "layout_ok (ent st)" and zero: "\<forall>h. ent st 0 \<noteq> Hdr h"
    and free: "\<And>x. is_free (ent st) x \<longleftrightarrow> x \<in> listed_blocks L \<union> {lo, hi}" and disj: "listed_blocks L \<inter> {lo, hi} = {}"
    and idx: "\<forall>i. \<forall>c\<in>set (L i). fl_index (ent st) c = i"
    using inv by (simp_all add: heap_inv_def)
  have fr: "HBLK_IS_FREE a" "HBLK_IS_FREE c" "HBLK_IS_FREE (f a)"
    using free [of lo] free [of hi] lo hi f(2) by (simp_all add: is_free_def HBLK_IS_FREE_def)
  have "lo \<noteq> hi"
    using adj layout_pos [OF layout lo] by simp
  obtain h1 where h1: "mod_hdr (lo * HBLKSIZE) f st = Inr (set_hdrs h1 st)" "index_ok h1" "entry h1 = (ent st)(lo := Hdr (f a))"
    using mod_hdr_ok [of st lo a f] lists lo by (auto simp: lists_ok_def)
  obtain hs where hs: "remove_header (hi * HBLKSIZE) (set_hdrs h1 st) = Inr (set_hdrs hs st)" "index_ok hs"
      "entry hs = (ent st)(lo := Hdr (f a), hi := Count 0)"
    using remove_header_ok [of "set_hdrs h1 st" hi c] h1 hi \<open>lo \<noteq> hi\<close> by auto
  note merged = layout_merge [OF layout lo fr(1) hi fr(2) adj f(1) fr(3)]
  have "lists_ok (set_hdrs hs st) L"
    by (rule lists_ok_other [OF lists hs(2)]) (use hs(3) disj in auto)
  moreover have "is_free (entry hs) x \<longleftrightarrow> x \<in> listed_blocks L \<union> {lo}" for x
    using free [of x] disj fr(3) \<open>lo \<noteq> hi\<close> by (auto simp: hs(3) is_free_def)
  moreover have "entry hs 0 \<noteq> Hdr h" for h
    using zero hs(3) lo by (auto split: if_splits)
  moreover have "fl_index (entry hs) c = i" if "c \<in> set (L i)" for c i
  proof -
    have "c \<noteq> lo" "c \<noteq> hi"
      using that disj by (auto simp: listed_blocks_def)
    then show ?thesis
      using idx that by (simp add: fl_index_def sz_def hs(3))
  qed
  ultimately have "heap_inv (set_hdrs hs st) L {lo}"
    using merged(1) hs(3) disj by (simp add: heap_inv_def)
  then show ?thesis
    using h1(1) hs merged(2) by auto
qed

text \<open>What a release may do to the objects: nothing.\<close>

definition same_objects :: "heap_state \<Rightarrow> heap_state \<Rightarrow> bool" where
  "same_objects st st' \<longleftrightarrow> (\<forall>c. used (ent st') c \<longleftrightarrow> used (ent st) c) \<and> (\<forall>c. used (ent st) c \<longrightarrow> cores st' c = cores st c)"

lemma same_objects_refl [simp]: "same_objects st st"
  by (simp add: same_objects_def)

lemma same_objects_trans: "same_objects st st1 \<Longrightarrow> same_objects st1 st2 \<Longrightarrow> same_objects st st2"
  by (simp add: same_objects_def)

lemma same_objects_cores: "cores st' = cores st \<Longrightarrow> same_objects st st'"
  using used_core [of "ent st'" _ "ent st", OF cores_ent] by (simp add: same_objects_def)

lemma absorb_objects:
  assumes "is_free (ent st) lo" "is_free (ent st) hi" "entry hs = (ent st)(lo := Hdr m, hi := Count 0)" "HBLK_IS_FREE m"
  shows "same_objects st (set_hdrs hs st)"
  using assms by (auto simp: same_objects_def used_def is_free_def cores_def)

text \<open>
  Taking a listed neighbour into the block: the listed one of the two is removed from its list first.
\<close>

lemma merge_step:
  assumes inv: "heap_inv st L {b}" and lo: "ent st lo = Hdr a" and hi: "ent st hi = Hdr c"
    and adj: "hi = lo + nblocks a" and x: "x \<in> listed_blocks L" "{lo, hi} = {x, b}"
  obtains st1 L1 where "GC_remove_from_fl (x * HBLKSIZE) st = Inr st1" "cores st1 = cores st" "index_ok (hdrs st1)"
    "GC_large_free_bytes st1 = GC_large_free_bytes st"
    "\<And>f a1 c1. ent st1 lo = Hdr a1 \<Longrightarrow> ent st1 hi = Hdr c1 \<Longrightarrow> hb_sz (f a1) = hb_sz a1 + hb_sz c1 \<Longrightarrow>
      hb_flags (f a1) = hb_flags a1 \<Longrightarrow>
      \<exists>hs. sbind (mod_hdr (lo * HBLKSIZE) f st1) (remove_header (hi * HBLKSIZE)) = Inr (set_hdrs hs st1) \<and>
        heap_inv (set_hdrs hs st1) L1 {lo} \<and> entry hs = (ent st1)(lo := Hdr (f a1), hi := Count 0) \<and>
        nblocks (f a1) = nblocks a + nblocks c \<and> same_objects st (set_hdrs hs st1) \<and>
        listed_bytes (set_hdrs hs st1) + sz (ent st) x = listed_bytes st"
proof -
  obtain st1 L1 where st1: "GC_remove_from_fl (x * HBLKSIZE) st = Inr st1" "heap_inv st1 L1 {x, b}"
      "cores st1 = cores st" "GC_large_free_bytes st1 = GC_large_free_bytes st"
      "listed_bytes st1 + sz (ent st) x = listed_bytes st"
    using remove_step [OF inv x(1)] by blast
  note cores = cores_ent [OF st1(3)]
  show thesis
  proof (rule that [OF st1(1,3) _ st1(4)])
    show "index_ok (hdrs st1)"
      using st1(2) by (simp add: heap_inv_def lists_ok_def)
    fix f :: "hdr \<Rightarrow> hdr" and a1 c1 :: hdr
    assume a1: "ent st1 lo = Hdr a1" and c1: "ent st1 hi = Hdr c1"
      and f: "hb_sz (f a1) = hb_sz a1 + hb_sz c1" "hb_flags (f a1) = hb_flags a1"
    have n: "nblocks a1 = nblocks a" "nblocks c1 = nblocks c"
      using core_Hdr [of "ent st1" lo "ent st" a, OF cores lo] core_Hdr [of "ent st1" hi "ent st" c, OF cores hi] a1 c1
      by (metis hdr_entry.inject(2))+
    have inv1: "heap_inv st1 L1 {lo, hi}"
      using st1(2) x(2) by simp
    have fr: "is_free (ent st1) lo" "is_free (ent st1) hi"
      using inv1 by (simp_all add: heap_inv_def)
    then have flag: "HBLK_IS_FREE (f a1)"
      using a1 f(2) by (simp add: is_free_def HBLK_IS_FREE_def)
    obtain hs where hs: "sbind (mod_hdr (lo * HBLKSIZE) f st1) (remove_header (hi * HBLKSIZE)) = Inr (set_hdrs hs st1)"
        "heap_inv (set_hdrs hs st1) L1 {lo}" "entry hs = (ent st1)(lo := Hdr (f a1), hi := Count 0)"
        "nblocks (f a1) = nblocks a1 + nblocks c1"
      using absorb_ok [of st1 L1 lo hi a1 c1 f, OF inv1 a1 c1 _ f] adj n(1) by auto
    have "same_objects st (set_hdrs hs st1)"
      by (rule same_objects_trans [OF same_objects_cores [OF st1(3)] absorb_objects [OF fr hs(3) flag]])
    then show "\<exists>hs. sbind (mod_hdr (lo * HBLKSIZE) f st1) (remove_header (hi * HBLKSIZE)) = Inr (set_hdrs hs st1) \<and>
        heap_inv (set_hdrs hs st1) L1 {lo} \<and> entry hs = (ent st1)(lo := Hdr (f a1), hi := Count 0) \<and>
        nblocks (f a1) = nblocks a + nblocks c \<and> same_objects st (set_hdrs hs st1) \<and>
        listed_bytes (set_hdrs hs st1) + sz (ent st) x = listed_bytes st"
      using hs n st1(5) by (auto simp: listed_bytes_def)
  qed
qed

definition hdr_of :: "hdr_entry \<Rightarrow> hdr option" where
  "hdr_of e = (case e of Hdr h \<Rightarrow> Some h | Count n \<Rightarrow> None)"

lemma merge_next_ok:
  assumes inv: "heap_inv st L {b}" and b: "ent st b = Hdr hb"
  defines "nxt \<equiv> b + nblocks hb"
  shows "\<exists>st' L' h'. merge_next (b * HBLKSIZE) (nxt * HBLKSIZE) (hdr_of (ent st nxt)) st = Inr st' \<and>
    heap_inv st' L' {b} \<and> same_objects st st' \<and> GC_large_free_bytes st' = GC_large_free_bytes st \<and>
    ent st' b = Hdr h' \<and> listed_bytes st' + hb_sz h' = listed_bytes st + hb_sz hb \<and>
    (\<forall>c<b. core (ent st' c) = core (ent st c)) \<and>
    nblocks h' = nblocks hb + (case ent st nxt of
      Hdr hn \<Rightarrow> if mergeable (hb_sz hb) (Some hn) \<and> IS_MAPPED hn then nblocks hn else 0 | Count n \<Rightarrow> 0)"
proof (cases "\<exists>hn. ent st nxt = Hdr hn \<and> mergeable (hb_sz hb) (Some hn) \<and> IS_MAPPED hn")
  case False
  then have "merge_next (b * HBLKSIZE) (nxt * HBLKSIZE) (hdr_of (ent st nxt)) st = Inr st"
    using get_hdr_ok [OF b] by (cases "ent st nxt") (auto simp: merge_next_def hdr_of_def mergeable_def)
  then show ?thesis
    using inv b False by (auto split: hdr_entry.splits)
next
  case True
  then obtain hn where hn: "ent st nxt = Hdr hn" "mergeable (hb_sz hb) (Some hn)" "IS_MAPPED hn"
    by blast
  have layout: "layout_ok (ent st)" and free: "\<And>c. is_free (ent st) c \<longleftrightarrow> c \<in> listed_blocks L \<union> {b}"
    using inv by (simp_all add: heap_inv_def)
  have "nxt \<noteq> b"
    using layout_pos [OF layout b] by (simp add: nxt_def)
  then have listed: "nxt \<in> listed_blocks L"
    using free [of nxt] hn by (auto simp: is_free_def mergeable_def)
  let ?f = "\<lambda>c1 h. h\<lparr>hb_sz := hb_sz h + hb_sz c1\<rparr>"
  obtain st1 L1 where st1: "GC_remove_from_fl (nxt * HBLKSIZE) st = Inr st1" "cores st1 = cores st" "index_ok (hdrs st1)"
      "GC_large_free_bytes st1 = GC_large_free_bytes st"
    and step: "\<And>f a1 c1. ent st1 b = Hdr a1 \<Longrightarrow> ent st1 nxt = Hdr c1 \<Longrightarrow> hb_sz (f a1) = hb_sz a1 + hb_sz c1 \<Longrightarrow>
      hb_flags (f a1) = hb_flags a1 \<Longrightarrow>
      \<exists>hs. sbind (mod_hdr (b * HBLKSIZE) f st1) (remove_header (nxt * HBLKSIZE)) = Inr (set_hdrs hs st1) \<and>
        heap_inv (set_hdrs hs st1) L1 {b} \<and> entry hs = (ent st1)(b := Hdr (f a1), nxt := Count 0) \<and>
        nblocks (f a1) = nblocks hb + nblocks hn \<and> same_objects st (set_hdrs hs st1) \<and>
        listed_bytes (set_hdrs hs st1) + sz (ent st) nxt = listed_bytes st"
    using merge_step [OF inv b hn(1) _ listed] by (auto simp: nxt_def insert_commute)
  note cores = cores_ent [OF st1(2)]
  obtain a1 where a1: "ent st1 b = Hdr a1" "hb_sz a1 = hb_sz hb"
    using core_Hdr [of "ent st1" b "ent st" hb, OF cores b] by blast
  obtain c1 where c1: "ent st1 nxt = Hdr c1" "hb_sz c1 = hb_sz hn"
    using core_Hdr [of "ent st1" nxt "ent st" hn, OF cores hn(1)] by blast
  obtain hs where hs: "sbind (mod_hdr (b * HBLKSIZE) (?f c1) st1) (remove_header (nxt * HBLKSIZE)) = Inr (set_hdrs hs st1)"
      "heap_inv (set_hdrs hs st1) L1 {b}" "entry hs = (ent st1)(b := Hdr (?f c1 a1), nxt := Count 0)"
      "nblocks (?f c1 a1) = nblocks hb + nblocks hn" "same_objects st (set_hdrs hs st1)"
      "listed_bytes (set_hdrs hs st1) + sz (ent st) nxt = listed_bytes st"
    using step [OF a1(1) c1(1), of "?f c1"] by auto
  have run: "merge_next (b * HBLKSIZE) (nxt * HBLKSIZE) (hdr_of (ent st nxt)) st = Inr (set_hdrs hs st1)"
    using hs(1) st1(1) hn get_hdr_ok [OF b] get_hdr_ok [OF c1(1)] by (simp add: merge_next_def hdr_of_def)
  have below: "core (entry hs c) = core (ent st c)" if "c < b" for c
    using that cores [of c] by (simp add: hs(3) nxt_def)
  have "sz (ent st) nxt = hb_sz hn"
    using hn(1) by (simp add: sz_def)
  then show ?thesis
    using run hs(2,4,5,6) st1(4) below a1 c1 hn \<open>nxt \<noteq> b\<close>
    by (intro exI [of _ "set_hdrs hs st1"] exI [of _ L1] exI [of _ "?f c1 a1"]) (simp add: hs(3))
qed

lemma merge_prev_ok:
  assumes inv: "heap_inv st L {b}" and b: "ent st b = Hdr hb" and p: "ent st p = Hdr hp" "HBLK_IS_FREE hp" "p + nblocks hp = b" "0 < p"
  shows "\<exists>st' L' lo h'. merge_prev (b * HBLKSIZE) (p * HBLKSIZE) st = Inr (lo * HBLKSIZE, st') \<and>
    heap_inv st' L' {lo} \<and> same_objects st st' \<and> GC_large_free_bytes st' = GC_large_free_bytes st \<and>
    ent st' lo = Hdr h' \<and> listed_bytes st' + hb_sz h' = listed_bytes st + hb_sz hb \<and>
    (if IS_MAPPED hp \<and> hb_sz hb + hb_sz hp < 2 ^ 63 then lo = p \<and> nblocks h' = nblocks hp + nblocks hb
     else lo = b \<and> nblocks h' = nblocks hb)"
proof (cases "IS_MAPPED hp \<and> hb_sz hb + hb_sz hp < 2 ^ 63")
  case False
  then have "merge_prev (b * HBLKSIZE) (p * HBLKSIZE) st = Inr (b * HBLKSIZE, st)"
    using get_hdr_ok [OF b] get_hdr_ok [OF p(1)] by (auto simp: merge_prev_def)
  then show ?thesis
    using inv b False by auto
next
  case True
  have layout: "layout_ok (ent st)" and free: "\<And>c. is_free (ent st) c \<longleftrightarrow> c \<in> listed_blocks L \<union> {b}"
    using inv by (simp_all add: heap_inv_def)
  have pos: "0 < nblocks hp" "0 < hb_sz hp"
    using layout_pos [OF layout p(1)] layout_free [OF layout p(1,2)] by simp_all
  then have "p \<noteq> b"
    using p(3) by auto
  then have listed: "p \<in> listed_blocks L"
    using free [of p] p by (auto simp: is_free_def)
  obtain st1 L1 where st1: "GC_remove_from_fl (p * HBLKSIZE) st = Inr st1" "cores st1 = cores st" "index_ok (hdrs st1)"
      "GC_large_free_bytes st1 = GC_large_free_bytes st"
    and step: "\<And>f a1 c1. ent st1 p = Hdr a1 \<Longrightarrow> ent st1 b = Hdr c1 \<Longrightarrow> hb_sz (f a1) = hb_sz a1 + hb_sz c1 \<Longrightarrow>
      hb_flags (f a1) = hb_flags a1 \<Longrightarrow>
      \<exists>hs. sbind (mod_hdr (p * HBLKSIZE) f st1) (remove_header (b * HBLKSIZE)) = Inr (set_hdrs hs st1) \<and>
        heap_inv (set_hdrs hs st1) L1 {p} \<and> entry hs = (ent st1)(p := Hdr (f a1), b := Count 0) \<and>
        nblocks (f a1) = nblocks hp + nblocks hb \<and> same_objects st (set_hdrs hs st1) \<and>
        listed_bytes (set_hdrs hs st1) + sz (ent st) p = listed_bytes st"
    using merge_step [OF inv p(1) b _ listed] p(3) by auto
  note cores = cores_ent [OF st1(2)]
  let ?f = "\<lambda>h. h\<lparr>hb_sz := hb_sz h + hb_sz hb, hb_last_reclaimed := word_of_nat (GC_gc_no (hdrs st1))\<rparr>"
  obtain a1 where a1: "ent st1 p = Hdr a1" "hb_sz a1 = hb_sz hp"
    using core_Hdr [of "ent st1" p "ent st" hp, OF cores p(1)] by blast
  obtain c1 where c1: "ent st1 b = Hdr c1" "hb_sz c1 = hb_sz hb"
    using core_Hdr [of "ent st1" b "ent st" hb, OF cores b] by blast
  obtain hs where hs: "sbind (mod_hdr (p * HBLKSIZE) ?f st1) (remove_header (b * HBLKSIZE)) = Inr (set_hdrs hs st1)"
      "heap_inv (set_hdrs hs st1) L1 {p}" "entry hs = (ent st1)(p := Hdr (?f a1), b := Count 0)"
      "nblocks (?f a1) = nblocks hp + nblocks hb" "same_objects st (set_hdrs hs st1)"
      "listed_bytes (set_hdrs hs st1) + sz (ent st) p = listed_bytes st"
    using step [OF a1(1) c1(1), of ?f] c1(2) by auto
  have run: "merge_prev (b * HBLKSIZE) (p * HBLKSIZE) st = Inr (p * HBLKSIZE, set_hdrs hs st1)"
    using hs(1) st1(1) True pos p(4) get_hdr_ok [OF b] get_hdr_ok [OF p(1)]
    by (simp add: merge_prev_def sbind_assoc [symmetric])
  have "sz (ent st) p = hb_sz hp"
    using p(1) by (simp add: sz_def)
  then show ?thesis
    using run hs(2,4,5,6) st1(4) a1 True \<open>p \<noteq> b\<close>
    by (intro exI [of _ "set_hdrs hs st1"] exI [of _ L1] exI [of _ p] exI [of _ "?f a1"]) (simp add: hs(3))
qed

section \<open>Releasing an object\<close>

lemma free_flag: "HBLK_IS_FREE (h\<lparr>hb_flags := f OR FREE_BLK\<rparr>)"
  by (simp add: HBLK_IS_FREE_def word_ao_absorbs FREE_BLK_def)

text \<open>The first part of \<open>GC_freehblk\<close>: the object is a free block on no list.\<close>

lemma release_ok:
  assumes inv: "heap_inv st L {}" and b: "ent st b = Hdr h" "\<not> HBLK_IS_FREE h"
    and m_def: "m = h\<lparr>hb_sz := nblocks h * HBLKSIZE, hb_last_reclaimed := word_of_nat (GC_gc_no hs1),
    hb_flags := hb_flags h OR FREE_BLK\<rparr>"
    and hs: "index_ok hs" "entry hs = released (ent st) b (nblocks h) m"
  shows "heap_inv (set_hdrs hs st) L {b}" "\<forall>c. used (entry hs) c \<longleftrightarrow> used (ent st) c \<and> c \<noteq> b"
    "\<forall>c. used (entry hs) c \<longrightarrow> entry hs c = ent st c"
proof -
  have lists: "lists_ok st L" and layout: "layout_ok (ent st)" and zero: "\<forall>h. ent st 0 \<noteq> Hdr h"
    and free: "\<And>c. is_free (ent st) c \<longleftrightarrow> c \<in> listed_blocks L" and idx: "\<forall>i. \<forall>c\<in>set (L i). fl_index (ent st) c = i"
    using inv by (simp_all add: heap_inv_def)
  have m: "hb_sz m = nblocks h * HBLKSIZE" "HBLK_IS_FREE m"
    using free_flag by (simp_all add: m_def)
  have hdr: "entry hs c = ent st c" if "ent st c = Hdr hc" "c \<noteq> b" for c hc
    using no_hdr_inside [OF layout b(1), of c hc] that by (auto simp: hs(2) released_def)
  have new: "entry hs b = Hdr m"
    by (simp add: hs(2) released_def)
  have was: "ent st c = Hdr hc" if "entry hs c = Hdr hc" "c \<noteq> b" for c hc
    using that by (simp add: hs(2) released_def split: if_splits)
  have b_in: "b \<notin> listed_blocks L"
    using free [of b] b by (auto simp: is_free_def)
  have listed: "entry hs c = ent st c \<and> c \<noteq> b" if "c \<in> listed_blocks L" for c
  proof -
    have "c \<noteq> b"
      using that b_in by blast
    then show ?thesis
      using that free [of c] hdr by (auto simp: is_free_def)
  qed
  have "lists_ok (set_hdrs hs st) L"
    by (rule lists_ok_other [OF lists hs(1)]) (use listed in blast)
  moreover have "is_free (entry hs) c \<longleftrightarrow> c \<in> listed_blocks L \<union> {b}" for c
  proof (cases "c = b")
    case False
    then have "is_free (entry hs) c \<longleftrightarrow> is_free (ent st) c"
      unfolding is_free_def using hdr was by metis
    then show ?thesis
      using free [of c] False by simp
  qed (use new m(2) in \<open>simp add: is_free_def\<close>)
  moreover have "entry hs 0 \<noteq> Hdr hc" for hc
    using was [of 0 hc] zero b(1) by (cases "b = 0") auto
  moreover have "fl_index (entry hs) c = i" if "c \<in> set (L i)" for c i
  proof -
    have "c \<in> listed_blocks L"
      using that by (auto simp: listed_blocks_def)
    then have "sz (entry hs) c = sz (ent st) c"
      using listed [of c] by (simp add: sz_def)
    then show ?thesis
      using that idx by (simp add: fl_index_def)
  qed
  moreover have "layout_ok (entry hs)"
    unfolding hs(2) by (rule layout_release [OF layout b m])
  ultimately show "heap_inv (set_hdrs hs st) L {b}"
    using b_in by (simp add: heap_inv_def)
  have "used (entry hs) c \<longleftrightarrow> used (ent st) c" if "c \<noteq> b" for c
    unfolding used_def using hdr was that by metis
  moreover have "\<not> used (entry hs) b"
    using new m(2) by (simp add: used_def)
  ultimately show used: "\<forall>c. used (entry hs) c \<longleftrightarrow> used (ent st) c \<and> c \<noteq> b"
    by metis
  show "\<forall>c. used (entry hs) c \<longrightarrow> entry hs c = ent st c"
    using used hdr by (auto simp: used_def)
qed

lemma hdr_or_null_ok: "(\<And>n. ent st c = Count n \<Longrightarrow> n = 0) \<Longrightarrow> hdr_or_null (c * HBLKSIZE) st = Inr (hdr_of (ent st c))"
  by (cases "ent st c") (simp_all add: hdr_or_null_def hdr_of_def)

lemma large_update_simps [simp]:
  "heap_inv (st\<lparr>GC_large_free_bytes := n\<rparr>) L X = heap_inv st L X"
  "cores (st\<lparr>GC_large_free_bytes := n\<rparr>) = cores st" "listed_bytes (st\<lparr>GC_large_free_bytes := n\<rparr>) = listed_bytes st"
  by (simp_all add: heap_inv_def lists_ok_def cores_def fun_eq_iff listed_bytes_def)

lemma pending_free: "heap_inv st L {b} \<Longrightarrow> ent st b = Hdr h \<Longrightarrow> HBLK_IS_FREE h"
proof -
  assume inv: "heap_inv st L {b}" and b: "ent st b = Hdr h"
  have "is_free (ent st) b"
    using inv by (simp add: heap_inv_def)
  then show ?thesis
    using b by (simp add: is_free_def)
qed

lemma ends_at_unique:
  assumes layout: "layout_ok e" and c: "ends_at e b c" and c': "e c' = Hdr k" "c' + nblocks k = b"
  shows "c' = c"
proof -
  obtain hc where hc: "e c = Hdr hc" "c + nblocks hc = b"
    using c by (auto simp: ends_at_def)
  have "\<not> c < c'" "\<not> c' < c"
    using no_hdr_inside [OF layout hc(1), of c' k] no_hdr_inside [OF layout c'(1), of c hc] hc c'
      layout_pos [OF layout hc(1)] layout_pos [OF layout c'(1)] by auto
  then show ?thesis
    by simp
qed

text \<open>The entry after a free block is a header or nothing.\<close>

lemma after_free:
  assumes layout: "layout_ok e" and b: "e b = Hdr h" "HBLK_IS_FREE h" and n: "e (b + nblocks h) = Count n"
  shows "n = 0"
proof (rule ccontr)
  assume "n \<noteq> 0"
  then obtain s hs where s: "e s = Hdr hs" "\<not> HBLK_IS_FREE hs" "s < b + nblocks h" "b + nblocks h < s + nblocks hs"
    using layout_count [OF layout n] by (metis neq0_conv)
  then have "s \<noteq> b"
    using b by auto
  then consider "s < b" | "b < s"
    by linarith
  then show False
  proof cases
    case 1
    then show False
      using no_hdr_inside [OF layout s(1), of b h] b(1) s(4) by simp
  next
    case 2
    then show False
      using no_hdr_inside [OF layout b(1), of s hs] s(1,3) by simp
  qed
qed

text \<open>\<open>GC_freehblk\<close> up to the search for free neighbours.\<close>

lemma freehblk_start:
  assumes inv: "heap_inv st L {}" and b: "ent st b = Hdr h" "\<not> HBLK_IS_FREE h"
    and small: "nblocks h * HBLKSIZE < 2 ^ 61"
  obtains hs m0 where
    "GC_freehblk (b * HBLKSIZE) st =
      sbind (hdr_or_null ((b + nblocks h) * HBLKSIZE) (set_hdrs hs st)) (\<lambda>nexthdr.
      sbind (GC_free_block_ending_at (b * HBLKSIZE) (set_hdrs hs st)) (\<lambda>prev.
      sbind (merge_next (b * HBLKSIZE) ((b + nblocks h) * HBLKSIZE) nexthdr (set_hdrs hs st)) (\<lambda>st'.
      sbind (merge_prev (b * HBLKSIZE) prev st') (\<lambda>(hbp, st').
        GC_add_to_fl hbp (st'\<lparr>GC_large_free_bytes := GC_large_free_bytes st' + nblocks h * HBLKSIZE\<rparr>)))))"
    "heap_inv (set_hdrs hs st) L {b}" "\<forall>c. used (entry hs) c \<longleftrightarrow> used (ent st) c \<and> c \<noteq> b"
    "\<forall>c. used (entry hs) c \<longrightarrow> entry hs c = ent st c"
    "entry hs b = Hdr m0" "HBLK_IS_FREE m0" "nblocks m0 = nblocks h" "hb_sz m0 = nblocks h * HBLKSIZE"
    "\<And>c. c < b \<or> b + nblocks h \<le> c \<Longrightarrow> entry hs c = ent st c"
proof -
  let ?n = "nblocks h" and ?a = "b * HBLKSIZE" and ?size = "HBLKSIZE * OBJ_SZ_TO_BLOCKS (hb_sz h)"
  have layout: "layout_ok (ent st)" and index: "index_ok (hdrs st)"
    using inv by (simp_all add: heap_inv_def lists_ok_def)
  have size: "?size = ?n * HBLKSIZE"
    by (simp add: nblocks_def)
  have size_pos: "\<not> (?size = 0 \<or> ?size \<ge> 2 ^ 63)"
    using layout_pos [OF layout b(1)] small unfolding size by simp
  have in_object: "x * HBLKSIZE < ?a + ?size \<longleftrightarrow> x < b + ?n" for x
    unfolding size by (simp flip: add_mult_distrib)
  have covered: "has_index (hdrs st) x" if "b < x" "x < b + ?n" for x
  proof (rule ccontr)
    assume "\<not> has_index (hdrs st) x"
    then have "ent st x = Count 0"
      by (rule entry_no_index [OF index])
    moreover have "0 < x - b" "x - b < ?n"
      using that by simp_all
    ultimately show False
      using layout_tail [OF layout b(1), of "x - b"] that b(2) by (simp add: tail_entry_def MAX_JUMP_def HBLKSIZE_def)
  qed
  obtain hs1 where hs1: "GC_remove_counts ?a ?size (hdrs st) = Inr hs1" "index_ok hs1"
      "entry hs1 = (\<lambda>x. if b < x \<and> x < b + ?n then Count 0 else ent st x)"
    using GC_remove_counts_ok [OF index, of ?a ?size] covered by (auto simp: in_object)
  let ?h1 = "h\<lparr>hb_sz := ?size, hb_last_reclaimed := word_of_nat (GC_gc_no hs1)\<rparr>"
  define m0 where "m0 = h\<lparr>hb_sz := ?n * HBLKSIZE, hb_last_reclaimed := word_of_nat (GC_gc_no hs1),
    hb_flags := hb_flags h OR FREE_BLK\<rparr>"
  obtain hs2 where hs2: "mod_hdr ?a (\<lambda>hhdr. hhdr\<lparr>hb_sz := ?size, hb_last_reclaimed := word_of_nat (GC_gc_no hs1)\<rparr>)
      (set_hdrs hs1 st) = Inr (set_hdrs hs2 st)" "index_ok hs2" "entry hs2 = (entry hs1)(b := Hdr ?h1)"
    using mod_hdr_ok [of "set_hdrs hs1 st" b h] hs1 b(1) by auto
  obtain hs where hs: "mod_hdr ?a (\<lambda>hhdr. hhdr\<lparr>hb_flags := hb_flags hhdr OR FREE_BLK\<rparr>) (set_hdrs hs2 st) =
      Inr (set_hdrs hs st)" "index_ok hs" "entry hs = released (ent st) b ?n m0"
    using mod_hdr_ok [of "set_hdrs hs2 st" b ?h1 "\<lambda>hhdr. hhdr\<lparr>hb_flags := hb_flags hhdr OR FREE_BLK\<rparr>"] hs2 hs1(3) size
    by (auto simp: released_def m0_def fun_eq_iff)
  have m0: "entry hs b = Hdr m0" "HBLK_IS_FREE m0" "nblocks m0 = ?n" "hb_sz m0 = ?n * HBLKSIZE"
    using free_flag layout_release(2) [OF layout b, of m0] by (simp_all add: hs(3) released_def m0_def)
  have outside: "entry hs c = ent st c" if "c < b \<or> b + ?n \<le> c" for c
    using that layout_pos [OF layout b(1)] by (auto simp: hs(3) released_def)
  show thesis
  proof (rule that [OF _ release_ok [OF inv b m0_def hs(2,3)] m0 outside])
  qed (use get_hdr_ok [OF b(1)] size_pos b(2) hs1(1) hs2(1) hs(1) layout_pos [OF layout b(1), unfolded nblocks_def]
      in \<open>simp_all add: GC_freehblk_def Let_def size add_mult_distrib\<close>)
qed

text \<open>A merge with the next block stays below half of the address space.\<close>

lemma merged_size:
  assumes inv: "heap_inv st L {b}" and m: "ent st b = Hdr m" and n: "n * HBLKSIZE < 2 ^ 61"
    and le: "nblocks m \<le> n \<or> (\<exists>k. nblocks m \<le> n + k \<and> k * HBLKSIZE < 2 ^ 61)"
  shows "hb_sz m < 2 ^ 62"
proof -
  have "hb_sz m = nblocks m * HBLKSIZE"
    using inv layout_free [of "ent st" b m, OF _ m pending_free [OF inv m]] by (simp add: heap_inv_def)
  moreover have "nblocks m * HBLKSIZE < 2 ^ 62"
    using le
  proof (elim disjE exE conjE)
    assume le: "nblocks m \<le> n"
    have bound: "x < 2 ^ 62" if "x \<le> y" "y < 2 ^ 61" for x y :: nat
      using that by simp
    show ?thesis
      by (rule bound [OF mult_le_mono1 [OF le] n])
  next
    fix k assume le: "nblocks m \<le> n + k" and k: "k * HBLKSIZE < 2 ^ 61"
    have bound: "x < 2 ^ 62" if "x \<le> y + z" "y < 2 ^ 61" "z < 2 ^ 61" for x y z :: nat
      using that by simp
    show ?thesis
      by (rule bound [OF mult_le_mono1 [OF le, of HBLKSIZE, unfolded add_mult_distrib] n k])
  qed
  ultimately show ?thesis
    by simp
qed

text \<open>The merge with the block that \<open>GC_free_block_ending_at\<close> has found.\<close>

lemma merge_found:
  assumes inv: "heap_inv st L {b}" and b: "ent st b = Hdr m" "hb_sz m < 2 ^ 62" and layout: "layout_ok e"
    and p: "p = 0 \<and> (\<forall>c. \<not> ends_at e b c) \<or> (\<exists>c>0. p = c * HBLKSIZE \<and> ends_at e b c)"
    and same: "\<forall>c<b. core (ent st c) = core (e c)"
    and small: "\<And>c k. c < b \<Longrightarrow> e c = Hdr k \<Longrightarrow> nblocks k * HBLKSIZE < 2 ^ 61"
  obtains st' L' lo m' where "merge_prev (b * HBLKSIZE) p st = Inr (lo * HBLKSIZE, st')" "heap_inv st' L' {lo}"
    "same_objects st st'" "GC_large_free_bytes st' = GC_large_free_bytes st" "ent st' lo = Hdr m'"
    "listed_bytes st' + hb_sz m' = listed_bytes st + hb_sz m" "lo \<le> b" "b + nblocks m \<le> lo + nblocks m'"
    "\<And>c k. e c = Hdr k \<Longrightarrow> HBLK_IS_FREE k \<Longrightarrow> IS_MAPPED k \<Longrightarrow> c + nblocks k = b \<Longrightarrow> lo \<le> c"
proof (cases "p = 0")
  case True
  then have "\<And>c. \<not> ends_at e b c"
    using p by auto
  then show ?thesis
    using that [of b st L m] inv b(1) True by (auto simp: merge_prev_def ends_at_def)
next
  case False
  then obtain c k where c: "0 < c" "p = c * HBLKSIZE" "ends_at e b c" "e c = Hdr k" "HBLK_IS_FREE k" "c + nblocks k = b"
    using p by (auto simp: ends_at_def)
  then have "c < b"
    using layout_pos [OF layout c(4)] by simp
  then obtain k2 where k2: "ent st c = Hdr k2" "hb_sz k2 = hb_sz k" "nblocks k2 = nblocks k"
      "HBLK_IS_FREE k2 = HBLK_IS_FREE k" "IS_MAPPED k2 = IS_MAPPED k"
    using core_Hdr [of "ent st" c e k] same c(4) by metis
  have "hb_sz k < 2 ^ 61"
    using small [OF \<open>c < b\<close> c(4)] layout_free [OF layout c(4,5)] by simp
  then have small_sum: "hb_sz m + hb_sz k2 < 2 ^ 63"
    using b(2) k2(2) by simp
  obtain st' L' lo m' where r: "merge_prev (b * HBLKSIZE) p st = Inr (lo * HBLKSIZE, st')" "heap_inv st' L' {lo}"
      "same_objects st st'" "GC_large_free_bytes st' = GC_large_free_bytes st" "ent st' lo = Hdr m'"
      "listed_bytes st' + hb_sz m' = listed_bytes st + hb_sz m"
      "if IS_MAPPED k2 \<and> hb_sz m + hb_sz k2 < 2 ^ 63 then lo = c \<and> nblocks m' = nblocks k2 + nblocks m
       else lo = b \<and> nblocks m' = nblocks m"
    using merge_prev_ok [OF inv b(1) k2(1)] k2 c by auto
  have "lo \<le> x" if x: "e x = Hdr kx" "HBLK_IS_FREE kx" "IS_MAPPED kx" "x + nblocks kx = b" for x kx
    using ends_at_unique [OF layout c(3) x(1,4)] x c(4) k2(5) r(7) small_sum by simp
  then show ?thesis
    using that [OF r(1-6)] r(7) c(6) k2(3) by (auto split: if_splits)
qed

text \<open>C38: releasing an object of a consistent heap keeps the heap consistent (free lists doubly linked, by
  size and complete, layout of the headers, byte counts), removes exactly this object and touches no
  other one, adds its blocks to \<open>GC_large_free_bytes\<close>, and the memory ends up in one free block together
  with the free and mapped blocks next to it.\<close>

theorem freehblk_correct:
  assumes ok: "heap_ok st L" and b: "ent st b = Hdr h" "\<not> HBLK_IS_FREE h"
    and small: "\<forall>c k. ent st c = Hdr k \<longrightarrow> nblocks k * HBLKSIZE < 2 ^ 61"
  shows "\<exists>st' L' lo m. GC_freehblk (b * HBLKSIZE) st = Inr st' \<and> heap_ok st' L' \<and>
    (\<forall>c. used (ent st') c \<longleftrightarrow> used (ent st) c \<and> c \<noteq> b) \<and> (\<forall>c. used (ent st') c \<longrightarrow> cores st' c = cores st c) \<and>
    GC_large_free_bytes st' = GC_large_free_bytes st + nblocks h * HBLKSIZE \<and>
    ent st' lo = Hdr m \<and> HBLK_IS_FREE m \<and> lo \<le> b \<and> b + nblocks h \<le> lo + nblocks m \<and>
    (\<forall>c k. ent st c = Hdr k \<and> HBLK_IS_FREE k \<and> IS_MAPPED k \<and> (c = b + nblocks h \<or> c + nblocks k = b) \<longrightarrow>
      lo \<le> c \<and> c + nblocks k \<le> lo + nblocks m)"
proof -
  let ?n = "nblocks h" and ?a = "b * HBLKSIZE"
  have inv: "heap_inv st L {}" and bytes: "GC_large_free_bytes st = listed_bytes st"
    using ok by (simp_all add: heap_ok_def)
  then have layout: "layout_ok (ent st)"
    by (simp add: heap_inv_def)
  obtain hs m0 where start: "GC_freehblk ?a st =
      sbind (hdr_or_null ((b + ?n) * HBLKSIZE) (set_hdrs hs st)) (\<lambda>nexthdr.
      sbind (GC_free_block_ending_at ?a (set_hdrs hs st)) (\<lambda>prev.
      sbind (merge_next ?a ((b + ?n) * HBLKSIZE) nexthdr (set_hdrs hs st)) (\<lambda>st'.
      sbind (merge_prev ?a prev st') (\<lambda>(hbp, st').
        GC_add_to_fl hbp (st'\<lparr>GC_large_free_bytes := GC_large_free_bytes st' + ?n * HBLKSIZE\<rparr>)))))"
    and rel: "heap_inv (set_hdrs hs st) L {b}" "\<forall>c. used (entry hs) c \<longleftrightarrow> used (ent st) c \<and> c \<noteq> b"
      "\<forall>c. used (entry hs) c \<longrightarrow> entry hs c = ent st c"
    and m0: "entry hs b = Hdr m0" "HBLK_IS_FREE m0" "nblocks m0 = ?n" "hb_sz m0 = ?n * HBLKSIZE"
    and outside: "\<And>c. c < b \<or> b + ?n \<le> c \<Longrightarrow> entry hs c = ent st c"
    using freehblk_start [OF inv b small [rule_format, OF b(1)]] by blast
  let ?st = "set_hdrs hs st"
  have layout': "layout_ok (ent ?st)" and zero': "\<forall>h. ent ?st 0 \<noteq> Hdr h" and pos: "0 < b" and index': "index_ok hs"
    using rel(1) m0(1) by (auto simp: heap_inv_def lists_ok_def intro: gr0I)
  have nxt: "hdr_or_null ((b + ?n) * HBLKSIZE) ?st = Inr (hdr_of (ent ?st (b + ?n)))"
    by (rule hdr_or_null_ok) (use after_free [OF layout', of b m0] m0 in simp)
  obtain p where p: "GC_free_block_ending_at ?a ?st = Inr p"
      "p = 0 \<and> (\<forall>c. \<not> ends_at (ent ?st) b c) \<or> (\<exists>c>0. p = c * HBLKSIZE \<and> ends_at (ent ?st) b c)"
    using free_block_ending_at_ok [of ?st b m0] index' layout' zero' pos m0(1) by auto
  obtain st2 L2 m2 where st2: "merge_next ?a ((b + ?n) * HBLKSIZE) (hdr_of (ent ?st (b + ?n))) ?st = Inr st2"
      "heap_inv st2 L2 {b}" "same_objects ?st st2" "GC_large_free_bytes st2 = GC_large_free_bytes st"
      "ent st2 b = Hdr m2" "listed_bytes st2 + hb_sz m2 = listed_bytes ?st + hb_sz m0"
      "\<forall>c<b. core (ent st2 c) = core (ent ?st c)"
      "nblocks m2 = ?n + (case ent ?st (b + ?n) of
        Hdr hn \<Rightarrow> if mergeable (hb_sz m0) (Some hn) \<and> IS_MAPPED hn then nblocks hn else 0 | Count n \<Rightarrow> 0)"
    using merge_next_ok [OF rel(1), of m0] m0 by auto
  have "nblocks m2 \<le> ?n \<or> (\<exists>k. ent st (b + ?n) = Hdr k \<and> nblocks m2 \<le> ?n + nblocks k)"
    using st2(8) outside [of "b + ?n"] by (auto split: hdr_entry.splits if_splits)
  then have m2_size: "hb_sz m2 < 2 ^ 62"
    using small by (intro merged_size [OF st2(2,5) small [rule_format, OF b(1)]]) blast
  obtain st3 L3 lo m3 where st3: "merge_prev ?a p st2 = Inr (lo * HBLKSIZE, st3)" "heap_inv st3 L3 {lo}"
      "same_objects st2 st3" "GC_large_free_bytes st3 = GC_large_free_bytes st2" "ent st3 lo = Hdr m3"
      "listed_bytes st3 + hb_sz m3 = listed_bytes st2 + hb_sz m2" "lo \<le> b" "b + nblocks m2 \<le> lo + nblocks m3"
    and left: "\<And>c k. ent ?st c = Hdr k \<Longrightarrow> HBLK_IS_FREE k \<Longrightarrow> IS_MAPPED k \<Longrightarrow> c + nblocks k = b \<Longrightarrow> lo \<le> c"
    using merge_found [OF st2(2,5) m2_size layout' p(2) st2(7)] small outside
    by (metis set_hdrs_simps(1))
  let ?st3 = "st3\<lparr>GC_large_free_bytes := GC_large_free_bytes st3 + ?n * HBLKSIZE\<rparr>"
  obtain st' L' where st': "GC_add_to_fl (lo * HBLKSIZE) ?st3 = Inr st'" "heap_inv st' L' {}" "cores st' = cores ?st3"
      "GC_large_free_bytes st' = GC_large_free_bytes ?st3" "listed_bytes st' = listed_bytes ?st3 + sz (ent ?st3) lo"
    using add_step [of ?st3 L3 lo] st3(2) by auto
  have run: "GC_freehblk ?a st = Inr st'"
    unfolding start nxt p(1) st2(1) st3(1) sbind_Inr prod.case by (rule st'(1))
  have cores: "core (ent st' c) = core (ent st3 c)" for c
    using cores_ent [OF st'(3)] by simp
  obtain m where m: "ent st' lo = Hdr m" "nblocks m = nblocks m3" "HBLK_IS_FREE m"
    using core_Hdr [of "ent st'" lo "ent st3" m3, OF cores st3(5)] pending_free [OF st3(2,5)] by metis
  have large: "GC_large_free_bytes st' = GC_large_free_bytes st + ?n * HBLKSIZE"
    using st'(4) st3(4) st2(4) by simp
  have "listed_bytes ?st = listed_bytes st"
    by (simp add: listed_bytes_def)
  then have total: "GC_large_free_bytes st' = listed_bytes st'"
    unfolding large using st'(5) st3(5,6) st2(6) bytes m0(4) by (simp add: sz_def)
  have objects: "same_objects ?st st'"
    using same_objects_trans [OF same_objects_trans [OF st2(3) st3(3)], of st'] st'(3)
      same_objects_cores [of st' st3] by simp
  have used: "used (ent st') c \<longleftrightarrow> used (ent st) c \<and> c \<noteq> b" for c
    using objects rel(2) by (simp add: same_objects_def)
  have kept: "cores st' c = cores st c" if "used (ent st') c" for c
    using objects rel(2,3) that by (simp add: same_objects_def cores_def)
  have near: "lo \<le> c \<and> c + nblocks k \<le> lo + nblocks m"
    if k: "ent st c = Hdr k" "HBLK_IS_FREE k" "IS_MAPPED k" "c = b + ?n \<or> c + nblocks k = b" for c k
    using k(4)
  proof
    assume c: "c = b + ?n"
    then have "ent ?st (b + ?n) = Hdr k"
      using outside [of c] k(1) by simp
    moreover have "mergeable (hb_sz m0) (Some k)"
      using small [rule_format, OF k(1)] small [rule_format, OF b(1)] layout_free [OF layout k(1,2)]
        layout_pos [OF layout b(1)] m0(4) k(2) by (simp add: mergeable_def)
    ultimately have "nblocks m2 = ?n + nblocks k"
      using st2(8) k(3) by simp
    then show ?thesis
      using c st3(7,8) m(2) by simp
  next
    assume c: "c + nblocks k = b"
    then have "lo \<le> c"
      using left [of c k] outside [of c] k layout_pos [OF layout k(1)] by simp
    then show ?thesis
      using c st3(8) m(2) by simp
  qed
  have "b + ?n \<le> lo + nblocks m"
    using st3(8) st2(8) m(2) by simp
  then show ?thesis
    using run st'(2) total large used kept m st3(7) near unfolding heap_ok_def by blast
qed

text \<open>A heap with the object of \<open>sample_heap\<close> and no free memory.\<close>

definition sample_store :: heap_state where
  "sample_store = \<lparr>bl = sample_lists, GC_obj_map = (\<lambda>i. None), GC_valid_offsets = (\<lambda>i. False),
     GC_obj_kinds = (\<lambda>k. \<lparr>ok_descriptor = 0, ok_relocate_descr = False\<rparr>), GC_hblkfreelist = (\<lambda>i. 0),
     GC_free_bytes = (\<lambda>i. 0), GC_large_free_bytes = 0, GC_large_allocd_bytes = 0, GC_max_large_allocd_bytes = 0,
     GC_bytes_dropped = 0, GC_requested_heapsize = 0, GC_finalizer_bytes_freed = 0, GC_use_entire_heap = False,
     GC_dont_gc = False, GC_incremental = False, GC_find_leak = False, GC_debugging_started = False, drop_count = 0,
     GC_large_alloc_warn_suppressed = 0, GC_large_alloc_warn_interval = 5, GC_fail_count = 0,
     GC_unmap_threshold = 6, os_calls = []\<rparr>"

lemma sample_store_ent: "ent sample_store = (\<lambda>b. if b = 5 then Hdr sample_hdr else if b = 6 then Count 1 else Count 0)"
  by (simp add: sample_store_def hdrs_def sample_lists_def sample_entry)

lemma sample_store_ok: "heap_ok sample_store (\<lambda>i. [])"
proof -
  have hdrs: "hdrs sample_store = sample_heap"
    by (simp add: sample_store_def hdrs_def sample_lists_def)
  have "lists_ok sample_store (\<lambda>i. [])"
    unfolding lists_ok_def hdrs using sample_index_ok by (simp add: sample_store_def)
  moreover have "layout_ok (ent sample_store)"
    unfolding hdrs by (rule sample_layout_ok)
  moreover have "\<not> is_free (ent sample_store) c" for c
    by (simp add: is_free_def sample_store_ent sample_hdr_ok)
  moreover have "ent sample_store 0 \<noteq> Hdr h" for h
    by (simp add: sample_store_ent)
  ultimately show ?thesis
    by (simp add: heap_ok_def heap_inv_def listed_blocks_def listed_bytes_def) (simp add: sample_store_def)
qed

theorem freehblk_correct_witness:
  "\<exists>st'. GC_freehblk (5 * HBLKSIZE) sample_store = Inr st' \<and> GC_large_free_bytes st' = 2 * HBLKSIZE \<and>
    \<not> used (ent st') 5"
proof -
  have b: "ent sample_store 5 = Hdr sample_hdr" and small: "\<forall>c k. ent sample_store c = Hdr k \<longrightarrow> nblocks k * HBLKSIZE < 2 ^ 61"
    by (simp_all add: sample_store_ent sample_hdr_ok HBLKSIZE_def)
  have "GC_large_free_bytes sample_store = 0"
    by (simp add: sample_store_def)
  then show ?thesis
    using freehblk_correct [OF sample_store_ok b sample_hdr_ok(2) small] sample_hdr_ok(1) by auto
qed

section \<open>The total of the lists\<close>

lemma free_loop_ok: "seg (ent st) p f bs 0 \<Longrightarrow> length bs \<le> n \<Longrightarrow> free_loop n f st = Inr (sum_list (map (sz (ent st)) bs))"
proof (induction bs arbitrary: n p f)
  case Nil
  then show ?case
    by (cases n) simp_all
next
  case (Cons b bs)
  then obtain m where n: "n = Suc m" "length bs \<le> m"
    by (cases n) auto
  obtain hhdr where h: "ent st b = Hdr hhdr" "seg (ent st) (b * HBLKSIZE) (hb_next hhdr) bs 0" "0 < b" "f = b * HBLKSIZE"
    using Cons.prems(1) by auto
  then show ?case
    using Cons.IH [OF h(2) n(2)] get_hdr_ok [OF h(1)] n(1) by (simp add: sz_def)
qed

lemma lists_loop_ok:
  "lists_ok st L \<Longrightarrow> \<forall>i. length (L i) \<le> n \<Longrightarrow> lists_loop n is st = Inr (sum_list (map (GC_free_bytes st) is))"
proof (induction "is")
  case (Cons i "is")
  have "free_loop n (GC_hblkfreelist st i) st = Inr (GC_free_bytes st i)"
    using Cons.prems free_loop_ok [of st 0 "GC_hblkfreelist st i" "L i" n] by (simp add: lists_ok_def)
  then show ?case
    using Cons by simp
qed simp



end
