(* ===== verification/GcHblkUse.thy ===== *)
theory GcHblkUse
  imports GcHblkFree
begin

text \<open>
  What the allocation of a block does once the search has found one: headers placed in free memory, the
  first part of a free block (\<open>GC_get_first_part\<close>), its counts and its header (\<open>setup_header\<close>).
\<close>

unbundle bit_operations_syntax

section \<open>Placing headers\<close>

text \<open>A block without a header that is not part of any other block.\<close>

definition gap :: "(nat \<Rightarrow> hdr_entry) \<Rightarrow> nat \<Rightarrow> bool" where
  "gap e x \<longleftrightarrow> e x = Count 0 \<and> (\<forall>s h. e s = Hdr h \<and> s < x \<longrightarrow> s + nblocks h \<le> x)"

definition placed :: "(nat \<Rightarrow> hdr_entry) \<Rightarrow> nat \<Rightarrow> hdr \<Rightarrow> nat \<Rightarrow> hdr_entry" where
  "placed e b m = (\<lambda>x. if x = b then Hdr m else if b < x \<and> x < b + nblocks m then tail_entry m (x - b) else e x)"

lemma layout_forget:
  assumes ok: "layout_ok e" and b: "e b = Hdr h" "HBLK_IS_FREE h"
  shows "layout_ok (e(b := Count 0))" "\<And>x. b \<le> x \<Longrightarrow> x < b + nblocks h \<Longrightarrow> gap (e(b := Count 0)) x"
proof -
  let ?e = "e(b := Count 0)"
  show "layout_ok ?e"
    unfolding layout_ok_def
  proof (intro conjI allI impI)
    fix x hx assume x: "?e x = Hdr hx"
    then have e: "x \<noteq> b" "e x = Hdr hx"
      by (auto split: if_splits)
    show "0 < nblocks hx"
      by (rule layout_pos [OF ok e(2)])
    show "hb_sz hx = nblocks hx * HBLKSIZE" if "HBLK_IS_FREE hx"
      by (rule layout_free [OF ok e(2) that])
    show "?e (x + i) = tail_entry hx i" if i: "0 < i \<and> i < nblocks hx" for i
      using layout_tail [OF ok e(2), of i] i b(1) by (auto simp: tail_entry_def)
  next
    fix x k assume "?e x = Count k \<and> 0 < k"
    then have "e x = Count k" "0 < k"
      by (auto split: if_splits)
    then obtain s hs where s: "e s = Hdr hs" "\<not> HBLK_IS_FREE hs" "s < x" "x < s + nblocks hs"
      using ok unfolding layout_ok_def by blast
    then show "\<exists>s hhdr. ?e s = Hdr hhdr \<and> \<not> HBLK_IS_FREE hhdr \<and> s < x \<and> x < s + nblocks hhdr"
      using b by (intro exI [of _ s] exI [of _ hs]) auto
  qed
  show "gap ?e x" if x: "b \<le> x" "x < b + nblocks h" for x
    unfolding gap_def
  proof (intro conjI allI impI)
    show "?e x = Count 0"
      using layout_tail [OF ok b(1), of "x - b"] x b(2) by (cases "x = b") (simp_all add: tail_entry_def)
    fix s hs assume "?e s = Hdr hs \<and> s < x"
    then have s: "s \<noteq> b" "e s = Hdr hs" "s < x"
      by (auto split: if_splits)
    show "s + nblocks hs \<le> x"
    proof (rule ccontr)
      assume "\<not> s + nblocks hs \<le> x"
      then show False
        using no_hdr_inside [OF ok s(2), of b h] no_hdr_inside [OF ok b(1), of s hs] s b(1) x
        by (cases "s < b") auto
    qed
  qed
qed

lemma layout_place:
  assumes ok: "layout_ok e" and gaps: "\<And>x. b \<le> x \<Longrightarrow> x < b + nblocks m \<Longrightarrow> gap e x"
    and m: "0 < nblocks m" "HBLK_IS_FREE m \<Longrightarrow> hb_sz m = nblocks m * HBLKSIZE"
  shows "layout_ok (placed e b m)" "\<And>x. gap e x \<Longrightarrow> x < b \<or> b + nblocks m \<le> x \<Longrightarrow> gap (placed e b m) x"
proof -
  let ?e = "placed e b m"
  have old: "\<not> (b \<le> x \<and> x < b + nblocks m)" if "e x = Hdr hx" for x hx
    using gaps [of x] that by (auto simp: gap_def)
  have new: "x = b \<and> hx = m \<or> e x = Hdr hx \<and> (x < b \<or> b + nblocks m \<le> x)" if "?e x = Hdr hx" for x hx
    using that old [of x hx] by (auto simp: placed_def tail_entry_def split: if_splits)
  show "layout_ok ?e"
    unfolding layout_ok_def
  proof (intro conjI allI impI)
    fix x hx assume x: "?e x = Hdr hx"
    note cases = new [OF x]
    show "0 < nblocks hx"
      using cases m(1) layout_pos [OF ok] by auto
    show "hb_sz hx = nblocks hx * HBLKSIZE" if "HBLK_IS_FREE hx"
      using cases m(2) layout_free [OF ok] that by auto
    show "?e (x + i) = tail_entry hx i" if i: "0 < i \<and> i < nblocks hx" for i
      using cases
    proof
      assume "x = b \<and> hx = m"
      then show ?thesis
        using i by (simp add: placed_def)
    next
      assume e: "e x = Hdr hx \<and> (x < b \<or> b + nblocks m \<le> x)"
      have "\<not> (b \<le> x + i \<and> x + i < b + nblocks m)"
      proof
        assume inside: "b \<le> x + i \<and> x + i < b + nblocks m"
        then have "gap e (x + i)" "x < x + i"
          using gaps [of "x + i"] i by simp_all
        then have "x + nblocks hx \<le> x + i"
          using e unfolding gap_def by blast
        then show False
          using i by simp
      qed
      then show ?thesis
        using layout_tail [OF ok, of x hx i] e i m(1) by (auto simp: placed_def)
    qed
  next
    fix x k assume x: "?e x = Count k \<and> 0 < k"
    show "\<exists>s hhdr. ?e s = Hdr hhdr \<and> \<not> HBLK_IS_FREE hhdr \<and> s < x \<and> x < s + nblocks hhdr"
    proof (cases "b < x \<and> x < b + nblocks m")
      case True
      then have "\<not> HBLK_IS_FREE m"
        using x by (auto simp: placed_def tail_entry_def)
      then show ?thesis
        using True by (intro exI [of _ b] exI [of _ m]) (simp add: placed_def)
    next
      case False
      then have "e x = Count k" "0 < k"
        using x by (auto simp: placed_def split: if_splits)
      then obtain s hs where s: "e s = Hdr hs" "\<not> HBLK_IS_FREE hs" "s < x" "x < s + nblocks hs"
        using ok unfolding layout_ok_def by blast
      then have "?e s = Hdr hs"
        using old [OF s(1)] m(1) by (auto simp: placed_def)
      then show ?thesis
        using s by blast
    qed
  qed
  show "gap ?e x" if x: "gap e x" "x < b \<or> b + nblocks m \<le> x" for x
    unfolding gap_def
  proof (intro conjI allI impI)
    show "?e x = Count 0"
      using x m(1) by (auto simp: gap_def placed_def)
    fix s hs assume "?e s = Hdr hs \<and> s < x"
    then show "s + nblocks hs \<le> x"
      using new [of s hs] x by (auto simp: gap_def)
  qed
qed


lemma layout_change:
  assumes ok: "layout_ok e" and b: "e b = Hdr h" "HBLK_IS_FREE h" and h': "HBLK_IS_FREE h'" "hb_sz h' = hb_sz h"
  shows "layout_ok (e(b := Hdr h'))"
proof -
  have n: "nblocks h' = nblocks h"
    using h'(2) by (simp add: nblocks_def)
  note forget = layout_forget [OF ok b]
  have "layout_ok (placed (e(b := Count 0)) b h')"
    by (rule layout_place [OF forget(1) forget(2)]) (use n layout_pos [OF ok b(1)] layout_free [OF ok b] h' in simp_all)
  moreover have "e x = Count 0" if "b < x" "x < b + nblocks h" for x
    using layout_tail [OF ok b(1), of "x - b"] that b(2) by (simp add: tail_entry_def)
  then have "placed (e(b := Count 0)) b h' = e(b := Hdr h')"
    using n h'(1) by (auto simp: placed_def tail_entry_def fun_eq_iff)
  ultimately show ?thesis
    by simp
qed

section \<open>The parts of a state\<close>

text \<open>The black lists, without the headers, and the count of dropped bytes.\<close>

definition tables :: "heap_state \<Rightarrow> bl_state \<times> nat" where
  "tables st = ((bl st)\<lparr>headers := undefined\<rparr>, GC_bytes_dropped st)"

lemma tables_simps [simp]:
  "tables (set_hdrs hs st) = tables st" "tables (st\<lparr>GC_hblkfreelist := F\<rparr>) = tables st"
  "tables (st\<lparr>GC_free_bytes := B\<rparr>) = tables st" "tables (st\<lparr>GC_large_free_bytes := n\<rparr>) = tables st"
  "tables (log_call c st) = tables st" "tables (st\<lparr>GC_obj_map := om\<rparr>) = tables st"
  "tables (st\<lparr>drop_count := n\<rparr>) = tables st" "tables (st\<lparr>GC_bytes_dropped := n\<rparr>) = (fst (tables st), n)"
  "tables (st\<lparr>GC_large_alloc_warn_suppressed := n\<rparr>) = tables st" "tables (st\<lparr>GC_fail_count := n\<rparr>) = tables st"
  by (simp_all add: tables_def set_hdrs_def log_call_def)

lemma tables_fields:
  assumes "fst (tables st') = fst (tables st)"
  shows "GC_all_interior_pointers (bl st') = GC_all_interior_pointers (bl st)"
    "GC_old_normal_bl (bl st') = GC_old_normal_bl (bl st)" "GC_incomplete_normal_bl (bl st') = GC_incomplete_normal_bl (bl st)"
    "GC_old_stack_bl (bl st') = GC_old_stack_bl (bl st)" "GC_incomplete_stack_bl (bl st') = GC_incomplete_stack_bl (bl st)"
  using arg_cong [OF assms, of GC_all_interior_pointers] arg_cong [OF assms, of GC_old_normal_bl]
    arg_cong [OF assms, of GC_incomplete_normal_bl] arg_cong [OF assms, of GC_old_stack_bl]
    arg_cong [OF assms, of GC_incomplete_stack_bl] by (simp_all add: tables_def)

lemma tables_ready_same: "fst (tables st') = fst (tables st) \<Longrightarrow> tables_ready (bl st') = tables_ready (bl st)"
  by (simp add: tables_ready_def tables_fields [of st' st])

lemma mod_hdr_tables: "mod_hdr a f st = Inr st' \<Longrightarrow> tables st' = tables st"
  by (auto simp: mod_hdr_def put_hdr_def get_hdr_def sbind_def split: sum.splits hdr_entry.splits)

lemma remove_from_fl_tables: "GC_remove_from_fl_at a i st = Inr st' \<Longrightarrow> tables st' = tables st"
  unfolding GC_remove_from_fl_at_def sbind_def Let_def
  by (auto split: sum.splits if_splits dest!: mod_hdr_tables)

lemma add_to_fl_tables: "GC_add_to_fl a st = Inr st' \<Longrightarrow> tables st' = tables st"
  unfolding GC_add_to_fl_def sbind_def Let_def
  by (auto split: sum.splits if_splits dest!: mod_hdr_tables)

text \<open>What of the state the free lists depend on, apart from the headers.\<close>

definition same_lists :: "heap_state \<Rightarrow> heap_state \<Rightarrow> bool" where
  "same_lists st st' \<longleftrightarrow> GC_hblkfreelist st' = GC_hblkfreelist st \<and> GC_free_bytes st' = GC_free_bytes st \<and>
     GC_large_free_bytes st' = GC_large_free_bytes st \<and> tables st' = tables st"

lemma same_lists_refl [simp]: "same_lists st st"
  by (simp add: same_lists_def)

lemma same_lists_trans: "same_lists st st1 \<Longrightarrow> same_lists st1 st2 \<Longrightarrow> same_lists st st2"
  by (simp add: same_lists_def)

lemma same_lists_simps [simp]:
  "same_lists st (set_hdrs hs st') = same_lists st st'" "same_lists st (log_call c st') = same_lists st st'"
  "same_lists st (st'\<lparr>GC_obj_map := om\<rparr>) = same_lists st st'"
  by (simp_all add: same_lists_def) (simp_all add: log_call_def)

lemma hdrs_others [simp]:
  "hdrs (st\<lparr>GC_obj_map := om\<rparr>) = hdrs st" "hdrs (log_call c st) = hdrs st" "hdrs (st\<lparr>GC_bytes_dropped := n\<rparr>) = hdrs st"
  "hdrs (st\<lparr>drop_count := n\<rparr>) = hdrs st" "hdrs (st\<lparr>GC_fail_count := n\<rparr>) = hdrs st"
  "hdrs (st\<lparr>GC_large_alloc_warn_suppressed := n\<rparr>) = hdrs st"
  by (simp_all add: hdrs_def log_call_def)

lemma log_simps [simp]:
  "GC_hblkfreelist (log_call c st) = GC_hblkfreelist st" "GC_free_bytes (log_call c st) = GC_free_bytes st"
  "GC_large_free_bytes (log_call c st) = GC_large_free_bytes st" "cores (log_call c st) = cores st"
  "listed_bytes (log_call c st) = listed_bytes st" "listed_bytes (set_hdrs hs st) = listed_bytes st"
  by (simp_all add: log_call_def cores_def listed_bytes_def hdrs_def fun_eq_iff)

lemma lists_ok_updates [simp]:
  "lists_ok (log_call c st) L = lists_ok st L" "lists_ok (st\<lparr>GC_large_free_bytes := n\<rparr>) L = lists_ok st L"
  "lists_ok (st\<lparr>GC_bytes_dropped := n\<rparr>) L = lists_ok st L" "lists_ok (st\<lparr>drop_count := n\<rparr>) L = lists_ok st L"
  "lists_ok (st\<lparr>GC_fail_count := n\<rparr>) L = lists_ok st L"
  "lists_ok (st\<lparr>GC_large_alloc_warn_suppressed := n\<rparr>) L = lists_ok st L"
  by (simp_all add: lists_ok_def)

lemma heap_inv_updates [simp]:
  "heap_inv (log_call c st) L X = heap_inv st L X" "heap_inv (st\<lparr>GC_bytes_dropped := n\<rparr>) L X = heap_inv st L X"
  "heap_inv (st\<lparr>drop_count := n\<rparr>) L X = heap_inv st L X" "heap_inv (st\<lparr>GC_fail_count := n\<rparr>) L X = heap_inv st L X"
  "heap_inv (st\<lparr>GC_large_alloc_warn_suppressed := n\<rparr>) L X = heap_inv st L X"
  by (simp_all add: heap_inv_def)

lemma listed_bytes_updates [simp]:
  "listed_bytes (st\<lparr>GC_bytes_dropped := n\<rparr>) = listed_bytes st" "listed_bytes (st\<lparr>drop_count := n\<rparr>) = listed_bytes st"
  "listed_bytes (st\<lparr>GC_fail_count := n\<rparr>) = listed_bytes st"
  "listed_bytes (st\<lparr>GC_large_alloc_warn_suppressed := n\<rparr>) = listed_bytes st"
  by (simp_all add: listed_bytes_def)

section \<open>Setting up a header\<close>

lemma install_header_ok:
  assumes "index_ok (hdrs st)"
  shows "\<exists>r hs. install_header (b * HBLKSIZE) st = Inr (r, set_hdrs hs st) \<and> index_ok hs \<and>
    entry hs = (case r of None \<Rightarrow> ent st | Some hhdr \<Rightarrow> (ent st)(b := Hdr hhdr))"
proof -
  obtain r hs where "GC_install_header (b * HBLKSIZE) (hdrs st) = Inr (r, hs)" "index_ok hs"
      "entry hs = (case r of None \<Rightarrow> ent st | Some hhdr \<Rightarrow> (ent st)(b := Hdr hhdr))"
    using GC_install_header_ok [OF assms, of "b * HBLKSIZE", unfolded block_mult(1)] by blast
  then show ?thesis
    by (intro exI [of _ r] exI [of _ hs]) (simp add: install_header_def)
qed

lemma add_map_entry_ok:
  assumes "GC_add_map_entry g st = (ok, st')" "index_ok (hdrs st)"
  shows "same_lists st st' \<and> index_ok (hdrs st') \<and> ent st' = ent st"
proof -
  obtain r hs where alloc: "GC_scratch_alloc (MAP_LEN * 2) (hdrs st) = (r, hs)"
    by fastforce
  have "index_ok hs" "entry hs = ent st"
    using same_tree_entry [OF GC_scratch_alloc_same [OF alloc, THEN conjunct1]] assms(2) by simp_all
  then show ?thesis
    using assms alloc by (auto simp: GC_add_map_entry_def Let_def split: if_splits)
qed

text \<open>The header that \<open>setup_header\<close> leaves in the index.\<close>

lemma setup_header_ok:
  assumes index: "index_ok (hdrs st)" and b: "ent st b = Hdr hhdr"
  obtains ok m st' where "setup_header (b * HBLKSIZE) blk bytes kind flags st = Inr (ok, st')" "same_lists st st'"
    "index_ok (hdrs st')" "ent st' = (ent st)(b := Hdr m)" "hb_flags m = flags" "hb_sz m = (if ok then bytes else HBLKSIZE)"
    "hb_obj_kind m = kind" "hb_block m = blk"
proof -
  let ?descr = "ok_descriptor (GC_obj_kinds st kind) + (if ok_relocate_descr (GC_obj_kinds st kind) then bytes else 0)"
  let ?f = "\<lambda>hhdr. hhdr\<lparr>hb_sz := bytes, hb_obj_kind := kind, hb_flags := flags, hb_block := blk,
    hb_descr := ?descr, hb_large_block := (bytes > MAXOBJBYTES)\<rparr>"
  obtain h1 where h1: "mod_hdr (b * HBLKSIZE) ?f st = Inr (set_hdrs h1 st)" "index_ok h1" "entry h1 = (ent st)(b := Hdr (?f hhdr))"
    using mod_hdr_ok [OF index b, of ?f] by blast
  obtain ok st2 where map: "GC_add_map_entry (BYTES_TO_GRANULES bytes) (set_hdrs h1 st) = (ok, st2)"
    by fastforce
  have st2: "same_lists st st2" "index_ok (hdrs st2)" "ent st2 = (ent st)(b := Hdr (?f hhdr))"
    using add_map_entry_ok [OF map] h1(2,3) by (simp_all add: same_lists_def)
  define g where "g = (if ok then (\<lambda>hhdr. (GC_clear_hdr_marks
      (hhdr\<lparr>hb_map := Some (if bytes > MAXOBJBYTES then 0 else BYTES_TO_GRANULES bytes)\<rparr>))
      \<lparr>hb_last_reclaimed := word_of_nat (GC_gc_no (hdrs st2))\<rparr>)
    else (\<lambda>hhdr. hhdr\<lparr>hb_sz := HBLKSIZE, hb_descr := 0, hb_large_block := True, hb_map := None\<rparr>))"
  obtain h3 where h3: "mod_hdr (b * HBLKSIZE) g st2 = Inr (set_hdrs h3 st2)" "index_ok h3"
      "entry h3 = (ent st2)(b := Hdr (g (?f hhdr)))"
    using mod_hdr_ok [of st2 b "?f hhdr" g] st2 by auto
  have "setup_header (b * HBLKSIZE) blk bytes kind flags st = Inr (ok, set_hdrs h3 st2)"
    unfolding setup_header_def Let_def h1(1) sbind_Inr map prod.case
    using h3(1) by (cases ok) (simp_all add: g_def split del: if_split)
  then show thesis
    by (rule that [of ok _ "g (?f hhdr)"]) (use h3 st2 in \<open>auto simp: g_def GC_clear_hdr_marks_def Let_def\<close>)
qed

section \<open>Using a block\<close>

text \<open>A consistent heap, but for the list that the free block \<open>b\<close> is on.\<close>

definition heap_but :: "heap_state \<Rightarrow> (nat \<Rightarrow> nat list) \<Rightarrow> nat \<Rightarrow> bool" where
  "heap_but st L b \<longleftrightarrow> lists_ok st L \<and> layout_ok (ent st) \<and> (\<forall>h. ent st 0 \<noteq> Hdr h) \<and>
     (\<forall>c. is_free (ent st) c \<longleftrightarrow> c \<in> listed_blocks L) \<and> (\<forall>i. \<forall>c\<in>set (L i). c = b \<or> fl_index (ent st) c = i)"

lemma heap_inv_but: "heap_inv st L {} \<Longrightarrow> heap_but st L b"
  by (simp add: heap_inv_def heap_but_def)

lemma heap_but_hdr:
  assumes inv: "heap_but st L b" and b: "b \<in> set (L i)" "ent st b = Hdr hb"
  shows "HBLK_IS_FREE hb" "hb_sz hb = nblocks hb * HBLKSIZE" "0 < nblocks hb" "0 < b"
proof -
  have "is_free (ent st) b"
    using inv b(1) by (auto simp: heap_but_def listed_blocks_def)
  then show free: "HBLK_IS_FREE hb"
    using b(2) by (simp add: is_free_def)
  have ok: "layout_ok (ent st)" and zero: "\<forall>h. ent st 0 \<noteq> Hdr h"
    using inv by (simp_all add: heap_but_def)
  show "hb_sz hb = nblocks hb * HBLKSIZE" "0 < nblocks hb"
    by (rule layout_free [OF ok b(2) free], rule layout_pos [OF ok b(2)])
  show "0 < b"
    using zero b(2) by (cases "b = 0") auto
qed

lemma get_first_part_ok:
  assumes inv: "heap_but st L b" and b: "b \<in> set (L i)" "ent st b = Hdr hb" and i: "i \<le> N_HBLK_FLS"
    and k: "0 < k" "k \<le> nblocks hb"
  obtains (failed) st1 L1 where "GC_get_first_part (b * HBLKSIZE) (k * HBLKSIZE) i st = Inr (0, st1)" "lists_ok st1 L1"
      "GC_large_free_bytes st1 = GC_large_free_bytes st" "listed_bytes st1 < listed_bytes st"
  | (found) st1 L1 m where "GC_get_first_part (b * HBLKSIZE) (k * HBLKSIZE) i st = Inr (b * HBLKSIZE, st1)"
      "lists_ok st1 L1" "GC_large_free_bytes st1 = GC_large_free_bytes st"
      "listed_bytes st1 + k * HBLKSIZE = listed_bytes st"
      "listed_blocks L1 = listed_blocks L - {b} \<union> (if k < nblocks hb then {b + k} else {})"
      "\<forall>j. \<forall>c\<in>set (L1 j). fl_index (ent st1) c = j"
      "k < nblocks hb \<longrightarrow> HBLK_IS_FREE m \<and> hb_sz m = (nblocks hb - k) * HBLKSIZE"
      "cores st1 = (if k < nblocks hb then (cores st)(b + k := core (Hdr m)) else cores st)"
proof -
  let ?L = "L(i := remove1 b (L i))"
  have lists: "lists_ok st L" and layout: "layout_ok (ent st)" and zero: "\<forall>h. ent st 0 \<noteq> Hdr h"
    and free: "\<And>c. is_free (ent st) c \<longleftrightarrow> c \<in> listed_blocks L"
    and idx: "\<forall>i. \<forall>c\<in>set (L i). c = b \<or> fl_index (ent st) c = i"
    using inv by (simp_all add: heap_but_def)
  note free_b = heap_but_hdr(1) [OF inv b] and size = heap_but_hdr(2-4) [OF inv b]
  obtain st' where st': "GC_remove_from_fl_at (b * HBLKSIZE) i st = Inr st'" "lists_ok st' ?L" "cores st' = cores st"
      "GC_large_free_bytes st' = GC_large_free_bytes st"
      "GC_free_bytes st' = (GC_free_bytes st)(i := GC_free_bytes st i - sz (ent st) b)"
    using remove_from_fl_at_ok [OF lists b(1)] by blast
  have bytes: "listed_bytes st' + nblocks hb * HBLKSIZE = listed_bytes st"
    using remove_bytes [OF lists b(1) i st'(5)] b(2) size by (simp add: sz_def)
  have less: "listed_bytes st' < listed_bytes st"
    unfolding bytes [symmetric] using size(2) by simp
  note listed = listed_remove [OF lists b(1)]
  have idx': "fl_index (ent st') c = j" if "c \<in> set (?L j)" for c j
  proof -
    have "c \<in> set (L j)"
      using that set_remove1_subset [of b "L i"] by (auto split: if_splits)
    moreover have "c \<noteq> b"
      using that listed by (auto simp: listed_blocks_def)
    ultimately show ?thesis
      using idx sz_cores [OF st'(3)] by (auto simp: fl_index_def)
  qed
  have total: "nblocks hb * HBLKSIZE = k * HBLKSIZE \<longleftrightarrow> k = nblocks hb"
    using k(1) by auto
  show thesis
  proof (cases "k = nblocks hb")
    case True
    then have "GC_get_first_part (b * HBLKSIZE) (k * HBLKSIZE) i st = Inr (b * HBLKSIZE, st')"
      using st'(1) get_hdr_ok [OF b(2)] size by (simp add: GC_get_first_part_def)
    then show thesis
      by (rule found [where m = hb]) (use st'(2-4) bytes listed idx' True in auto)
  next
    case False
    let ?rest = "b + k"
    have rest: "b * HBLKSIZE + k * HBLKSIZE = ?rest * HBLKSIZE"
      by (simp add: add_mult_distrib)
    have index: "index_ok (hdrs st')"
      using st'(2) by (simp add: lists_ok_def)
    obtain r hs where inst: "install_header (?rest * HBLKSIZE) st' = Inr (r, set_hdrs hs st')" "index_ok hs"
        "entry hs = (case r of None \<Rightarrow> ent st' | Some hhdr \<Rightarrow> (ent st')(?rest := Hdr hhdr))"
      using install_header_ok [OF index, of ?rest] by blast
    have run: "GC_get_first_part (b * HBLKSIZE) (k * HBLKSIZE) i st =
        (if r = None then Inr (0, log_call (Warn ''Header allocation failed: Dropping block.'') (set_hdrs hs st'))
         else sbind (mod_hdr (?rest * HBLKSIZE) (\<lambda>rhdr. rhdr\<lparr>hb_sz := minus_word (hb_sz hb) (k * HBLKSIZE), hb_flags := 0\<rparr>)
             (set_hdrs hs st')) (\<lambda>st. sbind (GC_add_to_fl (?rest * HBLKSIZE) st) (\<lambda>st. Inr (b * HBLKSIZE, st))))"
      using st'(1) get_hdr_ok [OF b(2)] size(1) total False inst(1) by (simp add: GC_get_first_part_def rest Let_def)
    have "ent st ?rest = Count 0"
      using layout_tail [OF layout b(2), of k] k False free_b by (simp add: tail_entry_def)
    then have rest_in: "?rest \<notin> listed_blocks L"
      using free [of ?rest] by (simp add: is_free_def)
    show thesis
    proof (cases r)
      case None
      have "lists_ok (set_hdrs hs st') ?L"
        by (rule lists_ok_other [OF st'(2) inst(2)]) (simp add: inst(3) None)
      then show thesis
        using failed [of "log_call (Warn ''Header allocation failed: Dropping block.'') (set_hdrs hs st')" ?L]
          run None st'(4) less by simp
    next
      case (Some h0)
      let ?m = "h0\<lparr>hb_sz := minus_word (hb_sz hb) (k * HBLKSIZE), hb_flags := 0\<rparr>"
      have "lists_ok (set_hdrs hs st') ?L"
        by (rule lists_ok_other [OF st'(2) inst(2)]) (use rest_in listed in \<open>auto simp: inst(3) Some\<close>)
      obtain h2 where h2: "mod_hdr (?rest * HBLKSIZE) (\<lambda>rhdr. rhdr\<lparr>hb_sz := minus_word (hb_sz hb) (k * HBLKSIZE), hb_flags := 0\<rparr>)
          (set_hdrs hs st') = Inr (set_hdrs h2 st')" "index_ok h2" "entry h2 = (ent st')(?rest := Hdr ?m)"
        using mod_hdr_ok [of "set_hdrs hs st'" ?rest h0] inst(2,3) Some by auto
      have "lists_ok (set_hdrs h2 st') ?L"
        by (rule lists_ok_other [OF st'(2) h2(2)]) (use rest_in listed in \<open>auto simp: h2(3)\<close>)
      moreover have rest_out: "?rest \<notin> listed_blocks ?L"
        using rest_in listed by auto
      ultimately obtain st2 where st2: "GC_add_to_fl (?rest * HBLKSIZE) (set_hdrs h2 st') = Inr st2"
          "lists_ok st2 (?L(GC_hblk_fl_from_blocks (hb_sz ?m div HBLKSIZE) :=
            ?rest # ?L (GC_hblk_fl_from_blocks (hb_sz ?m div HBLKSIZE))))"
          "cores st2 = (cores (set_hdrs h2 st'))(?rest := core (Hdr (?m\<lparr>hb_flags := hb_flags ?m OR FREE_BLK\<rparr>)))"
          "GC_large_free_bytes st2 = GC_large_free_bytes st'"
          "GC_free_bytes st2 = (GC_free_bytes st')(GC_hblk_fl_from_blocks (hb_sz ?m div HBLKSIZE) :=
            GC_free_bytes st' (GC_hblk_fl_from_blocks (hb_sz ?m div HBLKSIZE)) + hb_sz ?m)"
        using add_to_fl_ok [of "set_hdrs h2 st'" ?L ?rest ?m] size(3) h2(3) by auto
      let ?j = "GC_hblk_fl_from_blocks (hb_sz ?m div HBLKSIZE)" and ?mf = "?m\<lparr>hb_flags := hb_flags ?m OR FREE_BLK\<rparr>"
      have sz_m: "hb_sz ?m = (nblocks hb - k) * HBLKSIZE"
        using size(1) k(2) by (simp add: minus_word_def diff_mult_distrib)
      have "(nblocks hb - k) * HBLKSIZE + k * HBLKSIZE = nblocks hb * HBLKSIZE"
        using k(2) by (simp flip: add_mult_distrib)
      moreover have "listed_bytes st2 = listed_bytes st' + (nblocks hb - k) * HBLKSIZE"
        using listed_bytes_update [OF fl_from_blocks_le st2(5)] unfolding sz_m by simp
      ultimately have bytes2: "listed_bytes st2 + k * HBLKSIZE = listed_bytes st"
        using bytes by linarith
      have cores: "cores st2 = (cores st)(?rest := core (Hdr ?mf))"
        using st2(3) st'(3) h2(3) by (auto simp: cores_def fun_eq_iff)
      have sz2: "sz (ent st2) c = (if c = ?rest then hb_sz ?m else sz (ent st') c)" for c
      proof (cases "c = ?rest")
        case True
        then have "core (ent st2 c) = core (Hdr ?mf)"
          using cores by (simp add: cores_def fun_eq_iff)
        then show ?thesis
          using sz_core [of "ent st2" c "\<lambda>x. Hdr ?mf"] True by (simp add: sz_def)
      next
        case False
        then have "core (ent st2 c) = core (ent st' c)"
          using cores st'(3) by (simp add: cores_def fun_eq_iff)
        then show ?thesis
          using sz_core [of "ent st2" c "ent st'"] False by simp
      qed
      have idx2: "fl_index (ent st2) c = j" if c: "c \<in> set ((?L(?j := ?rest # ?L ?j)) j)" for c j
      proof (cases "c = ?rest")
        case True
        then have "?rest \<notin> set (?L j)"
          using rest_out by (auto simp: listed_blocks_def)
        then have "j = ?j"
          using c True by (auto split: if_splits)
        then show ?thesis
          using True sz2 [of c] by (simp add: fl_index_def)
      next
        case False
        then have "c \<in> set (?L j)"
          using c by (auto split: if_splits)
        then show ?thesis
          using idx' [of c j] sz2 [of c] False by (simp add: fl_index_def)
      qed
      have run2: "GC_get_first_part (b * HBLKSIZE) (k * HBLKSIZE) i st = Inr (b * HBLKSIZE, st2)"
        using run Some h2(1) st2(1) by simp
      have free_mf: "HBLK_IS_FREE ?mf"
        by (rule free_flag)
      have large2: "GC_large_free_bytes st2 = GC_large_free_bytes st"
        using st2(4) st'(4) by simp
      have listed2: "listed_blocks (?L(?j := ?rest # ?L ?j)) = listed_blocks L - {b} \<union> (if k < nblocks hb then {?rest} else {})"
        unfolding listed_add listed using False k(2) by auto
      have idx3: "\<forall>j. \<forall>c\<in>set ((?L(?j := ?rest # ?L ?j)) j). fl_index (ent st2) c = j"
        using idx2 by blast
      have mf: "k < nblocks hb \<longrightarrow> HBLK_IS_FREE ?mf \<and> hb_sz ?mf = (nblocks hb - k) * HBLKSIZE"
        using free_mf sz_m by simp
      have cores2: "cores st2 = (if k < nblocks hb then (cores st)(?rest := core (Hdr ?mf)) else cores st)"
        using cores False k(2) by simp
      show thesis
        by (rule found [OF run2 st2(2) large2 bytes2 listed2 idx3 mf cores2])
    qed
  qed
qed

text \<open>The first \<open>k\<close> blocks of a free block become an object, the others a free block of their own.\<close>

definition taken :: "(nat \<Rightarrow> hdr_entry) \<Rightarrow> nat \<Rightarrow> nat \<Rightarrow> nat \<Rightarrow> hdr \<Rightarrow> hdr \<Rightarrow> nat \<Rightarrow> hdr_entry" where
  "taken e b k n m rest = (\<lambda>x. if x = b then Hdr m else if b < x \<and> x < b + k then Count (min (x - b) MAX_JUMP)
     else if x = b + k \<and> k < n then Hdr rest else e x)"

lemma layout_take:
  assumes ok: "layout_ok e" and b: "e b = Hdr hb" "HBLK_IS_FREE hb" and k: "0 < k" "k \<le> nblocks hb"
    and m: "\<not> HBLK_IS_FREE m" "nblocks m = k"
    and rest: "k < nblocks hb \<longrightarrow> HBLK_IS_FREE rest \<and> hb_sz rest = (nblocks hb - k) * HBLKSIZE"
  shows "layout_ok (taken e b k (nblocks hb) m rest)"
proof -
  let ?e0 = "e(b := Count 0)"
  note forget = layout_forget [OF ok b]
  show ?thesis
  proof (cases "k < nblocks hb")
    case True
    then have r: "HBLK_IS_FREE rest" "hb_sz rest = (nblocks hb - k) * HBLKSIZE" "nblocks rest = nblocks hb - k"
      using rest nblocks_mult [of rest] by auto
    have gaps: "gap ?e0 x" if "b + k \<le> x" "x < b + k + nblocks rest" for x
      using that r(3) True by (intro forget(2)) simp_all
    have pos: "0 < nblocks rest" "HBLK_IS_FREE rest \<Longrightarrow> hb_sz rest = nblocks rest * HBLKSIZE"
      using r True by simp_all
    note place1 = layout_place [of ?e0 "b + k" rest, OF forget(1) gaps pos]
    have gaps2: "gap (placed ?e0 (b + k) rest) x" if "b \<le> x" "x < b + nblocks m" for x
      using that m(2) True by (intro place1(2) forget(2)) simp_all
    have "layout_ok (placed (placed ?e0 (b + k) rest) b m)"
      by (rule layout_place [OF place1(1) gaps2]) (use m k in simp_all)
    moreover have "e (b + (x - b)) = Count 0" if "b + k \<le> x" "x < b + nblocks hb" for x
      using layout_tail [OF ok b(1), of "x - b"] that k(1) b(2) by (simp add: tail_entry_def)
    then have "e x = Count 0" if "b + k \<le> x" "x < b + nblocks hb" for x
      using that by fastforce
    then have "placed (placed ?e0 (b + k) rest) b m = taken e b k (nblocks hb) m rest"
      using m r(1,3) True by (auto simp: placed_def taken_def tail_entry_def fun_eq_iff)
    ultimately show ?thesis
      by simp
  next
    case False
    then have "layout_ok (placed ?e0 b m)"
      by (intro layout_place [OF forget(1) forget(2)]) (use m k in simp_all)
    moreover have "placed ?e0 b m = taken e b k (nblocks hb) m rest"
      using m False by (auto simp: placed_def taken_def tail_entry_def fun_eq_iff)
    ultimately show ?thesis
      by simp
  qed
qed

text \<open>What \<open>GC_allochblk_nth\<close> does with the block that the search has found.\<close>

definition finish :: "nat \<Rightarrow> nat \<Rightarrow> 8 word \<Rightarrow> nat \<Rightarrow> nat \<times> nat \<times> heap_state \<Rightarrow> stop + nat \<times> heap_state" where
  "finish bytes kind flags size_needed = (\<lambda>(hbp, hp, st).
      if hbp = 0 then Inr (0, st)
      else
        sbind (GC_install_counts hbp size_needed (hdrs st)) (\<lambda>(ok, hs).
        let st = set_hdrs hs st in
        if \<not> ok then Inr (0, st)
        else
          sbind (setup_header hp hbp bytes kind flags st) (\<lambda>(ok, st).
          if \<not> ok then
            sbind (GC_remove_counts hbp size_needed (hdrs st)) (\<lambda>hs. Inr (0, set_hdrs hs st))
          else
            sbind (get_hdr hp st) (\<lambda>hhdr.
            let st = log_call (Remove_protection hbp (size_needed div HBLKSIZE) (hb_descr hhdr = 0)) st in
            Inr (hbp, st\<lparr>GC_fail_count := 0,
              GC_large_free_bytes := minus_word (GC_large_free_bytes st) size_needed\<rparr>)))))"

lemma allochblk_nth_finish: "GC_allochblk_nth fuel bytes kind flags n may_split st =
    sbind (search_loop fuel fuel (HBLKSIZE * OBJ_SZ_TO_BLOCKS bytes) kind flags n may_split (GC_hblkfreelist st n) st)
      (finish bytes kind flags (HBLKSIZE * OBJ_SZ_TO_BLOCKS bytes))"
  by (simp add: GC_allochblk_nth_def finish_def Let_def)

lemma finish_ok:
  assumes lists: "lists_ok st L" and b: "ent st b = Hdr hb" "0 < b" "b \<notin> listed_blocks L"
    and inside: "\<And>x. b < x \<Longrightarrow> x < b + k \<Longrightarrow> x \<notin> listed_blocks L" and k: "k = OBJ_SZ_TO_BLOCKS bytes" "0 < k"
  obtains (failed) st2 where "finish bytes kind flags (HBLKSIZE * k) (b * HBLKSIZE, b * HBLKSIZE, st) = Inr (0, st2)"
      "lists_ok st2 L" "GC_large_free_bytes st2 = GC_large_free_bytes st" "listed_bytes st2 = listed_bytes st"
  | (finished) st2 m where "finish bytes kind flags (HBLKSIZE * k) (b * HBLKSIZE, b * HBLKSIZE, st) = Inr (b * HBLKSIZE, st2)"
      "lists_ok st2 L" "GC_large_free_bytes st2 = minus_word (GC_large_free_bytes st) (k * HBLKSIZE)"
      "listed_bytes st2 = listed_bytes st"
      "ent st2 = (\<lambda>x. if x = b then Hdr m else if b < x \<and> x < b + k then Count (min (x - b) MAX_JUMP) else ent st x)"
      "hb_sz m = bytes" "hb_obj_kind m = kind" "hb_flags m = flags" "hb_block m = b * HBLKSIZE"
proof -
  let ?a = "b * HBLKSIZE" and ?n = "HBLKSIZE * k"
  have in_object: "x * HBLKSIZE < ?a + ?n \<longleftrightarrow> x < b + k" for x
  proof -
    have "?a + ?n = (b + k) * HBLKSIZE"
      by (simp add: add_mult_distrib)
    then show ?thesis
      by simp
  qed
  have index: "index_ok (hdrs st)"
    using lists by (simp add: lists_ok_def)
  have pos: "0 < ?n" "?a mod HBLKSIZE = 0"
    using k(2) by simp_all
  obtain ok hs where counts: "GC_install_counts ?a ?n (hdrs st) = Inr (ok, hs)" "index_ok hs"
      "entry hs = (if ok then (\<lambda>x. if b < x \<and> x < b + k then Count (min (x - b) MAX_JUMP) else ent st x) else ent st)"
    using GC_install_counts_ok [OF index pos(2,1), unfolded block_mult(1) in_object] by blast
  have lists1: "lists_ok (set_hdrs hs st) L"
    by (rule lists_ok_other [OF lists counts(2)]) (use inside counts(3) in auto)
  show thesis
  proof (cases ok)
    case False
    then show thesis
      using failed [of "set_hdrs hs st"] counts(1) lists1 b(2) by (simp add: finish_def)
  next
    case True
    then have e1: "entry hs = (\<lambda>x. if b < x \<and> x < b + k then Count (min (x - b) MAX_JUMP) else ent st x)"
      using counts(3) by simp
    then have hdr1: "ent (set_hdrs hs st) b = Hdr hb" and index1: "index_ok (hdrs (set_hdrs hs st))"
      using b(1) counts(2) by simp_all
    obtain ok2 m st2 where su: "setup_header ?a ?a bytes kind flags (set_hdrs hs st) = Inr (ok2, st2)"
        "same_lists (set_hdrs hs st) st2" "index_ok (hdrs st2)" "ent st2 = (entry hs)(b := Hdr m)" "hb_flags m = flags"
        "hb_sz m = (if ok2 then bytes else HBLKSIZE)" "hb_obj_kind m = kind" "hb_block m = ?a"
      using setup_header_ok [OF index1 hdr1, of ?a bytes kind flags] by (metis set_hdrs_simps(1))
    have same: "GC_hblkfreelist st2 = GC_hblkfreelist st" "GC_free_bytes st2 = GC_free_bytes st"
        "GC_large_free_bytes st2 = GC_large_free_bytes st"
      using su(2) by (simp_all add: same_lists_def)
    have lists2: "lists_ok (set_hdrs hs2 st2) L"
      if hs2: "index_ok hs2" "\<And>x. \<not> (b \<le> x \<and> x < b + k) \<Longrightarrow> entry hs2 x = ent st x" for hs2
    proof -
      have "lists_ok (set_hdrs hs2 st) L"
        by (rule lists_ok_other [OF lists hs2(1)]) (use inside b(3) hs2(2) in \<open>metis le_neq_implies_less\<close>)
      then show ?thesis
        by (simp add: lists_ok_def same)
    qed
    show thesis
    proof (cases ok2)
      case False
      have "has_index (hdrs st2) x" if "b < x" "x < b + k" for x
      proof (rule ccontr)
        assume "\<not> has_index (hdrs st2) x"
        then show False
          using entry_no_index [OF su(3), of x] that su(4) e1 by (simp add: MAX_JUMP_def HBLKSIZE_def)
      qed
      then obtain h3 where h3: "GC_remove_counts ?a ?n (hdrs st2) = Inr h3" "index_ok h3"
          "entry h3 = (\<lambda>x. if b < x \<and> x < b + k then Count 0 else ent st2 x)"
        using GC_remove_counts_ok [OF su(3) pos(2), of ?n, unfolded block_mult(1) in_object] by auto
      have "lists_ok (set_hdrs h3 st2) L"
        by (rule lists2 [OF h3(2)]) (use h3(3) su(4) e1 k(2) in auto)
      then show thesis
        using failed [of "set_hdrs h3 st2"] counts(1) True su(1) False h3(1) b(2) same
        by (simp add: finish_def listed_bytes_def)
    next
      case True2: True
      let ?st3 = "(log_call (Remove_protection ?a k (hb_descr m = 0)) st2)
        \<lparr>GC_fail_count := 0, GC_large_free_bytes := minus_word (GC_large_free_bytes st2) ?n\<rparr>"
      have hdr2: "ent st2 b = Hdr m"
        by (simp add: su(4))
      have run: "finish bytes kind flags ?n (?a, ?a, st) = Inr (?a, ?st3)"
        using counts(1) True su(1) True2 b(2) get_hdr_ok [OF hdr2] by (simp add: finish_def)
      have "lists_ok (set_hdrs (hdrs st2) st2) L"
        by (rule lists2 [OF su(3)]) (use su(4) e1 k(2) in auto)
      then have "lists_ok ?st3 L"
        by simp
      moreover have "GC_large_free_bytes ?st3 = minus_word (GC_large_free_bytes st) (k * HBLKSIZE)"
        by (simp add: same mult.commute)
      moreover have "listed_bytes ?st3 = listed_bytes st"
        by (simp add: listed_bytes_def same)
      moreover have "ent ?st3 = (\<lambda>x. if x = b then Hdr m else if b < x \<and> x < b + k
          then Count (min (x - b) MAX_JUMP) else ent st x)"
        using su(4) e1 by (auto simp: fun_eq_iff)
      ultimately show thesis
        using finished [OF run, of m] su(5-8) True2 by simp
    qed
  qed
qed

text \<open>The new object at \<open>b\<close> and everything else as before.\<close>

definition allocated :: "nat \<Rightarrow> nat \<Rightarrow> 8 word \<Rightarrow> nat \<Rightarrow> heap_state \<Rightarrow> heap_state \<Rightarrow> bool" where
  "allocated bytes kind flags b st st' \<longleftrightarrow>
     (\<exists>m. ent st' b = Hdr m \<and> hb_sz m = bytes \<and> hb_obj_kind m = kind \<and> hb_flags m = flags \<and> hb_block m = b * HBLKSIZE) \<and>
     (\<forall>c. used (ent st') c \<longleftrightarrow> used (ent st) c \<or> c = b) \<and> (\<forall>c. used (ent st) c \<longrightarrow> cores st' c = cores st c)"

lemma heap_taken:
  assumes inv: "heap_but st L b" and b: "ent st b = Hdr hb" "HBLK_IS_FREE hb" "0 < b" and k: "0 < k" "k \<le> nblocks hb"
    and m: "\<not> HBLK_IS_FREE m" "nblocks m = k"
    and rest: "k < nblocks hb \<longrightarrow> HBLK_IS_FREE rest \<and> hb_sz rest = (nblocks hb - k) * HBLKSIZE"
    and st2: "lists_ok st2 L2" "\<forall>j. \<forall>c\<in>set (L2 j). fl_index (ent st2) c = j"
      "listed_blocks L2 = listed_blocks L - {b} \<union> (if k < nblocks hb then {b + k} else {})"
      "\<And>x. core (ent st2 x) = core (taken (ent st) b k (nblocks hb) m rest x)"
  shows "heap_inv st2 L2 {}" "\<forall>c. used (ent st2) c \<longleftrightarrow> used (ent st) c \<or> c = b"
    "\<forall>c. used (ent st) c \<longrightarrow> cores st2 c = cores st c"
proof -
  let ?e = "taken (ent st) b k (nblocks hb) m rest"
  have layout: "layout_ok (ent st)" and zero: "\<forall>h. ent st 0 \<noteq> Hdr h"
    and free: "\<And>c. is_free (ent st) c \<longleftrightarrow> c \<in> listed_blocks L"
    using inv by (simp_all add: heap_but_def)
  have tail: "ent st x = Count 0" if "b < x" "x < b + nblocks hb" for x
    using layout_tail [OF layout b(1), of "x - b"] that b(2) by (simp add: tail_entry_def)
  have layout': "layout_ok (ent st2)"
    by (rule layout_core_imp [OF st2(4) layout_take [OF layout b(1,2) k m rest]])
  have "ent st2 0 \<noteq> Hdr h" for h
    using st2(4) [of 0] zero b(3) k(1) by (cases "ent st 0") (auto simp: taken_def)
  moreover have "is_free (ent st2) c \<longleftrightarrow> c \<in> listed_blocks L2" for c
  proof -
    consider "c = b" | "b < c" "c < b + k" | "c = b + k" "k < nblocks hb" | "?e c = ent st c" "c \<noteq> b" "\<not> (c = b + k \<and> k < nblocks hb)"
      by (cases "c = b"; cases "b < c \<and> c < b + k"; cases "c = b + k \<and> k < nblocks hb") (auto simp: taken_def)
    then have "is_free ?e c \<longleftrightarrow> c \<in> listed_blocks L2"
    proof cases
      case 1
      then show ?thesis
        using m(1) st2(3) k(1) by (auto simp: is_free_def taken_def)
    next
      case 2
      then have "c \<notin> listed_blocks L"
        using tail [of c] free [of c] k(2) by (auto simp: is_free_def)
      then show ?thesis
        using 2 st2(3) by (auto simp: is_free_def taken_def)
    next
      case 3
      then show ?thesis
        using rest st2(3) k(1) by (auto simp: is_free_def taken_def)
    next
      case 4
      then have "is_free ?e c = is_free (ent st) c"
        by (simp add: is_free_def)
      then show ?thesis
        using 4 st2(3) free by auto
    qed
    then show ?thesis
      using is_free_core [of "ent st2" c ?e, OF st2(4)] by simp
  qed
  ultimately show "heap_inv st2 L2 {}"
    using st2(1,2) layout' by (simp add: heap_inv_def)
  have "used ?e c \<longleftrightarrow> used (ent st) c \<or> c = b" for c
    using m(1) rest tail [of c] b(1,2) k by (auto simp: used_def taken_def)
  then show "\<forall>c. used (ent st2) c \<longleftrightarrow> used (ent st) c \<or> c = b"
    using used_core [of "ent st2" _ ?e, OF st2(4)] by blast
  show "\<forall>c. used (ent st) c \<longrightarrow> cores st2 c = cores st c"
  proof (intro allI impI)
    fix c assume "used (ent st) c"
    then have "?e c = ent st c"
      using b(1,2) tail [of c] k by (auto simp: used_def taken_def)
    then show "cores st2 c = cores st c"
      using st2(4) [of c] by (simp add: cores_def)
  qed
qed

lemma use_ok:
  assumes inv: "heap_but st L b" and b: "b \<in> set (L i)" "ent st b = Hdr hb" and i: "i \<le> N_HBLK_FLS"
    and bytes: "GC_large_free_bytes st = listed_bytes st" and k: "k = OBJ_SZ_TO_BLOCKS sz0" "0 < k" "k \<le> nblocks hb"
    and flags: "flags AND FREE_BLK = 0"
  obtains a st2 L2 where
    "sbind (GC_get_first_part (b * HBLKSIZE) (HBLKSIZE * k) i st)
       (\<lambda>(r, st'). finish sz0 kind flags (HBLKSIZE * k) (r, b * HBLKSIZE, st')) = Inr (a, st2)"
    "lists_ok st2 L2"
    "a = 0 \<and> listed_bytes st2 < GC_large_free_bytes st2 \<or>
     a = b * HBLKSIZE \<and> heap_ok st2 L2 \<and> allocated sz0 kind flags b st st2 \<and>
       GC_large_free_bytes st2 + k * HBLKSIZE = GC_large_free_bytes st"
proof -
  note hb = heap_but_hdr [OF inv b]
  have layout: "layout_ok (ent st)" and free: "\<And>c. is_free (ent st) c \<longleftrightarrow> c \<in> listed_blocks L"
    using inv by (simp_all add: heap_but_def)
  have mult: "HBLKSIZE * k = k * HBLKSIZE"
    by simp
  show thesis
  proof (cases rule: get_first_part_ok [OF inv b i k(2,3)])
    case (1 st1 L1)
    then show thesis
      using that [of 0 st1 L1] bytes by (simp add: finish_def mult)
  next
    case (2 st1 L1 rest)
    have cores: "core (ent st1 x) = core (if x = b + k \<and> k < nblocks hb then Hdr rest else ent st x)" for x
      using 2(8) by (auto simp: cores_def fun_eq_iff split: if_splits)
    obtain h1 where h1: "ent st1 b = Hdr h1"
      using core_Hdr [of "ent st1" b "ent st" hb] cores [of b] b(2) k(2) by auto
    have b_out: "b \<notin> listed_blocks L1"
      using 2(5) k(2) by auto
    have inside: "x \<notin> listed_blocks L1" if "b < x" "x < b + k" for x
    proof -
      have "ent st x = Count 0"
        using layout_tail [OF layout b(2), of "x - b"] that hb(1) k(3) by (simp add: tail_entry_def)
      then have "x \<notin> listed_blocks L"
        using free [of x] by (auto simp: is_free_def)
      then show ?thesis
        using 2(5) that by auto
    qed
    show thesis
    proof (cases rule: finish_ok [OF 2(2) h1 hb(4) b_out inside k(1,2), where kind = kind and flags = flags])
      case fin: (3 st2)
      have "listed_bytes st1 < listed_bytes st"
        unfolding 2(4) [symmetric] using k(2) by simp
      then show thesis
        using that [of 0 st2 L1] fin 2(1,3) bytes by (simp add: mult)
    next
      case fin: (4 st2 m)
      have m: "\<not> HBLK_IS_FREE m" "nblocks m = k"
        using fin(8) flags fin(6) k(1) by (simp_all add: HBLK_IS_FREE_def nblocks_def)
      have e2: "core (ent st2 x) = core (taken (ent st) b k (nblocks hb) m rest x)" for x
        using cores [of x] fin(5) by (auto simp: taken_def)
      have idx: "\<forall>j. \<forall>c\<in>set (L1 j). fl_index (ent st2) c = j"
      proof (intro allI ballI)
        fix j c assume c: "c \<in> set (L1 j)"
        then have "c \<in> listed_blocks L1"
          by (auto simp: listed_blocks_def)
        then have "ent st2 c = ent st1 c"
          using b_out inside [of c] fin(5) by auto
        then show "fl_index (ent st2) c = j"
          using 2(6) c by (simp add: fl_index_def sz_def)
      qed
      note heap = heap_taken [OF inv b(2) hb(1,4) k(2,3) m 2(7) fin(2) idx 2(5) e2]
      have large: "GC_large_free_bytes st2 = listed_bytes st2" "GC_large_free_bytes st2 + k * HBLKSIZE = GC_large_free_bytes st"
        using fin(3,4) 2(3,4) bytes by (simp_all add: minus_word_def)
      have "ent st2 b = Hdr m"
        by (simp add: fin(5))
      then have "allocated sz0 kind flags b st st2"
        using heap(2,3) fin(6-9) by (simp add: allocated_def)
      then show thesis
        using that [of "b * HBLKSIZE" st2 L1] 2(1) fin(1,2) heap(1) large by (simp add: mult heap_ok_def)
    qed
  qed
qed

end
