(* ===== verification/GcHblkAlloc.thy ===== *)
theory GcHblkAlloc
  imports GcHblkUse
begin

text \<open>
  Allocating a block (\<open>GC_allochblk_nth\<close>): splitting and dropping of blocks, the search of a free list,
  and that it ends with a consistent heap and an object of its own in memory that was free.
\<close>

unbundle bit_operations_syntax

section \<open>Splitting a block\<close>

lemma layout_split:
  assumes ok: "layout_ok e" and b: "e b = Hdr hb" "HBLK_IS_FREE hb" and d: "0 < d" "d < nblocks hb"
    and h1: "HBLK_IS_FREE h1" "hb_sz h1 = d * HBLKSIZE" and h2: "HBLK_IS_FREE h2" "hb_sz h2 = (nblocks hb - d) * HBLKSIZE"
  shows "layout_ok (e(b := Hdr h1, b + d := Hdr h2))"
proof -
  let ?e0 = "e(b := Count 0)"
  note forget = layout_forget [OF ok b] and n1 = nblocks_mult [OF h1(2)] and n2 = nblocks_mult [OF h2(2)]
  have gaps: "gap ?e0 x" if "b + d \<le> x" "x < b + d + nblocks h2" for x
    using that n2 d by (intro forget(2)) simp_all
  have pos: "0 < nblocks h2" "HBLK_IS_FREE h2 \<Longrightarrow> hb_sz h2 = nblocks h2 * HBLKSIZE"
    using n2 h2(2) d by simp_all
  note place1 = layout_place [of ?e0 "b + d" h2, OF forget(1) gaps pos]
  have gaps2: "gap (placed ?e0 (b + d) h2) x" if "b \<le> x" "x < b + nblocks h1" for x
    using that n1 d by (intro place1(2) forget(2)) simp_all
  have "layout_ok (placed (placed ?e0 (b + d) h2) b h1)"
    by (rule layout_place [OF place1(1) gaps2]) (use h1 n1 d in simp_all)
  moreover have "placed (placed ?e0 (b + d) h2) b h1 = e(b := Hdr h1, b + d := Hdr h2)"
  proof
    fix x
    have "e x = Count 0" if "b < x" "x < b + nblocks hb"
      using layout_tail [OF ok b(1), of "x - b"] that b(2) by (simp add: tail_entry_def)
    then show "placed (placed ?e0 (b + d) h2) b h1 x = (e(b := Hdr h1, b + d := Hdr h2)) x"
      using n1 n2 d h1(1) h2(1) by (auto simp: placed_def tail_entry_def)
  qed
  ultimately show ?thesis
    by simp
qed

text \<open>A change of a header that keeps the links and the size.\<close>

lemma mod_hdr_keep:
  assumes ok: "lists_ok st L" and b: "ent st b = Hdr h"
    and f: "hb_next (f h) = hb_next h" "hb_prev (f h) = hb_prev h" "hb_sz (f h) = hb_sz h"
  obtains hs where "mod_hdr (b * HBLKSIZE) f st = Inr (set_hdrs hs st)" "lists_ok (set_hdrs hs st) L"
    "entry hs = (ent st)(b := Hdr (f h))"
proof -
  obtain hs where hs: "mod_hdr (b * HBLKSIZE) f st = Inr (set_hdrs hs st)" "index_ok hs" "entry hs = (ent st)(b := Hdr (f h))"
    using mod_hdr_ok [OF _ b, of f] ok by (auto simp: lists_ok_def)
  have "seg (entry hs) 0 (GC_hblkfreelist st i) (L i) 0" for i
    by (rule seg_links [of _ "ent st"]) (use ok b f hs(3) in \<open>auto simp: lists_ok_def\<close>)
  moreover have "sz (entry hs) = sz (ent st)"
    using b f(3) by (auto simp: sz_def hs(3) fun_eq_iff)
  ultimately have "lists_ok (set_hdrs hs st) L"
    using ok hs(2) by (simp add: lists_ok_def)
  then show thesis
    using that hs by blast
qed

text \<open>The block \<open>t\<close> takes the place of \<open>b\<close> on a list.\<close>

lemma seg_replace:
  assumes seg: "seg e p f (xs @ b # ys) n" and dist: "distinct (xs @ b # ys)" and t: "t \<notin> set (xs @ b # ys)" "0 < t"
    and hdr: "e b = Hdr hb" "e t = Hdr ht" "hb_prev ht = hb_prev hb" "hb_next ht = hb_next hb"
  defines "e1 \<equiv> (if xs = [] then e else e(last xs := Hdr ((case e (last xs) of Hdr h \<Rightarrow> h)\<lparr>hb_next := t * HBLKSIZE\<rparr>)))"
  defines "e2 \<equiv> (if ys = [] then e1 else e1(hd ys := Hdr ((case e1 (hd ys) of Hdr h \<Rightarrow> h)\<lparr>hb_prev := t * HBLKSIZE\<rparr>)))"
  shows "seg e2 p (if xs = [] then t * HBLKSIZE else f) (xs @ t # ys) n"
    and "\<And>c. c \<notin> set xs \<union> set ys \<Longrightarrow> e2 c = e c" "\<And>c. core (e2 c) = core (e c)"
proof -
  have xs: "seg e p f xs (b * HBLKSIZE)" and prev: "hb_prev hb = lst p xs"
    and ys: "seg e (b * HBLKSIZE) (hb_next hb) ys n"
    using seg hdr by (auto simp: seg_append)
  have e1_xs: "seg e1 p (if xs = [] then t * HBLKSIZE else f) xs (t * HBLKSIZE)"
  proof (cases "xs = []")
    case False
    then obtain h where h: "e (last xs) = Hdr h"
      using seg_hdr [OF xs, of "last xs"] by auto
    show ?thesis
      using seg_set_next [OF xs False _ h, of "t * HBLKSIZE"] dist False h by (simp add: e1_def)
  qed simp
  have e1: "e1 c = e c" if "c \<notin> set xs" for c
    using that last_in_set [of xs] by (auto simp: e1_def)
  have ys1: "seg e1 (b * HBLKSIZE) (hb_next hb) ys n"
  proof -
    have "seg e1 (b * HBLKSIZE) (hb_next hb) ys n = seg e (b * HBLKSIZE) (hb_next hb) ys n"
      by (rule seg_cong, rule e1) (use dist in auto)
    then show ?thesis
      using ys by simp
  qed
  have e2_ys: "seg e2 (t * HBLKSIZE) (hb_next hb) ys n"
  proof (cases ys)
    case Nil
    then show ?thesis
      using ys1 by simp
  next
    case (Cons y ys')
    then obtain h where h: "e1 y = Hdr h"
      using seg_hdr [OF ys1, of y] by auto
    show ?thesis
      using seg_set_prev [OF ys1 [unfolded Cons] _ h, of "t * HBLKSIZE"] dist Cons h by (simp add: e2_def)
  qed
  have e2: "e2 c = e1 c" if "c \<notin> set ys" for c
    using that hd_in_set [of ys] by (auto simp: e2_def)
  have "seg e2 p (if xs = [] then t * HBLKSIZE else f) xs (t * HBLKSIZE) =
      seg e1 p (if xs = [] then t * HBLKSIZE else f) xs (t * HBLKSIZE)"
    by (rule seg_cong, rule e2) (use dist in auto)
  moreover have "e2 t = Hdr ht"
    using e1 [of t] e2 [of t] t(1) hdr(2) by simp
  ultimately show "seg e2 p (if xs = [] then t * HBLKSIZE else f) (xs @ t # ys) n"
    using e1_xs e2_ys prev hdr(3,4) t(2) by (auto simp: seg_append)
  show "e2 c = e c" if "c \<notin> set xs \<union> set ys" for c
    using that e1 [of c] e2 [of c] by simp
  have "core (e1 c) = core (e c)" for c
    using seg_hdr [OF xs] last_in_set [of xs] by (fastforce simp: e1_def)
  moreover have "core (e2 c) = core (e1 c)" for c
    using seg_hdr [OF ys1] hd_in_set [of ys] by (fastforce simp: e2_def)
  ultimately show "core (e2 c) = core (e c)" for c
    by simp
qed

text \<open>\<open>GC_split_block\<close> up to the insertion of the first part.\<close>

lemma split_relink:
  assumes ok: "lists_ok st L" and b: "b \<in> set (L i)" "ent st b = Hdr hb" and d: "0 < d" "d * HBLKSIZE \<le> hb_sz hb"
    and t: "b + d \<notin> listed_blocks L" "ent st (b + d) = Hdr h0"
  defines "nh \<equiv> h0\<lparr>hb_prev := hb_prev hb, hb_next := hb_next hb, hb_sz := hb_sz hb - d * HBLKSIZE, hb_flags := 0\<rparr>"
  obtains st5 ls r where
    "GC_split_block (b * HBLKSIZE) ((b + d) * HBLKSIZE) i st = sbind (GC_add_to_fl (b * HBLKSIZE) st5)
      (mod_hdr ((b + d) * HBLKSIZE) (\<lambda>nhdr. nhdr\<lparr>hb_flags := hb_flags nhdr OR FREE_BLK\<rparr>))"
    "lists_ok st5 (L(i := ls))" "set ls = insert (b + d) (set (L i) - {b})" "tables st5 = tables st"
    "GC_large_free_bytes st5 = GC_large_free_bytes st"
    "GC_free_bytes st5 = (GC_free_bytes st)(i := GC_free_bytes st i - d * HBLKSIZE)"
    "ent st5 b = Hdr (hb\<lparr>hb_last_reclaimed := r, hb_sz := d * HBLKSIZE\<rparr>)"
    "\<And>c. c \<noteq> b \<Longrightarrow> core (ent st5 c) = core (if c = b + d then Hdr nh else ent st c)"
proof -
  let ?t = "b + d" and ?e = "ent st"
  obtain xs ys where L: "L i = xs @ b # ys" "b \<notin> set xs"
    using split_list_first [OF b(1)] by blast
  have seg: "seg ?e 0 (GC_hblkfreelist st i) (xs @ b # ys) 0" and dist: "distinct (xs @ b # ys)"
    and index: "index_ok (hdrs st)" and bytes: "GC_free_bytes st i = sum_list (map (sz ?e) (xs @ b # ys))"
    unfolding L(1) [symmetric] using ok by (simp_all add: lists_ok_def)
  have t_out: "?t \<notin> set (L j)" for j
    using t(1) by (auto simp: listed_blocks_def)
  have links: "hb_prev hb = lst 0 xs" "hb_next hb = (case ys of [] \<Rightarrow> 0 | y # _ \<Rightarrow> y * HBLKSIZE)"
    using seg b(2) seg_first [of ?e "b * HBLKSIZE" "hb_next hb" ys 0] by (auto simp: seg_append)
  have minus: "minus_word (?t * HBLKSIZE) (b * HBLKSIZE) = d * HBLKSIZE" "minus_word (hb_sz hb) (d * HBLKSIZE) = hb_sz hb - d * HBLKSIZE"
    using d(2) by (simp_all add: minus_word_def add_mult_distrib)
  obtain h1 where h1: "mod_hdr (?t * HBLKSIZE) (\<lambda>nhdr. nhdr\<lparr>hb_prev := hb_prev hb, hb_next := hb_next hb,
      hb_sz := hb_sz hb - d * HBLKSIZE, hb_flags := 0\<rparr>) st = Inr (set_hdrs h1 st)" "index_ok h1" "entry h1 = ?e(?t := Hdr nh)"
    using mod_hdr_ok [OF index t(2)] unfolding nh_def by blast
  let ?en = "?e(?t := Hdr nh)"
  have seg0: "seg ?en 0 (GC_hblkfreelist st i) (xs @ b # ys) 0"
    by (rule seg_cong [THEN iffD2, OF _ seg]) (use t_out [of i] L(1) in auto)
  have t_in: "?t \<notin> set (xs @ b # ys)" "0 < ?t"
    using t_out [of i] L(1) d(1) by simp_all
  have hdr0: "?en b = Hdr hb" "?en ?t = Hdr nh" "hb_prev nh = hb_prev hb" "hb_next nh = hb_next hb"
    using b(2) d(1) by (simp_all add: nh_def)
  define e1 where "e1 = (if xs = [] then ?en else ?en(last xs := Hdr ((case ?en (last xs) of Hdr h \<Rightarrow> h)\<lparr>hb_next := ?t * HBLKSIZE\<rparr>)))"
  define e2 where "e2 = (if ys = [] then e1 else e1(hd ys := Hdr ((case e1 (hd ys) of Hdr h \<Rightarrow> h)\<lparr>hb_prev := ?t * HBLKSIZE\<rparr>)))"
  note rep = seg_replace [OF seg0 dist t_in hdr0, folded e1_def, folded e2_def]
  define F where "F = (if xs = [] then (GC_hblkfreelist st)(i := ?t * HBLKSIZE) else GC_hblkfreelist st)"
  obtain h2 where h2: "index_ok h2" "entry h2 = e1" and step2:
    "(if hb_prev hb \<noteq> 0 then mod_hdr (hb_prev hb) (\<lambda>phdr. phdr\<lparr>hb_next := ?t * HBLKSIZE\<rparr>) (set_hdrs h1 st)
      else Inr ((set_hdrs h1 st)\<lparr>GC_hblkfreelist := (GC_hblkfreelist (set_hdrs h1 st))(i := ?t * HBLKSIZE)\<rparr>)) =
     Inr ((set_hdrs h2 st)\<lparr>GC_hblkfreelist := F\<rparr>)"
  proof (cases "xs = []")
    case True
    then show ?thesis
      using that [of h1] h1(2,3) links(1) by (simp add: e1_def F_def)
  next
    case False
    then obtain h where h: "0 < last xs" "?en (last xs) = Hdr h"
      using seg_hdr [OF seg0, of "last xs"] by auto
    obtain hs where "mod_hdr (last xs * HBLKSIZE) (\<lambda>phdr. phdr\<lparr>hb_next := ?t * HBLKSIZE\<rparr>) (set_hdrs h1 st) = Inr (set_hdrs hs st)"
        "index_ok hs" "entry hs = ?en(last xs := Hdr (h\<lparr>hb_next := ?t * HBLKSIZE\<rparr>))"
      using mod_hdr_ok [of "set_hdrs h1 st" "last xs" h "\<lambda>phdr. phdr\<lparr>hb_next := ?t * HBLKSIZE\<rparr>"] h1(2,3) h(2) by auto
    then show ?thesis
      using that [of hs] False h links(1) by (simp add: e1_def F_def lst_def)
  qed
  obtain h3 where h3: "index_ok h3" "entry h3 = e2" and step3:
    "(if hb_next hb \<noteq> 0 then mod_hdr (hb_next hb) (\<lambda>nhdr. nhdr\<lparr>hb_prev := ?t * HBLKSIZE\<rparr>) ((set_hdrs h2 st)\<lparr>GC_hblkfreelist := F\<rparr>)
      else Inr ((set_hdrs h2 st)\<lparr>GC_hblkfreelist := F\<rparr>)) = Inr ((set_hdrs h3 st)\<lparr>GC_hblkfreelist := F\<rparr>)"
  proof (cases ys)
    case Nil
    then show ?thesis
      using that [of h2] h2 links(2) by (simp add: e2_def)
  next
    case (Cons y ys')
    have "xs = [] \<or> last xs \<noteq> y"
      using dist Cons last_in_set [of xs] by auto
    then have "e1 y = ?en y"
      by (cases "xs = []") (simp_all add: e1_def)
    then obtain h where y: "0 < y" "e1 y = Hdr h"
      using seg_hdr [OF seg0, of y] Cons by auto
    let ?st2 = "(set_hdrs h2 st)\<lparr>GC_hblkfreelist := F\<rparr>"
    obtain hs where "mod_hdr (y * HBLKSIZE) (\<lambda>nhdr. nhdr\<lparr>hb_prev := ?t * HBLKSIZE\<rparr>) ?st2 = Inr (set_hdrs hs ?st2)"
        "index_ok hs" "entry hs = e1(y := Hdr (h\<lparr>hb_prev := ?t * HBLKSIZE\<rparr>))"
      using mod_hdr_ok [of ?st2 y h "\<lambda>nhdr. nhdr\<lparr>hb_prev := ?t * HBLKSIZE\<rparr>"] h2 y(2) by auto
    moreover have "set_hdrs hs ?st2 = (set_hdrs hs st)\<lparr>GC_hblkfreelist := F\<rparr>"
      by (simp add: set_hdrs_def)
    ultimately show ?thesis
      using that [of hs] Cons links(2) y by (simp add: e2_def)
  qed
  define st4 where "st4 = (set_hdrs h3 st)\<lparr>GC_hblkfreelist := F,
    GC_free_bytes := (GC_free_bytes st)(i := minus_word (GC_free_bytes st i) (d * HBLKSIZE))\<rparr>"
  have b_e2: "e2 b = Hdr hb"
    using rep(2) [of b] dist hdr0(1) by auto
  then have st4: "index_ok (hdrs st4)" "ent st4 = e2" "ent st4 b = Hdr hb"
    using h3 by (simp_all add: st4_def)
  let ?hb = "hb\<lparr>hb_last_reclaimed := word_of_nat (GC_gc_no (hdrs st4)), hb_sz := d * HBLKSIZE\<rparr>"
  obtain h5 where h5: "mod_hdr (b * HBLKSIZE) (\<lambda>hhdr. hhdr\<lparr>hb_last_reclaimed := word_of_nat (GC_gc_no (hdrs st4)), hb_sz := d * HBLKSIZE\<rparr>)
      st4 = Inr (set_hdrs h5 st4)" "index_ok h5" "entry h5 = e2(b := Hdr ?hb)"
    using mod_hdr_ok [OF st4(1,3)] unfolding st4(2) by blast
  have run: "GC_split_block (b * HBLKSIZE) (?t * HBLKSIZE) i st = sbind (GC_add_to_fl (b * HBLKSIZE) (set_hdrs h5 st4))
      (mod_hdr (?t * HBLKSIZE) (\<lambda>nhdr. nhdr\<lparr>hb_flags := hb_flags nhdr OR FREE_BLK\<rparr>))"
    unfolding GC_split_block_def get_hdr_ok [OF b(2)] sbind_Inr Let_def minus h1(1) step2 step3
    using h5(1) by (simp add: st4_def)
  have free: "GC_free_bytes st i = sum_list (map (sz ?e) xs) + hb_sz hb + sum_list (map (sz ?e) ys)"
    using bytes b(2) by (simp add: sz_def)
  then have minus_i: "minus_word (GC_free_bytes st i) (d * HBLKSIZE) = GC_free_bytes st i - d * HBLKSIZE"
    using d(2) by (simp add: minus_word_def)
  let ?L = "L(i := xs @ ?t # ys)"
  have e5: "entry h5 c = ?e c" if "c \<noteq> b" "c \<noteq> ?t" "c \<notin> set (L i)" for c
    using rep(2) [of c] that h5(3) L(1) by auto
  have core5: "core (entry h5 c) = core (if c = ?t then Hdr nh else ?e c)" if "c \<noteq> b" for c
    using rep(3) [of c] that h5(3) by (auto split: if_splits)
  have sz5: "sz (entry h5) c = (if c = ?t then hb_sz nh else sz ?e c)" if "c \<noteq> b" for c
    using sz_core [of "entry h5" c "\<lambda>c. if c = ?t then Hdr nh else ?e c", OF core5 [OF that]] by (simp add: sz_def)
  have b_out: "b \<notin> set xs \<union> set ys" and disj: "\<And>j. j \<noteq> i \<Longrightarrow> set (L i) \<inter> set (L j) = {}"
    using dist ok by (auto simp: lists_ok_def)
  have "lists_ok (set_hdrs h5 st4) ?L"
    unfolding lists_ok_def
  proof (intro conjI allI impI)
    show "index_ok (hdrs (set_hdrs h5 st4))"
      using h5(2) by simp
    fix j
    show "seg (ent (set_hdrs h5 st4)) 0 (GC_hblkfreelist (set_hdrs h5 st4) j) (?L j) 0"
    proof (cases "j = i")
      case True
      have "seg (entry h5) 0 (if xs = [] then ?t * HBLKSIZE else GC_hblkfreelist st i) (xs @ ?t # ys) 0"
        by (rule seg_cong [THEN iffD2, OF _ rep(1)]) (use b_out d(1) h5(3) in auto)
      then show ?thesis
        using True by (cases "xs = []") (simp_all add: st4_def F_def)
    next
      case False
      have "seg (entry h5) 0 (GC_hblkfreelist st j) (L j) 0 = seg ?e 0 (GC_hblkfreelist st j) (L j) 0"
        by (rule seg_cong, rule e5) (use disj [OF False] t_out [of j] b(1) in auto)
      then show ?thesis
        using ok False by (simp add: lists_ok_def st4_def F_def)
    qed
    show "distinct (?L j)"
      using ok dist t_out [of i] L(1) by (auto simp: lists_ok_def)
    have other: "sum_list (map (sz (entry h5)) ms) = sum_list (map (sz ?e) ms)" if "b \<notin> set ms" "?t \<notin> set ms" for ms
      using that by (intro arg_cong [of _ _ sum_list] map_cong refl) (use sz5 in metis)
    show "GC_free_bytes (set_hdrs h5 st4) j = sum_list (map (sz (ent (set_hdrs h5 st4))) (?L j))"
    proof (cases "j = i")
      case True
      have "sz (entry h5) ?t = hb_sz hb - d * HBLKSIZE"
        using sz5 [of ?t] d(1) by (simp add: nh_def)
      moreover have "sum_list (map (sz (entry h5)) xs) = sum_list (map (sz ?e) xs)"
          "sum_list (map (sz (entry h5)) ys) = sum_list (map (sz ?e) ys)"
        by (rule other; use b_out t_in(1) in auto)+
      ultimately show ?thesis
        using True minus_i free d(2) by (simp add: st4_def)
    next
      case False
      then have "b \<notin> set (L j)"
        using disj b(1) by auto
      then show ?thesis
        using other [of "L j"] t_out [of j] ok False by (simp add: lists_ok_def st4_def)
    qed
  next
    fix j k :: nat assume "j \<noteq> k"
    then show "set (?L j) \<inter> set (?L k) = {}"
      using disj [of j] disj [of k] t_out [of j] t_out [of k] ok L(1) by (auto simp: lists_ok_def)
  qed
  moreover have "set (xs @ ?t # ys) = insert ?t (set (L i) - {b})"
    using L(1) b_out by auto
  moreover have "GC_free_bytes (set_hdrs h5 st4) = (GC_free_bytes st)(i := GC_free_bytes st i - d * HBLKSIZE)"
    by (simp add: st4_def minus_i)
  ultimately show thesis
    using that [OF run] h5(3) core5 by (simp add: st4_def)
qed

lemma core_flags: "core (Hdr a) = core (Hdr b) \<Longrightarrow> core (Hdr (a\<lparr>hb_flags := f\<rparr>)) = core (Hdr (b\<lparr>hb_flags := f\<rparr>))"
  by (cases a; cases b) simp

lemma core_Hdr_fields: "core (Hdr a) = core (Hdr b) \<Longrightarrow> hb_flags a = hb_flags b \<and> hb_sz a = hb_sz b"
  by (cases a; cases b) simp

lemma cores_ent_upd: "cores st' = (cores st)(b := core m) \<Longrightarrow> core (ent st' c) = (if c = b then core m else core (ent st c))"
  by (simp add: cores_def fun_eq_iff)

lemma split_ok:
  assumes inv: "heap_inv st L {}" and b: "b \<in> set (L i)" "ent st b = Hdr hb" and d: "0 < d" "d < nblocks hb"
    and st1: "lists_ok st1 L" "tables st1 = tables st" "GC_large_free_bytes st1 = GC_large_free_bytes st"
      "GC_free_bytes st1 = GC_free_bytes st" "ent st1 (b + d) = Hdr h0" "ent st1 b = Hdr hb1" "hb_sz hb1 = hb_sz hb"
      "\<forall>c. c \<noteq> b \<and> c \<noteq> b + d \<longrightarrow> ent st1 c = ent st c"
  obtains st' L' m2 h1 h2 where "GC_split_block (b * HBLKSIZE) ((b + d) * HBLKSIZE) i st1 = Inr st'" "heap_but st' L' (b + d)"
    "b + d \<in> set (L' i)" "ent st' (b + d) = Hdr m2" "nblocks m2 = nblocks hb - d" "tables st' = tables st"
    "GC_large_free_bytes st' = GC_large_free_bytes st" "listed_bytes st' = listed_bytes st"
    "HBLK_IS_FREE h1" "HBLK_IS_FREE h2" "nblocks h1 = d" "nblocks h2 = nblocks hb - d"
    "\<forall>c. core (ent st' c) = core (((ent st)(b := Hdr h1, b + d := Hdr h2)) c)"
proof -
  let ?t = "b + d"
  have layout: "layout_ok (ent st)" and zero: "\<forall>h. ent st 0 \<noteq> Hdr h"
    and free: "\<And>c. is_free (ent st) c \<longleftrightarrow> c \<in> listed_blocks L" and idx: "\<forall>i. \<forall>c\<in>set (L i). fl_index (ent st) c = i"
    using inv by (simp_all add: heap_inv_def)
  note hb = heap_but_hdr [OF heap_inv_but [OF inv, of b] b]
  have i: "i \<le> N_HBLK_FLS"
    using idx b(1) by (metis fl_from_blocks_le fl_index_def)
  have "ent st ?t = Count 0"
    using layout_tail [OF layout b(2), of d] d hb(1) by (simp add: tail_entry_def)
  then have t_out: "?t \<notin> listed_blocks L"
    using free [of ?t] by (simp add: is_free_def)
  have d_le: "d * HBLKSIZE \<le> hb_sz hb1"
    using d(2) hb(2) st1(7) by simp
  let ?nh = "h0\<lparr>hb_prev := hb_prev hb1, hb_next := hb_next hb1, hb_sz := hb_sz hb1 - d * HBLKSIZE, hb_flags := 0\<rparr>"
  obtain st5 ls r where relink:
    "GC_split_block (b * HBLKSIZE) (?t * HBLKSIZE) i st1 = sbind (GC_add_to_fl (b * HBLKSIZE) st5)
      (mod_hdr (?t * HBLKSIZE) (\<lambda>nhdr. nhdr\<lparr>hb_flags := hb_flags nhdr OR FREE_BLK\<rparr>))"
    "lists_ok st5 (L(i := ls))" "set ls = insert ?t (set (L i) - {b})" "tables st5 = tables st1"
    "GC_large_free_bytes st5 = GC_large_free_bytes st1"
    "GC_free_bytes st5 = (GC_free_bytes st1)(i := GC_free_bytes st1 i - d * HBLKSIZE)"
    "ent st5 b = Hdr (hb1\<lparr>hb_last_reclaimed := r, hb_sz := d * HBLKSIZE\<rparr>)"
    and core5: "\<And>c. c \<noteq> b \<Longrightarrow> core (ent st5 c) = core (if c = ?t then Hdr ?nh else ent st1 c)"
    using split_relink [OF st1(1) b(1) st1(6) d(1) d_le t_out st1(5)] by blast
  let ?L5 = "L(i := ls)" and ?h1 = "hb1\<lparr>hb_last_reclaimed := r, hb_sz := d * HBLKSIZE\<rparr>"
  have disj: "set (L i) \<inter> set (L j) = {}" if "j \<noteq> i" for j
    using st1(1) that by (simp add: lists_ok_def)
  have listed5: "listed_blocks ?L5 = insert ?t (listed_blocks L - {b})"
  proof -
    have "set (L j) - {b} = set (L j)" if "j \<noteq> i" for j
      using disj [OF that] b(1) by auto
    then show ?thesis
      using relink(3) t_out by (fastforce simp: listed_blocks_def split: if_splits)
  qed
  then have b_out: "b \<notin> listed_blocks ?L5"
    using d(1) by auto
  let ?j = "GC_hblk_fl_from_blocks (hb_sz ?h1 div HBLKSIZE)" and ?h1f = "?h1\<lparr>hb_flags := hb_flags ?h1 OR FREE_BLK\<rparr>"
  obtain st6 where st6: "GC_add_to_fl (b * HBLKSIZE) st5 = Inr st6" "lists_ok st6 (?L5(?j := b # ?L5 ?j))"
      "cores st6 = (cores st5)(b := core (Hdr ?h1f))" "GC_large_free_bytes st6 = GC_large_free_bytes st5"
      "GC_free_bytes st6 = (GC_free_bytes st5)(?j := GC_free_bytes st5 ?j + hb_sz ?h1)"
    using add_to_fl_ok [OF relink(2) b_out hb(4) relink(7)] by blast
  have core6: "core (ent st6 c) = core (if c = b then Hdr ?h1f else if c = ?t then Hdr ?nh else ent st c)" for c
    using cores_ent_upd [OF st6(3), of c] core5 [of c] spec [OF st1(8), of c] by (auto split: if_splits)
  obtain m6 where m6: "ent st6 ?t = Hdr m6" "core (Hdr m6) = core (Hdr ?nh)"
    using core6 [of ?t] d(1) by (cases "ent st6 ?t") auto
  note m6_fields = core_Hdr_fields [OF m6(2)]
  let ?f = "\<lambda>nhdr. nhdr\<lparr>hb_flags := hb_flags nhdr OR FREE_BLK\<rparr>"
  obtain hs where hs: "mod_hdr (?t * HBLKSIZE) ?f st6 = Inr (set_hdrs hs st6)"
      "lists_ok (set_hdrs hs st6) (?L5(?j := b # ?L5 ?j))" "entry hs = (ent st6)(?t := Hdr (?f m6))"
    using mod_hdr_keep [OF st6(2) m6(1), of ?f] by auto
  let ?st7 = "set_hdrs hs st6" and ?L7 = "?L5(?j := b # ?L5 ?j)" and ?h2 = "?f ?nh"
  let ?e7 = "(ent st)(b := Hdr ?h1f, ?t := Hdr ?h2)"
  have core7: "core (ent ?st7 c) = core (?e7 c)" for c
    using core6 [of c] core_flags [OF m6(2), of "hb_flags m6 OR FREE_BLK"] m6_fields
    by (cases "c = ?t"; cases "c = b") (simp_all add: hs(3))
  have h1: "HBLK_IS_FREE ?h1f" "hb_sz ?h1f = d * HBLKSIZE"
    using free_flag by simp_all
  have "HBLK_IS_FREE ?h2"
    by (rule free_flag)
  moreover have "hb_sz ?h2 = (nblocks hb - d) * HBLKSIZE"
    using hb(2) st1(7) by (simp add: diff_mult_distrib)
  ultimately have h2: "HBLK_IS_FREE ?h2" "hb_sz ?h2 = (nblocks hb - d) * HBLKSIZE"
    by blast+
  have nblocks: "nblocks ?h1f = d" "nblocks ?h2 = nblocks hb - d"
    by (rule nblocks_mult [OF h1(2)], rule nblocks_mult [OF h2(2)])
  have layout7: "layout_ok (ent ?st7)"
    by (rule layout_core_imp [of "ent ?st7" ?e7, OF core7 layout_split [OF layout b(2) hb(1) d h1 h2]])
  have zero7: "ent ?st7 0 \<noteq> Hdr h" for h
    using core7 [of 0] zero hb(4) by (cases "ent st 0") auto
  have listed7: "listed_blocks ?L7 = insert ?t (listed_blocks L)"
    using b(1) unfolding listed_add listed5 by (auto simp: listed_blocks_def)
  have free7: "is_free (ent ?st7) c \<longleftrightarrow> c \<in> listed_blocks ?L7" for c
  proof -
    have "is_free ?e7 c \<longleftrightarrow> c \<in> insert ?t (listed_blocks L)"
      using h1(1) h2(1) free [of c] free [of b] b(2) hb(1) by (auto simp: is_free_def)
    then show ?thesis
      using is_free_core [of "ent ?st7" c ?e7, OF core7] listed7 by simp
  qed
  have sz7: "sz (ent ?st7) c = sz ?e7 c" for c
    by (rule sz_core [of "ent ?st7" c ?e7, OF core7])
  have idx7: "c = ?t \<or> fl_index (ent ?st7) c = j" if c: "c \<in> set (?L7 j)" for c j
  proof -
    have b_j: "b \<notin> set (?L5 j)"
      using b_out by (auto simp: listed_blocks_def)
    consider "c = ?t" | "c = b" | "c \<noteq> b" "c \<noteq> ?t"
      by blast
    then show ?thesis
    proof cases
      case 2
      then have "j = ?j"
        using c b_j by (auto split: if_splits)
      then show ?thesis
        using 2 sz7 [of c] d(1) by (simp add: fl_index_def sz_def)
    next
      case 3
      then have "c \<in> set (L j)"
        using c relink(3) by (auto split: if_splits)
      then have "fl_index (ent st) c = j"
        using idx by blast
      then show ?thesis
        using 3 sz7 [of c] by (simp add: fl_index_def sz_def)
    qed simp
  qed
  have run: "GC_split_block (b * HBLKSIZE) (?t * HBLKSIZE) i st1 = Inr ?st7"
    using relink(1) st6(1) hs(1) by simp
  have but: "heap_but ?st7 ?L7 ?t"
    using hs(2) layout7 zero7 free7 idx7 by (simp add: heap_but_def)
  have bytes: "listed_bytes ?st7 = listed_bytes st"
  proof -
    have "sz (ent st1) b \<le> GC_free_bytes st1 i"
      using st1(1) member_le_sum_list [of "sz (ent st1) b" "map (sz (ent st1)) (L i)"] b(1) by (simp add: lists_ok_def)
    then have "d * HBLKSIZE \<le> GC_free_bytes st1 i"
      using d_le st1(6) by (simp add: sz_def)
    then have "listed_bytes st5 + d * HBLKSIZE = listed_bytes st1"
      using listed_bytes_update [OF i relink(6)] by linarith
    moreover have "listed_bytes st6 = listed_bytes st5 + d * HBLKSIZE"
      using listed_bytes_update [OF fl_from_blocks_le st6(5)] by simp
    moreover have "listed_bytes st1 = listed_bytes st"
      by (simp add: listed_bytes_def st1(4))
    ultimately show ?thesis
      by simp
  qed
  have t_hdr: "ent ?st7 ?t = Hdr (?f m6)" "nblocks (?f m6) = nblocks hb - d"
    using nblocks(2) m6_fields by (simp_all add: hs(3) nblocks_def)
  have t_in: "?t \<in> set (?L7 i)"
    using relink(3) by simp
  have same: "tables ?st7 = tables st" "GC_large_free_bytes ?st7 = GC_large_free_bytes st"
    using add_to_fl_tables [OF st6(1)] relink(4,5) st1(2,3) st6(4) by simp_all
  show thesis
    by (rule that [OF run but t_in t_hdr same bytes h1(1) h2(1) nblocks]) (rule allI, rule core7)
qed

section \<open>Dropping a block\<close>

lemma lists_ok_same:
  assumes ok: "lists_ok st L" and same: "same_lists st st'" and index: "index_ok (hdrs st')"
    and e: "\<forall>c\<in>listed_blocks L. ent st' c = ent st c"
  shows "lists_ok st' L"
proof -
  have "lists_ok (set_hdrs (hdrs st') st) L"
    by (rule lists_ok_other [OF ok index e])
  then show ?thesis
    using same by (simp add: lists_ok_def same_lists_def)
qed

text \<open>Dropped blocks are pointer-free objects of one block.\<close>

definition dropped :: "hdr_entry \<Rightarrow> bool" where
  "dropped e \<longleftrightarrow> (\<exists>m. e = Hdr m \<and> \<not> HBLK_IS_FREE m \<and> hb_sz m = HBLKSIZE \<and> hb_obj_kind m = PTRFREE)"

lemma heap_inv_one:
  assumes e0: "layout_ok e0" "\<forall>h. e0 0 \<noteq> Hdr h" "\<And>c. is_free e0 c \<longleftrightarrow> c \<in> listed_blocks L"
      "\<forall>i. \<forall>c\<in>set (L i). fl_index e0 c = i" "gap e0 b" and b: "0 < b"
    and st': "lists_ok st' L" "ent st' = e0(b := Hdr m)" "dropped (Hdr m)"
  shows "heap_inv st' L {}" "\<And>x. x \<noteq> b \<Longrightarrow> gap e0 x \<Longrightarrow> gap (ent st') x"
proof -
  have m: "\<not> HBLK_IS_FREE m" "nblocks m = 1"
    using st'(3) nblocks_mult [of m 1] by (simp_all add: dropped_def)
  have placed: "placed e0 b m = ent st'"
    using m(2) st'(2) by (auto simp: placed_def fun_eq_iff)
  have gaps: "gap e0 x" if "b \<le> x" "x < b + nblocks m" for x
    using that m(2) e0(5) by (cases "x = b") simp_all
  note place = layout_place [of e0 b m, OF e0(1) gaps, unfolded placed]
  have "b \<notin> listed_blocks L"
    using e0(3) [of b] e0(5) by (simp add: gap_def is_free_def)
  then have "is_free (ent st') c \<longleftrightarrow> c \<in> listed_blocks L" for c
    using e0(3) [of c] m(1) by (simp add: st'(2) is_free_def)
  moreover have "fl_index (ent st') c = i" if "c \<in> set (L i)" for c i
  proof -
    have "c \<noteq> b"
      using that \<open>b \<notin> listed_blocks L\<close> by (auto simp: listed_blocks_def)
    then show ?thesis
      using e0(4) that by (simp add: fl_index_def sz_def st'(2))
  qed
  moreover have "ent st' 0 \<noteq> Hdr h" for h
    using e0(2) b by (simp add: st'(2))
  ultimately show "heap_inv st' L {}"
    using st'(1) place(1) m by (simp add: heap_inv_def)
  show "gap (ent st') x" if "x \<noteq> b" "gap e0 x" for x
    by (rule place(2)) (use that m in auto)
qed

lemma drop_loop_ok:
  assumes "heap_inv st L {}" "\<And>x. c \<le> x \<Longrightarrow> x < c + k \<Longrightarrow> gap (ent st) x" "0 < c" "h \<notin> {c..<c + k}"
  shows "\<exists>st'. drop_loop k (h * HBLKSIZE) hp (c * HBLKSIZE) st = Inr st' \<and> heap_inv st' L {} \<and> same_lists st st' \<and>
    (\<forall>x. ent st' x = ent st x \<or> c \<le> x \<and> x < c + k \<and> dropped (ent st' x))"
  using assms
proof (induction k arbitrary: st c hp)
  case (Suc k)
  have lists: "lists_ok st L" and index: "index_ok (hdrs st)"
    using Suc.prems(1) by (simp_all add: heap_inv_def lists_ok_def)
  have e0: "layout_ok (ent st)" "\<forall>h. ent st 0 \<noteq> Hdr h" "\<And>x. is_free (ent st) x \<longleftrightarrow> x \<in> listed_blocks L"
      "\<forall>i. \<forall>x\<in>set (L i). fl_index (ent st) x = i" "gap (ent st) c"
    using Suc.prems(1,2) by (simp_all add: heap_inv_def)
  have c_out: "c \<notin> listed_blocks L"
    using e0(3) [of c] e0(5) by (simp add: gap_def is_free_def)
  have next_c: "c * HBLKSIZE + HBLKSIZE = Suc c * HBLKSIZE" "c * HBLKSIZE \<noteq> h * HBLKSIZE"
    using Suc.prems(4) by auto
  have h_out: "h \<notin> {Suc c..<Suc c + k}"
    using Suc.prems(4) by auto
  obtain r hs where inst: "install_header (c * HBLKSIZE) st = Inr (r, set_hdrs hs st)" "index_ok hs"
      "entry hs = (case r of None \<Rightarrow> ent st | Some hhdr \<Rightarrow> (ent st)(c := Hdr hhdr))"
    using install_header_ok [OF index, of c] by blast
  show ?case
  proof (cases r)
    case None
    let ?st1 = "set_hdrs hs st"
    have same: "ent ?st1 = ent st"
      using inst(3) None by simp
    have "heap_inv ?st1 L {}"
      using Suc.prems(1) inst(2) same by (simp add: heap_inv_def lists_ok_def)
    moreover have "gap (ent ?st1) x" if "Suc c \<le> x" "x < Suc c + k" for x
      using Suc.prems(2) [of x] that same by simp
    ultimately obtain st' where "drop_loop k (h * HBLKSIZE) None (Suc c * HBLKSIZE) ?st1 = Inr st'" "heap_inv st' L {}"
        "same_lists ?st1 st'" "\<forall>x. ent st' x = ent ?st1 x \<or> Suc c \<le> x \<and> x < Suc c + k \<and> dropped (ent st' x)"
      using Suc.IH [of ?st1 "Suc c" None] h_out by blast
    moreover have "drop_loop (Suc k) (h * HBLKSIZE) hp (c * HBLKSIZE) st =
        drop_loop k (h * HBLKSIZE) None (Suc c * HBLKSIZE) ?st1"
      using inst(1) None next_c(2) by (simp add: add.commute)
    ultimately show ?thesis
      using same by (fastforce simp: same_lists_def)
  next
    case (Some h0)
    let ?st1 = "set_hdrs hs st"
    have hdr1: "ent ?st1 c = Hdr h0" "index_ok (hdrs ?st1)"
      using inst(2,3) Some by simp_all
    obtain ok m st2 where su: "setup_header (c * HBLKSIZE) (c * HBLKSIZE) HBLKSIZE PTRFREE 0 ?st1 = Inr (ok, st2)"
        "same_lists ?st1 st2" "index_ok (hdrs st2)" "ent st2 = (ent ?st1)(c := Hdr m)" "hb_flags m = 0"
        "hb_sz m = HBLKSIZE" "hb_obj_kind m = PTRFREE"
      using setup_header_ok [OF hdr1(2,1), of "c * HBLKSIZE" HBLKSIZE PTRFREE 0] by (metis (full_types))
    have m: "dropped (Hdr m)"
      using su(5-7) by (simp add: dropped_def HBLK_IS_FREE_def)
    define st3 where "st3 = (if GC_debugging_started st2 then log_call (Clear_block (c * HBLKSIZE)) st2 else st2)"
    have st3: "same_lists st st3" "index_ok (hdrs st3)" "ent st3 = (ent st)(c := Hdr m)"
      using su(2-4) inst(3) Some by (auto simp: st3_def same_lists_def)
    have lists3: "lists_ok st3 L"
      by (rule lists_ok_same [OF lists st3(1,2)]) (use c_out st3(3) in auto)
    note one = heap_inv_one [OF e0 Suc.prems(3) lists3 st3(3) m]
    have "gap (ent st3) x" if "Suc c \<le> x" "x < Suc c + k" for x
      using one(2) [of x] Suc.prems(2) [of x] that by simp
    then obtain st' where st': "drop_loop k (h * HBLKSIZE) (Some (c * HBLKSIZE)) (Suc c * HBLKSIZE) st3 = Inr st'"
        "heap_inv st' L {}" "same_lists st3 st'" "\<forall>x. ent st' x = ent st3 x \<or> Suc c \<le> x \<and> x < Suc c + k \<and> dropped (ent st' x)"
      using Suc.IH [OF one(1), of "Suc c" "Some (c * HBLKSIZE)"] h_out by blast
    have "ent st' x = ent st x \<or> c \<le> x \<and> x < c + Suc k \<and> dropped (ent st' x)" for x
      using spec [OF st'(4), of x] st3(3) m by (cases "x = c") auto
    moreover have "drop_loop (Suc k) (h * HBLKSIZE) hp (c * HBLKSIZE) st =
        drop_loop k (h * HBLKSIZE) (Some (c * HBLKSIZE)) (Suc c * HBLKSIZE) st3"
      using inst(1) Some next_c(2) su(1) by (simp add: st3_def add.commute)
    ultimately show ?thesis
      using st'(1-3) same_lists_trans [OF st3(1), of st'] by (intro exI [of _ st']) simp
  qed
qed simp

text \<open>What the search may do before it uses a block: drop blocks and split them.\<close>

definition thin :: "heap_state \<Rightarrow> heap_state \<Rightarrow> bool" where
  "thin st st' \<longleftrightarrow> fst (tables st') = fst (tables st) \<and>
     GC_large_free_bytes st' + GC_bytes_dropped st' = GC_large_free_bytes st + GC_bytes_dropped st \<and>
     (\<forall>c. used (ent st) c \<longrightarrow> used (ent st') c \<and> cores st' c = cores st c) \<and>
     (\<forall>c. used (ent st') c \<longrightarrow> used (ent st) c \<or> dropped (ent st' c)) \<and>
     (\<forall>c h. ent st' c = Hdr h \<and> HBLK_IS_FREE h \<longrightarrow> (\<exists>c0 h0. ent st c0 = Hdr h0 \<and> HBLK_IS_FREE h0 \<and>
       c0 \<le> c \<and> c + nblocks h \<le> c0 + nblocks h0))"

lemma dropped_core: "core e = core e' \<Longrightarrow> dropped e = dropped e'"
proof -
  have *: "dropped e \<longleftrightarrow> dropped (core e)" for e
    by (cases e) (simp_all add: dropped_def HBLK_IS_FREE_def)
  show "core e = core e' \<Longrightarrow> dropped e = dropped e'"
    using * [of e] * [of e'] by simp
qed

lemma thin_trans:
  assumes a: "thin st st1" and b: "thin st1 st2"
  shows "thin st st2"
  unfolding thin_def
proof (intro conjI allI impI)
  show "fst (tables st2) = fst (tables st)"
    "GC_large_free_bytes st2 + GC_bytes_dropped st2 = GC_large_free_bytes st + GC_bytes_dropped st"
    using a b by (simp_all add: thin_def)
  fix c
  show "used (ent st2) c" "cores st2 c = cores st c" if "used (ent st) c"
    using a b that by (simp_all add: thin_def)
  show "used (ent st) c \<or> dropped (ent st2 c)" if used: "used (ent st2) c"
  proof -
    consider "used (ent st1) c" "dropped (ent st1 c) \<or> used (ent st) c" | "dropped (ent st2 c)"
      using a b used unfolding thin_def by blast
    then show ?thesis
    proof cases
      case 1
      then have "core (ent st2 c) = core (ent st1 c)"
        using b by (simp add: thin_def cores_def)
      then show ?thesis
        using 1 dropped_core [of "ent st2 c" "ent st1 c"] by blast
    qed simp
  qed
  fix h assume "ent st2 c = Hdr h \<and> HBLK_IS_FREE h"
  then obtain c1 h1 where h1: "ent st1 c1 = Hdr h1 \<and> HBLK_IS_FREE h1" "c1 \<le> c" "c + nblocks h \<le> c1 + nblocks h1"
    using b unfolding thin_def by blast
  then obtain c0 h0 where "ent st c0 = Hdr h0" "HBLK_IS_FREE h0" "c0 \<le> c1" "c1 + nblocks h1 \<le> c0 + nblocks h0"
    using a unfolding thin_def by blast
  then show "\<exists>c0 h0. ent st c0 = Hdr h0 \<and> HBLK_IS_FREE h0 \<and> c0 \<le> c \<and> c + nblocks h \<le> c0 + nblocks h0"
    using h1(2,3) by (intro exI [of _ c0] exI [of _ h0]) simp
qed

text \<open>A free block inside of a free block of \<open>e\<close>.\<close>

definition part_of_free :: "(nat \<Rightarrow> hdr_entry) \<Rightarrow> nat \<Rightarrow> hdr \<Rightarrow> bool" where
  "part_of_free e c h \<longleftrightarrow> (\<exists>c0 h0. e c0 = Hdr h0 \<and> HBLK_IS_FREE h0 \<and> c0 \<le> c \<and> c + nblocks h \<le> c0 + nblocks h0)"

lemma thin_cores:
  assumes e: "\<And>c. core (ent st' c) = core (ent st c) \<or> \<not> used (ent st) c \<and>
      (dropped (ent st' c) \<or> (\<exists>h. ent st' c = Hdr h \<and> HBLK_IS_FREE h \<and> part_of_free (ent st) c h))"
    and rest: "fst (tables st') = fst (tables st)"
      "GC_large_free_bytes st' + GC_bytes_dropped st' = GC_large_free_bytes st + GC_bytes_dropped st"
  shows "thin st st'"
  unfolding thin_def
proof (intro conjI allI impI)
  fix c
  show "used (ent st') c" "cores st' c = cores st c" if "used (ent st) c"
    using e [of c] that used_core [of "ent st'" c "ent st"] by (simp_all add: cores_def)
  show "used (ent st) c \<or> dropped (ent st' c)" if "used (ent st') c"
    using e [of c] that used_core [of "ent st'" c "ent st"] by (auto simp: used_def)
  fix h assume h: "ent st' c = Hdr h \<and> HBLK_IS_FREE h"
  then consider "core (ent st c) = core (ent st' c)" | "part_of_free (ent st) c h"
    using e [of c] by (auto simp: dropped_def)
  then show "\<exists>c0 h0. ent st c0 = Hdr h0 \<and> HBLK_IS_FREE h0 \<and> c0 \<le> c \<and> c + nblocks h \<le> c0 + nblocks h0"
  proof cases
    case 1
    then show ?thesis
      using core_Hdr [of "ent st" c "ent st'" h] h by (metis order_refl)
  qed (simp add: part_of_free_def)
qed (rule rest)+

lemma thin_same: "ent st' = ent st \<Longrightarrow> tables st' = tables st \<Longrightarrow> GC_large_free_bytes st' = GC_large_free_bytes st \<Longrightarrow> thin st st'"
  by (rule thin_cores) (simp_all add: tables_def)

lemma drop_block_ok:
  assumes ok: "heap_ok st L" and b: "b \<in> set (L n)" "ent st b = Hdr hb"
  obtains st' where "drop_block (b * HBLKSIZE) n st = Inr st'" "heap_ok st' (L(n := remove1 b (L n)))" "thin st st'"
proof -
  have inv: "heap_inv st L {}" and large: "GC_large_free_bytes st = listed_bytes st"
    using ok by (simp_all add: heap_ok_def)
  note hb = heap_but_hdr [OF heap_inv_but [OF inv, of b] b]
  let ?st0 = "st\<lparr>GC_large_free_bytes := minus_word (GC_large_free_bytes st) (hb_sz hb),
      GC_bytes_dropped := GC_bytes_dropped st + hb_sz hb\<rparr>" and ?L = "L(n := remove1 b (L n))"
  have "heap_inv ?st0 L {}"
    using inv by simp
  then obtain st1 where rem: "GC_remove_from_fl_at (b * HBLKSIZE) n ?st0 = Inr st1"
    and st1: "heap_inv st1 ?L {b}" "cores st1 = cores ?st0" "GC_large_free_bytes st1 = GC_large_free_bytes ?st0"
      "listed_bytes st1 + sz (ent ?st0) b = listed_bytes ?st0"
    using remove_at_step [of ?st0 L "{}" b n] b(1) by auto
  have cores1: "core (ent st1 c) = core (ent st c)" for c
    using cores_ent [OF st1(2), of c] by simp
  obtain h1 where h1: "ent st1 b = Hdr h1" "HBLK_IS_FREE h1" "nblocks h1 = nblocks hb"
    using core_Hdr [of "ent st1" b "ent st" hb, OF cores1 b(2)] hb(1) by metis
  have layout1: "layout_ok (ent st1)" and zero1: "\<forall>h. ent st1 0 \<noteq> Hdr h" and lists1: "lists_ok st1 ?L"
    and free1: "\<And>c. is_free (ent st1) c \<longleftrightarrow> c \<in> listed_blocks ?L \<union> {b}" and b_out: "b \<notin> listed_blocks ?L"
    and idx1: "\<forall>i. \<forall>c\<in>set (?L i). fl_index (ent st1) c = i"
    using st1(1) by (simp_all add: heap_inv_def)
  let ?e0 = "(ent st1)(b := Count 0)"
  note forget = layout_forget [OF layout1 h1(1,2)]
  have e0: "\<forall>h. ?e0 0 \<noteq> Hdr h" "\<And>c. is_free ?e0 c \<longleftrightarrow> c \<in> listed_blocks ?L" "\<forall>i. \<forall>c\<in>set (?L i). fl_index ?e0 c = i"
      "gap ?e0 b"
  proof -
    show "\<forall>h. ?e0 0 \<noteq> Hdr h"
      using zero1 by simp
    show "is_free ?e0 c \<longleftrightarrow> c \<in> listed_blocks ?L" for c
      using free1 [of c] b_out by (auto simp: is_free_def)
    have "c \<noteq> b" if "c \<in> set (?L i)" for c i
      using that b_out by (auto simp: listed_blocks_def)
    then show "\<forall>i. \<forall>c\<in>set (?L i). fl_index ?e0 c = i"
      using idx1 by (metis fl_index_def sz_def fun_upd_other)
    show "gap ?e0 b"
      by (rule forget(2)) (use h1(3) hb(3) in simp_all)
  qed
  have index1: "index_ok (hdrs st1)"
    using lists1 by (simp add: lists_ok_def)
  obtain ok m st2 where su: "setup_header (b * HBLKSIZE) (b * HBLKSIZE) HBLKSIZE PTRFREE 0 st1 = Inr (ok, st2)"
      "same_lists st1 st2" "index_ok (hdrs st2)" "ent st2 = (ent st1)(b := Hdr m)" "hb_flags m = 0"
      "hb_sz m = HBLKSIZE" "hb_obj_kind m = PTRFREE"
    using setup_header_ok [OF index1 h1(1), of "b * HBLKSIZE" HBLKSIZE PTRFREE 0] by (metis (full_types))
  have m: "dropped (Hdr m)"
    using su(5-7) by (simp add: dropped_def HBLK_IS_FREE_def)
  define st3 where "st3 = (if GC_debugging_started st2 then log_call (Clear_block (b * HBLKSIZE)) st2 else st2)"
  have st3: "same_lists st1 st3" "index_ok (hdrs st3)" "ent st3 = ?e0(b := Hdr m)"
    using su(2-4) by (auto simp: st3_def same_lists_def)
  have lists3: "lists_ok st3 ?L"
    by (rule lists_ok_same [OF lists1 st3(1,2)]) (use b_out st3(3) in auto)
  note one = heap_inv_one [OF forget(1) e0 hb(4) lists3 st3(3) m]
  have gaps: "gap (ent st3) x" if "Suc b \<le> x" "x < Suc b + (nblocks hb - 1)" for x
    by (rule one(2)) (use that forget(2) [of x] h1(3) in auto)
  have b_range: "b \<notin> {Suc b..<Suc b + (nblocks hb - 1)}"
    by simp
  obtain st' where st': "drop_loop (nblocks hb - 1) (b * HBLKSIZE) (Some (b * HBLKSIZE)) (Suc b * HBLKSIZE) st3 = Inr st'"
      "heap_inv st' ?L {}" "same_lists st3 st'"
      "\<forall>x. ent st' x = ent st3 x \<or> Suc b \<le> x \<and> x < Suc b + (nblocks hb - 1) \<and> dropped (ent st' x)"
    using drop_loop_ok [OF one(1) gaps _ b_range, where hp = "Some (b * HBLKSIZE)"] by blast
  have run: "drop_block (b * HBLKSIZE) n st = Inr st'"
  proof -
    have "hb_sz hb div HBLKSIZE = Suc (nblocks hb - 1)"
      using hb(2,3) by simp
    then have "drop_block (b * HBLKSIZE) n st = drop_loop (Suc (nblocks hb - 1)) (b * HBLKSIZE) (Some (b * HBLKSIZE)) (b * HBLKSIZE) st1"
      using get_hdr_ok [OF b(2)] rem by (simp add: drop_block_def Let_def)
    then show ?thesis
      using su(1) st'(1) by (simp add: st3_def add.commute)
  qed
  have same: "GC_large_free_bytes st' = GC_large_free_bytes ?st0" "tables st' = tables ?st0" "listed_bytes st' = listed_bytes st1"
    using st3(1) st'(3) st1(3) remove_from_fl_tables [OF rem] by (simp_all add: same_lists_def listed_bytes_def)
  have sz_le: "hb_sz hb \<le> GC_large_free_bytes st"
    using st1(4) large b(2) by (simp add: sz_def listed_bytes_def)
  have "heap_ok st' ?L"
    using st'(2) same st1(4) large b(2) sz_le by (simp add: heap_ok_def sz_def minus_word_def listed_bytes_def)
  moreover have "thin st st'"
  proof (rule thin_cores)
    show "fst (tables st') = fst (tables st)"
      using same(2) by simp
    show "GC_large_free_bytes st' + GC_bytes_dropped st' = GC_large_free_bytes st + GC_bytes_dropped st"
      using same(1,2) sz_le by (simp add: tables_def minus_word_def)
    show "core (ent st' c) = core (ent st c) \<or> \<not> used (ent st) c \<and> (dropped (ent st' c) \<or>
        (\<exists>h. ent st' c = Hdr h \<and> HBLK_IS_FREE h \<and> part_of_free (ent st) c h))" for c
    proof -
      have inner: "\<not> used (ent st) c" if "b \<le> c" "c < b + nblocks hb"
        using inv not_used_tail [of "ent st" b hb c] b(2) hb(1) that
        by (cases "c = b") (auto simp: heap_inv_def used_def)
      then show ?thesis
        using spec [OF st'(4), of c] st3(3) m cores1 [of c] hb(3) by (cases "c = b") auto
    qed
  qed
  ultimately show thesis
    using that run by blast
qed

section \<open>The search\<close>

lemma remap_hdr:
  assumes lists: "lists_ok st L" and b: "ent st b = Hdr h"
  obtains st' h' where "remap (b * HBLKSIZE) st = Inr st'" "lists_ok st' L" "same_lists st st'" "ent st' = (ent st)(b := Hdr h')"
    "hb_sz h' = hb_sz h" "HBLK_IS_FREE h' = HBLK_IS_FREE h"
proof (cases "IS_MAPPED h")
  case True
  then have "remap (b * HBLKSIZE) st = Inr st"
    using get_hdr_ok [OF b] by (simp add: remap_def)
  then show thesis
    using that [of st h] lists b by (simp add: fun_upd_idem)
next
  case False
  let ?st = "log_call (Remap (b * HBLKSIZE) (hb_sz h)) st" and ?f = "\<lambda>h. h\<lparr>hb_flags := hb_flags h AND NOT WAS_UNMAPPED\<rparr>"
  obtain hs where hs: "mod_hdr (b * HBLKSIZE) ?f ?st = Inr (set_hdrs hs ?st)" "lists_ok (set_hdrs hs ?st) L"
      "entry hs = (ent ?st)(b := Hdr (?f h))"
    using mod_hdr_keep [of ?st L b h ?f] lists b by auto
  have "HBLK_IS_FREE (?f h) = HBLK_IS_FREE h"
    by (simp add: HBLK_IS_FREE_def FREE_BLK_def WAS_UNMAPPED_def and.assoc)
  moreover have "remap (b * HBLKSIZE) st = Inr (set_hdrs hs ?st)"
    using get_hdr_ok [OF b] False hs(1) by (simp add: remap_def)
  ultimately show thesis
    using that hs(2,3) by simp
qed

text \<open>A block that can be used for \<open>k\<close> blocks.\<close>

definition usable :: "heap_state \<Rightarrow> (nat \<Rightarrow> nat list) \<Rightarrow> nat \<Rightarrow> nat \<Rightarrow> nat \<Rightarrow> bool" where
  "usable st L b k n \<longleftrightarrow> heap_but st L b \<and> b \<in> set (L n) \<and> GC_large_free_bytes st = listed_bytes st \<and>
     (\<exists>m. ent st b = Hdr m \<and> k \<le> nblocks m)"

lemma remap_usable:
  assumes "usable st L b k n"
  obtains st' where "remap (b * HBLKSIZE) st = Inr st'" "usable st' L b k n" "thin st st'"
proof -
  have inv: "heap_but st L b" and b: "b \<in> set (L n)" and large: "GC_large_free_bytes st = listed_bytes st"
    using assms by (simp_all add: usable_def)
  obtain m where m: "ent st b = Hdr m" "k \<le> nblocks m"
    using assms by (auto simp: usable_def)
  note hb = heap_but_hdr [OF inv b m(1)]
  have lists: "lists_ok st L" and layout: "layout_ok (ent st)" and zero: "\<forall>h. ent st 0 \<noteq> Hdr h"
    and free: "\<And>c. is_free (ent st) c \<longleftrightarrow> c \<in> listed_blocks L"
    and idx: "\<forall>i. \<forall>c\<in>set (L i). c = b \<or> fl_index (ent st) c = i"
    using inv by (simp_all add: heap_but_def)
  obtain st' m' where st': "remap (b * HBLKSIZE) st = Inr st'" "lists_ok st' L" "same_lists st st'"
      "ent st' = (ent st)(b := Hdr m')" "hb_sz m' = hb_sz m" "HBLK_IS_FREE m' = HBLK_IS_FREE m"
    using remap_hdr [OF lists m(1)] by metis
  have n: "nblocks m' = nblocks m"
    using st'(5) by (simp add: nblocks_def)
  have "layout_ok (ent st')"
    unfolding st'(4) by (rule layout_change [OF layout m(1) hb(1)]) (use st'(5,6) hb(1) in simp_all)
  then have "heap_but st' L b"
    using st'(2,4,6) zero free idx hb(1,4) m(1) by (auto simp: heap_but_def is_free_def fl_index_def sz_def)
  moreover have "thin st st'"
  proof (rule thin_cores)
    show "fst (tables st') = fst (tables st)"
      "GC_large_free_bytes st' + GC_bytes_dropped st' = GC_large_free_bytes st + GC_bytes_dropped st"
      using st'(3) by (simp_all add: same_lists_def tables_def)
    have "part_of_free (ent st) b m'" "\<not> used (ent st) b" "HBLK_IS_FREE m'"
      using m(1) hb(1) n st'(6) by (auto simp: part_of_free_def used_def)
    then show "core (ent st' c) = core (ent st c) \<or> \<not> used (ent st) c \<and> (dropped (ent st' c) \<or>
        (\<exists>h. ent st' c = Hdr h \<and> HBLK_IS_FREE h \<and> part_of_free (ent st) c h))" for c
      using st'(4) by (cases "c = b") auto
  qed
  ultimately show thesis
    using that [OF st'(1)] b large st'(3,4) n m(2) by (simp add: usable_def same_lists_def listed_bytes_def)
qed

lemma bl_search_ok:
  assumes "tables_ready (bl st)" "last_b + 2 \<le> fuel + l" "0 < fuel"
  shows "\<exists>t\<ge>l. bl_search fuel (l * HBLKSIZE) (last_b * HBLKSIZE) eff st = Inr (t * HBLKSIZE) \<and>
    (\<forall>x. l \<le> x \<and> x < t \<longrightarrow> blocked (bl st) x (eff div HBLKSIZE)) \<and>
    (last_b < t \<or> \<not> blocked (bl st) t (eff div HBLKSIZE))"
  using assms
proof (induction fuel arbitrary: l)
  case (Suc fuel)
  show ?case
  proof (cases "l \<le> last_b")
    case False
    then show ?thesis
      by (intro exI [of _ l]) auto
  next
    case True
    obtain r where r: "GC_is_black_listed (l * HBLKSIZE) eff (bl st) = Inr r"
        "r = 0 \<longleftrightarrow> \<not> blocked (bl st) l (eff div HBLKSIZE)"
        "r \<noteq> 0 \<longrightarrow> (\<exists>k>0. r = l * HBLKSIZE + k * HBLKSIZE \<and> (\<forall>m<k. blocked (bl st) (l + m) (eff div HBLKSIZE)))"
      using is_black_listed_ok [OF assms(1), of "l * HBLKSIZE" eff] by auto
    show ?thesis
    proof (cases "r = 0")
      case True
      then show ?thesis
        using r(1,2) \<open>l \<le> last_b\<close> by (intro exI [of _ l]) auto
    next
      case False
      then obtain k where k: "0 < k" "r = (l + k) * HBLKSIZE" "\<forall>m<k. blocked (bl st) (l + m) (eff div HBLKSIZE)"
        using r(3) by (auto simp: add_mult_distrib)
      have "last_b + 2 \<le> fuel + (l + k)" "0 < fuel"
        using Suc.prems(2) k(1) \<open>l \<le> last_b\<close> by simp_all
      then obtain t where t: "l + k \<le> t" "bl_search fuel ((l + k) * HBLKSIZE) (last_b * HBLKSIZE) eff st = Inr (t * HBLKSIZE)"
          "\<forall>x. l + k \<le> x \<and> x < t \<longrightarrow> blocked (bl st) x (eff div HBLKSIZE)"
          "last_b < t \<or> \<not> blocked (bl st) t (eff div HBLKSIZE)"
        using Suc.IH [OF assms(1), of "l + k"] by blast
      have "blocked (bl st) x (eff div HBLKSIZE)" if "l \<le> x" "x < t" for x
        using k(3) t(3) that by (cases "x < l + k") (metis add_diff_inverse_nat less_diff_conv2 not_less add.commute, simp)
      moreover have "bl_search (Suc fuel) (l * HBLKSIZE) (last_b * HBLKSIZE) eff st = Inr (t * HBLKSIZE)"
        using r(1) False \<open>l \<le> last_b\<close> t(2) k(2) by simp
      ultimately show ?thesis
        using t(1,4) by (intro exI [of _ t]) simp
    qed
  qed
qed simp

definition first_of :: "nat list \<Rightarrow> nat" where
  "first_of bs = (case bs of [] \<Rightarrow> 0 | b # _ \<Rightarrow> b * HBLKSIZE)"

lemma seg_next: "seg e p f (xs @ b # ys) 0 \<Longrightarrow> e b = Hdr h \<Longrightarrow> hb_prev h = lst p xs \<and> hb_next h = first_of ys"
  using seg_first [of e "b * HBLKSIZE" "hb_next h" ys 0] by (auto simp: seg_append first_of_def)

text \<open>Where the search goes on, and that it goes on with the blocks \<open>ys\<close>.\<close>

definition goes_on :: "verdict \<Rightarrow> nat \<Rightarrow> heap_state \<Rightarrow> (nat \<Rightarrow> nat list) \<Rightarrow> nat list \<Rightarrow> bool" where
  "goes_on v n st L ys \<longleftrightarrow> heap_ok st L \<and> (\<exists>xs. L n = xs @ ys) \<and>
     (case v of
        Continue_from h \<Rightarrow> \<exists>hh. get_hdr h st = Inr hh \<and> hb_next hh = first_of ys
      | Restart \<Rightarrow> GC_hblkfreelist st n = first_of ys
      | Use h \<Rightarrow> False)"

lemma goes_on_next:
  assumes ok: "heap_ok st L" and L: "L n = xs @ b # ys"
  shows "goes_on (Continue_from (b * HBLKSIZE)) n st L ys"
proof -
  have seg: "seg (ent st) 0 (GC_hblkfreelist st n) (xs @ b # ys) 0"
    unfolding L [symmetric] using ok by (simp add: heap_ok_def heap_inv_def lists_ok_def)
  then obtain h where h: "ent st b = Hdr h"
    using seg_hdr [OF seg, of b] by auto
  have "L n = (xs @ [b]) @ ys"
    by (simp add: L)
  then show ?thesis
    using ok seg_next [OF seg h] get_hdr_ok [OF h] unfolding goes_on_def by auto
qed

lemma goes_on_first:
  assumes ok: "heap_ok st L" and L: "L n = ys"
  shows "goes_on Restart n st L ys"
  using ok L seg_first [of "ent st" 0 "GC_hblkfreelist st n" ys 0]
  by (auto simp: goes_on_def heap_ok_def heap_inv_def lists_ok_def first_of_def)

lemma all_black_listed_ok:
  assumes ok: "heap_ok st L" and L: "L n = xs @ b # ys"
  obtains v st' L' where "all_black_listed (b * HBLKSIZE) n st = Inr (v, st')" "goes_on v n st' L' ys" "thin st st'"
proof -
  let ?st = "st\<lparr>drop_count := drop_count st + 1\<rparr>"
  have seg: "seg (ent st) 0 (GC_hblkfreelist st n) (xs @ b # ys) 0" and dist: "distinct (xs @ b # ys)"
    unfolding L [symmetric] using ok by (simp_all add: heap_ok_def heap_inv_def lists_ok_def)
  obtain h where h: "ent st b = Hdr h"
    using seg_hdr [OF seg, of b] by auto
  have ok1: "heap_ok ?st L" and thin1: "thin st ?st"
    using ok by (auto simp: heap_ok_def intro!: thin_same)
  show thesis
  proof (cases "drop_count ?st mod 4 = 0")
    case False
    then show thesis
      using that [OF _ goes_on_next [of ?st L n xs b ys, OF ok1 L] thin1] by (simp add: all_black_listed_def)
  next
    case True
    obtain st' where st': "drop_block (b * HBLKSIZE) n ?st = Inr st'" "heap_ok st' (L(n := remove1 b (L n)))" "thin ?st st'"
      using drop_block_ok [of ?st L b n h] ok1 L h by auto
    let ?L = "L(n := remove1 b (L n))"
    have L': "?L n = xs @ ys"
      using dist by (simp add: L remove1_append)
    have run: "all_black_listed (b * HBLKSIZE) n st =
        Inr (if hb_prev h = 0 then Restart else Continue_from (hb_prev h), st')"
      using True st'(1) get_hdr_ok [of ?st b h] h by (simp add: all_black_listed_def)
    have prev: "hb_prev h = lst 0 xs"
      using seg_next [OF seg h] by simp
    show thesis
    proof (cases xs rule: rev_cases)
      case Nil
      then show thesis
        using that [OF run _ thin_trans [OF thin1 st'(3)], of ?L] goes_on_first [OF st'(2), of n ys] L' prev by simp
    next
      case (snoc xs' c)
      then have "0 < c"
        using seg_hdr [OF seg, of c] by simp
      then have "hb_prev h \<noteq> 0" "hb_prev h = c * HBLKSIZE"
        using prev snoc by (simp_all add: lst_def)
      then show thesis
        using that [OF run _ thin_trans [OF thin1 st'(3)], of ?L] goes_on_next [OF st'(2), of n xs' c ys] L' snoc by simp
    qed
  qed
qed

lemma split_use:
  assumes ok: "heap_ok st L" and b: "b \<in> set (L n)" "ent st b = Hdr hb" and d: "0 < d" "d < nblocks hb" "d + k \<le> nblocks hb"
  obtains (failed) st1 where "install_header ((b + d) * HBLKSIZE) st = Inr (None, st1)" "usable st1 L b k n" "thin st st1"
  | (split) h0 st1 st2 st3 L3 where "install_header ((b + d) * HBLKSIZE) st = Inr (Some h0, st1)" "remap (b * HBLKSIZE) st1 = Inr st2"
      "GC_split_block (b * HBLKSIZE) ((b + d) * HBLKSIZE) n st2 = Inr st3" "usable st3 L3 (b + d) k n" "thin st st3"
proof -
  have inv: "heap_inv st L {}" and large: "GC_large_free_bytes st = listed_bytes st"
    using ok by (simp_all add: heap_ok_def)
  have lists: "lists_ok st L" and layout: "layout_ok (ent st)" and free: "\<And>c. is_free (ent st) c \<longleftrightarrow> c \<in> listed_blocks L"
    using inv by (simp_all add: heap_inv_def)
  note hb = heap_but_hdr [OF heap_inv_but [OF inv, of b] b]
  have t: "ent st (b + d) = Count 0"
    using layout_tail [OF layout b(2) d(1,2)] hb(1) by (simp add: tail_entry_def)
  then have t_out: "b + d \<notin> listed_blocks L"
    using free [of "b + d"] by (simp add: is_free_def)
  have index: "index_ok (hdrs st)"
    using lists by (simp add: lists_ok_def)
  obtain r hs where inst: "install_header ((b + d) * HBLKSIZE) st = Inr (r, set_hdrs hs st)" "index_ok hs"
      "entry hs = (case r of None \<Rightarrow> ent st | Some hhdr \<Rightarrow> (ent st)(b + d := Hdr hhdr))"
    using install_header_ok [OF index, of "b + d"] by blast
  let ?st1 = "set_hdrs hs st"
  have same1: "same_lists st ?st1"
    by simp
  have lists1: "lists_ok ?st1 L"
    by (rule lists_ok_same [OF lists same1]) (use inst(2,3) t_out in \<open>auto split: option.splits\<close>)
  show thesis
  proof (cases r)
    case None
    then have same: "ent ?st1 = ent st"
      using inst(3) by simp
    then have "usable ?st1 L b k n"
      using heap_inv_but [OF inv, of b] lists1 b d(3) large by (simp add: usable_def heap_but_def)
    then show thesis
      using failed [of ?st1] inst(1) None thin_same [OF same] by simp
  next
    case (Some h0)
    have hdr1: "ent ?st1 b = Hdr hb"
      using b(2) d(1) inst(3) Some by simp
    obtain st2 hb2 where st2: "remap (b * HBLKSIZE) ?st1 = Inr st2" "lists_ok st2 L" "same_lists ?st1 st2"
        "ent st2 = (ent ?st1)(b := Hdr hb2)" "hb_sz hb2 = hb_sz hb"
      using remap_hdr [OF lists1 hdr1] by metis
    have e2: "ent st2 (b + d) = Hdr h0" "ent st2 b = Hdr hb2" "\<forall>c. c \<noteq> b \<and> c \<noteq> b + d \<longrightarrow> ent st2 c = ent st c"
      using st2(4) inst(3) Some d(1) by simp_all
    have f2: "tables st2 = tables st" "GC_large_free_bytes st2 = GC_large_free_bytes st" "GC_free_bytes st2 = GC_free_bytes st"
      using st2(3) by (simp_all add: same_lists_def)
    obtain st3 L3 m2 h1 h2 where st3: "GC_split_block (b * HBLKSIZE) ((b + d) * HBLKSIZE) n st2 = Inr st3" "heap_but st3 L3 (b + d)"
        "b + d \<in> set (L3 n)" "ent st3 (b + d) = Hdr m2" "nblocks m2 = nblocks hb - d" "tables st3 = tables st"
        "GC_large_free_bytes st3 = GC_large_free_bytes st" "listed_bytes st3 = listed_bytes st"
        "HBLK_IS_FREE h1" "HBLK_IS_FREE h2" "nblocks h1 = d" "nblocks h2 = nblocks hb - d"
      and core3: "\<forall>c. core (ent st3 c) = core (((ent st)(b := Hdr h1, b + d := Hdr h2)) c)"
      using split_ok [OF inv b d(1,2) st2(2) f2 e2(1,2) st2(5) e2(3)] by blast
    have "usable st3 L3 (b + d) k n"
      using st3(2-5,7,8) d(3) large by (simp add: usable_def)
    moreover have "thin st st3"
    proof (rule thin_cores)
      show "fst (tables st3) = fst (tables st)"
        "GC_large_free_bytes st3 + GC_bytes_dropped st3 = GC_large_free_bytes st + GC_bytes_dropped st"
        using st3(6,7) by (simp_all add: tables_def)
      have parts: "part_of_free (ent st) b h" if "nblocks h = d" for h
        unfolding part_of_free_def using b(2) hb(1) d(2) that by (intro exI [of _ b] exI [of _ hb]) simp
      have parts2: "part_of_free (ent st) (b + d) h" if "nblocks h = nblocks hb - d" for h
        unfolding part_of_free_def using b(2) hb(1) d(2) that by (intro exI [of _ b] exI [of _ hb]) simp
      let ?e3 = "(ent st)(b := Hdr h1, b + d := Hdr h2)"
      have at: "?e3 b = Hdr h1" "?e3 (b + d) = Hdr h2"
        using d(1) by simp_all
      obtain k1 where k1: "ent st3 b = Hdr k1" "HBLK_IS_FREE k1" "nblocks k1 = d"
        using core_Hdr [of "ent st3" b ?e3 h1, OF spec [OF core3] at(1)] st3(9,11) by metis
      obtain k2 where k2: "ent st3 (b + d) = Hdr k2" "HBLK_IS_FREE k2" "nblocks k2 = nblocks hb - d"
        using core_Hdr [of "ent st3" "b + d" ?e3 h2, OF spec [OF core3] at(2)] st3(10,12) by metis
      show "core (ent st3 c) = core (ent st c) \<or> \<not> used (ent st) c \<and> (dropped (ent st3 c) \<or>
          (\<exists>h. ent st3 c = Hdr h \<and> HBLK_IS_FREE h \<and> part_of_free (ent st) c h))" for c
      proof -
        consider "c = b" | "c = b + d" | "c \<noteq> b" "c \<noteq> b + d"
          by blast
        then show ?thesis
        proof cases
          case 1
          then show ?thesis
            using k1 parts [OF k1(3)] b(2) hb(1) by (auto simp: used_def)
        next
          case 2
          then show ?thesis
            using k2 parts2 [OF k2(3)] t by (auto simp: used_def)
        next
          case 3
          then show ?thesis
            using spec [OF core3, of c] 3 by simp
        qed
      qed
    qed
    ultimately show thesis
      using split [of h0 ?st1] inst(1) Some st2(1) st3(1) by blast
  qed
qed

lemma usable_updates [simp]:
  "usable (log_call c st) L b k n = usable st L b k n"
  "usable (st\<lparr>GC_large_alloc_warn_suppressed := m\<rparr>) L b k n = usable st L b k n"
  by (simp_all add: usable_def heap_but_def)

lemma thin_updates [simp]:
  "thin st (log_call c st') = thin st st'" "thin st (st'\<lparr>GC_large_alloc_warn_suppressed := m\<rparr>) = thin st st'"
  by (simp_all add: thin_def cores_def) (simp_all add: log_call_def)

lemma thin_refl [simp]: "thin st st"
  by (rule thin_same) simp_all

text \<open>Whether the search passes over a block that is larger than necessary.\<close>

lemma go_on_ok:
  assumes ok: "heap_ok st L" and ready: "tables_ready (bl st)" and L: "L n = xs @ b # ys" and hb: "ent st b = Hdr hb"
  obtains g where "(if c then if may_split = 0 then Inr True else better_next (hb_next hb) avail needed st else Inr False) = Inr g"
proof -
  have seg: "seg (ent st) 0 (GC_hblkfreelist st n) (xs @ b # ys) 0"
    unfolding L [symmetric] using ok by (simp add: heap_ok_def heap_inv_def lists_ok_def)
  have "\<exists>g. better_next (hb_next hb) avail needed st = Inr g"
  proof (cases ys)
    case Nil
    then show ?thesis
      using seg_next [OF seg hb] by (intro exI [of _ False]) (simp add: better_next_def first_of_def)
  next
    case (Cons y ys')
    then obtain h where "ent st y = Hdr h"
      using seg_hdr [OF seg, of y] by auto
    moreover obtain r where "GC_is_black_listed (y * HBLKSIZE) needed (bl st) = Inr r"
      using is_black_listed_ok [OF ready] by blast
    ultimately show ?thesis
      using seg_next [OF seg hb] Cons get_hdr_ok [of st y h]
      by (auto simp: better_next_def first_of_def Let_def intro: exI [of _ False])
  qed
  then show thesis
    using that by (metis (full_types))
qed

lemma consider_ok:
  assumes ok: "heap_ok st L" and ready: "tables_ready (bl st)" and L: "L n = xs @ b # ys" and hb: "ent st b = Hdr hb"
    and k: "0 < k" and fuel: "nblocks hb + 2 \<le> fuel"
  obtains (on) v st' L' where "consider_block fuel (HBLKSIZE * k) kind flags n may_split (b * HBLKSIZE) st = Inr (v, st')"
      "goes_on v n st' L' ys" "thin st st'"
  | (use) h st' L' where "consider_block fuel (HBLKSIZE * k) kind flags n may_split (b * HBLKSIZE) st = Inr (Use (h * HBLKSIZE), st')"
      "usable st' L' h k n" "thin st st'"
proof -
  let ?run = "consider_block fuel (HBLKSIZE * k) kind flags n may_split (b * HBLKSIZE) st"
  have inv: "heap_inv st L {}" and large: "GC_large_free_bytes st = listed_bytes st"
    using ok by (simp_all add: heap_ok_def)
  have b: "b \<in> set (L n)"
    by (simp add: L)
  note size = heap_but_hdr [OF heap_inv_but [OF inv, of b] b hb]
  have needed: "HBLKSIZE * k = k * HBLKSIZE"
    by simp
  note next_b = goes_on_next [of st L n xs b ys, OF ok L]
  show thesis
  proof (cases "nblocks hb < k")
    case True
    then have "?run = Inr (Continue_from (b * HBLKSIZE), st)"
      using get_hdr_ok [OF hb] size(2) by (simp add: consider_block_def Let_def needed)
    then show thesis
      using on next_b by simp
  next
    case False
    then have use_b: "usable st L b k n"
      using heap_inv_but [OF inv, of b] b hb large by (simp add: usable_def)
    obtain g where g: "(if nblocks hb * HBLKSIZE \<noteq> k * HBLKSIZE then if may_split = 0 then Inr True
        else better_next (hb_next hb) (nblocks hb * HBLKSIZE) (k * HBLKSIZE) st else Inr False) = Inr g"
      using go_on_ok [OF ok ready L hb] by blast
    have not_less: "\<not> nblocks hb * HBLKSIZE < k * HBLKSIZE"
      using False by simp
    note run = consider_block_def [of fuel "HBLKSIZE * k" kind flags n may_split "b * HBLKSIZE" st,
      unfolded get_hdr_ok [OF hb] sbind_Inr Let_def needed size(2) if_not_P [OF not_less] g]
    let ?eff = "if flags AND IGNORE_OFF_PAGE \<noteq> 0 then HBLKSIZE else k * HBLKSIZE"
    have last_b: "b * HBLKSIZE + nblocks hb * HBLKSIZE - k * HBLKSIZE = (b + nblocks hb - k) * HBLKSIZE"
      by (simp add: add_mult_distrib diff_mult_distrib)
    obtain t where t: "b \<le> t" "bl_search fuel (b * HBLKSIZE) ((b + nblocks hb - k) * HBLKSIZE) ?eff st = Inr (t * HBLKSIZE)"
    proof -
      have "b + nblocks hb - k + 2 \<le> fuel + b" "0 < fuel"
        using fuel False by linarith+
      then show thesis
        using bl_search_ok [OF ready, of "b + nblocks hb - k" fuel b ?eff] that by blast
    qed
    have fits: "t * HBLKSIZE - b * HBLKSIZE + k * HBLKSIZE \<le> nblocks hb * HBLKSIZE \<longleftrightarrow> t - b + k \<le> nblocks hb"
      by (simp flip: diff_mult_distrib add_mult_distrib)
    consider (on_g) "g" | (plain) "\<not> g" "\<not> (\<not> IS_UNCOLLECTABLE kind \<and> (kind \<noteq> PTRFREE \<or> k * HBLKSIZE > MAX_BLACK_LIST_ALLOC))"
      | (lists) "\<not> g" "\<not> IS_UNCOLLECTABLE kind \<and> (kind \<noteq> PTRFREE \<or> k * HBLKSIZE > MAX_BLACK_LIST_ALLOC)"
      by blast
    then show thesis
    proof cases
      case on_g
      then show thesis
        using on [OF _ next_b thin_refl] unfolding needed run by simp
    next
      case plain
      show thesis
        by (rule use [OF _ use_b thin_refl]) (simp only: needed run plain if_False sbind_Inr)
    next
      case lists
      note run2 = run [unfolded sbind_Inr if_not_P [OF lists(1)] if_P [OF lists(2)] last_b t(2) fits]
      have moved: "t * HBLKSIZE \<noteq> b * HBLKSIZE \<longleftrightarrow> t \<noteq> b"
        by simp
      consider (stays) "t = b" | (moves) "t - b + k \<le> nblocks hb" "t \<noteq> b" | (beyond) "\<not> t - b + k \<le> nblocks hb"
        using False by linarith
      then show thesis
      proof cases
        case stays
        then show thesis
          using use [OF _ use_b thin_refl] False unfolding needed run2 by simp
      next
        case moves
        let ?d = "t - b"
        have d: "0 < ?d" "?d < nblocks hb" "?d + k \<le> nblocks hb" "b + ?d = t"
          using moves t(1) k by simp_all
        show thesis
        proof (cases "may_split = AVOID_SPLIT_REMAPPED \<and> \<not> IS_MAPPED hb")
          case True
          then show thesis
            using on [OF _ next_b thin_refl] moves unfolding needed run2 by simp
        next
          case no_avoid: False
          note run3 = run2 [unfolded if_P [OF moves(1)] moved if_P [OF moves(2)] if_not_P [OF no_avoid]]
          show thesis
          proof (cases rule: split_use [OF ok b hb d(1-3), unfolded d(4)])
            case (1 st1)
            then show thesis
              using use [of b st1 L] unfolding needed run3 by simp
          next
            case (2 h0 st1 st2 st3 L3)
            then show thesis
              using use [of t st3 L3] unfolding needed run3 by simp
          qed
        qed
      next
        case beyond
        note run3 = run2 [unfolded if_not_P [OF beyond]]
        show thesis
        proof (cases "k * HBLKSIZE > GC_black_list_spacing (bl st) \<and>
            nblocks hb * HBLKSIZE - k * HBLKSIZE > GC_black_list_spacing (bl st)")
          case True
          then show thesis
            using use [of b _ L] use_b unfolding needed run3 by simp
        next
          case not_big: False
          show thesis
          proof (cases "t * HBLKSIZE - b * HBLKSIZE = nblocks hb * HBLKSIZE \<and> k * HBLKSIZE = HBLKSIZE \<and> IS_MAPPED hb \<and> \<not> GC_find_leak st")
            case True
            obtain v st' L' where drop: "all_black_listed (b * HBLKSIZE) n st = Inr (v, st')" "goes_on v n st' L' ys" "thin st st'"
              using all_black_listed_ok [of st L n xs b ys, OF ok L] by blast
            show thesis
              by (rule on [OF _ drop(2,3)]) (simp only: needed run3 if_not_P [OF not_big] if_P [OF True] drop(1))
          next
            case False
            then show thesis
              using on [OF _ next_b thin_refl] unfolding needed run3 if_not_P [OF not_big] if_not_P [OF False] by simp
          qed
        qed
      qed
    qed
  qed
qed

definition fuel_enough :: "nat \<Rightarrow> heap_state \<Rightarrow> bool" where
  "fuel_enough fuel st \<longleftrightarrow> (\<forall>c h. ent st c = Hdr h \<and> HBLK_IS_FREE h \<longrightarrow> nblocks h + 2 \<le> fuel)"

lemma fuel_enough_thin:
  assumes thin: "thin st st'" and fuel: "fuel_enough fuel st"
  shows "fuel_enough fuel st'"
  unfolding fuel_enough_def
proof (intro allI impI)
  fix c h assume "ent st' c = Hdr h \<and> HBLK_IS_FREE h"
  then obtain c0 h0 where h0: "ent st c0 = Hdr h0" "HBLK_IS_FREE h0" "c0 \<le> c" "c + nblocks h \<le> c0 + nblocks h0"
    using thin unfolding thin_def by blast
  then have "nblocks h0 + 2 \<le> fuel"
    using fuel by (simp add: fuel_enough_def)
  then show "nblocks h + 2 \<le> fuel"
    using h0(3,4) by linarith
qed

lemma search_ok:
  assumes "heap_ok st L" "tables_ready (bl st)" "L n = xs @ ys" "length ys \<le> j" "0 < k" "fuel_enough fuel st"
  shows "\<exists>st1 L1. thin st st1 \<and>
    (search_loop j fuel (HBLKSIZE * k) kind flags n may_split (first_of ys) st = Inr (0, 0, st1) \<and> heap_ok st1 L1 \<or>
     (\<exists>b. search_loop j fuel (HBLKSIZE * k) kind flags n may_split (first_of ys) st =
        sbind (GC_get_first_part (b * HBLKSIZE) (HBLKSIZE * k) n st1) (\<lambda>(r, st'). Inr (r, b * HBLKSIZE, st')) \<and>
      usable st1 L1 b k n))"
  using assms
proof (induction j arbitrary: st L xs ys)
  case 0
  then show ?case
    by (intro exI [of _ st] exI [of _ L]) (simp add: first_of_def)
next
  case (Suc j)
  show ?case
  proof (cases ys)
    case Nil
    then show ?thesis
      using Suc.prems(1) by (intro exI [of _ st] exI [of _ L]) (simp add: first_of_def)
  next
    case (Cons b ys')
    have inv: "heap_inv st L {}" and L: "L n = xs @ b # ys'" and b_in: "b \<in> set (L n)"
      using Suc.prems(1,3) Cons by (simp_all add: heap_ok_def)
    have "is_free (ent st) b"
      using inv b_in by (auto simp: heap_inv_def listed_blocks_def)
    then obtain hb where hb: "ent st b = Hdr hb"
      by (auto simp: is_free_def)
    note size = heap_but_hdr [OF heap_inv_but [OF inv, of b] b_in hb]
    have fuel: "nblocks hb + 2 \<le> fuel"
      using Suc.prems(6) hb size(1) by (simp add: fuel_enough_def)
    have first: "first_of ys = b * HBLKSIZE" "b * HBLKSIZE \<noteq> 0"
      using Cons size(4) by (simp_all add: first_of_def)
    show ?thesis
    proof (cases rule: consider_ok [OF Suc.prems(1,2) L hb Suc.prems(5) fuel, of kind flags may_split])
      case (1 v st' L')
      obtain xs' where ok': "heap_ok st' L'" and L': "L' n = xs' @ ys'"
        using 1(2) by (auto simp: goes_on_def)
      have step: "search_loop (Suc j) fuel (HBLKSIZE * k) kind flags n may_split (first_of ys) st =
          search_loop j fuel (HBLKSIZE * k) kind flags n may_split (first_of ys') st'"
        using 1(1,2) first by (cases v) (auto simp: goes_on_def)
      have "tables_ready (bl st')"
        using Suc.prems(2) 1(3) tables_ready_same [of st' st] by (simp add: thin_def)
      moreover have "length ys' \<le> j"
        using Suc.prems(4) Cons by simp
      ultimately obtain st1 L1 where "thin st' st1" and
        "search_loop j fuel (HBLKSIZE * k) kind flags n may_split (first_of ys') st' = Inr (0, 0, st1) \<and> heap_ok st1 L1 \<or>
         (\<exists>b. search_loop j fuel (HBLKSIZE * k) kind flags n may_split (first_of ys') st' =
            sbind (GC_get_first_part (b * HBLKSIZE) (HBLKSIZE * k) n st1) (\<lambda>(r, st'). Inr (r, b * HBLKSIZE, st')) \<and>
          usable st1 L1 b k n)"
        using Suc.IH [OF ok' _ L' _ Suc.prems(5) fuel_enough_thin [OF 1(3) Suc.prems(6)]] by blast
      then show ?thesis
        unfolding step using thin_trans [OF 1(3)] by blast
    next
      case (2 h st' L')
      obtain st1 where st1: "remap (h * HBLKSIZE) st' = Inr st1" "usable st1 L' h k n" "thin st' st1"
        using remap_usable [OF 2(2)] by blast
      have "search_loop (Suc j) fuel (HBLKSIZE * k) kind flags n may_split (first_of ys) st =
          sbind (GC_get_first_part (h * HBLKSIZE) (HBLKSIZE * k) n st1) (\<lambda>(r, st'). Inr (r, h * HBLKSIZE, st'))"
        using 2(1) first st1(1) by simp
      then show ?thesis
        using thin_trans [OF 2(3) st1(3)] st1(2) by blast
    qed
  qed
qed

lemma install_header_tables: "install_header a st = Inr (r, st') \<Longrightarrow> tables st' = tables st"
  by (auto simp: install_header_def sbind_def split: sum.splits prod.splits)

lemma get_first_part_tables: "GC_get_first_part a bytes i st = Inr (r, st') \<Longrightarrow> tables st' = tables st"
  unfolding GC_get_first_part_def sbind_def Let_def
  by (auto split: sum.splits if_splits prod.splits
    dest!: mod_hdr_tables remove_from_fl_tables add_to_fl_tables install_header_tables)

lemma setup_header_tables: "setup_header a blk bytes kind flags st = Inr (r, st') \<Longrightarrow> tables st' = tables st"
proof -
  have map: "GC_add_map_entry g s = (ok, s') \<Longrightarrow> tables s' = tables s" for g s ok s'
    by (auto simp: GC_add_map_entry_def Let_def split: if_splits prod.splits)
  show "setup_header a blk bytes kind flags st = Inr (r, st') \<Longrightarrow> tables st' = tables st"
    unfolding setup_header_def sbind_def Let_def
    by (auto split: sum.splits if_splits prod.splits dest!: mod_hdr_tables map)
qed

lemma finish_tables: "finish bytes kind flags needed (a, hp, st) = Inr (r, st') \<Longrightarrow> tables st' = tables st"
  unfolding finish_def sbind_def Let_def
  by (auto split: sum.splits if_splits prod.splits dest!: setup_header_tables)


text \<open>A heap with one free block of two blocks.\<close>

definition sample_free_hdr :: hdr where
  "sample_free_hdr = sample_hdr\<lparr>hb_flags := FREE_BLK, hb_sz := 2 * HBLKSIZE\<rparr>"

definition sample_free_heap :: hdr_state where
  "sample_free_heap = sample_heap\<lparr>bottom_index := (\<lambda>bi j. if bi = 0 \<and> j = 5 then Hdr sample_free_hdr else Count 0)\<rparr>"

definition sample_free :: heap_state where
  "sample_free = sample_store\<lparr>bl := sample_lists\<lparr>headers := sample_free_heap\<rparr>,
     GC_hblkfreelist := (\<lambda>i. if i = 2 then 5 * HBLKSIZE else 0), GC_free_bytes := (\<lambda>i. if i = 2 then 2 * HBLKSIZE else 0),
     GC_large_free_bytes := 2 * HBLKSIZE\<rparr>"

lemma sample_free_ent: "ent sample_free = (\<lambda>b. if b = 5 then Hdr sample_free_hdr else Count 0)"
proof
  fix b
  have index: "index_ok sample_free_heap"
    using sample_index_ok by (simp add: sample_free_heap_def index_ok_def)
  have "b div BOTTOM_SZ = 0 \<and> b mod BOTTOM_SZ = j \<longleftrightarrow> b = j" if "j < BOTTOM_SZ" for j
    using that by (metis div_eq_0_iff mod_less div_less BOTTOM_SZ_def zero_neq_numeral)
  from this [of 5] have "entry sample_free_heap b = (if b = 5 then Hdr sample_free_hdr else Count 0)"
    unfolding entry_eq [OF index] by (auto simp: has_index_def sample_free_heap_def sample_heap_def BOTTOM_SZ_def)
  then show "ent sample_free b = (if b = 5 then Hdr sample_free_hdr else Count 0)"
    by (simp add: sample_free_def hdrs_def)
qed

lemma sample_free_hdr_ok: "nblocks sample_free_hdr = 2" "HBLK_IS_FREE sample_free_hdr" "hb_sz sample_free_hdr = 2 * HBLKSIZE"
    "hb_prev sample_free_hdr = 0" "hb_next sample_free_hdr = 0"
  by (simp_all add: sample_free_hdr_def sample_hdr_def nblocks_def OBJ_SZ_TO_BLOCKS_def HBLKSIZE_def HBLK_IS_FREE_def FREE_BLK_def)

lemma sample_free_ok: "heap_ok sample_free (\<lambda>i. if i = 2 then [5] else [])"
proof -
  let ?L = "\<lambda>i. if i = 2 then [5] else [] :: nat list"
  have index: "index_ok (hdrs sample_free)"
    using sample_index_ok by (simp add: sample_free_def hdrs_def sample_free_heap_def index_ok_def)
  have lists: "lists_ok sample_free ?L"
    unfolding lists_ok_def sample_free_ent
    using index sample_free_hdr_ok by (auto simp: sample_free_def sample_store_def sz_def)
  have "layout_ok (ent sample_free)"
    using sample_free_hdr_ok by (auto simp: layout_ok_def sample_free_ent tail_entry_def)
  moreover have "is_free (ent sample_free) c \<longleftrightarrow> c \<in> listed_blocks ?L" for c
    using sample_free_hdr_ok(2) by (auto simp: is_free_def sample_free_ent listed_blocks_def split: if_splits)
  moreover have "fl_index (ent sample_free) 5 = 2"
    using sample_free_hdr_ok(3)
    by (simp add: fl_index_def sz_def sample_free_ent GC_hblk_fl_from_blocks_def UNIQUE_THRESHOLD_def)
  ultimately have "heap_inv sample_free ?L {}"
    using lists by (simp add: heap_inv_def sample_free_ent)
  moreover have "listed_bytes sample_free = 2 * HBLKSIZE"
    by (simp add: listed_bytes_def sample_free_def N_HBLK_FLS_def HUGE_THRESHOLD_def UNIQUE_THRESHOLD_def FL_COMPRESSION_def)
  ultimately show ?thesis
    by (simp add: heap_ok_def sample_free_def)
qed


end
