(* ===== verification/Spec2Isabelle.thy ===== *)
theory Spec2Isabelle
  imports MainProg CordCmp CordExtra CordFile GcRoots GcHblkAlloc
begin

text \<open>
  mcsv-CTL: a symbolic model checker for CTL over Boolean transition relations, with the parts of the
  bundled Boehm collector (version 7.4.2) and its cord library that have a specification of their own.

  \<^bold>\<open>The program.\<close> \<open>main\<close> (\<open>main.c\<close>) takes a transition formula over unprimed and primed names, a formula
  for the initial states, a CTL formula, an expected formula and the name of a dot file. Formulae are
  postfix words separated by blanks: \<open>tokenisation.c\<close> cuts them, \<open>bddFromPrefix.c\<close> turns them into
  decision diagrams of the package CUDD on a bounded stack (\<open>ddStack.c\<close>), \<open>aux.c\<close> computes the image of a
  set of states, \<open>ctlmc.c\<close> evaluates CTL formulae by fixpoint iteration. \<open>main\<close> iterates the image to the
  set of reachable states, intersects it with the states that satisfy the formula, writes the diagram and
  compares it with the expected one. All memory comes from the collector in \<open>gc-7.4.2\<close>.

  \<^bold>\<open>Theories.\<close> Every definition has the name of the C function, macro or type it models; loops and
  pieces of long functions have a name of their own and a comment.

  \<^item> \<open>Prelude\<close>: how a run can stop (\<open>exit\<close> with its code and message, an assertion, \<open>ABORT\<close>, an access that
    C leaves undefined, fuel that runs out) as the left part of a sum, its monad with and without a
    manager state, the size constants of the headers, and lemmas on lists.
  \<^item> \<open>Tokenisation\<close>: \<open>tokenisation.c\<close>. \<open>DdStack\<close>: \<open>ddStack.c\<close>, as an instance of the locale
    \<open>bounded_stack\<close>, whose laws the evaluators use.
  \<^item> \<open>Cudd\<close>: the functions of \<open>cudd.h\<close> that the program calls, as a record of parameters, and the
    locale \<open>cudd_package\<close> of what they promise (nodes represent Boolean functions, existing nodes keep
    theirs). \<open>Reference_Package\<close> interprets it on ordered and reduced diagrams, so that the promises can
    hold; all witnesses about the checker run on it.
  \<^item> \<open>BddFromPrefix\<close>: \<open>bddFromPrefix.c\<close>, against Boolean formulae. \<open>Image\<close>: \<open>aux.c\<close>, against sets of
    states.
  \<^item> \<open>CtlSpec\<close>: CTL over paths, without diagrams, and the fixpoints that characterise it (locale
    \<open>transition_system\<close>). \<open>Ctlmc\<close>: \<open>ctlmc.c\<close>, the eight operators and \<open>check\<close>, against this
    semantics. \<open>MainProg\<close>: \<open>main.c\<close>.
  \<^item> \<open>Cord\<close>, \<open>CordBalance\<close>, \<open>CordSubstr\<close>, \<open>CordIter\<close>, \<open>CordPos\<close>, \<open>CordCmp\<close>, \<open>CordExtra\<close>, \<open>CordFile\<close>:
    \<open>cord/cordbscs.c\<close>, \<open>cord/cordxtra.c\<close>, \<open>include/cord.h\<close>, \<open>include/cord_pos.h\<close>. A cord is a datatype
    of its strings, functions, substrings and concatenations with the stored lengths and depths; \<open>chars\<close>
    is the string it stands for, and the theorems say that the operations refine those of strings.
  \<^item> \<open>GcRoots\<close>: \<open>mark_rts.c\<close>, the tables of static roots and of exclusions. \<open>GcHeaders\<close>: \<open>headers.c\<close>, the
    tree that finds the header of a heap block; its abstraction is the function \<open>entry\<close> from block numbers
    to headers and counts. \<open>GcBlackList\<close>: \<open>blacklst.c\<close>, the tables of addresses that look like pointers.
  \<^item> \<open>GcHblk\<close>: \<open>allchblk.c\<close> and \<open>obj_map.c\<close>, the allocator of heap blocks on top of headers and black
    lists. Its doubly linked free lists stand for lists of block numbers (\<open>GcHblkLists\<close>); \<open>heap_ok\<close> is the
    invariant of the heap. \<open>GcHblkFree\<close> is about the release of blocks, \<open>GcHblkUse\<close> and \<open>GcHblkAlloc\<close> about
    their allocation.

  \<^bold>\<open>What is shown.\<close>

  \<^item> The checker: the tokeniser equals splitting at blanks or exits; the evaluators return a node for the
    formula and reject, with the code's exit code, what the code rejects; the image is the set of successors;
    the eight operators compute the sets of CTL semantics, also for relations with deadlocks; \<open>check\<close>
    and \<open>main\<close> compute the answers, and all loops end.
  \<^item> Cords: concatenation, balancing, substrings, iteration, positions, searches, comparison, building and
    lazy files refine the string operations, within the limits the code has, and the places where they do
    not are theorems as well.
  \<^item> The collector: the invariants of the tables of roots and what is pushed to the marker; that the header
    tree behaves like a map and its searches are exact; that the word-wise scan of the black lists is exact and
    how long entries live; that a release keeps the heap consistent (free lists linked both ways, complete
    and by size; headers and counts that tile the heap; byte counts) and merges free neighbours; that an
    allocation ends, keeps all of this and returns an object of its own in memory that was free.

  \<^bold>\<open>Bounds and fuel.\<close> A fixpoint loop of the checker over \<open>k\<close> variables has at most \<open>2 ^ k + 1\<close> rounds,
  and the theorems ask for that much fuel only. Nested balancing of cords takes a fuel that is shown to be
  enough with the value 1 for every length below 4807526976, entry 46 of the table of minimal lengths. Chains of headers
  are searched with the number of their entries. The walks through free lists have the length of the list
  as bound, and so has the search for a block, in which every step leaves one block of the list behind; the
  black-list search inside of a block has its number of blocks. Integers have the width of the code where it matters: \<open>size_t\<close> and \<open>int\<close> of the cord library,
  16-bit ages and 8-bit flags as words, byte counts that wrap around.

  \<^bold>\<open>Configuration.\<close> Single-threaded 64-bit Linux: 4096-byte blocks, hashed top level index, mark bits
  per granule, \<open>USE_MUNMAP\<close>, no assertions of the collector; the Windows variant of \<open>GC_add_roots_inner\<close>
  is modelled next to the other one.

  \<^bold>\<open>Not modelled.\<close>

  \<^item> CUDD itself is not in the repository; reference counts are dropped, and so are the calls that
    release nodes, because nodes of a manager that never collects keep their meaning.
  \<^item> Output: messages, the bytes of the dot file, \<open>CORD_vsprintf\<close> (which hands an argument list to the C
    library), the dumps and statistics of the collector.
  \<^item> The parts of the collector that are code against the operating system or walk raw memory of the client:
    \<open>os_dep.c\<close>, \<open>mach_dep.c\<close>, \<open>dyn_load.c\<close>, the thread support, \<open>mark.c\<close> apart from the clearing of mark bits,
    \<open>reclaim.c\<close>, \<open>finalize.c\<close>, the debugging headers; and \<open>misc.c\<close>, \<open>alloc.c\<close> and the allocation interfaces,
    which order the phases and wrap the allocator. What the modelled parts ask of them is an argument of
    the definitions (memory from the system, the stack of roots, \<open>GC_should_collect\<close>) or a log (mapping,
    unmapping and protecting blocks).
\<close>

end
